(* ===== verification/Prelude.thy ===== *)
theory Prelude
  imports Main "HOL-Library.AList" "HOL-Library.Multiset"
begin

text \<open>
  What every component of the tower shares: the errors the code throws, as values of a sum type;
  the few operations of the JavaScript standard library the components use (\<open>toLowerCase\<close>,
  \<open>findIndex\<close>, the insertion-ordered \<open>Map\<close>); the contract of an object whose methods either
  throw or produce the next state; and the collections of facts the component proofs rewrite with.

  JavaScript strings are modelled as HOL strings, so \<open>toLowerCase\<close> is the ASCII one: addresses
  and hex strings are the only strings the code compares up to case.  JavaScript numbers that hold
  block heights, nonces and counts are modelled as \<open>int\<close>.
\<close>

section \<open>Errors as values\<close>

text \<open>\<open>GasQueueErrorKind\<close> of gasQueue.ts and the error classes of errors.ts; the constant part
  of the message is kept so that the branches of the code stay distinguishable.  \<open>JsTypeError\<close> is
  the exception the language raises when a property of \<open>null\<close> or \<open>undefined\<close> is read, and
  \<open>JsError\<close> an \<open>Error\<close> of a library (the database, the provider, the wallet).\<close>

datatype GasQueueErrorKind = AlreadyAdded

datatype app_error =
    ApplicationError string
  | UnreachableCaseError string
  | ConfigurationError string
  | TimeoutError string
  | BlockFetchingError string
  | PublicDataValidationError string
  | PublicInspectionError string
  | ArgumentError string
  | GasQueueError GasQueueErrorKind string
  | QueueConsistencyError string
  | JsTypeError string
  | JsError string

type_synonym 'a result = "app_error + 'a"

text \<open>\<open>error.name\<close> as the constructors of errors.ts set it.  \<open>GasQueueError\<close> calls the
  constructor of \<open>ArgumentError\<close>, which sets the name \<open>ArgumentError\<close>.\<close>

fun error_name :: "app_error \<Rightarrow> string" where
  "error_name (ApplicationError m) = ''ApplicationError''"
| "error_name (UnreachableCaseError m) = ''UnreachableCaseError''"
| "error_name (ConfigurationError m) = ''ConfigurationError''"
| "error_name (TimeoutError m) = ''TimeoutError''"
| "error_name (BlockFetchingError m) = ''BlockFetchingError''"
| "error_name (PublicDataValidationError m) = ''PublicDataValidationError''"
| "error_name (PublicInspectionError m) = ''PublicInspectionError''"
| "error_name (ArgumentError m) = ''ArgumentError''"
| "error_name (GasQueueError k m) = ''ArgumentError''"
| "error_name (QueueConsistencyError m) = ''QueueConsistencyError''"
| "error_name (JsTypeError m) = ''TypeError''"
| "error_name (JsError m) = ''Error''"

section \<open>Sequencing computations that may throw\<close>

named_theorems result_simps \<open>inversion of a computation that returned normally\<close>

fun bind_result :: "'a result \<Rightarrow> ('a \<Rightarrow> 'b result) \<Rightarrow> 'b result" where
  "bind_result (Inl e) f = Inl e"
| "bind_result (Inr a) f = f a"

lemma bind_result_Inr_iff [result_simps]:
  "bind_result m f = Inr y \<longleftrightarrow> (\<exists>x. m = Inr x \<and> f x = Inr y)"
  by (cases m) auto

lemma bind_result_assoc:
  "bind_result (bind_result m f) g = bind_result m (\<lambda>x. bind_result (f x) g)"
  by (cases m) auto

lemma if_Inl_eq_Inr [result_simps]:
  "(if c then Inl e else m) = Inr y \<longleftrightarrow> \<not> c \<and> m = Inr y"
  by auto

text \<open>\<open>Array.prototype.map\<close> with a callback that may throw.\<close>

fun map_result :: "('a \<Rightarrow> 'b result) \<Rightarrow> 'a list \<Rightarrow> 'b list result" where
  "map_result f [] = Inr []"
| "map_result f (x # xs) = bind_result (f x) (\<lambda>y. bind_result (map_result f xs) (\<lambda>ys. Inr (y # ys)))"

lemma map_result_Inr: "(\<And>x. x \<in> set xs \<Longrightarrow> f (g x) = Inr x) \<Longrightarrow> map_result f (map g xs) = Inr xs"
  by (induction xs) auto

lemma map_result_eq_map: "(\<And>x. x \<in> set xs \<Longrightarrow> f x = Inr (h x)) \<Longrightarrow> map_result f xs = Inr (map h xs)"
  by (induction xs) auto

text \<open>The first error of a list of checks, each of which throws or not: a loop whose body throws.\<close>

fun first_error :: "app_error option list \<Rightarrow> app_error option" where
  "first_error [] = None"
| "first_error (None # es) = first_error es"
| "first_error (Some e # es) = Some e"

lemma first_error_None [simp]: "first_error es = None \<longleftrightarrow> set es \<subseteq> {None}"
  by (induction es rule: first_error.induct) auto

lemma first_error_in: "first_error es = Some e \<Longrightarrow> Some e \<in> set es"
  by (induction es rule: first_error.induct) auto

section \<open>Strings\<close>

definition lower_char :: "char \<Rightarrow> char" where
  "lower_char c = (let n = of_char c :: nat in if 65 \<le> n \<and> n \<le> 90 then char_of (n + 32) else c)"

definition toLowerCase :: "string \<Rightarrow> string" where
  "toLowerCase s = map lower_char s"

section \<open>Arrays\<close>

text \<open>\<open>Array.prototype.findIndex\<close>: the first index whose element satisfies the predicate, or -1.\<close>

fun findIndex :: "('a \<Rightarrow> bool) \<Rightarrow> 'a list \<Rightarrow> int" where
  "findIndex P [] = -1"
| "findIndex P (x # xs) =
     (if P x then 0 else (let i = findIndex P xs in if i = -1 then -1 else i + 1))"

lemma findIndex_ge: "-1 \<le> findIndex P xs"
  by (induction xs) (auto simp: Let_def)

lemma findIndex_less: "findIndex P xs < int (length xs)"
  by (induction xs) (auto simp: Let_def)

lemma findIndex_none [simp]: "findIndex P xs = -1 \<longleftrightarrow> (\<forall>x\<in>set xs. \<not> P x)"
proof (induction xs)
  case (Cons x xs)
  then show ?case using findIndex_ge [of P xs] by (auto simp: Let_def)
qed simp

lemma findIndex_eq_length_takeWhile:
  "findIndex P xs = (if \<exists>x\<in>set xs. P x then int (length (takeWhile (\<lambda>x. \<not> P x) xs)) else -1)"
proof (induction xs)
  case (Cons x xs)
  then show ?case using findIndex_none [of P xs] by (auto simp: Let_def)
qed simp

lemma findIndex_some:
  assumes "findIndex P xs \<noteq> -1"
  obtains k where "findIndex P xs = int k" "k < length xs" "P (xs ! k)"
    "\<And>j. j < k \<Longrightarrow> \<not> P (xs ! j)" "k = length (takeWhile (\<lambda>x. \<not> P x) xs)"
proof -
  let ?k = "length (takeWhile (\<lambda>x. \<not> P x) xs)"
  from assms have ex: "\<exists>x\<in>set xs. P x" by simp
  then have k: "?k < length xs"
    by (metis length_takeWhile_le le_neq_implies_less takeWhile_eq_all_conv takeWhile_eq_take take_all_iff linorder_le_less_linear)
  have "P (xs ! ?k)" using nth_length_takeWhile [OF k] by simp
  moreover have "\<not> P (xs ! j)" if "j < ?k" for j
    using that by (metis nth_mem set_takeWhileD takeWhile_nth)
  moreover have "findIndex P xs = int ?k"
    using ex by (simp add: findIndex_eq_length_takeWhile)
  ultimately show thesis using that k by blast
qed

section \<open>Insertion-ordered maps\<close>

text \<open>A JavaScript \<open>Map\<close> iterates in insertion order, \<open>set\<close> on a present key keeps its
  place and \<open>delete\<close> removes the entry: association lists with \<^const>\<open>AList.update\<close> and
  \<^const>\<open>AList.delete\<close>, read by \<^const>\<open>map_of\<close>.\<close>

type_synonym 'v js_map = "(string \<times> 'v) list"

definition js_wf :: "('k \<times> 'v) list \<Rightarrow> bool" where
  "js_wf m \<longleftrightarrow> distinct (map fst m)"

lemma js_wf_empty [simp]: "js_wf []"
  by (simp add: js_wf_def)

lemma js_wf_update [simp, intro]: "js_wf m \<Longrightarrow> js_wf (AList.update k v m)"
  by (simp add: js_wf_def distinct_update)

lemma js_wf_delete [simp, intro]: "js_wf m \<Longrightarrow> js_wf (AList.delete k m)"
  by (simp add: js_wf_def distinct_delete)

lemma js_get_set [simp]: "map_of (AList.update k v m) = (map_of m)(k \<mapsto> v)"
  by (simp add: update_conv')

lemma js_get_delete [simp]: "map_of (AList.delete k m) = (map_of m)(k := None)"
  by (simp add: delete_conv')

section \<open>Objects whose methods throw or move to the next state\<close>

text \<open>A method call either throws, and the object keeps its state, or returns the next state.
  \<open>run_ops\<close> is a client that makes a sequence of calls and survives their exceptions.\<close>

fun run_ops :: "('s \<Rightarrow> 'o \<Rightarrow> 'e + 's) \<Rightarrow> 's \<Rightarrow> 'o list \<Rightarrow> 's" where
  "run_ops step s [] = s"
| "run_ops step s (x # xs) = run_ops step (case step s x of Inl e \<Rightarrow> s | Inr s' \<Rightarrow> s') xs"

lemma run_ops_append: "run_ops step s (xs @ ys) = run_ops step (run_ops step s xs) ys"
  by (induction xs arbitrary: s) auto

text \<open>\<open>call_ok\<close> is what the client promises about a call in a state, \<open>inv\<close> what the object
  promises about its state; \<open>calls_ok\<close> says that the client keeps its promise along a run.\<close>

fun calls_ok :: "('s \<Rightarrow> 'o \<Rightarrow> 'e + 's) \<Rightarrow> ('s \<Rightarrow> 'o \<Rightarrow> bool) \<Rightarrow> 's \<Rightarrow> 'o list \<Rightarrow> bool" where
  "calls_ok step call_ok s [] \<longleftrightarrow> True"
| "calls_ok step call_ok s (x # xs) \<longleftrightarrow>
     call_ok s x \<and> calls_ok step call_ok (case step s x of Inl e \<Rightarrow> s | Inr s' \<Rightarrow> s') xs"

lemma calls_ok_append:
  "calls_ok step call_ok s (xs @ ys) \<longleftrightarrow>
     calls_ok step call_ok s xs \<and> calls_ok step call_ok (run_ops step s xs) ys"
  by (induction xs arbitrary: s) auto

lemma calls_ok_const [simp]: "calls_ok step (\<lambda>_. P) s xs \<longleftrightarrow> (\<forall>x\<in>set xs. P x)"
  by (induction xs arbitrary: s) auto

lemma calls_ok_mono:
  "calls_ok step P s xs \<Longrightarrow> (\<And>s x. P s x \<Longrightarrow> Q s x) \<Longrightarrow> calls_ok step Q s xs"
  by (induction xs arbitrary: s) auto

locale object_contract =
  fixes step :: "'s \<Rightarrow> 'o \<Rightarrow> 'e + 's"
    and inv :: "'s \<Rightarrow> bool"
    and call_ok :: "'s \<Rightarrow> 'o \<Rightarrow> bool"
  assumes step_inv: "inv s \<Longrightarrow> call_ok s x \<Longrightarrow> step s x = Inr s' \<Longrightarrow> inv s'"
begin

lemma run_inv: "inv s \<Longrightarrow> calls_ok step call_ok s xs \<Longrightarrow> inv (run_ops step s xs)"
proof (induction xs arbitrary: s)
  case (Cons x xs)
  then show ?case by (cases "step s x") (auto intro: step_inv)
qed simp

end

text \<open>The same object with a relation every step keeps between the states before and after.\<close>

locale monotone_object = object_contract step inv call_ok
  for step :: "'s \<Rightarrow> 'o \<Rightarrow> 'e + 's" and inv :: "'s \<Rightarrow> bool" and call_ok :: "'s \<Rightarrow> 'o \<Rightarrow> bool" +
  fixes rel :: "'s \<Rightarrow> 's \<Rightarrow> bool"
  assumes rel_refl: "inv s \<Longrightarrow> rel s s"
    and rel_trans: "inv s \<Longrightarrow> inv t \<Longrightarrow> rel s t \<Longrightarrow> rel t u \<Longrightarrow> rel s u"
    and step_rel: "inv s \<Longrightarrow> call_ok s x \<Longrightarrow> step s x = Inr s' \<Longrightarrow> rel s s'"
begin

lemma run_rel: "inv s \<Longrightarrow> calls_ok step call_ok s xs \<Longrightarrow> rel s (run_ops step s xs)"
proof (induction xs arbitrary: s)
  case (Cons x xs)
  show ?case
  proof (cases "step s x")
    case (Inl e)
    with Cons show ?thesis by simp
  next
    case (Inr s')
    then have "inv s'" and "rel s s'"
      using Cons.prems step_inv step_rel by auto
    with Inr Cons show ?thesis by (auto intro: rel_trans)
  qed
qed (simp add: rel_refl)

lemma run_rel_later:
  assumes "inv s" "calls_ok step call_ok s (xs @ ys)"
  shows "rel (run_ops step s xs) (run_ops step s (xs @ ys))"
  unfolding run_ops_append using assms by (auto simp: calls_ok_append intro: run_rel run_inv)

end

section \<open>Systems that step on their own\<close>

text \<open>An invariant of a step relation holds in every state that is reached.\<close>

locale step_invariant =
  fixes step :: "'s \<Rightarrow> 's \<Rightarrow> bool"
    and inv :: "'s \<Rightarrow> bool"
  assumes inv_step: "inv s \<Longrightarrow> step s t \<Longrightarrow> inv t"
begin

lemma reach_inv: "step\<^sup>*\<^sup>* s t \<Longrightarrow> inv s \<Longrightarrow> inv t"
  by (induction rule: rtranclp_induct) (auto intro: inv_step)

end

end
