(* ===== verification/BlockItemStore.thy ===== *)
theory BlockItemStore
  imports Prelude
begin

text \<open>
  Blocks and the store of everything kept per block (src/src/dataEntities/block.ts): the blocks
  themselves, whether they are attached, and the anchor states of the components.  All writes happen
  inside \<open>withBatch\<close>: they change the memory at once and the database in one batch at the end.

  Items are filed in memory under \<open>hash:itemKey\<close> and listed by height; in the database the height is
  part of the key.  A height is \<open>None\<close> where the code has \<open>NaN\<close>.  An operation takes the state and
  returns its result, or what it throws, with the state it leaves: a write outside a batch changes the
  memory before it throws.
\<close>

section \<open>Operations with a state and a result\<close>

type_synonym ('s, 'a) eff = "'s \<Rightarrow> 'a result \<times> 's"

definition return_eff :: "'a \<Rightarrow> ('s, 'a) eff" where
  "return_eff x = (\<lambda>s. (Inr x, s))"

definition throw_eff :: "app_error \<Rightarrow> ('s, 'a) eff" where
  "throw_eff e = (\<lambda>s. (Inl e, s))"

definition bind_eff :: "('s, 'a) eff \<Rightarrow> ('a \<Rightarrow> ('s, 'b) eff) \<Rightarrow> ('s, 'b) eff" where
  "bind_eff m f = (\<lambda>s. case m s of (Inl e, s') \<Rightarrow> (Inl e, s') | (Inr x, s') \<Rightarrow> f x s')"

definition then_eff :: "('s, 'a) eff \<Rightarrow> ('s, 'b) eff \<Rightarrow> ('s, 'b) eff" where
  "then_eff m n = bind_eff m (\<lambda>_. n)"

text \<open>A loop over an array whose body may throw.\<close>

fun for_each :: "('a \<Rightarrow> ('s, unit) eff) \<Rightarrow> 'a list \<Rightarrow> ('s, unit) eff" where
  "for_each f [] = return_eff ()"
| "for_each f (x # xs) = then_eff (f x) (for_each f xs)"

lemma bind_eff_simps [simp]:
  "m s = (Inr x, s') \<Longrightarrow> bind_eff m f s = f x s'"
  "m s = (Inl e, s') \<Longrightarrow> bind_eff m f s = (Inl e, s')"
  by (simp_all add: bind_eff_def)

lemma then_eff_simps [simp]:
  "m s = (Inr x, s') \<Longrightarrow> then_eff m n s = n s'"
  "m s = (Inl e, s') \<Longrightarrow> then_eff m n s = (Inl e, s')"
  by (simp_all add: then_eff_def)

lemma return_eff_apply [simp]: "return_eff x s = (Inr x, s)"
  by (simp add: return_eff_def)

lemma throw_eff_apply [simp]: "throw_eff e s = (Inl e, s)"
  by (simp add: throw_eff_def)

section \<open>Numbers as strings\<close>

text \<open>The decimal form of a number in a template string, and \<open>Number.parseInt\<close>.\<close>

definition digit :: "nat \<Rightarrow> char" where
  "digit d = char_of (48 + d)"

fun nat_string :: "nat \<Rightarrow> string" where
  "nat_string n = (if n < 10 then [digit n] else nat_string (n div 10) @ [digit (n mod 10)])"

declare nat_string.simps [simp del]

definition number_string :: "int \<Rightarrow> string" where
  "number_string x = (if x < 0 then CHR ''-'' # nat_string (nat (- x)) else nat_string (nat x))"

definition is_digit :: "char \<Rightarrow> bool" where
  "is_digit c \<longleftrightarrow> (let n = of_char c :: nat in 48 \<le> n \<and> n \<le> 57)"

definition digits_value :: "string \<Rightarrow> nat" where
  "digits_value s = foldl (\<lambda>a c. 10 * a + (of_char c - 48)) 0 s"

definition parse_digits :: "string \<Rightarrow> int option" where
  "parse_digits s =
     (let ds = takeWhile is_digit s in if ds = [] then None else Some (int (digits_value ds)))"

definition parseInt :: "string \<Rightarrow> int option" where
  "parseInt s =
     (case s of
        c # cs \<Rightarrow> if c = CHR ''-'' then map_option uminus (parse_digits cs)
                  else if c = CHR ''+'' then parse_digits cs else parse_digits s
      | [] \<Rightarrow> None)"

lemma of_char_digit: "d < 10 \<Longrightarrow> of_char (digit d) = 48 + d"
  by (simp add: digit_def)

lemma is_digit_digit: "d < 10 \<Longrightarrow> is_digit (digit d)"
  by (simp add: is_digit_def of_char_digit Let_def)

lemma nat_string_digits: "nat_string n \<noteq> [] \<and> (\<forall>c\<in>set (nat_string n). is_digit c)"
proof (induction n rule: nat_string.induct)
  case (1 n)
  then show ?case by (subst (1 2) nat_string.simps) (auto simp: is_digit_digit)
qed

lemma digits_value_nat_string: "digits_value (nat_string n) = n"
proof (induction n rule: nat_string.induct)
  case (1 n)
  show ?case
  proof (cases "n < 10")
    case True
    then show ?thesis by (subst nat_string.simps) (simp add: digits_value_def of_char_digit)
  next
    case False
    with 1 show ?thesis
      by (subst nat_string.simps) (simp add: digits_value_def of_char_digit)
  qed
qed

lemma parse_digits_nat_string: "parse_digits (nat_string n) = Some (int n)"
proof -
  have t: "takeWhile is_digit (nat_string n) = nat_string n"
    using nat_string_digits [of n] by (simp add: takeWhile_eq_all_conv)
  with nat_string_digits [of n] show ?thesis
    by (simp add: parse_digits_def digits_value_nat_string Let_def t)
qed

lemma not_digits [simp]: "\<not> is_digit CHR ''-''" "\<not> is_digit CHR ''+''" "\<not> is_digit CHR '':''"
  by (simp_all add: is_digit_def Let_def)

lemma parseInt_number_string: "parseInt (number_string x) = Some x"
proof (cases "x < 0")
  case True
  then show ?thesis by (simp add: parseInt_def number_string_def parse_digits_nat_string)
next
  case False
  obtain c cs where s: "nat_string (nat x) = c # cs"
    using nat_string_digits [of "nat x"] by (cases "nat_string (nat x)") auto
  with nat_string_digits [of "nat x"] have "is_digit c" by simp
  then have "c \<noteq> CHR ''-''" "c \<noteq> CHR ''+''" by auto
  with False s parse_digits_nat_string [of "nat x"] show ?thesis
    by (simp add: parseInt_def number_string_def)
qed

lemma no_colon_number_string: "CHR '':'' \<notin> set (number_string x)"
  using nat_string_digits [of "nat x"] nat_string_digits [of "nat (- x)"]
  by (auto simp: number_string_def)

section \<open>Blocks\<close>

record IBlockStub =
  block_hash :: string
  number :: int
  parentHash :: string

text \<open>What is filed under a key: a block, whether it is attached, or the anchor state of a
  component.\<close>

datatype ('b, 's) item =
    BlockItem 'b
  | AttachedItem bool
  | StateItem 's

datatype 'v db_op = DbPut string 'v | DbDel string

fun apply_db_op :: "'v db_op \<Rightarrow> 'v js_map \<Rightarrow> 'v js_map" where
  "apply_db_op (DbPut k v) db = AList.update k v db"
| "apply_db_op (DbDel k) db = AList.delete k db"

record ('b, 's) BlockItemStore =
  itemsByHeight :: "(int option \<times> string list) list"
  items :: "('b, 's) item js_map"
  mBatch :: "('b, 's) item db_op list option"
  blockDb :: "('b, 's) item js_map"

definition KEY_BLOCK :: string where
  "KEY_BLOCK = ''block''"

definition KEY_ATTACHED :: string where
  "KEY_ATTACHED = ''attached''"

definition KEY_STATE :: string where
  "KEY_STATE = ''state''"

definition KEY_PREV_EMITTED_STATE :: string where
  "KEY_PREV_EMITTED_STATE = ''prevEmittedState''"

definition new_BlockItemStore :: "('b, 's) item js_map \<Rightarrow> ('b, 's) BlockItemStore" where
  "new_BlockItemStore db = \<lparr>itemsByHeight = [], items = [], mBatch = None, blockDb = db\<rparr>"

text \<open>The key of an item in memory and in the database.\<close>

definition memKey :: "string \<Rightarrow> string \<Rightarrow> string" where
  "memKey blockHash itemKey = blockHash @ '':'' @ itemKey"

definition dbKey :: "int \<Rightarrow> string \<Rightarrow> string" where
  "dbKey blockHeight key = number_string blockHeight @ '':'' @ key"

text \<open>\<open>Set.add\<close> on the keys of a height.\<close>

definition set_add :: "string \<Rightarrow> string list \<Rightarrow> string list" where
  "set_add k l = (if k \<in> set l then l else l @ [k])"

definition add_key ::
  "int option \<Rightarrow> string \<Rightarrow> (int option \<times> string list) list \<Rightarrow> (int option \<times> string list) list" where
  "add_key h key m =
     (case map_of m h of
        Some itemsAtHeight \<Rightarrow> AList.update h (set_add key itemsAtHeight) m
      | None \<Rightarrow> AList.update h [key] m)"

section \<open>Operations\<close>

text \<open>Queue a write in the open batch, or throw.\<close>

definition batch_write :: "('b, 's) item db_op \<Rightarrow> (('b, 's) BlockItemStore, unit) eff" where
  "batch_write w s =
     (case mBatch s of
        None \<Rightarrow> (Inl (ApplicationError ''Write accesses must be executed within a withBatch callback.''), s)
      | Some ws \<Rightarrow> (Inr (), s\<lparr>mBatch := Some (ws @ [w])\<rparr>))"

definition putBlockItem ::
  "int \<Rightarrow> string \<Rightarrow> string \<Rightarrow> ('b, 's) item \<Rightarrow> (('b, 's) BlockItemStore, unit) eff" where
  "putBlockItem blockHeight blockHash itemKey it s =
     batch_write (DbPut (dbKey blockHeight (memKey blockHash itemKey)) it)
       (s\<lparr>itemsByHeight := add_key (Some blockHeight) (memKey blockHash itemKey) (itemsByHeight s),
          items := AList.update (memKey blockHash itemKey) it (items s)\<rparr>)"

definition getItem :: "('b, 's) BlockItemStore \<Rightarrow> string \<Rightarrow> string \<Rightarrow> ('b, 's) item option" where
  "getItem s blockHash itemKey = map_of (items s) (memKey blockHash itemKey)"

definition block_get :: "('b, 's) BlockItemStore \<Rightarrow> string \<Rightarrow> 'b option" where
  "block_get s blockHash =
     (case getItem s blockHash KEY_BLOCK of Some (BlockItem b) \<Rightarrow> Some b | _ \<Rightarrow> None)"

definition block_set :: "int \<Rightarrow> string \<Rightarrow> 'b \<Rightarrow> (('b, 's) BlockItemStore, unit) eff" where
  "block_set blockHeight blockHash block = putBlockItem blockHeight blockHash KEY_BLOCK (BlockItem block)"

definition attached_get :: "('b, 's) BlockItemStore \<Rightarrow> string \<Rightarrow> bool option" where
  "attached_get s blockHash =
     (case getItem s blockHash KEY_ATTACHED of Some (AttachedItem a) \<Rightarrow> Some a | _ \<Rightarrow> None)"

definition attached_set :: "int \<Rightarrow> string \<Rightarrow> bool \<Rightarrow> (('b, 's) BlockItemStore, unit) eff" where
  "attached_set blockHeight blockHash attached =
     putBlockItem blockHeight blockHash KEY_ATTACHED (AttachedItem attached)"

definition anchorState_get :: "('b, 's) BlockItemStore \<Rightarrow> string \<Rightarrow> string \<Rightarrow> 's option" where
  "anchorState_get s componentName blockHash =
     (case getItem s blockHash (componentName @ '':'' @ KEY_STATE) of Some (StateItem x) \<Rightarrow> Some x | _ \<Rightarrow> None)"

definition anchorState_set ::
  "string \<Rightarrow> int \<Rightarrow> string \<Rightarrow> 's \<Rightarrow> (('b, 's) BlockItemStore, unit) eff" where
  "anchorState_set componentName blockHeight blockHash newState =
     putBlockItem blockHeight blockHash (componentName @ '':'' @ KEY_STATE) (StateItem newState)"

definition prevEmittedAnchorState_get :: "('b, 's) BlockItemStore \<Rightarrow> string \<Rightarrow> string \<Rightarrow> 's option" where
  "prevEmittedAnchorState_get s componentName blockHash =
     (case getItem s blockHash (componentName @ '':'' @ KEY_PREV_EMITTED_STATE) of
        Some (StateItem x) \<Rightarrow> Some x | _ \<Rightarrow> None)"

definition prevEmittedAnchorState_set ::
  "string \<Rightarrow> int \<Rightarrow> string \<Rightarrow> 's \<Rightarrow> (('b, 's) BlockItemStore, unit) eff" where
  "prevEmittedAnchorState_set componentName blockHeight blockHash newState =
     putBlockItem blockHeight blockHash (componentName @ '':'' @ KEY_PREV_EMITTED_STATE) (StateItem newState)"

text \<open>The blocks of a height are found by the suffix of their keys.\<close>

definition endsWith :: "string \<Rightarrow> string \<Rightarrow> bool" where
  "endsWith s suffix \<longleftrightarrow> length suffix \<le> length s \<and> drop (length s - length suffix) s = suffix"

definition keys_at :: "('b, 's) BlockItemStore \<Rightarrow> int option \<Rightarrow> string list" where
  "keys_at s height = (case map_of (itemsByHeight s) height of None \<Rightarrow> [] | Some ks \<Rightarrow> ks)"

definition getBlocksAtHeight ::
  "('b, 's) BlockItemStore \<Rightarrow> int option \<Rightarrow> ('b option \<times> bool option) list" where
  "getBlocksAtHeight s height =
     (let blockItemSuffix = '':'' @ KEY_BLOCK in
      map (\<lambda>key. let blockHash = take (length key - length blockItemSuffix) key in
                  (block_get s blockHash, attached_get s blockHash))
        (filter (\<lambda>key. endsWith key blockItemSuffix) (keys_at s height)))"

definition deleteItemsAtHeight :: "int \<Rightarrow> (('b, 's) BlockItemStore, unit) eff" where
  "deleteItemsAtHeight height s =
     (case map_of (itemsByHeight s) (Some height) of
        None \<Rightarrow> (Inr (), s)
      | Some itemsAtHeight \<Rightarrow>
          for_each (\<lambda>key. then_eff (batch_write (DbDel (dbKey height key)))
                            (\<lambda>s. (Inr (), s\<lparr>items := AList.delete key (items s)\<rparr>)))
            itemsAtHeight (s\<lparr>itemsByHeight := AList.delete (Some height) (itemsByHeight s)\<rparr>))"

text \<open>\<open>withBatch\<close>, for a callback and the outcome of the final write.\<close>

definition withBatch ::
  "bool \<Rightarrow> (('b, 's) BlockItemStore, unit) eff \<Rightarrow> (('b, 's) BlockItemStore, unit) eff" where
  "withBatch db_ok callback s =
     (if mBatch s \<noteq> None then (Inl (ApplicationError ''There is already an open batch.''), s)
      else case callback (s\<lparr>mBatch := Some []\<rparr>) of
        (Inl e, s') \<Rightarrow> (Inl e, s'\<lparr>mBatch := None\<rparr>)
      | (Inr u, s') \<Rightarrow>
          if \<not> db_ok then (Inl (JsError ''batch write''), s'\<lparr>mBatch := None\<rparr>)
          else (Inr u, s'\<lparr>mBatch := None,
                 blockDb := fold apply_db_op (case mBatch s' of None \<Rightarrow> [] | Some ws \<Rightarrow> ws) (blockDb s')\<rparr>))"

text \<open>The values are encoded as JSON in the database, and \<open>reread\<close> is what decoding gives back of an item: an
  object without its methods and getters, and without the entries of a \<open>Map\<close>.

  One record of the read stream: \<open>indexOf\<close> is -1 when there is no colon, and then the height is the
  empty string and the key the whole key.\<close>

definition load_record ::
  "(('b, 's) item \<Rightarrow> ('b, 's) item) \<Rightarrow> string \<times> ('b, 's) item \<Rightarrow> ('b, 's) BlockItemStore \<Rightarrow> ('b, 's) BlockItemStore" where
  "load_record reread rec s =
     (case rec of (key, value) \<Rightarrow>
        let height = parseInt (if CHR '':'' \<in> set key then takeWhile (\<lambda>c. c \<noteq> CHR '':'') key else []);
            key' = (if CHR '':'' \<in> set key then tl (dropWhile (\<lambda>c. c \<noteq> CHR '':'') key) else key)
        in s\<lparr>itemsByHeight := add_key height key' (itemsByHeight s),
             items := AList.update key' (reread value) (items s)\<rparr>)"

definition startInternal_items ::
  "(('b, 's) item \<Rightarrow> ('b, 's) item) \<Rightarrow> ('b, 's) item js_map \<Rightarrow> ('b, 's) BlockItemStore \<Rightarrow> ('b, 's) BlockItemStore" where
  "startInternal_items reread stream s = fold (load_record reread) stream s"

section \<open>The contract of the store\<close>

text \<open>A block hash determines the block's height: \<open>N\<close> gives it.  Hashes have no colon, so the hash of a
  key is what stands before the first one.\<close>

definition colon_free :: "string \<Rightarrow> bool" where
  "colon_free h \<longleftrightarrow> CHR '':'' \<notin> set h"

definition key_hash :: "string \<Rightarrow> string" where
  "key_hash k = takeWhile (\<lambda>c. c \<noteq> CHR '':'') k"

lemma takeWhile_colon: "colon_free h \<Longrightarrow> takeWhile (\<lambda>c. c \<noteq> CHR '':'') (h @ CHR '':'' # k) = h"
  by (induction h) (auto simp: colon_free_def)

lemma dropWhile_colon: "colon_free h \<Longrightarrow> dropWhile (\<lambda>c. c \<noteq> CHR '':'') (h @ CHR '':'' # k) = CHR '':'' # k"
  by (induction h) (auto simp: colon_free_def)

lemma key_hash_memKey [simp]: "colon_free h \<Longrightarrow> key_hash (memKey h ik) = h"
  by (simp add: key_hash_def memKey_def takeWhile_colon)

lemma memKey_inject: "colon_free h \<Longrightarrow> colon_free h' \<Longrightarrow> memKey h a = memKey h' b \<longleftrightarrow> h = h' \<and> a = b"
  by (metis append_same_eq key_hash_memKey memKey_def same_append_eq)

definition store_inv :: "(string \<Rightarrow> int) \<Rightarrow> ('b, 's) BlockItemStore \<Rightarrow> bool" where
  "store_inv N s \<longleftrightarrow>
     (\<forall>h k. k \<in> set (keys_at s h) \<longleftrightarrow> map_of (items s) k \<noteq> None \<and> h = Some (N (key_hash k))) \<and>
     (\<forall>h. distinct (keys_at s h))"

definition batch_open :: "('b, 's) BlockItemStore \<Rightarrow> bool" where
  "batch_open s \<longleftrightarrow> mBatch s \<noteq> None"

text \<open>What the database will hold when the open batch is written, and that this is what is in memory.\<close>

definition pending_db :: "('b, 's) BlockItemStore \<Rightarrow> ('b, 's) item js_map" where
  "pending_db s = fold apply_db_op (case mBatch s of None \<Rightarrow> [] | Some ws \<Rightarrow> ws) (blockDb s)"

definition undb :: "string \<Rightarrow> string" where
  "undb key = tl (dropWhile (\<lambda>c. c \<noteq> CHR '':'') key)"

definition db_of :: "(string \<Rightarrow> int) \<Rightarrow> (string \<rightharpoonup> ('b, 's) item) \<Rightarrow> string \<rightharpoonup> ('b, 's) item" where
  "db_of N m key = (if key = dbKey (N (key_hash (undb key))) (undb key) then m (undb key) else None)"

definition items_synced :: "(string \<Rightarrow> int) \<Rightarrow> ('b, 's) BlockItemStore \<Rightarrow> bool" where
  "items_synced N s \<longleftrightarrow> map_of (pending_db s) = db_of N (map_of (items s))"

lemma colon_free_number_string [simp]: "colon_free (number_string x)"
  by (simp add: colon_free_def no_colon_number_string)

lemma undb_dbKey [simp]: "undb (dbKey n k) = k"
  by (simp add: undb_def dbKey_def dropWhile_colon)

lemma keys_at_add_key:
  "keys_at (s\<lparr>itemsByHeight := add_key h k (itemsByHeight s)\<rparr>) h' =
     (if h' = h then set_add k (keys_at s h) else keys_at s h')"
  by (auto simp: keys_at_def add_key_def set_add_def split: option.splits)

lemma set_set_add [simp]: "set (set_add k l) = insert k (set l)"
  by (auto simp: set_add_def)

lemma distinct_set_add [simp]: "distinct (set_add k l) \<longleftrightarrow> distinct l"
  by (auto simp: set_add_def)

lemma keys_at_more [simp]: "keys_at (s\<lparr>items := x\<rparr>) = keys_at s" "keys_at (s\<lparr>mBatch := y\<rparr>) = keys_at s"
  "keys_at (s\<lparr>blockDb := z\<rparr>) = keys_at s"
  by (auto simp: keys_at_def fun_eq_iff)

lemma putBlockItem_open:
  assumes inv: "store_inv N s" and b: "batch_open s" and h: "N (key_hash (memKey h ik)) = n"
  obtains s' where "putBlockItem n h ik it s = (Inr (), s')" "store_inv N s'" "batch_open s'"
    "map_of (items s') = (map_of (items s))(memKey h ik \<mapsto> it)"
    "items_synced N s \<longrightarrow> items_synced N s'" "blockDb s' = blockDb s"
proof -
  obtain ws where ws: "mBatch s = Some ws" using b by (auto simp: batch_open_def)
  let ?s = "s\<lparr>itemsByHeight := add_key (Some n) (memKey h ik) (itemsByHeight s),
    items := AList.update (memKey h ik) it (items s), mBatch := Some (ws @ [DbPut (dbKey n (memKey h ik)) it])\<rparr>"
  have "putBlockItem n h ik it s = (Inr (), ?s)"
    by (simp add: putBlockItem_def batch_write_def ws)
  moreover have "store_inv N ?s"
    using inv h by (auto simp: store_inv_def keys_at_add_key)
  moreover have "items_synced N ?s" if "items_synced N s"
    using that h by (auto simp: items_synced_def pending_db_def ws db_of_def fun_eq_iff)
  ultimately show thesis by (intro that [of ?s]) (auto simp: batch_open_def)
qed

lemma deleteItems_loop:
  assumes "mBatch s = Some ws"
  shows "for_each (\<lambda>key. then_eff (batch_write (DbDel (dbKey n key))) (\<lambda>s. (Inr (), s\<lparr>items := AList.delete key (items s)\<rparr>))) ks s =
    (Inr (), s\<lparr>items := fold AList.delete ks (items s), mBatch := Some (ws @ map (\<lambda>k. DbDel (dbKey n k)) ks)\<rparr>)"
  using assms
proof (induction ks arbitrary: s ws)
  case (Cons k ks)
  let ?s = "s\<lparr>mBatch := Some (ws @ [DbDel (dbKey n k)]), items := AList.delete k (items s)\<rparr>"
  have "then_eff (batch_write (DbDel (dbKey n k))) (\<lambda>s. (Inr (), s\<lparr>items := AList.delete k (items s)\<rparr>)) s = (Inr (), ?s)"
    by (simp add: then_eff_def bind_eff_def batch_write_def Cons.prems)
  with Cons.IH [of ?s "ws @ [DbDel (dbKey n k)]"] show ?case by simp
qed simp

lemma map_of_fold_delete: "map_of (fold AList.delete ks m) k = (if k \<in> set ks then None else map_of m k)"
  by (induction ks arbitrary: m) auto

lemma map_of_fold_dels:
  "map_of (fold apply_db_op (map (\<lambda>k. DbDel (f k)) ks) m) K = (if K \<in> f ` set ks then None else map_of m K)"
  by (induction ks arbitrary: m) auto

lemma deleteItemsAtHeight_open:
  assumes inv: "store_inv N s" and b: "batch_open s"
  obtains s' where "deleteItemsAtHeight n s = (Inr (), s')" "store_inv N s'" "batch_open s'"
    "map_of (items s') = (\<lambda>k. if N (key_hash k) = n then None else map_of (items s) k)"
    "items_synced N s \<longrightarrow> items_synced N s'" "blockDb s' = blockDb s"
proof -
  obtain ws where ws: "mBatch s = Some ws" using b by (auto simp: batch_open_def)
  have at: "k \<in> set (keys_at s (Some n)) \<longleftrightarrow> map_of (items s) k \<noteq> None \<and> N (key_hash k) = n" for k
    using inv by (auto simp: store_inv_def)
  show thesis
  proof (cases "map_of (itemsByHeight s) (Some n)")
    case None
    then have "keys_at s (Some n) = []" by (simp add: keys_at_def)
    with at have "map_of (items s) = (\<lambda>k. if N (key_hash k) = n then None else map_of (items s) k)"
      by (auto simp: fun_eq_iff)
    with None inv b show thesis by (intro that [of s]) (auto simp: deleteItemsAtHeight_def)
  next
    case (Some ks)
    then have ks: "keys_at s (Some n) = ks" by (simp add: keys_at_def)
    let ?s = "s\<lparr>itemsByHeight := AList.delete (Some n) (itemsByHeight s), items := fold AList.delete ks (items s),
      mBatch := Some (ws @ map (\<lambda>k. DbDel (dbKey n k)) ks)\<rparr>"
    have "deleteItemsAtHeight n s = (Inr (), ?s)"
      unfolding deleteItemsAtHeight_def Some by (simp add: deleteItems_loop ws)
    moreover have m: "map_of (items ?s) = (\<lambda>k. if N (key_hash k) = n then None else map_of (items s) k)"
      using at unfolding ks by (auto simp: map_of_fold_delete fun_eq_iff)
    moreover have "keys_at ?s h = (if h = Some n then [] else keys_at s h)" for h
      by (simp add: keys_at_def)
    then have "store_inv N ?s" using inv unfolding store_inv_def m by auto
    moreover have "items_synced N ?s" if "items_synced N s"
    proof -
      have "map_of (pending_db ?s) K = db_of N (map_of (items ?s)) K" for K
      proof -
        have "map_of (pending_db ?s) K = (if K \<in> dbKey n ` set ks then None else db_of N (map_of (items s)) K)"
          using that by (simp add: pending_db_def ws items_synced_def map_of_fold_dels)
        also have "\<dots> = db_of N (map_of (items ?s)) K"
          using at unfolding ks m by (auto simp: db_of_def)
        finally show ?thesis .
      qed
      then show ?thesis unfolding items_synced_def by blast
    qed
    ultimately show thesis by (intro that [of ?s]) (auto simp: batch_open_def)
  qed
qed

section \<open>Recovery\<close>

lemma takeWhile_dbKey: "CHR '':'' \<in> set (dbKey n k)" "takeWhile (\<lambda>c. c \<noteq> CHR '':'') (dbKey n k) = number_string n"
  by (simp_all add: dbKey_def takeWhile_colon)

lemma load_record_dbKey:
  "load_record reread (dbKey n k, v) s =
     s\<lparr>itemsByHeight := add_key (Some n) k (itemsByHeight s), items := AList.update k (reread v) (items s)\<rparr>"
  using undb_dbKey [of n k]
  by (simp add: load_record_def takeWhile_dbKey parseInt_number_string undb_def)

lemma load_records:
  assumes "js_wf stream" and image: "\<And>K v. (K, v) \<in> set stream \<Longrightarrow> K = dbKey (N (key_hash (undb K))) (undb K)"
    and inv: "store_inv N s"
  shows "store_inv N (startInternal_items reread stream s) \<and>
    map_of (items (startInternal_items reread stream s)) =
      (\<lambda>k. case map_of stream (dbKey (N (key_hash k)) k) of None \<Rightarrow> map_of (items s) k | Some v \<Rightarrow> Some (reread v))"
  using assms
proof (induction stream arbitrary: s)
  case (Cons e stream)
  obtain K v where e: "e = (K, v)" by fastforce
  let ?k = "undb K" and ?n = "N (key_hash (undb K))"
  have K: "K = dbKey ?n ?k" using Cons.prems(2) e by auto
  let ?s = "s\<lparr>itemsByHeight := add_key (Some ?n) ?k (itemsByHeight s), items := AList.update ?k (reread v) (items s)\<rparr>"
  have load: "load_record reread e s = ?s" using load_record_dbKey [of reread ?n ?k v s] K e by simp
  have inv: "store_inv N ?s" using Cons.prems(3) by (auto simp: store_inv_def keys_at_add_key)
  have wf: "js_wf stream" "K \<notin> fst ` set stream" using Cons.prems(1) e by (auto simp: js_wf_def)
  have IH: "store_inv N (startInternal_items reread stream ?s) \<and> map_of (items (startInternal_items reread stream ?s)) =
      (\<lambda>k. case map_of stream (dbKey (N (key_hash k)) k) of None \<Rightarrow> map_of (items ?s) k | Some v \<Rightarrow> Some (reread v))"
    by (rule Cons.IH [OF wf(1) _ inv]) (use Cons.prems(2) in auto)
  have "map_of stream K = None" using wf(2) by (simp add: map_of_eq_None_iff)
  then have "(case map_of stream (dbKey (N (key_hash k)) k) of None \<Rightarrow> map_of (items ?s) k | Some v \<Rightarrow> Some (reread v)) =
      (case map_of (e # stream) (dbKey (N (key_hash k)) k) of None \<Rightarrow> map_of (items s) k | Some v \<Rightarrow> Some (reread v))" for k
    using K e undb_dbKey [of "N (key_hash k)" k] by (auto split: option.splits)
  with IH show ?case by (simp add: startInternal_items_def load)
qed (simp add: startInternal_items_def)

lemma store_inv_new: "store_inv N (new_BlockItemStore db)"
  by (simp add: store_inv_def new_BlockItemStore_def keys_at_def)

lemma restart_items:
  assumes "js_wf stream" "map_of stream = db_of N m"
  shows "map_of (items (startInternal_items reread stream (new_BlockItemStore db))) = map_option reread \<circ> m \<and>
    store_inv N (startInternal_items reread stream (new_BlockItemStore db))"
proof -
  have "K = dbKey (N (key_hash (undb K))) (undb K)" if "(K, v) \<in> set stream" for K v
  proof -
    have "map_of stream K = Some v" using that assms(1) by (simp add: js_wf_def)
    then show ?thesis unfolding assms(2) by (auto simp: db_of_def split: if_splits)
  qed
  from load_records [OF assms(1) this store_inv_new] show ?thesis
    by (auto simp: assms(2) db_of_def new_BlockItemStore_def fun_eq_iff split: option.splits)
qed

section \<open>A batch of writes\<close>

datatype ('b, 's) item_write =
    PutItem int string string "('b, 's) item"
  | DeleteHeight int

fun run_write :: "('b, 's) item_write \<Rightarrow> (('b, 's) BlockItemStore, unit) eff" where
  "run_write (PutItem n h ik it) = putBlockItem n h ik it"
| "run_write (DeleteHeight n) = deleteItemsAtHeight n"

fun write_fits :: "(string \<Rightarrow> int) \<Rightarrow> ('b, 's) item_write \<Rightarrow> bool" where
  "write_fits N (PutItem n h ik it) \<longleftrightarrow> colon_free h \<and> N h = n"
| "write_fits N (DeleteHeight n) \<longleftrightarrow> True"

text \<open>What a write does to the items, whatever the representation.\<close>

fun write_items :: "(string \<Rightarrow> int) \<Rightarrow> ('b, 's) item_write \<Rightarrow> (string \<rightharpoonup> ('b, 's) item) \<Rightarrow> string \<rightharpoonup> ('b, 's) item" where
  "write_items N (PutItem n h ik it) m = m(memKey h ik \<mapsto> it)"
| "write_items N (DeleteHeight n) m = (\<lambda>k. if N (key_hash k) = n then None else m k)"

lemma run_write_open:
  assumes "store_inv N s" "batch_open s" "write_fits N w"
  shows "\<exists>s'. run_write w s = (Inr (), s') \<and> store_inv N s' \<and> batch_open s' \<and>
    map_of (items s') = write_items N w (map_of (items s)) \<and>
    (items_synced N s \<longrightarrow> items_synced N s') \<and> blockDb s' = blockDb s"
proof (cases w)
  case (PutItem n h ik it)
  with assms(3) have "N (key_hash (memKey h ik)) = n" by simp
  from assms(1,2) this obtain s' where "putBlockItem n h ik it s = (Inr (), s')" "store_inv N s'" "batch_open s'"
    "map_of (items s') = (map_of (items s))(memKey h ik \<mapsto> it)"
    "items_synced N s \<longrightarrow> items_synced N s'" "blockDb s' = blockDb s"
    by (rule putBlockItem_open [where it = it])
  then show ?thesis unfolding PutItem by (intro exI [of _ s']) simp
next
  case (DeleteHeight n)
  from assms(1,2) obtain s' where "deleteItemsAtHeight n s = (Inr (), s')" "store_inv N s'" "batch_open s'"
    "map_of (items s') = (\<lambda>k. if N (key_hash k) = n then None else map_of (items s) k)"
    "items_synced N s \<longrightarrow> items_synced N s'" "blockDb s' = blockDb s"
    by (rule deleteItemsAtHeight_open)
  then show ?thesis unfolding DeleteHeight by (intro exI [of _ s']) simp
qed

lemma run_writes_open:
  assumes "store_inv N s" "batch_open s" "\<forall>w\<in>set ws. write_fits N w"
  shows "\<exists>s'. for_each run_write ws s = (Inr (), s') \<and> store_inv N s' \<and> batch_open s' \<and>
    map_of (items s') = fold (write_items N) ws (map_of (items s)) \<and>
    (items_synced N s \<longrightarrow> items_synced N s') \<and> blockDb s' = blockDb s"
  using assms
proof (induction ws arbitrary: s)
  case (Cons w ws)
  from run_write_open [OF Cons.prems(1,2), of w] Cons.prems(3) obtain s1 where
    s1: "run_write w s = (Inr (), s1)" "store_inv N s1" "batch_open s1"
      "map_of (items s1) = write_items N w (map_of (items s))"
      "items_synced N s \<longrightarrow> items_synced N s1" "blockDb s1 = blockDb s" by auto
  from Cons.IH [OF s1(2,3)] Cons.prems(3) obtain s2 where
    "for_each run_write ws s1 = (Inr (), s2)" "store_inv N s2" "batch_open s2"
      "map_of (items s2) = fold (write_items N) ws (map_of (items s1))"
      "items_synced N s1 \<longrightarrow> items_synced N s2" "blockDb s2 = blockDb s1" by auto
  with s1 show ?case by auto
qed simp

lemma store_inv_mBatch [simp]: "store_inv N (s\<lparr>mBatch := x\<rparr>) = store_inv N s"
  "store_inv N (s\<lparr>mBatch := x, blockDb := y\<rparr>) = store_inv N s"
  by (simp_all add: store_inv_def keys_at_def)

section \<open>Properties\<close>


text \<open>An anchor state with a \<open>Map\<close>: JSON gives back an object without entries, written \<open>None\<close>.\<close>

definition ex_writes :: "(unit, string js_map option) item_write list" where
  "ex_writes = [PutItem 12 ''aa'' KEY_BLOCK (BlockItem ()), PutItem 12 ''aa'' KEY_STATE (StateItem (Some [(''i'', ''s'')])),
     PutItem 3 ''bb'' KEY_BLOCK (BlockItem ()), DeleteHeight 3]"

definition ex_height :: "string \<Rightarrow> int" where
  "ex_height h = (if h = ''aa'' then 12 else 3)"

definition ex_reread :: "(unit, string js_map option) item \<Rightarrow> (unit, string js_map option) item" where
  "ex_reread it = (case it of StateItem s \<Rightarrow> StateItem None | _ \<Rightarrow> it)"


end
