(* ===== verification/BlockCache.thy ===== *)
theory BlockCache
  imports BlockItemStore
begin

text \<open>
  The block cache (src/src/blockMonitor/blockCache.ts): the blocks of the last \<open>maxDepth\<close> heights,
  attached to the chain or waiting, detached, for their parent; and the queries on the ancestry of a
  block.

  \<open>addBlock\<close> runs inside the lock of the cache, so it is one step.  The event of a new block calls one
  listener, an argument of the operations that emit; what is emitted is also logged in the state.
  \<open>pruneHeight\<close> is undefined before the first block, and \<open>minHeight\<close> then \<open>NaN\<close>: both are \<open>None\<close>.  The
  loops over detached blocks and over ancestors are partial functions: \<open>None\<close> is a loop that does not
  end.
\<close>

section \<open>Programs that may not return\<close>

text \<open>The result of a program is what it returns or throws and the state it leaves, or \<open>None\<close>.\<close>

type_synonym ('s, 'a) prog = "'s \<Rightarrow> ('a result \<times> 's) option"

definition lift_eff :: "('s, 'a) eff \<Rightarrow> ('s, 'a) prog" where
  "lift_eff m s = Some (m s)"

definition return_prog :: "'a \<Rightarrow> ('s, 'a) prog" where
  "return_prog x s = Some (Inr x, s)"

definition throw_prog :: "app_error \<Rightarrow> ('s, 'a) prog" where
  "throw_prog e s = Some (Inl e, s)"

definition bind_prog :: "('s, 'a) prog \<Rightarrow> ('a \<Rightarrow> ('s, 'b) prog) \<Rightarrow> ('s, 'b) prog" where
  "bind_prog m f s =
     Option.bind (m s) (\<lambda>rs. case rs of (Inl e, s') \<Rightarrow> Some (Inl e, s') | (Inr x, s') \<Rightarrow> f x s')"

definition then_prog :: "('s, 'a) prog \<Rightarrow> ('s, 'b) prog \<Rightarrow> ('s, 'b) prog" where
  "then_prog m n = bind_prog m (\<lambda>_. n)"

fun for_each_prog :: "('a \<Rightarrow> ('s, unit) prog) \<Rightarrow> 'a list \<Rightarrow> ('s, unit) prog" where
  "for_each_prog f [] = return_prog ()"
| "for_each_prog f (x # xs) = then_prog (f x) (for_each_prog f xs)"

lemma bind_prog_simps [simp]:
  "m s = Some (Inr x, s') \<Longrightarrow> bind_prog m f s = f x s'"
  "m s = Some (Inl e, s') \<Longrightarrow> bind_prog m f s = Some (Inl e, s')"
  by (simp_all add: bind_prog_def)

lemma then_prog_simps [simp]:
  "m s = Some (Inr x, s') \<Longrightarrow> then_prog m n s = n s'"
  "m s = Some (Inl e, s') \<Longrightarrow> then_prog m n s = Some (Inl e, s')"
  by (simp_all add: then_prog_def)

lemma prog_apply [simp]:
  "lift_eff m s = Some (m s)" "return_prog x s = Some (Inr x, s)" "throw_prog e s = Some (Inl e, s)"
  by (simp_all add: lift_eff_def return_prog_def throw_prog_def)

lemma bind_prog_mono [partial_function_mono]:
  assumes "\<And>s. mono_option (\<lambda>f. m f s)" "\<And>x s. mono_option (\<lambda>f. k f x s)"
  shows "mono_option (\<lambda>f. bind_prog (m f) (k f) s)"
  unfolding bind_prog_def
proof (intro bind_mono assms(1))
  show "mono_option (\<lambda>f. case rs of (Inl e, s') \<Rightarrow> Some (Inl e, s') | (Inr x, s') \<Rightarrow> k f x s')" for rs
    by (cases rs; cases "fst rs") (auto intro: assms(2) option.const_mono)
qed

section \<open>The cache\<close>

datatype BlockAddResult =
    Added
  | AddedDetached
  | NotAddedBlockNumberTooLow
  | NotAddedAlreadyExisted
  | NotAddedAlreadyExistedDetached

record ('b, 's) BlockCache =
  pruneHeight :: "int option"
  mIsEmpty :: bool
  headHash :: "string option"
  mMaxHeight :: int
  maxDepth :: int
  blockStore :: "('b, 's) BlockItemStore"
  emitted :: "'b list"

type_synonym ('b, 's) listener = "'b \<Rightarrow> (('b, 's) BlockCache, unit) prog"

definition new_BlockCache :: "int \<Rightarrow> ('b, 's) BlockItemStore \<Rightarrow> ('b, 's) BlockCache" where
  "new_BlockCache depth store =
     \<lparr>pruneHeight = None, mIsEmpty = True, headHash = None, mMaxHeight = 0, maxDepth = depth,
      blockStore = store, emitted = []\<rparr>"

definition minHeight :: "('b, 's) BlockCache \<Rightarrow> int option" where
  "minHeight c = map_option (\<lambda>p. max p (mMaxHeight c - maxDepth c)) (pruneHeight c)"

text \<open>Comparisons with \<open>NaN\<close> are false.\<close>

fun less_number :: "int option \<Rightarrow> int option \<Rightarrow> bool" where
  "less_number (Some a) (Some b) \<longleftrightarrow> a < b"
| "less_number _ _ \<longleftrightarrow> False"

definition on_store :: "(('b, 's) BlockItemStore, 'a) eff \<Rightarrow> (('b, 's) BlockCache, 'a) eff" where
  "on_store m c = (case m (blockStore c) of (r, s') \<Rightarrow> (r, c\<lparr>blockStore := s'\<rparr>))"

function prune :: "('b, 's) BlockCache \<Rightarrow> unit result \<times> ('b, 's) BlockCache" where
  "prune c =
     (case pruneHeight c of
        None \<Rightarrow> (Inr (), c)
      | Some p \<Rightarrow>
          if less_number (Some p) (minHeight c) then
            (case deleteItemsAtHeight p (blockStore c) of
               (Inl e, s') \<Rightarrow> (Inl e, c\<lparr>blockStore := s'\<rparr>)
             | (Inr u, s') \<Rightarrow> prune (c\<lparr>blockStore := s', pruneHeight := Some (p + 1)\<rparr>))
          else (Inr (), c))"
  by pat_completeness auto
termination
  by (relation "measure (\<lambda>c. nat (mMaxHeight c - maxDepth c - the (pruneHeight c)))")
     (auto simp: minHeight_def)

declare prune.simps [simp del]

definition emit :: "('b, 's) listener \<Rightarrow> 'b \<Rightarrow> (('b, 's) BlockCache, unit) prog" where
  "emit listener b c = listener b (c\<lparr>emitted := emitted c @ [b]\<rparr>)"

definition hasBlock :: "('b, 's) BlockCache \<Rightarrow> string \<Rightarrow> bool \<Rightarrow> bool" where
  "hasBlock c blockHash includeDetached =
     (if \<not> includeDetached \<and> attached_get (blockStore c) blockHash \<noteq> Some True then False
      else block_get (blockStore c) blockHash \<noteq> None)"

definition getBlock :: "('b, 's) BlockCache \<Rightarrow> string \<Rightarrow> 'b result" where
  "getBlock c blockHash =
     (case block_get (blockStore c) blockHash of
        None \<Rightarrow> Inl (ApplicationError ''Block not found'')
      | Some b \<Rightarrow> Inr b)"

definition canAttachBlock ::
  "('a IBlockStub_scheme, 's) BlockCache \<Rightarrow> 'a IBlockStub_scheme \<Rightarrow> bool" where
  "canAttachBlock c b \<longleftrightarrow>
     mIsEmpty c \<or> hasBlock c (parentHash b) False \<or> minHeight c = Some (number b)"

definition updateMaxHeightAndPrune :: "int \<Rightarrow> (('b, 's) BlockCache, unit) eff" where
  "updateMaxHeightAndPrune newHeight c =
     (if mMaxHeight c < newHeight then prune (c\<lparr>mMaxHeight := newHeight\<rparr>) else (Inr (), c))"

section \<open>Detached blocks\<close>

definition attach_detached ::
  "('a IBlockStub_scheme, 's) listener \<Rightarrow> int \<Rightarrow> 'a IBlockStub_scheme option \<Rightarrow>
   (('a IBlockStub_scheme, 's) BlockCache, unit) prog" where
  "attach_detached listener height block =
     (case block of
        None \<Rightarrow> throw_prog (JsTypeError ''Cannot read property hash of undefined'')
      | Some b \<Rightarrow>
          then_prog (lift_eff (on_store (attached_set height (block_hash b) True))) (emit listener b))"

partial_function (option) processDetached ::
  "('a IBlockStub_scheme, 's) listener \<Rightarrow> int \<Rightarrow> ('a IBlockStub_scheme, 's) BlockCache \<Rightarrow>
   (unit result \<times> ('a IBlockStub_scheme, 's) BlockCache) option" where
  "processDetached listener height c =
     (let blocksToAdd = filter (\<lambda>b. snd b \<noteq> Some True) (getBlocksAtHeight (blockStore c) (Some height)) in
      bind_prog (for_each_prog (attach_detached listener height) (map fst blocksToAdd)) (\<lambda>u s.
        if length blocksToAdd > 0 then
          bind_prog (lift_eff (updateMaxHeightAndPrune height)) (\<lambda>u' s'.
            processDetached listener (height + 1) s') s
        else return_prog () s) c)"

partial_function (option) processDetachedBlocksAtMinHeight ::
  "('a IBlockStub_scheme, 's) listener \<Rightarrow> ('a IBlockStub_scheme, 's) BlockCache \<Rightarrow>
   (unit result \<times> ('a IBlockStub_scheme, 's) BlockCache) option" where
  "processDetachedBlocksAtMinHeight listener c =
     (let prevMinHeight = minHeight c in
      case prevMinHeight of
        None \<Rightarrow> return_prog () c
      | Some m \<Rightarrow>
          bind_prog (processDetached listener m) (\<lambda>u s.
            if less_number prevMinHeight (minHeight s)
            then processDetachedBlocksAtMinHeight listener s else return_prog () s) c)"

definition addBlock ::
  "('a IBlockStub_scheme, 's) listener \<Rightarrow> 'a IBlockStub_scheme \<Rightarrow>
   (('a IBlockStub_scheme, 's) BlockCache, BlockAddResult) prog" where
  "addBlock listener b c =
     (let attached = attached_get (blockStore c) (block_hash b) in
      if attached = Some True then return_prog NotAddedAlreadyExisted c
      else if less_number (Some (number b)) (minHeight c) then return_prog NotAddedBlockNumberTooLow c
      else if attached = Some False then return_prog NotAddedAlreadyExistedDetached c
      else
        let c1 = (if mIsEmpty c then c\<lparr>pruneHeight := Some (number b), mIsEmpty := False\<rparr> else c) in
        if canAttachBlock c1 b then
          then_prog (lift_eff (on_store (block_set (number b) (block_hash b) b)))
           (then_prog (lift_eff (on_store (attached_set (number b) (block_hash b) True)))
             (then_prog (emit listener b)
               (then_prog (lift_eff (updateMaxHeightAndPrune (number b)))
                 (then_prog (processDetached listener (number b + 1))
                   (then_prog (processDetachedBlocksAtMinHeight listener) (return_prog Added)))))) c1
        else
          then_prog (lift_eff (on_store (block_set (number b) (block_hash b) b)))
           (then_prog (lift_eff (on_store (attached_set (number b) (block_hash b) False)))
             (return_prog AddedDetached)) c1)"

section \<open>Queries\<close>

text \<open>A loop over the ancestry of a block, from the block itself: the body throws, stops with a value or
  goes on; \<open>None\<close> inside the result is an ancestry that ran out.\<close>

partial_function (option) ancestry_loop ::
  "('a IBlockStub_scheme, 's) BlockCache \<Rightarrow> ('a IBlockStub_scheme \<Rightarrow> 'r option result) \<Rightarrow>
   'a IBlockStub_scheme \<Rightarrow> 'r option result option" where
  "ancestry_loop c body curBlock =
     (case body curBlock of
        Inl e \<Rightarrow> Some (Inl e)
      | Inr (Some r) \<Rightarrow> Some (Inr (Some r))
      | Inr None \<Rightarrow>
          if hasBlock c (parentHash curBlock) False then
            (case getBlock c (parentHash curBlock) of
               Inl e \<Rightarrow> Some (Inl e)
             | Inr parent \<Rightarrow> ancestry_loop c body parent)
          else Some (Inr None))"

definition for_ancestry ::
  "('a IBlockStub_scheme, 's) BlockCache \<Rightarrow> string \<Rightarrow> ('a IBlockStub_scheme \<Rightarrow> 'r option result) \<Rightarrow>
   'r option result option" where
  "for_ancestry c initialBlockHash body =
     (case getBlock c initialBlockHash of
        Inl e \<Rightarrow> Some (Inl e)
      | Inr b \<Rightarrow> ancestry_loop c body b)"

definition findAncestor ::
  "('a IBlockStub_scheme, 's) BlockCache \<Rightarrow> string \<Rightarrow> ('a IBlockStub_scheme \<Rightarrow> bool result) \<Rightarrow> int \<Rightarrow>
   'a IBlockStub_scheme option result option" where
  "findAncestor c initialBlockHash predicate min_height =
     map_option (map_sum id (\<lambda>r. case r of Some found \<Rightarrow> found | None \<Rightarrow> None))
       (for_ancestry c initialBlockHash (\<lambda>b.
          if number b < min_height then Inr (Some None)
          else (case predicate b of
                  Inl e \<Rightarrow> Inl e
                | Inr ok \<Rightarrow> Inr (if ok then Some (Some b) else None))))"

definition getOldestAncestorInCache ::
  "('a IBlockStub_scheme, 's) BlockCache \<Rightarrow> string \<Rightarrow> 'a IBlockStub_scheme result option" where
  "getOldestAncestorInCache c blockHash =
     (if \<not> hasBlock c blockHash False then Some (Inl (ArgumentError ''The block is not in cache''))
      else map_option (\<lambda>r. bind_result r (\<lambda>found. case found of
               None \<Rightarrow> Inl (ApplicationError ''An error occurred while searching for the oldest ancestor in cache.'')
             | Some b \<Rightarrow> Inr b))
             (findAncestor c blockHash (\<lambda>b. Inr (\<not> hasBlock c (parentHash b) False)) 0))"

definition setHead :: "string \<Rightarrow> (('b, 's) BlockCache, unit) eff" where
  "setHead blockHash c =
     (if \<not> hasBlock c blockHash False
      then (Inl (ArgumentError ''Cannot set the head to be a block that is not in the cache.''), c)
      else (Inr (), c\<lparr>headHash := Some blockHash\<rparr>))"

definition head :: "('b, 's) BlockCache \<Rightarrow> 'b result" where
  "head c =
     (case headHash c of
        None \<Rightarrow> Inl (ApplicationError ''Head used before the BlockCache is initialized.'')
      | Some h \<Rightarrow> getBlock c h)"

text \<open>The blocks \<open>getConfirmations\<close> works on list the hashes of their transactions.\<close>

record TransactionHashes = IBlockStub +
  transactionHashes :: "string list"

definition getConfirmations ::
  "('a TransactionHashes_scheme, 's) BlockCache \<Rightarrow> string \<Rightarrow> string \<Rightarrow> int result option" where
  "getConfirmations c head_hash txHash =
     (case getBlock c head_hash of
        Inl e \<Rightarrow> Some (Inl e)
      | Inr headBlock \<Rightarrow>
          map_option (\<lambda>r. bind_result r (\<lambda>found. Inr (case found of
              None \<Rightarrow> 0
            | Some b \<Rightarrow> number headBlock - number b + 1)))
            (findAncestor c head_hash (\<lambda>b. Inr (txHash \<in> set (transactionHashes b))) 0))"

text \<open>The partial functions compute by their equations.\<close>

declare processDetached.simps [code] processDetachedBlocksAtMinHeight.simps [code] ancestry_loop.simps [code]

end
