(* ===== verification/GasQueue.thy ===== *)
theory GasQueue
  imports Prelude
begin

text \<open>
  The gas queue of src/src/responder/gasQueue.ts: pending transactions of one signer, one per
  nonce.  The queue is kept in two orders at once: by consecutive nonces ascending and by ideal gas
  price descending.  Reordering puts a different request at a nonce that is already used on the
  network, which a node accepts only for a price higher by the replacement rate.

  \<open>BigNumber\<close> values are unbounded integers (\<open>int\<close>).  Items are immutable objects that the
  code compares by reference (\<open>===\<close>, \<open>Set.has\<close>); here they are values.  The two agree: the
  items of a queue differ in their identifiers, and lemma \<open>bump_neq\<close> shows that an item made
  for a slot differs in its request from the item that held the slot.
\<close>

section \<open>Identifiers, requests, items\<close>

record PisaTransactionIdentifier =
  id_chainId :: int
  id_data :: string
  id_to :: string
  id_value :: int
  id_gasLimit :: int

definition equals :: "PisaTransactionIdentifier \<Rightarrow> PisaTransactionIdentifier \<Rightarrow> bool" where
  "equals this other \<longleftrightarrow>
     id_chainId other = id_chainId this \<and>
     id_data other = id_data this \<and>
     toLowerCase (id_to other) = toLowerCase (id_to this) \<and>
     id_value other = id_value this \<and>
     id_gasLimit other = id_gasLimit this"

record GasQueueItemRequest =
  req_identifier :: PisaTransactionIdentifier
  req_idealGasPrice :: int
  req_id :: string
  req_blockObserved :: int

record GasQueueItem =
  request :: GasQueueItemRequest
  nonceGasPrice :: int
  idealGasPrice :: int
  nonce :: int

text \<open>The constructor of \<open>GasQueueItem\<close>.\<close>

definition new_GasQueueItem ::
  "GasQueueItemRequest \<Rightarrow> int \<Rightarrow> int \<Rightarrow> int \<Rightarrow> GasQueueItem result" where
  "new_GasQueueItem req ngp igp n =
     (if ngp < igp
      then Inl (ArgumentError ''Current gas price cannot be less than ideal gas price'')
      else Inr \<lparr>request = req, nonceGasPrice = ngp, idealGasPrice = igp, nonce = n\<rparr>)"

record TransactionRequest =
  tr_chainId :: int
  tr_data :: string
  tr_gasLimit :: int
  tr_nonce :: int
  tr_gasPrice :: int
  tr_to :: string
  tr_value :: int

definition toTransactionRequest :: "GasQueueItem \<Rightarrow> TransactionRequest" where
  "toTransactionRequest this =
     \<lparr>tr_chainId = id_chainId (req_identifier (request this)),
      tr_data = id_data (req_identifier (request this)),
      tr_gasLimit = id_gasLimit (req_identifier (request this)),
      tr_nonce = nonce this,
      tr_gasPrice = nonceGasPrice this,
      tr_to = id_to (req_identifier (request this)),
      tr_value = id_value (req_identifier (request this))\<rparr>"

abbreviation ident :: "GasQueueItem \<Rightarrow> PisaTransactionIdentifier" where
  "ident i \<equiv> req_identifier (request i)"

section \<open>The queue and its constructor\<close>

record GasQueue =
  queueItems :: "GasQueueItem list"
  emptyNonce :: int
  replacementRate :: int
  maxQueueDepth :: int

text \<open>The body of the integrity loop of the constructor, for one index.\<close>

definition check_index :: "GasQueueItem list \<Rightarrow> nat \<Rightarrow> app_error option" where
  "check_index items index =
     (let prevItem = items ! (index - 1); item = items ! index in
      if idealGasPrice item > idealGasPrice prevItem
      then Some (ArgumentError ''Ideal gas price of queue item was greater than the previous item.'')
      else if nonce item \<noteq> nonce prevItem + 1
      then Some (ArgumentError ''Nonce of queue item did not increase by one.'')
      else if \<exists>i<length items. equals (ident (items ! i)) (ident item) \<and> i \<noteq> index
      then Some (GasQueueError AlreadyAdded ''Identifier found twice in queue.'')
      else None)"

definition new_GasQueue ::
  "GasQueueItem list \<Rightarrow> int \<Rightarrow> int \<Rightarrow> int \<Rightarrow> GasQueue result" where
  "new_GasQueue items en rr md =
     (if rr < 1 then Inl (ArgumentError ''Replacement rate should be positive.'')
      else if en < 0 then Inl (ArgumentError ''Nonce must not be negative.'')
      else if md < 1 then Inl (ArgumentError ''Max queue depth must be greater than 0.'')
      else case (if length items > 1 then first_error (map (check_index items) [1..<length items])
                 else None) of
        Some e \<Rightarrow> Inl e
      | None \<Rightarrow>
          if length items > 0 \<and> nonce (items ! (length items - 1)) + 1 \<noteq> en
          then Inl (ArgumentError ''Empty nonce is not equal to the last queue item nonce plus one.'')
          else if int (length items) > md
          then Inl (ArgumentError ''Cannot create queue. Max queue depth reached.'')
          else Inr \<lparr>queueItems = items, emptyNonce = en, replacementRate = rr, maxQueueDepth = md\<rparr>)"

section \<open>The queue's operations\<close>

definition depthReached :: "GasQueue \<Rightarrow> bool" where
  "depthReached this \<longleftrightarrow> int (length (queueItems this)) \<ge> maxQueueDepth this"

text \<open>\<open>BigNumber.div\<close> truncates towards zero.\<close>

definition bn_div :: "int \<Rightarrow> int \<Rightarrow> int" where
  "bn_div a b = sgn a * sgn b * (\<bar>a\<bar> div \<bar>b\<bar>)"

definition getReplacementGasPrice :: "int \<Rightarrow> int \<Rightarrow> int" where
  "getReplacementGasPrice currentGasPrice rate =
     (let rRate = rate + 100 in bn_div (currentGasPrice * rRate + 99) 100)"

text \<open>The private methods modify a cloned array of items; here they return it.\<close>

definition append_item ::
  "GasQueue \<Rightarrow> GasQueueItem list \<Rightarrow> GasQueueItemRequest \<Rightarrow> GasQueueItem list result" where
  "append_item this items req =
     bind_result (new_GasQueueItem req (req_idealGasPrice req) (req_idealGasPrice req) (emptyNonce this))
       (\<lambda>item. Inr (items @ [item]))"

definition replace ::
  "GasQueue \<Rightarrow> GasQueueItem list \<Rightarrow> int \<Rightarrow> GasQueueItemRequest \<Rightarrow> GasQueueItem list result" where
  "replace this items index req =
     (if length items = 0 then Inl (ArgumentError ''Cannot replace in empty queue.'')
      else if index < 0 \<or> index > int (length items) - 1 then Inl (ArgumentError ''Index out of range'')
      else
        let replacementItem = items ! nat index;
            replacementPrice =
              getReplacementGasPrice (nonceGasPrice replacementItem) (replacementRate this);
            newGasPrice = (if replacementPrice > req_idealGasPrice req then replacementPrice
                           else req_idealGasPrice req)
        in bind_result
             (new_GasQueueItem req newGasPrice (req_idealGasPrice req) (nonce replacementItem))
             (\<lambda>item. Inr (items[nat index := item])))"

function shiftRight_loop ::
  "GasQueue \<Rightarrow> GasQueueItem list \<Rightarrow> int \<Rightarrow> int \<Rightarrow> GasQueueItem list result" where
  "shiftRight_loop this items startIndex queueIndex =
     (if queueIndex \<ge> startIndex then
        let previousItemRequest = request (items ! nat queueIndex);
            nextIndex = queueIndex + 1
        in bind_result
             (if nextIndex \<noteq> int (length items) then replace this items nextIndex previousItemRequest
              else append_item this items previousItemRequest)
             (\<lambda>items'. shiftRight_loop this items' startIndex (queueIndex - 1))
      else Inr items)"
  by pat_completeness auto
termination
  by (relation "measure (\<lambda>(this, items, startIndex, queueIndex). nat (queueIndex - startIndex + 1))") auto

declare shiftRight_loop.simps [simp del]

definition shiftRight ::
  "GasQueue \<Rightarrow> GasQueueItem list \<Rightarrow> int \<Rightarrow> int \<Rightarrow> GasQueueItem list result" where
  "shiftRight this items startIndex endIndex =
     (if startIndex > endIndex
      then Inl (ArgumentError ''Start index must be less than or equal end index.'')
      else if endIndex > int (length items) - 1
      then Inl (ArgumentError ''Index out of bounds: endIndex.'')
      else if startIndex < 0
      then Inl (ArgumentError ''Start index cannot be less than zero.'')
      else shiftRight_loop this items startIndex endIndex)"

definition add :: "GasQueue \<Rightarrow> GasQueueItemRequest \<Rightarrow> GasQueue result" where
  "add this req =
     (if depthReached this then Inl (ArgumentError ''Cannot add item. Max queue depth reached.'')
      else
        let foundTxIndex =
              findIndex (\<lambda>indexedTx. req_idealGasPrice req > idealGasPrice indexedTx) (queueItems this);
            clonedArray = queueItems this
        in bind_result
             (if foundTxIndex \<noteq> -1
              then bind_result
                     (shiftRight this clonedArray foundTxIndex (int (length clonedArray) - 1))
                     (\<lambda>shifted. replace this shifted foundTxIndex req)
              else append_item this clonedArray req)
             (\<lambda>items. new_GasQueue items (emptyNonce this + 1) (replacementRate this) (maxQueueDepth this)))"

definition consume :: "GasQueue \<Rightarrow> PisaTransactionIdentifier \<Rightarrow> GasQueue result" where
  "consume this identifier =
     (let index = findIndex (\<lambda>item. equals identifier (ident item)) (queueItems this) in
      if index = -1 then Inl (ArgumentError ''Identifier not found in queue.'')
      else bind_result (shiftRight this (queueItems this) 0 (index - 1))
             (\<lambda>shifted. new_GasQueue (drop 1 shifted) (emptyNonce this) (replacementRate this)
                          (maxQueueDepth this)))"

definition dequeue :: "GasQueue \<Rightarrow> GasQueue result" where
  "dequeue this =
     new_GasQueue (drop 1 (queueItems this)) (emptyNonce this) (replacementRate this) (maxQueueDepth this)"

definition difference :: "GasQueue \<Rightarrow> GasQueue \<Rightarrow> GasQueueItem list" where
  "difference this otherQueue = filter (\<lambda>tx. tx \<notin> set (queueItems otherQueue)) (queueItems this)"

definition contains :: "GasQueue \<Rightarrow> PisaTransactionIdentifier \<Rightarrow> bool" where
  "contains this identifier \<longleftrightarrow>
     findIndex (\<lambda>item. equals (ident item) identifier) (queueItems this) \<noteq> -1"

text \<open>The loop of \<open>prepend\<close> over the two sorted arrays, from an index on.  \<open>Array.sort\<close> is the
  stable sort of the language.\<close>

fun prepend_loop ::
  "GasQueue \<Rightarrow> GasQueueItem list \<Rightarrow> GasQueueItem list \<Rightarrow> nat list \<Rightarrow> GasQueueItem list result" where
  "prepend_loop this byGas byNonce [] = Inr byNonce"
| "prepend_loop this byGas byNonce (index # rest) =
     (let itemOrderedByGas = byGas ! index; itemOrderedByNonce = byNonce ! index in
      bind_result
        (if itemOrderedByGas \<noteq> itemOrderedByNonce
         then replace this byNonce (int index) (request itemOrderedByGas) else Inr byNonce)
        (\<lambda>byNonce'. prepend_loop this byGas byNonce' rest))"

definition sort_by_nonce :: "GasQueueItem list \<Rightarrow> GasQueueItem list" where
  "sort_by_nonce items = sort_key nonce items"

definition sort_by_gas :: "GasQueueItem list \<Rightarrow> GasQueueItem list" where
  "sort_by_gas items = sort_key (\<lambda>i. - idealGasPrice i) items"

definition prepend :: "GasQueue \<Rightarrow> GasQueueItem list \<Rightarrow> GasQueue result" where
  "prepend this lowerNonceItems =
     (let allItemsOrderedByNonce = sort_by_nonce (lowerNonceItems @ queueItems this);
          allItemsByIdealGas = sort_by_gas allItemsOrderedByNonce
      in bind_result
           (prepend_loop this allItemsByIdealGas allItemsOrderedByNonce [0..<length allItemsByIdealGas])
           (\<lambda>items. new_GasQueue items (emptyNonce this) (replacementRate this) (maxQueueDepth this)))"

section \<open>Well-formed queues\<close>

text \<open>Identifiers are equal up to the case of the recipient: equality of a canonical form.\<close>

definition canon :: "PisaTransactionIdentifier \<Rightarrow> int \<times> string \<times> string \<times> int \<times> int" where
  "canon i = (id_chainId i, id_data i, toLowerCase (id_to i), id_value i, id_gasLimit i)"

lemma equals_canon: "equals a b \<longleftrightarrow> canon a = canon b"
  by (auto simp: equals_def canon_def)

lemma equals_sym: "equals a b \<longleftrightarrow> equals b a"
  by (auto simp: equals_canon)

text \<open>The nonces of the items end right before the empty nonce and have no gap; requests are
  ordered by price; identifiers are pairwise different.\<close>

definition nonces_to :: "GasQueueItem list \<Rightarrow> int \<Rightarrow> bool" where
  "nonces_to items en \<longleftrightarrow>
     (\<forall>i<length items. nonce (items ! i) = en - int (length items) + int i)"

definition prices_desc :: "GasQueueItem list \<Rightarrow> bool" where
  "prices_desc items \<longleftrightarrow> sorted_wrt (\<lambda>a b. idealGasPrice a \<ge> idealGasPrice b) items"

definition idents_distinct :: "GasQueueItem list \<Rightarrow> bool" where
  "idents_distinct items \<longleftrightarrow> distinct (map (\<lambda>i. canon (ident i)) items)"

definition gq_inv :: "GasQueue \<Rightarrow> bool" where
  "gq_inv q \<longleftrightarrow>
     1 \<le> replacementRate q \<and> 0 \<le> emptyNonce q \<and> 1 \<le> maxQueueDepth q \<and>
     int (length (queueItems q)) \<le> maxQueueDepth q \<and>
     nonces_to (queueItems q) (emptyNonce q) \<and> prices_desc (queueItems q) \<and>
     idents_distinct (queueItems q)"

lemma gq_invD:
  assumes "gq_inv q"
  shows "1 \<le> replacementRate q" "0 \<le> emptyNonce q" "1 \<le> maxQueueDepth q"
    "int (length (queueItems q)) \<le> maxQueueDepth q"
    "nonces_to (queueItems q) (emptyNonce q)" "prices_desc (queueItems q)"
    "idents_distinct (queueItems q)"
  using assms by (auto simp: gq_inv_def)

lemma nonces_to_iff_steps:
  "nonces_to items en \<longleftrightarrow>
     (\<forall>k\<in>{1..<length items}. nonce (items ! k) = nonce (items ! (k - 1)) + 1) \<and>
     (length items > 0 \<longrightarrow> nonce (items ! (length items - 1)) + 1 = en)"
  (is "?L \<longleftrightarrow> ?S \<and> ?E")
proof
  assume L: ?L
  then have "?S" unfolding nonces_to_def by (auto simp: of_nat_diff)
  moreover from L have "?E" unfolding nonces_to_def by (cases items) auto
  ultimately show "?S \<and> ?E" ..
next
  assume R: "?S \<and> ?E"
  have "nonce (items ! (length items - Suc j)) = en - int (Suc j)" if "j < length items" for j
    using that
  proof (induction j)
    case 0
    with R have "nonce (items ! (length items - 1)) + 1 = en" by auto
    then show ?case by simp
  next
    case (Suc j)
    let ?k = "length items - Suc j"
    have k: "?k \<in> {1..<length items}" "?k - 1 = length items - Suc (Suc j)"
      using Suc.prems by auto
    with R have "nonce (items ! ?k) = nonce (items ! (length items - Suc (Suc j))) + 1" by metis
    moreover have "nonce (items ! ?k) = en - int (Suc j)" using Suc by simp
    ultimately show ?case by simp
  qed
  then have "nonce (items ! i) = en - int (Suc (length items - Suc i))" if "i < length items" for i
    using that by (metis Suc_diff_Suc diff_Suc_less diff_diff_cancel less_imp_le_nat gr_implies_not0 neq0_conv)
  then show ?L unfolding nonces_to_def by (simp add: of_nat_diff)
qed

lemma prices_desc_iff_steps:
  "prices_desc items \<longleftrightarrow>
     (\<forall>k\<in>{1..<length items}. idealGasPrice (items ! k) \<le> idealGasPrice (items ! (k - 1)))"
proof -
  have "transp (\<lambda>a b. idealGasPrice a \<ge> idealGasPrice b)" by (auto simp: transp_def)
  then have "prices_desc items \<longleftrightarrow>
      (\<forall>i. Suc i < length items \<longrightarrow> idealGasPrice (items ! i) \<ge> idealGasPrice (items ! Suc i))"
    unfolding prices_desc_def by (rule sorted_wrt_iff_nth_Suc_transp)
  also have "\<dots> \<longleftrightarrow> (\<forall>k\<in>{1..<length items}. idealGasPrice (items ! k) \<le> idealGasPrice (items ! (k - 1)))"
    by (auto simp: less_Suc_eq_0_disj gr0_conv_Suc Ball_def) (metis One_nat_def Suc_pred' diff_Suc_1 less_eq_Suc_le)
  finally show ?thesis .
qed

lemma idents_distinct_iff_steps:
  "idents_distinct items \<longleftrightarrow>
     (\<forall>k\<in>{1..<length items}. \<not> (\<exists>i<length items. equals (ident (items ! i)) (ident (items ! k)) \<and> i \<noteq> k))"
  (is "?L \<longleftrightarrow> ?R")
proof
  assume ?L
  then show ?R by (fastforce simp: idents_distinct_def distinct_conv_nth equals_canon)
next
  assume R: ?R
  have "canon (ident (items ! i)) \<noteq> canon (ident (items ! j))"
    if ij: "i < length items" "j < length items" "i \<noteq> j" for i j
  proof (cases "j = 0")
    case True
    with ij have "i \<in> {1..<length items}" by auto
    with R ij True show ?thesis by (metis equals_canon)
  next
    case False
    with ij have "j \<in> {1..<length items}" by auto
    with R ij show ?thesis by (metis equals_canon)
  qed
  then show ?L by (auto simp: idents_distinct_def distinct_conv_nth)
qed

lemma check_index_None:
  "check_index items k = None \<longleftrightarrow>
     idealGasPrice (items ! k) \<le> idealGasPrice (items ! (k - 1)) \<and>
     nonce (items ! k) = nonce (items ! (k - 1)) + 1 \<and>
     \<not> (\<exists>i<length items. equals (ident (items ! i)) (ident (items ! k)) \<and> i \<noteq> k)"
  by (auto simp: check_index_def Let_def)

lemma integrity_loop_None:
  "(if length items > 1 then first_error (map (check_index items) [1..<length items]) else None) = None \<longleftrightarrow>
     (\<forall>k\<in>{1..<length items}. check_index items k = None)"
  by auto

text \<open>The constructor returns exactly the well-formed queues.\<close>

lemma new_GasQueue_Inr_iff:
  "new_GasQueue items en rr md = Inr q \<longleftrightarrow>
     q = \<lparr>queueItems = items, emptyNonce = en, replacementRate = rr, maxQueueDepth = md\<rparr> \<and> gq_inv q"
proof (cases "(if length items > 1 then first_error (map (check_index items) [1..<length items]) else None)")
  case None
  then have "\<forall>k\<in>{1..<length items}. check_index items k = None"
    using integrity_loop_None by blast
  then have "prices_desc items" "idents_distinct items"
    "nonces_to items en \<longleftrightarrow> (length items > 0 \<longrightarrow> nonce (items ! (length items - 1)) + 1 = en)"
    by (auto simp: check_index_None prices_desc_iff_steps nonces_to_iff_steps idents_distinct_iff_steps)
  with None show ?thesis
    by (auto simp: new_GasQueue_def gq_inv_def)
next
  case (Some e)
  then have "\<not> (\<forall>k\<in>{1..<length items}. check_index items k = None)"
    using integrity_loop_None by (metis option.distinct(1))
  then have "\<not> (prices_desc items \<and> nonces_to items en \<and> idents_distinct items)"
    by (auto simp: check_index_None prices_desc_iff_steps nonces_to_iff_steps idents_distinct_iff_steps)
  with Some show ?thesis
    by (auto simp: new_GasQueue_def gq_inv_def)
qed

lemma new_GasQueue_fields:
  assumes "new_GasQueue items en rr md = Inr q"
  shows "queueItems q = items" "emptyNonce q = en" "replacementRate q = rr" "maxQueueDepth q = md"
    "gq_inv q"
  using assms by (auto simp: new_GasQueue_Inr_iff)

section \<open>Items made by the queue\<close>

text \<open>An item whose ideal price is the one of its request, and whose price at the nonce is at
  least that and not negative: what the constructor and the queue's operations produce.\<close>

definition item_ok :: "GasQueueItem \<Rightarrow> bool" where
  "item_ok i \<longleftrightarrow> idealGasPrice i = req_idealGasPrice (request i) \<and>
     0 \<le> idealGasPrice i \<and> idealGasPrice i \<le> nonceGasPrice i"

abbreviation items_ok :: "GasQueueItem list \<Rightarrow> bool" where
  "items_ok items \<equiv> \<forall>i\<in>set items. item_ok i"

text \<open>The item that takes over a used slot, and the one at a fresh nonce.\<close>

definition bump :: "int \<Rightarrow> GasQueueItem \<Rightarrow> GasQueueItemRequest \<Rightarrow> GasQueueItem" where
  "bump rr slot req =
     \<lparr>request = req,
      nonceGasPrice = max (getReplacementGasPrice (nonceGasPrice slot) rr) (req_idealGasPrice req),
      idealGasPrice = req_idealGasPrice req, nonce = nonce slot\<rparr>"

definition fresh :: "int \<Rightarrow> GasQueueItemRequest \<Rightarrow> GasQueueItem" where
  "fresh en req =
     \<lparr>request = req, nonceGasPrice = req_idealGasPrice req,
      idealGasPrice = req_idealGasPrice req, nonce = en\<rparr>"

lemma bump_simps [simp]:
  "request (bump rr slot req) = req" "nonce (bump rr slot req) = nonce slot"
  "idealGasPrice (bump rr slot req) = req_idealGasPrice req"
  by (auto simp: bump_def)

lemma fresh_simps [simp]:
  "request (fresh en req) = req" "nonce (fresh en req) = en"
  "idealGasPrice (fresh en req) = req_idealGasPrice req"
  by (auto simp: fresh_def)

lemma bump_neq: "request slot \<noteq> req \<Longrightarrow> bump rr slot req \<noteq> slot"
  by (metis bump_simps(1))

lemma item_ok_bump: "0 \<le> req_idealGasPrice req \<Longrightarrow> item_ok (bump rr slot req)"
  by (auto simp: item_ok_def bump_def)

lemma item_ok_fresh: "0 \<le> req_idealGasPrice req \<Longrightarrow> item_ok (fresh en req)"
  by (auto simp: item_ok_def fresh_def)

lemma bn_div_nonneg: "0 \<le> a \<Longrightarrow> 0 < b \<Longrightarrow> bn_div a b = a div b"
  by (cases "a = 0") (auto simp: bn_div_def)

text \<open>The replacement price rounds up: it is at least the old price raised by the rate.\<close>

lemma getReplacementGasPrice_ge:
  assumes "0 \<le> p" "1 \<le> rr"
  shows "p * (100 + rr) \<le> 100 * getReplacementGasPrice p rr"
proof -
  have "0 \<le> p * (rr + 100) + 99" using assms by simp
  then have "getReplacementGasPrice p rr = (p * (rr + 100) + 99) div 100"
    by (simp add: getReplacementGasPrice_def bn_div_nonneg)
  moreover have "x \<le> 100 * ((x + 99) div 100)" for x :: int by presburger
  ultimately show ?thesis by (simp add: add.commute)
qed

lemma getReplacementGasPrice_less:
  assumes "0 \<le> p" "1 \<le> rr"
  shows "100 * getReplacementGasPrice p rr < p * (100 + rr) + 100"
proof -
  have "0 \<le> p * (rr + 100) + 99" using assms by simp
  then have "getReplacementGasPrice p rr = (p * (rr + 100) + 99) div 100"
    by (simp add: getReplacementGasPrice_def bn_div_nonneg)
  moreover have "100 * ((x + 99) div 100) < x + 100" for x :: int by presburger
  ultimately show ?thesis by (simp add: add.commute)
qed

lemma getReplacementGasPrice_mono_self:
  assumes "0 \<le> p" "1 \<le> rr" shows "p \<le> getReplacementGasPrice p rr"
proof -
  have "p * 100 \<le> p * (100 + rr)" using assms by (intro mult_left_mono) auto
  with getReplacementGasPrice_ge [OF assms] show ?thesis by simp
qed

text \<open>The promise to the network: a later item at the same nonce is the same one, or its price is
  higher by the replacement rate.\<close>

definition outbids :: "int \<Rightarrow> GasQueueItem \<Rightarrow> GasQueueItem \<Rightarrow> bool" where
  "outbids rr old new \<longleftrightarrow>
     new = old \<or> nonceGasPrice old * (100 + rr) \<le> 100 * nonceGasPrice new"

lemma outbids_refl [simp]: "outbids rr i i"
  by (simp add: outbids_def)

lemma outbids_bump:
  assumes "item_ok slot" "1 \<le> rr" shows "outbids rr slot (bump rr slot req)"
proof -
  have "0 \<le> nonceGasPrice slot" using assms(1) by (auto simp: item_ok_def)
  from getReplacementGasPrice_ge [OF this assms(2)] show ?thesis
    by (auto simp: outbids_def bump_def)
qed

lemma outbids_trans:
  assumes "outbids rr a b" "outbids rr b c" "item_ok a" "item_ok b" "0 \<le> rr"
  shows "outbids rr a c"
proof (cases "b = a \<or> c = b")
  case False
  have "0 \<le> nonceGasPrice b" using assms(4) by (auto simp: item_ok_def)
  then have "100 * nonceGasPrice b \<le> nonceGasPrice b * (100 + rr)"
    using assms(5) by (simp add: distrib_left)
  with False assms(1,2) show ?thesis by (auto simp: outbids_def)
qed (use assms in auto)

section \<open>The private methods in closed form\<close>

lemma append_item_eq: "append_item q items req = Inr (items @ [fresh (emptyNonce q) req])"
  by (simp add: append_item_def new_GasQueueItem_def fresh_def)

lemma replace_eq:
  assumes "k < length items"
  shows "replace q items (int k) req = Inr (items[k := bump (replacementRate q) (items ! k) req])"
  using assms by (auto simp: replace_def new_GasQueueItem_def bump_def Let_def max_def)

text \<open>The array after \<open>c\<close> requests from \<open>s\<close> on were moved one slot up.\<close>

definition shifted :: "GasQueue \<Rightarrow> GasQueueItem list \<Rightarrow> nat \<Rightarrow> nat \<Rightarrow> GasQueueItem list" where
  "shifted q items s c =
     map (\<lambda>i. if s < i \<and> i \<le> s + c
              then (if i < length items
                    then bump (replacementRate q) (items ! i) (request (items ! (i - 1)))
                    else fresh (emptyNonce q) (request (items ! (i - 1))))
              else items ! i)
       [0..<(if 0 < c \<and> s + c = length items then Suc (length items) else length items)]"

lemma shiftRight_loop_eq:
  "s + c \<le> length items \<Longrightarrow>
   shiftRight_loop q items (int s) (int s + int c - 1) = Inr (shifted q items s c)"
proof (induction c arbitrary: items)
  case 0
  have "shifted q items s 0 = items" by (rule nth_equalityI) (auto simp: shifted_def)
  then show ?case by (simp add: shiftRight_loop.simps)
next
  case (Suc c)
  let ?rr = "replacementRate q"
  define items' where
    "items' = (if s + Suc c = length items
               then items @ [fresh (emptyNonce q) (request (items ! (s + c)))]
               else items[s + Suc c := bump ?rr (items ! (s + Suc c)) (request (items ! (s + c)))])"
  have step: "shiftRight_loop q items (int s) (int s + int (Suc c) - 1)
      = shiftRight_loop q items' (int s) (int s + int c - 1)"
  proof (cases "s + Suc c = length items")
    case True
    have "nat (int s + int (Suc c) - 1) = s + c" by auto
    then show ?thesis
      by (subst shiftRight_loop.simps) (simp add: append_item_eq items'_def True [symmetric])
  next
    case False
    with Suc.prems have l: "s + Suc c < length items" by simp
    have "replace q items (int s + int (Suc c)) (request (items ! (s + c))) =
        Inr (items[s + Suc c := bump ?rr (items ! (s + Suc c)) (request (items ! (s + c)))])"
    proof -
      have e: "int s + int (Suc c) = int (s + Suc c)" by simp
      show ?thesis unfolding e by (rule replace_eq [OF l])
    qed
    with False l show ?thesis
      by (subst shiftRight_loop.simps) (simp add: items'_def nat_add_distrib ac_simps)
  qed
  have len': "length items' = (if s + Suc c = length items then Suc (length items) else length items)"
    by (simp add: items'_def)
  have last: "length items - Suc 0 = s + c" if "Suc (s + c) = length items"
    using that by simp
  have "shifted q items' s c = shifted q items s (Suc c)"
    unfolding shifted_def using Suc.prems
    by (intro nth_equalityI) (auto simp: len' items'_def nth_append nth_list_update last)
  moreover have "s + c \<le> length items'" using Suc.prems len' by simp
  ultimately show ?case using step Suc.IH by simp
qed

lemma length_shifted:
  "length (shifted q items s c) =
     (if 0 < c \<and> s + c = length items then Suc (length items) else length items)"
  by (simp add: shifted_def)

lemma shifted_nth:
  "i < length (shifted q items s c) \<Longrightarrow>
   shifted q items s c ! i =
     (if s < i \<and> i \<le> s + c
      then (if i < length items
            then bump (replacementRate q) (items ! i) (request (items ! (i - 1)))
            else fresh (emptyNonce q) (request (items ! (i - 1))))
      else items ! i)"
  unfolding shifted_def by (subst nth_map) (auto simp del: upt_Suc split: if_splits)

section \<open>What the operations compute\<close>

text \<open>The queue as an assignment of requests to nonce slots: every operation decides the list of
  requests, and each slot either keeps its item or is bumped to its new request.\<close>

definition reassign :: "int \<Rightarrow> GasQueueItem \<Rightarrow> GasQueueItemRequest \<Rightarrow> GasQueueItem" where
  "reassign rr slot req = (if request slot = req then slot else bump rr slot req)"

lemma reassign_simps [simp]:
  "request (reassign rr slot req) = req" "nonce (reassign rr slot req) = nonce slot"
  by (auto simp: reassign_def)

lemma item_ok_reassign:
  "item_ok slot \<Longrightarrow> 0 \<le> req_idealGasPrice req \<Longrightarrow> item_ok (reassign rr slot req)"
  by (simp add: reassign_def item_ok_bump)

lemma outbids_reassign:
  "item_ok slot \<Longrightarrow> 1 \<le> rr \<Longrightarrow> outbids rr slot (reassign rr slot req)"
  by (simp add: reassign_def outbids_bump)

definition requests :: "GasQueue \<Rightarrow> GasQueueItemRequest list" where
  "requests q = map request (queueItems q)"

definition insert_request ::
  "GasQueueItemRequest \<Rightarrow> GasQueueItemRequest list \<Rightarrow> GasQueueItemRequest list" where
  "insert_request req rs =
     takeWhile (\<lambda>r. req_idealGasPrice req \<le> req_idealGasPrice r) rs @ [req] @
     dropWhile (\<lambda>r. req_idealGasPrice req \<le> req_idealGasPrice r) rs"

definition requests_desc :: "GasQueueItemRequest list \<Rightarrow> bool" where
  "requests_desc rs \<longleftrightarrow> sorted_wrt (\<lambda>a b. req_idealGasPrice a \<ge> req_idealGasPrice b) rs"

lemma prices_desc_requests:
  "items_ok items \<Longrightarrow> prices_desc items \<longleftrightarrow> requests_desc (map request items)"
  unfolding prices_desc_def requests_desc_def sorted_wrt_map
  by (rule iffI; erule sorted_wrt_mono_rel [rotated]) (auto simp: item_ok_def)

lemma idents_distinct_requests:
  "idents_distinct items \<longleftrightarrow> distinct (map (\<lambda>r. canon (req_identifier r)) (map request items))"
  by (simp add: idents_distinct_def comp_def)

lemma mset_insert_request: "mset (insert_request req rs) = add_mset req (mset rs)"
proof -
  have "mset rs = mset (takeWhile P rs) + mset (dropWhile P rs)" for P
    by (metis mset_append takeWhile_dropWhile_id)
  then show ?thesis unfolding insert_request_def by (metis add_mset_add_single mset.simps(2) mset_append append_Cons append_Nil union_mset_add_mset_right)
qed

lemma length_insert_request [simp]: "length (insert_request req rs) = Suc (length rs)"
  by (metis mset_insert_request size_add_mset size_mset)

lemma requests_desc_insert_between:
  assumes "requests_desc A" "requests_desc B"
    "\<forall>a\<in>set A. req_idealGasPrice x \<le> req_idealGasPrice a"
    "\<forall>b\<in>set B. req_idealGasPrice b \<le> req_idealGasPrice x"
  shows "requests_desc (A @ [x] @ B)"
  using assms by (force simp: requests_desc_def sorted_wrt_append)

lemma requests_desc_insert:
  assumes "requests_desc rs" shows "requests_desc (insert_request req rs)"
proof -
  let ?P = "\<lambda>r. req_idealGasPrice req \<le> req_idealGasPrice r"
  have rs: "rs = takeWhile ?P rs @ dropWhile ?P rs" by simp
  with assms have s: "requests_desc (takeWhile ?P rs)" "requests_desc (dropWhile ?P rs)"
    unfolding requests_desc_def by (metis sorted_wrt_append)+
  have low: "\<forall>b\<in>set (dropWhile ?P rs). req_idealGasPrice b \<le> req_idealGasPrice req"
  proof (cases "dropWhile ?P rs")
    case (Cons d ds)
    then have "\<not> ?P d" by (metis hd_dropWhile list.distinct(1) list.sel(1))
    with Cons s(2) show ?thesis by (auto simp: requests_desc_def)
  qed (metis empty_iff list.set(1))
  have "\<forall>a\<in>set (takeWhile ?P rs). ?P a" by (meson set_takeWhileD)
  from requests_desc_insert_between [OF s this low] show ?thesis
    unfolding insert_request_def .
qed

text \<open>Where the constructor gets well-formed parts, only a duplicate can stop it.\<close>

lemma new_GasQueue_eq:
  assumes "1 \<le> rr" "0 \<le> en" "1 \<le> md" "int (length items) \<le> md"
    "nonces_to items en" "prices_desc items"
  shows "new_GasQueue items en rr md =
    (if idents_distinct items
     then Inr \<lparr>queueItems = items, emptyNonce = en, replacementRate = rr, maxQueueDepth = md\<rparr>
     else Inl (GasQueueError AlreadyAdded ''Identifier found twice in queue.''))"
proof (cases "idents_distinct items")
  case True
  with assms show ?thesis by (simp add: new_GasQueue_Inr_iff gq_inv_def)
next
  case False
  let ?fe = "if length items > 1 then first_error (map (check_index items) [1..<length items]) else None"
  from False have "?fe \<noteq> None"
    using integrity_loop_None check_index_None idents_distinct_iff_steps by metis
  then obtain e where e: "?fe = Some e" and len: "length items > 1"
    by (auto split: if_splits)
  then have "Some e \<in> set (map (check_index items) [1..<length items])"
    by (metis first_error_in)
  then obtain k where k: "k \<in> {1..<length items}" "check_index items k = Some e" by auto
  have "idealGasPrice (items ! k) \<le> idealGasPrice (items ! (k - 1))"
    "nonce (items ! k) = nonce (items ! (k - 1)) + 1"
    using assms(5,6) k(1) unfolding nonces_to_iff_steps prices_desc_iff_steps by blast+
  with k(2) have "e = GasQueueError AlreadyAdded ''Identifier found twice in queue.''"
    by (auto simp: check_index_def Let_def split: if_splits)
  with e False assms show ?thesis by (simp add: new_GasQueue_def)
qed

section \<open>add\<close>

definition add_items :: "GasQueue \<Rightarrow> GasQueueItemRequest \<Rightarrow> GasQueueItem list" where
  "add_items q req =
     (let rs = insert_request req (requests q) in
      map2 (reassign (replacementRate q)) (queueItems q @ [fresh (emptyNonce q) (last rs)]) rs)"

lemma requests_nth: "i < length (queueItems q) \<Longrightarrow> requests q ! i = request (queueItems q ! i)"
  by (simp add: requests_def)

lemma length_requests [simp]: "length (requests q) = length (queueItems q)"
  by (simp add: requests_def)

lemma insert_request_nth:
  fixes req rs
  defines "k \<equiv> length (takeWhile (\<lambda>r. req_idealGasPrice req \<le> req_idealGasPrice r) rs)"
  assumes "i \<le> length rs"
  shows "insert_request req rs ! i = (if i < k then rs ! i else if i = k then req else rs ! (i - 1))"
proof -
  let ?P = "\<lambda>r. req_idealGasPrice req \<le> req_idealGasPrice r"
  have "rs ! j = dropWhile ?P rs ! (j - k)" if "k \<le> j" "j < length rs" for j
    using that by (metis k_def nth_append takeWhile_dropWhile_id not_less)
  moreover have "rs ! i = takeWhile ?P rs ! i" if "i < k"
    using that by (simp add: k_def takeWhile_nth)
  ultimately show ?thesis
    unfolding insert_request_def using assms(2)
    by (auto simp: nth_append nth_Cons' k_def [symmetric])
qed

lemma raw_add:
  assumes inv: "gq_inv q" and ok: "items_ok (queueItems q)" and room: "\<not> depthReached q"
  obtains items where
    "add q req = new_GasQueue items (emptyNonce q + 1) (replacementRate q) (maxQueueDepth q)"
    "length items = Suc (length (queueItems q))"
    "\<And>i. i \<le> length (queueItems q) \<Longrightarrow> items ! i =
      (if i < length (takeWhile (\<lambda>r. req_idealGasPrice req \<le> req_idealGasPrice r) (requests q))
       then queueItems q ! i
       else if i < length (queueItems q)
       then bump (replacementRate q) (queueItems q ! i) (insert_request req (requests q) ! i)
       else fresh (emptyNonce q) (insert_request req (requests q) ! i))"
proof -
  let ?P = "\<lambda>r. req_idealGasPrice req \<le> req_idealGasPrice r"
  let ?xs = "queueItems q" and ?k = "length (takeWhile ?P (requests q))"
  let ?Q = "\<lambda>i. req_idealGasPrice req > idealGasPrice i"
  have tw: "length (takeWhile (\<lambda>i. \<not> ?Q i) ?xs) = ?k"
  proof -
    have "takeWhile (\<lambda>i. \<not> ?Q i) ?xs = takeWhile (?P \<circ> request) ?xs"
      by (rule takeWhile_cong) (use ok in \<open>auto simp: item_ok_def\<close>)
    then show ?thesis by (simp add: requests_def takeWhile_map)
  qed
  have k: "?k \<le> length ?xs" by (metis length_requests length_takeWhile_le)
  note ins = insert_request_nth [where req = req and rs = "requests q", unfolded length_requests]
  show thesis
  proof (cases "findIndex ?Q ?xs = -1")
    case True
    then have "?k = length ?xs" using tw by (metis findIndex_none takeWhile_eq_all_conv)
    with True room show thesis
      by (intro that [of "?xs @ [fresh (emptyNonce q) req]"])
         (auto simp: add_def append_item_eq nth_append ins)
  next
    case False
    then have fi: "findIndex ?Q ?xs = int ?k" and kl: "?k < length ?xs"
      using tw by (metis findIndex_some)+
    let ?c = "length ?xs - ?k"
    have sh: "shiftRight q ?xs (int ?k) (int (length ?xs) - 1) = Inr (shifted q ?xs ?k ?c)"
      using shiftRight_loop_eq [of ?k ?c ?xs q] kl by (simp add: shiftRight_def of_nat_diff)
    have len: "length (shifted q ?xs ?k ?c) = Suc (length ?xs)" using kl by (simp add: length_shifted)
    let ?new = "(shifted q ?xs ?k ?c)[?k := bump (replacementRate q) (?xs ! ?k) req]"
    have nk: "shifted q ?xs ?k ?c ! ?k = ?xs ! ?k" using kl len by (simp add: shifted_nth)
    have add: "add q req = new_GasQueue ?new (emptyNonce q + 1) (replacementRate q) (maxQueueDepth q)"
    proof -
      have "replace q (shifted q ?xs ?k ?c) (int ?k) req = Inr ?new"
        using replace_eq [of ?k "shifted q ?xs ?k ?c" q req] kl len nk by simp
      moreover have "int ?k \<noteq> -1" by linarith
      ultimately show ?thesis using room sh by (simp add: add_def fi Let_def)
    qed
    have nth: "?new ! i = (if i < ?k then ?xs ! i
       else if i < length ?xs then bump (replacementRate q) (?xs ! i) (insert_request req (requests q) ! i)
       else fresh (emptyNonce q) (insert_request req (requests q) ! i))" if "i \<le> length ?xs" for i
      using that kl len by (auto simp: nth_list_update shifted_nth ins requests_nth)
    show thesis
      by (rule that [OF add _ nth]) (simp_all add: len)
  qed
qed

lemma add_items_nth:
  assumes "i \<le> length (queueItems q)"
  shows "add_items q req ! i =
    (if i < length (queueItems q)
     then reassign (replacementRate q) (queueItems q ! i) (insert_request req (requests q) ! i)
     else fresh (emptyNonce q) (insert_request req (requests q) ! i))"
  using assms
  by (auto simp: add_items_def Let_def nth_append reassign_def last_conv_nth
      simp flip: length_greater_0_conv)

lemma length_add_items [simp]: "length (add_items q req) = Suc (length (queueItems q))"
  by (simp add: add_items_def Let_def)

lemma map_request_reassign:
  "length rs = length slots \<Longrightarrow> map request (map2 (reassign rr) slots rs) = rs"
  by (rule nth_equalityI) auto

lemma requests_add_items: "map request (add_items q req) = insert_request req (requests q)"
  unfolding add_items_def Let_def by (rule map_request_reassign) simp

lemma idents_distinct_snoc_iff:
  "idents_distinct (queueItems q) \<Longrightarrow>
   distinct (map (\<lambda>r. canon (req_identifier r)) (insert_request req (requests q))) \<longleftrightarrow>
   \<not> contains q (req_identifier req)"
proof -
  assume d: "idents_distinct (queueItems q)"
  let ?c = "\<lambda>r. canon (req_identifier r)"
  have "mset (map ?c (insert_request req (requests q))) = mset (?c req # map ?c (requests q))"
    by (simp add: mset_insert_request)
  then have "distinct (map ?c (insert_request req (requests q))) \<longleftrightarrow> distinct (?c req # map ?c (requests q))"
    by (metis mset_eq_imp_distinct_iff)
  also have "\<dots> \<longleftrightarrow> ?c req \<notin> ?c ` set (requests q)"
    using d by (simp add: idents_distinct_def requests_def comp_def image_image)
  also have "\<dots> \<longleftrightarrow> \<not> contains q (req_identifier req)"
    by (auto simp: contains_def equals_canon requests_def image_iff)
  finally show ?thesis .
qed

text \<open>Slots that keep their nonce and requests in price order make the parts of a well-formed
  queue.\<close>

lemma nonces_toI:
  "(\<And>i. i < length items \<Longrightarrow> nonce (items ! i) = en - int (length items) + int i) \<Longrightarrow> nonces_to items en"
  by (simp add: nonces_to_def)

lemma items_ok_requests_nonneg:
  "items_ok (queueItems q) \<Longrightarrow> r \<in> set (requests q) \<Longrightarrow> 0 \<le> req_idealGasPrice r"
  by (auto simp: requests_def item_ok_def)

lemma items_ok_add_items:
  assumes "items_ok (queueItems q)" "0 \<le> req_idealGasPrice req"
  shows "items_ok (add_items q req)"
proof
  fix x assume "x \<in> set (add_items q req)"
  then obtain i where i: "i \<le> length (queueItems q)" "x = add_items q req ! i"
    by (metis in_set_conv_nth length_add_items less_Suc_eq_le)
  have "insert_request req (requests q) ! i \<in> set (insert_request req (requests q))"
    using i(1) by simp
  then have "insert_request req (requests q) ! i \<in> insert req (set (requests q))"
    by (metis mset_insert_request set_mset_add_mset_insert set_mset_mset)
  then have "0 \<le> req_idealGasPrice (insert_request req (requests q) ! i)"
    using assms items_ok_requests_nonneg by auto
  with i assms show "item_ok x"
    by (auto simp: add_items_nth intro: item_ok_reassign item_ok_fresh)
qed

lemma request_inj:
  assumes "idents_distinct items" "i < length items" "j < length items"
    "request (items ! i) = request (items ! j)"
  shows "i = j"
proof (rule ccontr)
  assume "i \<noteq> j"
  with assms(1-3) have "canon (ident (items ! i)) \<noteq> canon (ident (items ! j))"
    by (auto simp: idents_distinct_def distinct_conv_nth)
  with assms(4) show False by simp
qed

text \<open>The slots after an insertion: those in front of the place of the price are kept, the ones behind are
  bumped, and one is new.\<close>

definition place :: "GasQueue \<Rightarrow> GasQueueItemRequest \<Rightarrow> nat" where
  "place q req = length (takeWhile (\<lambda>r. req_idealGasPrice req \<le> req_idealGasPrice r) (requests q))"

definition slots_added :: "GasQueue \<Rightarrow> GasQueueItemRequest \<Rightarrow> GasQueueItem list \<Rightarrow> bool" where
  "slots_added q req items \<longleftrightarrow> length items = Suc (length (queueItems q)) \<and>
     (\<forall>i \<le> length (queueItems q). items ! i =
        (if i < place q req then queueItems q ! i
         else if i < length (queueItems q)
         then bump (replacementRate q) (queueItems q ! i) (insert_request req (requests q) ! i)
         else fresh (emptyNonce q) (insert_request req (requests q) ! i)))"

lemma place_le: "place q req \<le> length (queueItems q)"
  unfolding place_def by (metis length_requests length_takeWhile_le)

lemma slots_addedD:
  assumes "slots_added q req items"
  shows "length items = Suc (length (queueItems q))"
    and "i \<le> length (queueItems q) \<Longrightarrow> items ! i =
        (if i < place q req then queueItems q ! i
         else if i < length (queueItems q)
         then bump (replacementRate q) (queueItems q ! i) (insert_request req (requests q) ! i)
         else fresh (emptyNonce q) (insert_request req (requests q) ! i))"
  using assms by (simp_all add: slots_added_def)

lemma slots_added_ok:
  assumes inv: "gq_inv q" and ok: "items_ok (queueItems q)" and nn: "0 \<le> req_idealGasPrice req" and new: "slots_added q req items"
  shows "map request items = insert_request req (requests q)" "nonces_to items (emptyNonce q + 1)" "prices_desc items"
    and "idents_distinct items \<longleftrightarrow> \<not> contains q (req_identifier req)"
proof -
  let ?rs = "insert_request req (requests q)"
  note len = slots_addedD(1) [OF new] and nth = slots_addedD(2) [OF new]
  have kle: "place q req \<le> length (queueItems q)" by (rule place_le)
  show reqs: "map request items = ?rs"
    using kle by (intro nth_equalityI) (auto simp: len nth insert_request_nth requests_nth less_Suc_eq_le place_def)
  show "nonces_to items (emptyNonce q + 1)"
    using gq_invD(5) [OF inv] kle by (intro nonces_toI) (auto simp: len nth nonces_to_def less_Suc_eq_le)
  have oks: "items_ok items"
  proof
    fix x assume "x \<in> set items"
    then obtain i where i: "i \<le> length (queueItems q)" "x = items ! i"
      by (metis in_set_conv_nth len less_Suc_eq_le)
    have "?rs ! i \<in> insert req (set (requests q))"
      using i(1) by (metis length_insert_request length_requests less_Suc_eq_le mset_insert_request nth_mem set_mset_add_mset_insert set_mset_mset)
    then have "0 \<le> req_idealGasPrice (?rs ! i)"
      using ok nn items_ok_requests_nonneg by auto
    with i ok kle show "item_ok x" by (auto simp: nth intro: item_ok_bump item_ok_fresh)
  qed
  have "requests_desc ?rs"
    using inv ok by (auto intro: requests_desc_insert simp: gq_inv_def prices_desc_requests requests_def)
  then show "prices_desc items" using oks reqs by (simp add: prices_desc_requests)
  show "idents_distinct items \<longleftrightarrow> \<not> contains q (req_identifier req)"
    unfolding idents_distinct_requests reqs
    by (rule idents_distinct_snoc_iff) (rule gq_invD(7) [OF inv])
qed

text \<open>A request that is not in the queue moves every request behind its place.\<close>

lemma moved_request:
  assumes inv: "gq_inv q" and d: "\<not> contains q (req_identifier req)" and i: "place q req \<le> i" "i < length (queueItems q)"
  shows "insert_request req (requests q) ! i \<noteq> request (queueItems q ! i)"
proof (cases "i = place q req")
  case True
  then have "insert_request req (requests q) ! i = req" using i by (subst insert_request_nth) (auto simp: place_def)
  moreover have "req \<noteq> request (queueItems q ! i)"
    using d i by (auto simp: contains_def equals_canon)
  ultimately show ?thesis by simp
next
  case False
  with i have "insert_request req (requests q) ! i = request (queueItems q ! (i - 1))" "i - 1 \<noteq> i" "i - 1 < length (queueItems q)"
    by (auto simp: insert_request_nth requests_nth place_def)
  with i show ?thesis using request_inj [OF gq_invD(7) [OF inv]] by metis
qed

lemma slots_added_eq:
  assumes inv: "gq_inv q" and d: "\<not> contains q (req_identifier req)" and new: "slots_added q req items"
  shows "items = add_items q req"
proof (rule nth_equalityI)
  fix i assume "i < length items"
  then have i: "i \<le> length (queueItems q)" using slots_addedD(1) [OF new] by simp
  note nth = slots_addedD(2) [OF new i]
  consider "i < place q req" "i < length (queueItems q)" | "place q req \<le> i" "i < length (queueItems q)"
    | "i = length (queueItems q)" using i by linarith
  then show "items ! i = add_items q req ! i"
  proof cases
    case 1
    then have "insert_request req (requests q) ! i = request (queueItems q ! i)"
      by (simp add: insert_request_nth requests_nth place_def)
    with 1 show ?thesis by (simp add: nth add_items_nth reassign_def)
  next
    case 2
    with moved_request [OF inv d 2] show ?thesis by (simp add: nth add_items_nth reassign_def)
  next
    case 3
    with nth place_le [of q req] show ?thesis by (simp add: add_items_nth)
  qed
qed (simp add: slots_addedD(1) [OF new])

text \<open>The outcome of \<open>add\<close> on every branch.\<close>

lemma add_eq:
  assumes inv: "gq_inv q" and ok: "items_ok (queueItems q)" and nn: "0 \<le> req_idealGasPrice req"
  shows "add q req =
    (if depthReached q then Inl (ArgumentError ''Cannot add item. Max queue depth reached.'')
     else if contains q (req_identifier req)
     then Inl (GasQueueError AlreadyAdded ''Identifier found twice in queue.'')
     else Inr \<lparr>queueItems = add_items q req, emptyNonce = emptyNonce q + 1,
               replacementRate = replacementRate q, maxQueueDepth = maxQueueDepth q\<rparr>)"
proof (cases "depthReached q")
  case True
  then show ?thesis by (simp add: add_def)
next
  case room: False
  from raw_add [OF inv ok room] obtain items where
    add: "add q req = new_GasQueue items (emptyNonce q + 1) (replacementRate q) (maxQueueDepth q)"
    and new: "slots_added q req items"
    unfolding slots_added_def place_def by blast
  note N = slots_added_ok [OF inv ok nn new]
  have "add q req = (if idents_distinct items
     then Inr \<lparr>queueItems = items, emptyNonce = emptyNonce q + 1,
               replacementRate = replacementRate q, maxQueueDepth = maxQueueDepth q\<rparr>
     else Inl (GasQueueError AlreadyAdded ''Identifier found twice in queue.''))"
    unfolding add using gq_invD [OF inv] room slots_addedD(1) [OF new]
    by (intro new_GasQueue_eq N(2,3)) (auto simp: depthReached_def)
  then show ?thesis using N(4) room slots_added_eq [OF inv _ new] by auto
qed

section \<open>consume and dequeue\<close>

definition remove_nth :: "nat \<Rightarrow> 'a list \<Rightarrow> 'a list" where
  "remove_nth k xs = take k xs @ drop (Suc k) xs"

lemma length_remove_nth [simp]: "k < length xs \<Longrightarrow> length (remove_nth k xs) = length xs - 1"
  by (simp add: remove_nth_def)

lemma remove_nth_nth:
  "k < length xs \<Longrightarrow> i < length xs - 1 \<Longrightarrow> remove_nth k xs ! i = (if i < k then xs ! i else xs ! Suc i)"
  by (auto simp: remove_nth_def nth_append)

lemma sorted_wrt_remove_nth: "sorted_wrt P xs \<Longrightarrow> sorted_wrt P (remove_nth k xs)"
  unfolding remove_nth_def sorted_wrt_append
  by (auto simp: sorted_wrt_take sorted_wrt_drop)
     (metis append_take_drop_id in_set_dropD drop_Suc drop_tl list.set_sel(2) sorted_wrt_append tl_drop tl_Nil)

lemma set_remove_nth: "set (remove_nth k xs) \<subseteq> set xs"
  unfolding remove_nth_def by (auto dest: in_set_takeD in_set_dropD)

lemma distinct_remove_nth: "distinct xs \<Longrightarrow> distinct (remove_nth k xs)"
  by (simp add: remove_nth_def set_take_disj_set_drop_if_distinct)

lemma map_remove_nth: "map f (remove_nth k xs) = remove_nth k (map f xs)"
  by (simp add: remove_nth_def take_map drop_map)

definition consume_items :: "GasQueue \<Rightarrow> nat \<Rightarrow> GasQueueItem list" where
  "consume_items q k =
     map2 (reassign (replacementRate q)) (drop 1 (queueItems q)) (remove_nth k (requests q))"

lemma requests_consume_items:
  "k < length (queueItems q) \<Longrightarrow> map request (consume_items q k) = remove_nth k (requests q)"
  unfolding consume_items_def by (rule map_request_reassign) simp

lemma nonces_to_tl: "nonces_to items en \<Longrightarrow> nonces_to (drop 1 items) en"
  by (cases items) (auto simp: nonces_to_def)

lemma items_ok_map2_reassign:
  assumes "items_ok slots" "\<forall>r\<in>set rs. 0 \<le> req_idealGasPrice r"
  shows "items_ok (map2 (reassign rr) slots rs)"
  using assms by (auto simp: in_set_zip intro!: item_ok_reassign)

lemma nonces_to_map2_reassign:
  "length rs = length slots \<Longrightarrow> nonces_to slots en \<Longrightarrow> nonces_to (map2 (reassign rr) slots rs) en"
  by (simp add: nonces_to_def)

lemma gq_inv_reassign:
  assumes inv: "gq_inv q" and ok: "items_ok slots" and nn: "\<forall>r\<in>set rs. 0 \<le> req_idealGasPrice r"
    and len: "length rs = length slots" "int (length slots) \<le> maxQueueDepth q"
    and non: "nonces_to slots en" and en: "0 \<le> en"
    and desc: "requests_desc rs" and dist: "distinct (map (\<lambda>r. canon (req_identifier r)) rs)"
  shows "gq_inv \<lparr>queueItems = map2 (reassign (replacementRate q)) slots rs, emptyNonce = en,
                 replacementRate = replacementRate q, maxQueueDepth = maxQueueDepth q\<rparr>"
proof -
  let ?xs = "map2 (reassign (replacementRate q)) slots rs"
  have reqs: "map request ?xs = rs" by (rule map_request_reassign [OF len(1)])
  have oks: "items_ok ?xs" by (rule items_ok_map2_reassign [OF ok nn])
  have "prices_desc ?xs" using oks desc reqs by (simp only: prices_desc_requests)
  moreover have "idents_distinct ?xs" using dist reqs by (simp only: idents_distinct_requests)
  moreover have "nonces_to ?xs en" by (rule nonces_to_map2_reassign [OF len(1) non])
  ultimately show ?thesis using gq_invD(1-3) [OF inv] len en by (simp add: gq_inv_def)
qed

lemma consume_front:
  assumes "queueItems q \<noteq> []" "equals identifier (ident (hd (queueItems q)))"
  shows "consume q identifier = Inl (ArgumentError ''Start index must be less than or equal end index.'')"
  using assms by (cases "queueItems q") (auto simp: consume_def shiftRight_def)

lemma consume_missing:
  "\<not> contains q identifier \<Longrightarrow>
   consume q identifier = Inl (ArgumentError ''Identifier not found in queue.'')"
  by (auto simp: consume_def contains_def equals_canon Let_def)

lemma find_identifier:
  assumes "idents_distinct items" "k < length items" "equals identifier (ident (items ! k))"
  shows "findIndex (\<lambda>item. equals identifier (ident item)) items = int k"
proof -
  have "findIndex (\<lambda>item. equals identifier (ident item)) items \<noteq> -1"
    using assms(2,3) by auto
  then obtain j where j: "findIndex (\<lambda>item. equals identifier (ident item)) items = int j"
    "j < length items" "equals identifier (ident (items ! j))"
    by (rule findIndex_some) blast
  then have "canon (ident (items ! j)) = canon (ident (items ! k))"
    using assms(3) by (simp add: equals_canon)
  with assms(1,2) j(2) have "j = k" by (auto simp: idents_distinct_def distinct_conv_nth)
  with j(1) show ?thesis by simp
qed

lemma consume_eq:
  assumes inv: "gq_inv q" and ok: "items_ok (queueItems q)"
    and k: "0 < k" "k < length (queueItems q)" "equals identifier (ident (queueItems q ! k))"
  shows "consume q identifier =
    Inr \<lparr>queueItems = consume_items q k, emptyNonce = emptyNonce q,
         replacementRate = replacementRate q, maxQueueDepth = maxQueueDepth q\<rparr>"
proof -
  let ?xs = "queueItems q"
  have fi: "findIndex (\<lambda>item. equals identifier (ident item)) ?xs = int k"
    by (rule find_identifier [OF gq_invD(7) [OF inv] k(2,3)])
  have sh: "shiftRight q ?xs 0 (int k - 1) = Inr (shifted q ?xs 0 k)"
    using shiftRight_loop_eq [of 0 k ?xs q] k by (simp add: shiftRight_def)
  have len: "length (shifted q ?xs 0 k) = length ?xs" using k by (simp add: length_shifted)
  have items: "drop 1 (shifted q ?xs 0 k) = consume_items q k"
  proof (rule nth_equalityI)
    fix i assume "i < length (drop 1 (shifted q ?xs 0 k))"
    then have i: "Suc i < length ?xs" by (simp add: len)
    have "request (?xs ! Suc i) \<noteq> request (?xs ! i)"
      using request_inj [OF gq_invD(7) [OF inv], of "Suc i" i] i by auto
    with i k show "drop 1 (shifted q ?xs 0 k) ! i = consume_items q k ! i"
      by (auto simp: consume_items_def len shifted_nth remove_nth_nth requests_nth reassign_def)
  qed (use k in \<open>simp add: consume_items_def len\<close>)
  let ?q = "\<lparr>queueItems = consume_items q k, emptyNonce = emptyNonce q,
         replacementRate = replacementRate q, maxQueueDepth = maxQueueDepth q\<rparr>"
  have "gq_inv ?q" unfolding consume_items_def
  proof (rule gq_inv_reassign [OF inv])
    show "items_ok (drop 1 ?xs)" using ok by (meson in_set_dropD)
    show "\<forall>r\<in>set (remove_nth k (requests q)). 0 \<le> req_idealGasPrice r"
      by (rule ballI) (rule items_ok_requests_nonneg [OF ok subsetD [OF set_remove_nth]])
    show "nonces_to (drop 1 ?xs) (emptyNonce q)" by (rule nonces_to_tl [OF gq_invD(5) [OF inv]])
    show "requests_desc (remove_nth k (requests q))"
      using gq_invD(6) [OF inv] ok unfolding requests_desc_def
      by (intro sorted_wrt_remove_nth) (simp add: prices_desc_requests requests_desc_def requests_def)
    show "distinct (map (\<lambda>r. canon (req_identifier r)) (remove_nth k (requests q)))"
      using gq_invD(7) [OF inv] unfolding map_remove_nth
      by (intro distinct_remove_nth) (simp add: idents_distinct_requests requests_def)
  qed (use k gq_invD(2,4) [OF inv] in auto)
  then have mk: "new_GasQueue (consume_items q k) (emptyNonce q) (replacementRate q) (maxQueueDepth q) = Inr ?q"
    by (simp add: new_GasQueue_Inr_iff)
  have "int k \<noteq> -1" by linarith
  then show ?thesis
    unfolding consume_def fi Let_def sh bind_result.simps items mk by simp
qed

lemma sorted_wrt_drop1: "sorted_wrt P xs \<Longrightarrow> sorted_wrt P (drop 1 xs)"
  by (rule sorted_wrt_drop)

lemma dequeue_eq:
  assumes inv: "gq_inv q"
  shows "dequeue q = Inr (q\<lparr>queueItems := drop 1 (queueItems q)\<rparr>)" (is "_ = Inr ?q")
    and "gq_inv (q\<lparr>queueItems := drop 1 (queueItems q)\<rparr>)"
proof -
  have "nonces_to (drop 1 (queueItems q)) (emptyNonce q)"
    by (rule nonces_to_tl [OF gq_invD(5) [OF inv]])
  moreover have "prices_desc (drop 1 (queueItems q))"
    using gq_invD(6) [OF inv] unfolding prices_desc_def by (rule sorted_wrt_drop1)
  moreover have "idents_distinct (drop 1 (queueItems q))"
    using gq_invD(7) [OF inv] unfolding idents_distinct_def by (simp add: drop_map [symmetric] distinct_drop)
  ultimately show "gq_inv ?q"
    using gq_invD(1-4) [OF inv] by (auto simp: gq_inv_def)
  then show "dequeue q = Inr ?q"
    by (simp add: dequeue_def new_GasQueue_Inr_iff)
qed

section \<open>prepend\<close>

definition prepend_items :: "GasQueue \<Rightarrow> GasQueueItem list \<Rightarrow> GasQueueItem list" where
  "prepend_items q lower =
     (let byNonce = sort_by_nonce (lower @ queueItems q) in
      map2 (reassign (replacementRate q)) byNonce (map request (sort_by_gas byNonce)))"

lemma mset_sort_by_nonce [simp]: "mset (sort_by_nonce xs) = mset xs"
  by (simp add: sort_by_nonce_def)

lemma mset_sort_by_gas [simp]: "mset (sort_by_gas xs) = mset xs"
  by (simp add: sort_by_gas_def)

lemma set_sorts [simp]: "set (sort_by_nonce xs) = set xs" "set (sort_by_gas xs) = set xs"
  by (simp_all add: sort_by_nonce_def sort_by_gas_def)

lemma length_sorts [simp]:
  "length (sort_by_nonce xs) = length xs" "length (sort_by_gas xs) = length xs"
  by (simp_all add: sort_by_nonce_def sort_by_gas_def)

lemma prices_desc_sort_by_gas: "prices_desc (sort_by_gas xs)"
proof -
  have "sorted (map (\<lambda>i. - idealGasPrice i) (sort_by_gas xs))"
    by (simp add: sort_by_gas_def)
  then show ?thesis by (simp add: prices_desc_def sorted_map)
qed

lemma idents_distinct_mset:
  "mset xs = mset ys \<Longrightarrow> idents_distinct xs \<longleftrightarrow> idents_distinct ys"
  unfolding idents_distinct_def by (metis mset_eq_imp_distinct_iff mset_map)

lemma prepend_loop_eq:
  "length byGas = length xs \<Longrightarrow> distinct is \<Longrightarrow> set is \<subseteq> {..<length xs} \<Longrightarrow>
   \<exists>ys. prepend_loop q byGas xs is = Inr ys \<and> length ys = length xs \<and>
     (\<forall>i<length xs. ys ! i =
        (if i \<in> set is \<and> byGas ! i \<noteq> xs ! i
         then bump (replacementRate q) (xs ! i) (request (byGas ! i)) else xs ! i))"
proof (induction "is" arbitrary: xs)
  case Nil
  then show ?case by simp
next
  case (Cons k ks)
  let ?xs = "if byGas ! k \<noteq> xs ! k
             then xs[k := bump (replacementRate q) (xs ! k) (request (byGas ! k))] else xs"
  have k: "k < length xs" using Cons.prems by auto
  have step: "prepend_loop q byGas xs (k # ks) = prepend_loop q byGas ?xs ks"
    using replace_eq [OF k] by (simp add: Let_def)
  have "\<exists>ys. prepend_loop q byGas ?xs ks = Inr ys \<and> length ys = length ?xs \<and>
     (\<forall>i<length ?xs. ys ! i =
        (if i \<in> set ks \<and> byGas ! i \<noteq> ?xs ! i
         then bump (replacementRate q) (?xs ! i) (request (byGas ! i)) else ?xs ! i))"
    using Cons.prems by (intro Cons.IH) auto
  then obtain ys where ys: "prepend_loop q byGas ?xs ks = Inr ys" "length ys = length ?xs"
    "\<forall>i<length ?xs. ys ! i =
        (if i \<in> set ks \<and> byGas ! i \<noteq> ?xs ! i
         then bump (replacementRate q) (?xs ! i) (request (byGas ! i)) else ?xs ! i)"
    by blast
  have "\<forall>i<length xs. ys ! i =
        (if i \<in> set (k # ks) \<and> byGas ! i \<noteq> xs ! i
         then bump (replacementRate q) (xs ! i) (request (byGas ! i)) else xs ! i)"
  proof (intro allI impI)
    fix i assume i: "i < length xs"
    show "ys ! i = (if i \<in> set (k # ks) \<and> byGas ! i \<noteq> xs ! i
         then bump (replacementRate q) (xs ! i) (request (byGas ! i)) else xs ! i)"
    proof (cases "i = k")
      case True
      with Cons.prems(2) ys(3) i show ?thesis by auto
    next
      case False
      then have "?xs ! i = xs ! i" by simp
      with False ys(3) i show ?thesis by simp
    qed
  qed
  with step ys(1,2) show ?case by (intro exI [of _ ys]) auto
qed

lemma item_ok_request_nonneg: "item_ok i \<Longrightarrow> 0 \<le> req_idealGasPrice (request i)"
  by (simp add: item_ok_def)

lemma raw_prepend:
  fixes lower q
  defines "byNonce \<equiv> sort_by_nonce (lower @ queueItems q)"
  obtains items where
    "prepend q lower = new_GasQueue items (emptyNonce q) (replacementRate q) (maxQueueDepth q)"
    "length items = length lower + length (queueItems q)"
    "map request items = map request (sort_by_gas byNonce)"
    "map nonce items = map nonce byNonce"
    "idents_distinct (lower @ queueItems q) \<longrightarrow> items = prepend_items q lower"
proof -
  let ?G = "sort_by_gas byNonce"
  have "length ?G = length byNonce" by simp
  then obtain ys where ys: "prepend_loop q ?G byNonce [0..<length ?G] = Inr ys" "length ys = length byNonce"
    "\<forall>i<length byNonce. ys ! i =
        (if i \<in> set [0..<length ?G] \<and> ?G ! i \<noteq> byNonce ! i
         then bump (replacementRate q) (byNonce ! i) (request (?G ! i)) else byNonce ! i)"
    using prepend_loop_eq [of ?G byNonce "[0..<length ?G]" q] by (auto simp: lessThan_atLeast0)
  have len: "length byNonce = length lower + length (queueItems q)" by (simp add: byNonce_def)
  show thesis
  proof (rule that [of ys])
    show "prepend q lower = new_GasQueue ys (emptyNonce q) (replacementRate q) (maxQueueDepth q)"
      using ys(1) by (simp add: prepend_def Let_def byNonce_def)
    show "length ys = length lower + length (queueItems q)" using ys(2) len by simp
    show "map request ys = map request ?G" using ys(2,3) by (intro nth_equalityI) auto
    show "map nonce ys = map nonce byNonce" using ys(2,3) by (intro nth_equalityI) auto
    have "ys = prepend_items q lower" if d: "idents_distinct (lower @ queueItems q)"
    proof (rule nth_equalityI)
      show "length ys = length (prepend_items q lower)"
        using ys(2) by (simp add: prepend_items_def Let_def byNonce_def)
      fix i assume "i < length ys"
      then have i: "i < length byNonce" using ys(2) by simp
      then have "?G ! i \<in> set byNonce" by (metis nth_mem set_sorts(2) length_sorts(2))
      then obtain j where "j < length byNonce" "?G ! i = byNonce ! j" by (metis in_set_conv_nth)
      moreover have "idents_distinct byNonce"
        using d idents_distinct_mset [of byNonce "lower @ queueItems q"] by (simp add: byNonce_def)
      ultimately have "request (?G ! i) = request (byNonce ! i) \<longleftrightarrow> ?G ! i = byNonce ! i"
        using request_inj i by metis
      then have "ys ! i = reassign (replacementRate q) (byNonce ! i) (request (?G ! i))"
        using ys(3) i by (cases "?G ! i = byNonce ! i") (simp_all add: reassign_def)
      also have "\<dots> = prepend_items q lower ! i"
        using i by (simp add: prepend_items_def Let_def flip: byNonce_def)
      finally show "ys ! i = prepend_items q lower ! i" .
    qed
    then show "idents_distinct (lower @ queueItems q) \<longrightarrow> ys = prepend_items q lower" by blast
  qed
qed

text \<open>\<open>prepend\<close> succeeds exactly when the lower items close the gap below the queue, bring no
  identifier twice and fit; then every slot keeps its nonce and the requests are those of all items
  in price order.\<close>

lemma nonces_to_map: "map nonce xs = map nonce ys \<Longrightarrow> nonces_to xs en \<longleftrightarrow> nonces_to ys en"
  unfolding nonces_to_def by (metis length_map nth_map)

lemma prepend_Inr_iff:
  assumes inv: "gq_inv q" and ok: "items_ok (lower @ queueItems q)"
  shows "prepend q lower = Inr q' \<longleftrightarrow>
     nonces_to (sort_by_nonce (lower @ queueItems q)) (emptyNonce q) \<and>
     idents_distinct (lower @ queueItems q) \<and>
     int (length lower + length (queueItems q)) \<le> maxQueueDepth q \<and>
     q' = \<lparr>queueItems = prepend_items q lower, emptyNonce = emptyNonce q,
           replacementRate = replacementRate q, maxQueueDepth = maxQueueDepth q\<rparr>"
proof -
  let ?N = "sort_by_nonce (lower @ queueItems q)"
  obtain items where
    new: "prepend q lower = new_GasQueue items (emptyNonce q) (replacementRate q) (maxQueueDepth q)"
    and len: "length items = length lower + length (queueItems q)"
    and reqs: "map request items = map request (sort_by_gas ?N)"
    and non: "map nonce items = map nonce ?N"
    and eq: "idents_distinct (lower @ queueItems q) \<longrightarrow> items = prepend_items q lower"
    by (rule raw_prepend [where q = q and lower = lower])
  have dist: "idents_distinct items \<longleftrightarrow> idents_distinct (lower @ queueItems q)"
    using reqs idents_distinct_mset [of "sort_by_gas ?N" "lower @ queueItems q"]
    by (simp add: idents_distinct_requests)
  have "items_ok (prepend_items q lower)"
    unfolding prepend_items_def Let_def
    by (rule items_ok_map2_reassign) (use ok item_ok_request_nonneg in auto)
  moreover have "requests_desc (map request (sort_by_gas ?N))"
    using prices_desc_sort_by_gas prices_desc_requests ok by (metis set_sorts)
  ultimately have pr: "idents_distinct (lower @ queueItems q) \<Longrightarrow> prices_desc items"
    using eq reqs prices_desc_requests by metis
  have "gq_inv \<lparr>queueItems = items, emptyNonce = emptyNonce q,
           replacementRate = replacementRate q, maxQueueDepth = maxQueueDepth q\<rparr> \<longleftrightarrow>
     nonces_to ?N (emptyNonce q) \<and> idents_distinct (lower @ queueItems q) \<and>
     int (length lower + length (queueItems q)) \<le> maxQueueDepth q"
    using gq_invD(1-3) [OF inv] dist pr nonces_to_map [OF non] len
    by (auto simp: gq_inv_def)
  then show ?thesis unfolding new new_GasQueue_Inr_iff using eq by auto
qed

section \<open>difference\<close>

text \<open>After \<open>add\<close> the difference to the old queue is the new tail: every slot from the inserted
  request on, and nothing before it.\<close>

lemma nonces_to_inj:
  assumes "nonces_to xs en" "i < length xs" "j < length xs" "nonce (xs ! i) = nonce (xs ! j)"
  shows "i = j"
proof -
  have "en - int (length xs) + int i = en - int (length xs) + int j"
    using assms unfolding nonces_to_def by metis
  then show ?thesis by simp
qed
end
