(* ===== verification/GasQueueRuns.thy ===== *)
theory GasQueueRuns
  imports GasQueue
begin

text \<open>
  The contract of the gas queue towards its callers: the calls they make, the invariant every call
  keeps, and the promise to the network that a nonce is reused only for a higher price.  The two
  contracts are interpretations of the locales of the prelude on the queue's own operations.
\<close>

section \<open>The queue as an object\<close>

definition gq_ok :: "GasQueue \<Rightarrow> bool" where
  "gq_ok q \<longleftrightarrow> gq_inv q \<and> items_ok (queueItems q)"

lemma gq_okD: "gq_ok q \<Longrightarrow> gq_inv q" "gq_ok q \<Longrightarrow> items_ok (queueItems q)"
  by (auto simp: gq_ok_def)

datatype gq_call =
    Add GasQueueItemRequest
  | Consume PisaTransactionIdentifier
  | Dequeue
  | Prepend "GasQueueItem list"

fun gq_step :: "GasQueue \<Rightarrow> gq_call \<Rightarrow> GasQueue result" where
  "gq_step q (Add req) = add q req"
| "gq_step q (Consume identifier) = consume q identifier"
| "gq_step q Dequeue = dequeue q"
| "gq_step q (Prepend lower) = prepend q lower"

fun gq_call_ok :: "gq_call \<Rightarrow> bool" where
  "gq_call_ok (Add req) \<longleftrightarrow> 0 \<le> req_idealGasPrice req"
| "gq_call_ok (Prepend lower) \<longleftrightarrow> items_ok lower"
| "gq_call_ok _ \<longleftrightarrow> True"

text \<open>The calls that do not bring back mined nonces.\<close>

fun forward_call :: "gq_call \<Rightarrow> bool" where
  "forward_call (Add req) \<longleftrightarrow> 0 \<le> req_idealGasPrice req"
| "forward_call (Prepend lower) \<longleftrightarrow> False"
| "forward_call _ \<longleftrightarrow> True"

lemma forward_call_ok: "forward_call c \<Longrightarrow> gq_call_ok c"
  by (cases c) auto

section \<open>What each call leaves behind\<close>

lemma add_InrD:
  assumes "gq_ok q" "0 \<le> req_idealGasPrice req" "add q req = Inr q'"
  shows "queueItems q' = add_items q req" "emptyNonce q' = emptyNonce q + 1"
    "replacementRate q' = replacementRate q" "maxQueueDepth q' = maxQueueDepth q"
    "\<not> contains q (req_identifier req)" "\<not> depthReached q" "gq_ok q'"
proof -
  note eq = add_eq [OF gq_okD(1) [OF assms(1)] gq_okD(2) [OF assms(1)] assms(2)]
  show *: "queueItems q' = add_items q req" "emptyNonce q' = emptyNonce q + 1"
    "replacementRate q' = replacementRate q" "maxQueueDepth q' = maxQueueDepth q"
    "\<not> contains q (req_identifier req)" "\<not> depthReached q"
    using assms(3) unfolding eq by (auto split: if_splits)
  have "gq_inv q'"
    using assms(3) unfolding add_def by (auto simp: result_simps Let_def new_GasQueue_Inr_iff)
  then show "gq_ok q'"
    using items_ok_add_items [OF gq_okD(2) [OF assms(1)] assms(2)] *(1) by (simp add: gq_ok_def)
qed

lemma consume_InrD:
  assumes "gq_ok q" "consume q identifier = Inr q'"
  obtains k where "0 < k" "k < length (queueItems q)" "equals identifier (ident (queueItems q ! k))"
    "q' = \<lparr>queueItems = consume_items q k, emptyNonce = emptyNonce q,
           replacementRate = replacementRate q, maxQueueDepth = maxQueueDepth q\<rparr>"
proof -
  have "contains q identifier" using assms(2) consume_missing by fastforce
  then obtain k where k: "k < length (queueItems q)" "equals identifier (ident (queueItems q ! k))"
    by (auto simp: contains_def equals_sym in_set_conv_nth)
  have "k \<noteq> 0"
  proof
    assume "k = 0"
    with k have "queueItems q \<noteq> []" "equals identifier (ident (hd (queueItems q)))"
      by (auto simp: hd_conv_nth)
    with assms(2) consume_front show False by fastforce
  qed
  then have "0 < k" by simp
  with k consume_eq [OF gq_okD(1) [OF assms(1)] gq_okD(2) [OF assms(1)]] assms(2) that
  show thesis by fastforce
qed

lemma items_ok_consume_items:
  assumes "items_ok (queueItems q)" shows "items_ok (consume_items q k)"
  unfolding consume_items_def
proof (rule items_ok_map2_reassign)
  show "items_ok (drop 1 (queueItems q))" using assms by (meson in_set_dropD)
  show "\<forall>r\<in>set (remove_nth k (requests q)). 0 \<le> req_idealGasPrice r"
    by (rule ballI) (rule items_ok_requests_nonneg [OF assms subsetD [OF set_remove_nth]])
qed

lemma gq_inv_InrD:
  "consume q identifier = Inr q' \<Longrightarrow> gq_inv q'"
  "dequeue q = Inr q' \<Longrightarrow> gq_inv q'"
  "prepend q lower = Inr q' \<Longrightarrow> gq_inv q'"
  by (auto simp: consume_def dequeue_def prepend_def result_simps Let_def new_GasQueue_Inr_iff)

lemma gq_step_ok:
  assumes "gq_ok q" "gq_call_ok c" "gq_step q c = Inr q'"
  shows "gq_ok q'"
proof (cases c)
  case (Add req)
  with assms show ?thesis using add_InrD(7) by simp
next
  case (Consume idn)
  with assms have c: "consume q idn = Inr q'" by simp
  from consume_InrD [OF assms(1) c] obtain k where "queueItems q' = consume_items q k"
    by (metis GasQueue.select_convs(1))
  with gq_inv_InrD(1) [OF c] items_ok_consume_items [OF gq_okD(2) [OF assms(1)]] show ?thesis
    by (simp add: gq_ok_def)
next
  case Dequeue
  with assms have d: "dequeue q = Inr q'" by simp
  then have "queueItems q' = drop 1 (queueItems q)"
    by (simp add: dequeue_eq(1) [OF gq_okD(1) [OF assms(1)]]) (metis GasQueue.select_convs(1) GasQueue.surjective GasQueue.update_convs(1))
  with gq_inv_InrD(2) [OF d] gq_okD(2) [OF assms(1)] show ?thesis
    by (auto simp: gq_ok_def dest: in_set_dropD)
next
  case (Prepend lower)
  with assms have p: "prepend q lower = Inr q'" and ok: "items_ok (lower @ queueItems q)"
    by (auto simp: gq_ok_def)
  have "items_ok (prepend_items q lower)"
    unfolding prepend_items_def Let_def
    by (rule items_ok_map2_reassign) (use ok item_ok_request_nonneg in auto)
  moreover have "queueItems q' = prepend_items q lower"
    using p prepend_Inr_iff [OF gq_okD(1) [OF assms(1)] ok, of q'] by auto
  ultimately show ?thesis using gq_inv_InrD(3) [OF p] by (simp add: gq_ok_def)
qed

interpretation gq: object_contract gq_step gq_ok "\<lambda>_. gq_call_ok"
  by unfold_locales (rule gq_step_ok)

section \<open>Reuse of nonces\<close>

text \<open>Every item of the later queue at a nonce the earlier queue had reached stands where an item
  of the earlier queue stood, and outbids it.\<close>

definition extends_pool :: "GasQueue \<Rightarrow> GasQueue \<Rightarrow> bool" where
  "extends_pool q q' \<longleftrightarrow>
     replacementRate q' = replacementRate q \<and> emptyNonce q \<le> emptyNonce q' \<and>
     (\<forall>j\<in>set (queueItems q'). nonce j < emptyNonce q \<longrightarrow>
        (\<exists>i\<in>set (queueItems q). nonce i = nonce j \<and> outbids (replacementRate q) i j))"

lemma extends_pool_refl: "extends_pool q q"
  by (auto simp: extends_pool_def)

lemma extends_pool_trans:
  assumes "gq_ok q" "gq_ok q'" "extends_pool q q'" "extends_pool q' q''"
  shows "extends_pool q q''"
  unfolding extends_pool_def
proof (intro conjI ballI impI)
  show "replacementRate q'' = replacementRate q" "emptyNonce q \<le> emptyNonce q''"
    using assms(3,4) by (auto simp: extends_pool_def)
  fix l assume l: "l \<in> set (queueItems q'')" "nonce l < emptyNonce q"
  with assms(3,4) obtain j where j: "j \<in> set (queueItems q')" "nonce j = nonce l"
    "outbids (replacementRate q) j l"
    by (fastforce simp: extends_pool_def)
  with assms(3) l obtain i where i: "i \<in> set (queueItems q)" "nonce i = nonce j"
    "outbids (replacementRate q) i j"
    by (fastforce simp: extends_pool_def)
  have "outbids (replacementRate q) i l"
    using outbids_trans [OF i(3) j(3)] assms(1,2) i(1) j(1) gq_invD(1) [of q]
    by (auto simp: gq_ok_def)
  with i j show "\<exists>i\<in>set (queueItems q). nonce i = nonce l \<and> outbids (replacementRate q) i l"
    by auto
qed

lemma reassign_extends:
  assumes "gq_ok q" "set slots \<subseteq> set (queueItems q)" "x \<in> set (map2 (reassign (replacementRate q)) slots rs)"
  shows "\<exists>i\<in>set (queueItems q). nonce i = nonce x \<and> outbids (replacementRate q) i x"
proof -
  from assms(3) obtain i r where "i \<in> set slots" "x = reassign (replacementRate q) i r"
    by (auto dest: set_zip_leftD)
  with assms(1,2) show ?thesis
    by (intro bexI [of _ i]) (auto simp: gq_ok_def gq_inv_def intro: outbids_reassign)
qed

lemma forward_extends:
  assumes ok: "gq_ok q" and c: "forward_call c" and st: "gq_step q c = Inr q'"
  shows "extends_pool q q'"
proof (cases c)
  case (Add req)
  with c st have nn: "0 \<le> req_idealGasPrice req" and a: "add q req = Inr q'" by auto
  note D = add_InrD [OF ok nn a]
  have "\<exists>i\<in>set (queueItems q). nonce i = nonce x \<and> outbids (replacementRate q) i x"
    if x: "x \<in> set (queueItems q')" and n: "nonce x < emptyNonce q" for x
  proof -
    from x D(1) obtain i where i: "i \<le> length (queueItems q)" "x = add_items q req ! i"
      by (metis in_set_conv_nth length_add_items less_Suc_eq_le)
    with n have l: "i < length (queueItems q)" by (auto simp: add_items_nth split: if_splits)
    with i have "x = reassign (replacementRate q) (queueItems q ! i) (insert_request req (requests q) ! i)"
      by (simp add: add_items_nth)
    with l ok show ?thesis
      by (intro bexI [of _ "queueItems q ! i"])
         (auto simp: gq_ok_def gq_inv_def intro: outbids_reassign)
  qed
  with D show ?thesis by (simp add: extends_pool_def)
next
  case (Consume idn)
  with st have "consume q idn = Inr q'" by simp
  from consume_InrD [OF ok this] obtain k where
    q': "q' = \<lparr>queueItems = consume_items q k, emptyNonce = emptyNonce q,
           replacementRate = replacementRate q, maxQueueDepth = maxQueueDepth q\<rparr>" by metis
  have "set (drop 1 (queueItems q)) \<subseteq> set (queueItems q)" by (auto dest: in_set_dropD)
  from reassign_extends [OF ok this] show ?thesis
    unfolding q' extends_pool_def consume_items_def by simp
next
  case Dequeue
  with st ok show ?thesis
    by (force simp: gq_ok_def dequeue_eq extends_pool_def dest: in_set_dropD)
qed (use c in simp)

interpretation fwd: monotone_object gq_step gq_ok "\<lambda>_. forward_call" extends_pool
  by unfold_locales
     (auto intro: gq_step_ok forward_call_ok extends_pool_refl extends_pool_trans forward_extends)

lemma same_nonce_same_item:
  assumes "nonces_to xs en" "a \<in> set xs" "b \<in> set xs" "nonce a = nonce b"
  shows "a = b"
  using assms nonces_to_inj by (metis in_set_conv_nth)


text \<open>A request of the new queue at or behind the insertion point is not the one its slot had.\<close>

lemma insert_request_neq:
  fixes q req
  defines "k \<equiv> length (takeWhile (\<lambda>r. req_idealGasPrice req \<le> req_idealGasPrice r) (requests q))"
  assumes d: "idents_distinct (queueItems q)" "\<not> contains q (req_identifier req)"
    and i: "k \<le> i" "i < length (queueItems q)"
  shows "insert_request req (requests q) ! i \<noteq> request (queueItems q ! i)"
proof (cases "i = k")
  case True
  then have "insert_request req (requests q) ! i = req"
    using i by (simp add: insert_request_nth k_def)
  moreover have "req \<noteq> request (queueItems q ! i)"
    using d(2) i(2) by (auto simp: contains_def equals_canon)
  ultimately show ?thesis by simp
next
  case False
  with i have "insert_request req (requests q) ! i = request (queueItems q ! (i - 1))" "i - 1 \<noteq> i"
    "i - 1 < length (queueItems q)"
    by (auto simp: insert_request_nth requests_nth k_def)
  with i(2) request_inj [OF d(1)] show ?thesis by metis
qed

lemma filter_prefix:
  assumes "k \<le> length xs" "\<And>i. i < k \<Longrightarrow> \<not> P (xs ! i)" "\<And>i. k \<le> i \<Longrightarrow> i < length xs \<Longrightarrow> P (xs ! i)"
  shows "filter P xs = drop k xs"
proof -
  have "filter P (take k xs) = []" using assms(1,2) by (auto simp: filter_empty_conv in_set_conv_nth)
  moreover have "filter P (drop k xs) = drop k xs" using assms(1,3) by (auto simp: filter_id_conv in_set_conv_nth)
  ultimately show ?thesis by (metis append_take_drop_id filter_append self_append_conv2)
qed

lemma add_difference_tail:
  assumes ok: "gq_ok q" and nn: "0 \<le> req_idealGasPrice req" and a: "add q req = Inr q'"
  shows "difference q' q =
    drop (length (takeWhile (\<lambda>r. req_idealGasPrice req \<le> req_idealGasPrice r) (requests q))) (queueItems q')"
proof -
  let ?k = "length (takeWhile (\<lambda>r. req_idealGasPrice req \<le> req_idealGasPrice r) (requests q))"
  let ?n = "length (queueItems q)"
  note D = add_InrD [OF ok nn a]
  note I = gq_invD [OF gq_okD(1) [OF ok]]
  have k: "?k \<le> ?n" by (metis length_requests length_takeWhile_le)
  have old: "queueItems q' ! i \<in> set (queueItems q)" if "i < ?k" for i
    using that k by (simp add: D(1) add_items_nth reassign_def insert_request_nth requests_nth)
  have new: "queueItems q' ! i \<notin> set (queueItems q)" if i: "?k \<le> i" "i \<le> ?n" for i
  proof
    assume "queueItems q' ! i \<in> set (queueItems q)"
    then obtain j where j: "j < ?n" "queueItems q ! j = queueItems q' ! i" by (metis in_set_conv_nth)
    have "nonce (queueItems q ! j) = emptyNonce q - int ?n + int j"
      using I(5) j(1) by (simp add: nonces_to_def)
    moreover have "nonce (queueItems q' ! i) = emptyNonce q - int ?n + int i"
      using I(5) i(2) by (cases "i = ?n") (auto simp: D(1) add_items_nth nonces_to_def)
    ultimately have "j = i" using j(2) by simp
    with j have e: "queueItems q ! i = reassign (replacementRate q) (queueItems q ! i) (insert_request req (requests q) ! i)" "i < ?n"
      by (auto simp: D(1) add_items_nth)
    from e(1) have "request (queueItems q ! i) = insert_request req (requests q) ! i"
      by (metis reassign_simps(1))
    with e(2) insert_request_neq [OF I(7) D(5) i(1)] show False by simp
  qed
  show ?thesis unfolding difference_def
    by (rule filter_prefix) (use k old new in \<open>auto simp: D(1)\<close>)
qed

section \<open>Mined transactions and reorganisations\<close>

text \<open>The nonces of the queue are those below the empty nonce, and an item that was removed from
  behind the front keeps, in its record, a nonce that another item of the queue has taken over.\<close>

lemma consumed_item_collides:
  assumes ok: "gq_ok q" and k: "0 < k" "k < length (queueItems q)"
  shows "\<exists>j\<in>set (consume_items q k). nonce j = nonce (queueItems q ! k)"
proof -
  have "consume_items q k ! (k - 1) \<in> set (consume_items q k)"
    using k by (intro nth_mem) (simp add: consume_items_def)
  moreover have "nonce (consume_items q k ! (k - 1)) = nonce (queueItems q ! k)"
    using k by (simp add: consume_items_def)
  ultimately show ?thesis by blast
qed

lemma sort_by_nonce_collision:
  assumes "a \<in> set xs" "b \<in> set ys" "nonce a = nonce b"
  shows "\<not> nonces_to (sort_by_nonce (xs @ ys)) en"
proof
  assume n: "nonces_to (sort_by_nonce (xs @ ys)) en"
  have "distinct (map nonce (sort_by_nonce (xs @ ys)))"
    unfolding distinct_conv_nth using nonces_to_inj [OF n] by auto
  then have "distinct (map nonce (xs @ ys))"
    by (metis mset_eq_imp_distinct_iff mset_map mset_sort_by_nonce)
  with assms show False by (auto simp: image_iff)
qed

lemma prepend_collision:
  assumes q: "gq_inv q" "items_ok (lower @ queueItems q)"
    and "a \<in> set lower" "b \<in> set (queueItems q)" "nonce a = nonce b"
  shows "\<exists>e. prepend q lower = Inl e"
proof (cases "prepend q lower")
  case (Inr q')
  then show ?thesis
    using prepend_Inr_iff [OF q] sort_by_nonce_collision [OF assms(3-5)] by blast
qed simp

text \<open>Items taken from the front in order can be put back.\<close>

lemma sort_key_id: "sorted (map f xs) \<Longrightarrow> sort_key f xs = xs"
  by (induction xs) (auto simp: insort_is_Cons)

lemma nonces_to_sorted: "nonces_to xs en \<Longrightarrow> sort_by_nonce xs = xs"
  unfolding sort_by_nonce_def
  by (rule sort_key_id) (auto simp: nonces_to_def sorted_iff_nth_mono)

lemma prices_desc_sorted: "prices_desc xs \<Longrightarrow> sort_by_gas xs = xs"
  unfolding sort_by_gas_def
  by (rule sort_key_id) (simp add: prices_desc_def sorted_map)

lemma map2_reassign_id: "map2 (reassign rr) xs (map request xs) = xs"
  by (rule nth_equalityI) (auto simp: reassign_def)

lemma prepend_taken:
  assumes ok: "gq_ok q"
  shows "prepend (q\<lparr>queueItems := drop m (queueItems q)\<rparr>) (take m (queueItems q)) = Inr q"
proof -
  let ?d = "q\<lparr>queueItems := drop m (queueItems q)\<rparr>"
  note I = gq_invD [OF gq_okD(1) [OF ok]]
  obtain items where
    new: "prepend ?d (take m (queueItems q)) = new_GasQueue items (emptyNonce q) (replacementRate q) (maxQueueDepth q)"
    and eq: "idents_distinct (queueItems q) \<longrightarrow> items = prepend_items ?d (take m (queueItems q))"
    by (rule raw_prepend [where q = ?d and lower = "take m (queueItems q)"]) simp
  have "items = queueItems q"
    using eq I(5-7) by (simp add: prepend_items_def Let_def nonces_to_sorted prices_desc_sorted map2_reassign_id)
  with new gq_okD(1) [OF ok] show ?thesis by (simp add: new_GasQueue_Inr_iff)
qed

lemma gq_ok_drop:
  assumes "gq_ok q" shows "gq_ok (q\<lparr>queueItems := drop m (queueItems q)\<rparr>)"
proof (induction m)
  case 0
  with assms show ?case by simp
next
  case (Suc m)
  let ?q = "q\<lparr>queueItems := drop m (queueItems q)\<rparr>"
  have "dequeue ?q = Inr (?q\<lparr>queueItems := drop 1 (queueItems ?q)\<rparr>)"
    by (rule dequeue_eq(1) [OF gq_okD(1) [OF Suc]])
  then have "gq_step ?q Dequeue = Inr (q\<lparr>queueItems := drop (Suc m) (queueItems q)\<rparr>)"
    by simp
  with Suc show ?case using gq_step_ok [of ?q Dequeue] by simp
qed

lemma run_dequeues:
  assumes "gq_ok q"
  shows "run_ops gq_step q (replicate m Dequeue) = q\<lparr>queueItems := drop m (queueItems q)\<rparr>"
  using assms
proof (induction m arbitrary: q)
  case (Suc m)
  have "dequeue q = Inr (q\<lparr>queueItems := drop 1 (queueItems q)\<rparr>)"
    by (rule dequeue_eq(1) [OF gq_okD(1) [OF Suc.prems]])
  with Suc.IH [OF gq_ok_drop [OF Suc.prems, of 1]] show ?case by simp
qed simp


section \<open>Properties\<close>

text \<open>A queue of three transactions at nonces 5 to 7, on which the theorems are instantiated.\<close>

abbreviation ex_ident :: "string \<Rightarrow> PisaTransactionIdentifier" where
  "ex_ident d \<equiv> \<lparr>id_chainId = 1, id_data = d, id_to = ''0xAb'', id_value = 0, id_gasLimit = 100\<rparr>"

abbreviation ex_req :: "string \<Rightarrow> int \<Rightarrow> GasQueueItemRequest" where
  "ex_req d p \<equiv> \<lparr>req_identifier = ex_ident d, req_idealGasPrice = p, req_id = d, req_blockObserved = 0\<rparr>"

abbreviation ex_item :: "string \<Rightarrow> int \<Rightarrow> int \<Rightarrow> GasQueueItem" where
  "ex_item d p n \<equiv> \<lparr>request = ex_req d p, nonceGasPrice = p, idealGasPrice = p, nonce = n\<rparr>"

definition ex_queue :: GasQueue where
  "ex_queue = \<lparr>queueItems = [ex_item ''a'' 30 5, ex_item ''b'' 20 6, ex_item ''c'' 10 7],
     emptyNonce = 8, replacementRate = 12, maxQueueDepth = 13\<rparr>"

lemma ex_queue_ok: "gq_ok ex_queue"
  by (simp add: gq_ok_def gq_inv_def ex_queue_def nonces_to_def prices_desc_def idents_distinct_def
      canon_def item_ok_def All_less_Suc numeral_3_eq_3)

text \<open>The constructor of the queue returns exactly when the items are well formed (consecutive
  nonces up to the empty nonce, ideal prices descending, no identifier twice, not too deep, positive
  rate and depth), and then holds what it was given.\<close>

lemma constructor_accepts_well_formed:
  "new_GasQueue items en rr md = Inr q \<longleftrightarrow>
     q = \<lparr>queueItems = items, emptyNonce = en, replacementRate = rr, maxQueueDepth = md\<rparr> \<and>
     1 \<le> rr \<and> 0 \<le> en \<and> 1 \<le> md \<and> int (length items) \<le> md \<and>
     nonces_to items en \<and> prices_desc items \<and> idents_distinct items"
  unfolding new_GasQueue_Inr_iff by (auto simp: gq_inv_def)

text \<open>C6: \<open>add\<close> on every branch: a full queue and a known identifier throw; otherwise the request is
  inserted behind the requests of at least its price, one more nonce is used, and every slot keeps its
  item or is bumped to the request that moved there.\<close>

theorem add_outcome:
  assumes "gq_ok q" "0 \<le> req_idealGasPrice req"
  shows "add q req =
    (if depthReached q then Inl (ArgumentError ''Cannot add item. Max queue depth reached.'')
     else if contains q (req_identifier req)
     then Inl (GasQueueError AlreadyAdded ''Identifier found twice in queue.'')
     else let rs = insert_request req (requests q) in
       Inr \<lparr>queueItems = map2 (reassign (replacementRate q))
                           (queueItems q @ [fresh (emptyNonce q) (last rs)]) rs,
            emptyNonce = emptyNonce q + 1,
            replacementRate = replacementRate q, maxQueueDepth = maxQueueDepth q\<rparr>)"
  using add_eq [OF gq_okD(1) [OF assms(1)] gq_okD(2) [OF assms(1)] assms(2)]
  by (simp add: add_items_def Let_def)

theorem add_outcome_witness:
  "add ex_queue (ex_req ''d'' 20) =
     Inr \<lparr>queueItems = [ex_item ''a'' 30 5, ex_item ''b'' 20 6,
            \<lparr>request = ex_req ''d'' 20, nonceGasPrice = 20, idealGasPrice = 20, nonce = 7\<rparr>,
            ex_item ''c'' 10 8], emptyNonce = 9, replacementRate = 12, maxQueueDepth = 13\<rparr>"
  using add_outcome [OF ex_queue_ok, of "ex_req ''d'' 20"]
  by (simp add: ex_queue_def depthReached_def contains_def insert_request_def requests_def
      reassign_def bump_def fresh_def equals_def getReplacementGasPrice_def bn_div_def)

text \<open>C13: \<open>consume\<close> on every branch: an unknown identifier and the one at the front throw; the item at
  a later index is removed, the lowest nonce leaves the queue, and the requests in front of the item
  move up one nonce.\<close>

theorem consume_outcome:
  assumes "gq_ok q"
  shows "(\<not> contains q idn \<longrightarrow>
            consume q idn = Inl (ArgumentError ''Identifier not found in queue.'')) \<and>
         (queueItems q \<noteq> [] \<and> equals idn (ident (hd (queueItems q))) \<longrightarrow>
            consume q idn = Inl (ArgumentError ''Start index must be less than or equal end index.'')) \<and>
         (\<forall>k. 0 < k \<and> k < length (queueItems q) \<and> equals idn (ident (queueItems q ! k)) \<longrightarrow>
            consume q idn =
              Inr \<lparr>queueItems = map2 (reassign (replacementRate q)) (drop 1 (queueItems q))
                                  (remove_nth k (requests q)),
                   emptyNonce = emptyNonce q, replacementRate = replacementRate q,
                   maxQueueDepth = maxQueueDepth q\<rparr>)"
  using consume_missing consume_front
    consume_eq [OF gq_okD(1) [OF assms] gq_okD(2) [OF assms]]
  by (auto simp: consume_items_def)

theorem consume_outcome_witness:
  "consume ex_queue (ex_ident ''c'') =
     Inr \<lparr>queueItems = [\<lparr>request = ex_req ''a'' 30, nonceGasPrice = 30, idealGasPrice = 30, nonce = 6\<rparr>,
            \<lparr>request = ex_req ''b'' 20, nonceGasPrice = 20, idealGasPrice = 20, nonce = 7\<rparr>],
          emptyNonce = 8, replacementRate = 12, maxQueueDepth = 13\<rparr>"
proof -
  have "equals (ex_ident ''c'') (ident (queueItems ex_queue ! 2))" "2 < length (queueItems ex_queue)"
    by (simp_all add: ex_queue_def equals_def)
  with consume_outcome [OF ex_queue_ok, of "ex_ident ''c''"]
  have "consume ex_queue (ex_ident ''c'') =
      Inr \<lparr>queueItems = map2 (reassign (replacementRate ex_queue)) (drop 1 (queueItems ex_queue))
                          (remove_nth 2 (requests ex_queue)),
           emptyNonce = emptyNonce ex_queue, replacementRate = replacementRate ex_queue,
           maxQueueDepth = maxQueueDepth ex_queue\<rparr>"
    by (meson zero_less_numeral)
  then show ?thesis
    by (simp add: ex_queue_def remove_nth_def requests_def reassign_def bump_def
        getReplacementGasPrice_def bn_div_def numeral_2_eq_2)
qed

text \<open>\<open>prepend\<close> returns exactly when the lower items and the queue have gapless nonces up to the
  empty nonce, no identifier twice, and fit in the queue.  Then the slots keep their nonces and hold
  the requests of all items ordered by ideal price.\<close>

lemma prepend_outcome:
  assumes "gq_ok q" "items_ok lower"
  shows "prepend q lower = Inr q' \<longleftrightarrow>
     nonces_to (sort_by_nonce (lower @ queueItems q)) (emptyNonce q) \<and>
     idents_distinct (lower @ queueItems q) \<and>
     int (length lower + length (queueItems q)) \<le> maxQueueDepth q \<and>
     q' = \<lparr>queueItems = map2 (reassign (replacementRate q)) (sort_by_nonce (lower @ queueItems q))
                           (map request (sort_by_gas (sort_by_nonce (lower @ queueItems q)))),
           emptyNonce = emptyNonce q,
           replacementRate = replacementRate q, maxQueueDepth = maxQueueDepth q\<rparr>"
proof -
  have "items_ok (lower @ queueItems q)" using assms by (auto simp: gq_ok_def)
  from prepend_Inr_iff [OF gq_okD(1) [OF assms(1)] this] show ?thesis
    by (simp add: prepend_items_def Let_def)
qed

text \<open>C5: Whatever calls a client makes, including those that throw, the queue stays well formed:
  nonces consecutive up to the empty nonce, prices descending, identifiers distinct, depth bounded,
  and every item priced at least at its ideal price.\<close>

theorem queue_stays_well_formed:
  assumes "gq_ok q" "\<forall>c\<in>set calls. gq_call_ok c"
  shows "gq_ok (run_ops gq_step q calls)"
  using assms by (intro gq.run_inv) auto

theorem queue_stays_well_formed_witness:
  "gq_ok (run_ops gq_step ex_queue [Add (ex_req ''d'' 50), Consume (ex_ident ''c''), Dequeue, Consume (ex_ident ''q'')])"
  by (rule queue_stays_well_formed [OF ex_queue_ok]) simp

text \<open>C3: The promise to the network: through any sequence of \<open>add\<close>, \<open>consume\<close> and
  \<open>dequeue\<close>, an item that stands at a nonce an earlier item stood at is that item, or offers a
  gas price higher by at least the replacement rate.\<close>

theorem nonce_reuse_outbids:
  assumes ok: "gq_ok q" and calls: "\<forall>c\<in>set (xs @ ys). forward_call c"
    and i: "i \<in> set (queueItems (run_ops gq_step q xs))"
    and j: "j \<in> set (queueItems (run_ops gq_step q (xs @ ys)))"
    and n: "nonce i = nonce j"
  shows "j = i \<or> nonceGasPrice i * (100 + replacementRate q) \<le> 100 * nonceGasPrice j"
proof -
  let ?s = "run_ops gq_step q xs"
  have s: "gq_ok ?s" using calls by (intro gq.run_inv [OF ok]) (auto intro: forward_call_ok)
  have rate: "replacementRate ?s = replacementRate q"
    using fwd.run_rel [OF ok, of xs] calls by (auto simp: extends_pool_def)
  note I = gq_invD [OF gq_okD(1) [OF s]]
  have "nonce i < emptyNonce ?s"
    using i I(5) by (auto simp: in_set_conv_nth nonces_to_def)
  moreover have "extends_pool ?s (run_ops gq_step q (xs @ ys))"
    using calls by (intro fwd.run_rel_later [OF ok]) auto
  ultimately obtain i' where "i' \<in> set (queueItems ?s)" "nonce i' = nonce j" "outbids (replacementRate q) i' j"
    using j n rate by (auto simp: extends_pool_def)
  moreover from this have "i' = i" using same_nonce_same_item [OF I(5)] i n by metis
  ultimately show ?thesis by (simp add: outbids_def)
qed

theorem nonce_reuse_outbids_witness:
  "ex_item ''c'' 10 7 \<in> set (queueItems (run_ops gq_step ex_queue [])) \<and>
   \<lparr>request = ex_req ''b'' 20, nonceGasPrice = 20, idealGasPrice = 20, nonce = 7\<rparr> \<in>
     set (queueItems (run_ops gq_step ex_queue ([] @ [Add (ex_req ''d'' 25)]))) \<and>
   10 * (100 + replacementRate ex_queue) \<le> 100 * (20::int)"
proof -
  let ?i = "ex_item ''c'' 10 7"
  let ?j = "\<lparr>request = ex_req ''b'' 20, nonceGasPrice = 20, idealGasPrice = 20, nonce = 7\<rparr>"
  have i: "?i \<in> set (queueItems (run_ops gq_step ex_queue []))" by (simp add: ex_queue_def)
  have "add ex_queue (ex_req ''d'' 25) =
     Inr \<lparr>queueItems = add_items ex_queue (ex_req ''d'' 25), emptyNonce = 9, replacementRate = 12, maxQueueDepth = 13\<rparr>"
    by (simp add: add_eq [OF gq_okD(1) [OF ex_queue_ok] gq_okD(2) [OF ex_queue_ok]])
       (simp add: ex_queue_def depthReached_def contains_def equals_def)
  then have j: "?j \<in> set (queueItems (run_ops gq_step ex_queue ([] @ [Add (ex_req ''d'' 25)])))"
    by (simp add: ex_queue_def add_items_def insert_request_def requests_def reassign_def bump_def
        getReplacementGasPrice_def bn_div_def)
  have "?j = ?i \<or> nonceGasPrice ?i * (100 + replacementRate ex_queue) \<le> 100 * nonceGasPrice ?j"
    by (rule nonce_reuse_outbids [OF ex_queue_ok _ i j]) simp_all
  with i j show ?thesis by simp
qed

text \<open>A transaction that was mined at an earlier nonce than the one the queue has it at cannot be put
  back: \<open>consume\<close> leaves its record with a nonce that another transaction of the queue now uses.\<close>

lemma consumed_item_cannot_be_prepended:
  assumes "gq_ok q" "0 < k" "k < length (queueItems q)"
    and "equals idn (ident (queueItems q ! k))" "consume q idn = Inr q'"
  shows "\<exists>e. prepend q' [queueItems q ! k] = Inl e"
proof -
  have q': "queueItems q' = consume_items q k" "gq_inv q'"
    using consume_eq [OF gq_okD(1) [OF assms(1)] gq_okD(2) [OF assms(1)] assms(2-4)] assms(5) gq_inv_InrD(1)
    by auto
  from consumed_item_collides [OF assms(1-3)] obtain j where
    j: "j \<in> set (queueItems q')" "nonce (queueItems q ! k) = nonce j"
    using q'(1) by fastforce
  have "items_ok ([queueItems q ! k] @ queueItems q')"
    using q'(1) items_ok_consume_items [OF gq_okD(2) [OF assms(1)]] gq_okD(2) [OF assms(1)] assms(3) by auto
  then show ?thesis by (rule prepend_collision [OF q'(2) _ _ j]) simp
qed

text \<open>The replacement price is the old price raised by the rate, rounded up.\<close>

lemma replacement_price_rounds_up:
  assumes "0 \<le> p" "1 \<le> rr"
  shows "p * (100 + rr) \<le> 100 * getReplacementGasPrice p rr \<and>
    100 * getReplacementGasPrice p rr < p * (100 + rr) + 100"
  using getReplacementGasPrice_ge [OF assms] getReplacementGasPrice_less [OF assms] by simp

end
