(* ===== verification/GasQueueJson.thy ===== *)
theory GasQueueJson
  imports GasQueueRuns
begin

text \<open>
  The JSON forms of identifiers, requests, items and queues (the \<open>serialise\<close> and
  \<open>deserialise\<close> methods of src/src/responder/gasQueue.ts), which the responder store writes to the
  database.  How a \<open>BigNumber\<close> prints and parses is the library's business: the three functions
  of the \<open>BigNumberCodec\<close> are parameters, and \<open>codec_ok\<close> is what the library documents, that a
  printed number parses to itself.
\<close>

record BigNumberCodec =
  bn_toString :: "int \<Rightarrow> string"
  bn_toHexString :: "int \<Rightarrow> string"
  bn_parse :: "string \<Rightarrow> int result"

definition codec_ok :: "BigNumberCodec \<Rightarrow> bool" where
  "codec_ok bn \<longleftrightarrow>
     (\<forall>x. bn_parse bn (bn_toString bn x) = Inr x) \<and> (\<forall>x. bn_parse bn (bn_toHexString bn x) = Inr x)"

section \<open>Serialised forms\<close>

record PisaTransactionIdentifierSerialisation =
  sid_chainId :: int
  sid_data :: string
  sid_to :: string
  sid_value :: string
  sid_gasLimit :: string

definition serialise_identifier ::
  "BigNumberCodec \<Rightarrow> PisaTransactionIdentifier \<Rightarrow> PisaTransactionIdentifierSerialisation" where
  "serialise_identifier bn i =
     \<lparr>sid_chainId = id_chainId i, sid_data = id_data i, sid_to = id_to i,
      sid_value = bn_toString bn (id_value i), sid_gasLimit = bn_toString bn (id_gasLimit i)\<rparr>"

definition deserialise_identifier ::
  "BigNumberCodec \<Rightarrow> PisaTransactionIdentifierSerialisation \<Rightarrow> PisaTransactionIdentifier result" where
  "deserialise_identifier bn s =
     bind_result (bn_parse bn (sid_value s)) (\<lambda>v.
     bind_result (bn_parse bn (sid_gasLimit s)) (\<lambda>g.
       Inr \<lparr>id_chainId = sid_chainId s, id_data = sid_data s, id_to = sid_to s,
            id_value = v, id_gasLimit = g\<rparr>))"

record GasQueueItemRequestSerialisation =
  sreq_identifier :: PisaTransactionIdentifierSerialisation
  sreq_idealGasPrice :: string
  sreq_appointmentId :: string
  sreq_blockObserved :: int

definition serialise_request ::
  "BigNumberCodec \<Rightarrow> GasQueueItemRequest \<Rightarrow> GasQueueItemRequestSerialisation" where
  "serialise_request bn r =
     \<lparr>sreq_identifier = serialise_identifier bn (req_identifier r),
      sreq_idealGasPrice = bn_toString bn (req_idealGasPrice r),
      sreq_appointmentId = req_id r, sreq_blockObserved = req_blockObserved r\<rparr>"

definition deserialise_request ::
  "BigNumberCodec \<Rightarrow> GasQueueItemRequestSerialisation \<Rightarrow> GasQueueItemRequest result" where
  "deserialise_request bn s =
     bind_result (deserialise_identifier bn (sreq_identifier s)) (\<lambda>i.
     bind_result (bn_parse bn (sreq_idealGasPrice s)) (\<lambda>p.
       Inr \<lparr>req_identifier = i, req_idealGasPrice = p,
            req_id = sreq_appointmentId s, req_blockObserved = sreq_blockObserved s\<rparr>))"

record GasQueueItemSerialisation =
  sitem_request :: GasQueueItemRequestSerialisation
  sitem_nonceGasPrice :: string
  sitem_idealGasPrice :: string
  sitem_nonce :: int

definition serialise_item :: "BigNumberCodec \<Rightarrow> GasQueueItem \<Rightarrow> GasQueueItemSerialisation" where
  "serialise_item bn i =
     \<lparr>sitem_request = serialise_request bn (request i),
      sitem_nonceGasPrice = bn_toHexString bn (nonceGasPrice i),
      sitem_idealGasPrice = bn_toHexString bn (idealGasPrice i),
      sitem_nonce = nonce i\<rparr>"

definition deserialise_item :: "BigNumberCodec \<Rightarrow> GasQueueItemSerialisation \<Rightarrow> GasQueueItem result" where
  "deserialise_item bn s =
     bind_result (deserialise_request bn (sitem_request s)) (\<lambda>r.
     bind_result (bn_parse bn (sitem_nonceGasPrice s)) (\<lambda>ngp.
     bind_result (bn_parse bn (sitem_idealGasPrice s)) (\<lambda>igp.
       new_GasQueueItem r ngp igp (sitem_nonce s))))"

record GasQueueSerialisation =
  sq_queueItems :: "GasQueueItemSerialisation list"
  sq_emptyNonce :: int
  sq_replacementRate :: int
  sq_maxQueueDepth :: int

definition serialise_queue :: "BigNumberCodec \<Rightarrow> GasQueue \<Rightarrow> GasQueueSerialisation" where
  "serialise_queue bn q =
     \<lparr>sq_queueItems = map (serialise_item bn) (queueItems q), sq_emptyNonce = emptyNonce q,
      sq_replacementRate = replacementRate q, sq_maxQueueDepth = maxQueueDepth q\<rparr>"

definition deserialise_queue :: "BigNumberCodec \<Rightarrow> GasQueueSerialisation \<Rightarrow> GasQueue result" where
  "deserialise_queue bn s =
     bind_result (map_result (deserialise_item bn) (sq_queueItems s)) (\<lambda>items.
       new_GasQueue items (sq_emptyNonce s) (sq_replacementRate s) (sq_maxQueueDepth s))"

section \<open>Round trips\<close>

text \<open>An item that the constructor of \<open>GasQueueItem\<close> accepts.\<close>

definition constructible :: "GasQueueItem \<Rightarrow> bool" where
  "constructible i \<longleftrightarrow> idealGasPrice i \<le> nonceGasPrice i"

lemma item_ok_constructible: "item_ok i \<Longrightarrow> constructible i"
  by (simp add: item_ok_def constructible_def)

lemma codec_okD:
  "codec_ok bn \<Longrightarrow> bn_parse bn (bn_toString bn x) = Inr x"
  "codec_ok bn \<Longrightarrow> bn_parse bn (bn_toHexString bn x) = Inr x"
  by (auto simp: codec_ok_def)

lemma identifier_roundtrip:
  "codec_ok bn \<Longrightarrow> deserialise_identifier bn (serialise_identifier bn i) = Inr i"
  by (simp add: serialise_identifier_def deserialise_identifier_def codec_okD)

lemma request_roundtrip:
  "codec_ok bn \<Longrightarrow> deserialise_request bn (serialise_request bn r) = Inr r"
  by (simp add: serialise_request_def deserialise_request_def identifier_roundtrip codec_okD)

lemma item_roundtrip:
  "codec_ok bn \<Longrightarrow> constructible i \<Longrightarrow> deserialise_item bn (serialise_item bn i) = Inr i"
  by (simp add: serialise_item_def deserialise_item_def request_roundtrip codec_okD
      new_GasQueueItem_def constructible_def)

lemma queue_roundtrip:
  assumes "codec_ok bn" "gq_inv q" "\<forall>i\<in>set (queueItems q). constructible i"
  shows "deserialise_queue bn (serialise_queue bn q) = Inr q"
proof -
  have "map_result (deserialise_item bn) (map (serialise_item bn) (queueItems q)) = Inr (queueItems q)"
    using assms(1,3) by (intro map_result_Inr) (auto intro: item_roundtrip)
  with assms(2) show ?thesis
    by (simp add: deserialise_queue_def serialise_queue_def new_GasQueue_Inr_iff)
qed

section \<open>Properties\<close>

text \<open>A codec that satisfies the law: numbers written in unary, with their sign.\<close>

definition unary_codec :: BigNumberCodec where
  "unary_codec =
     (let pr = (\<lambda>x::int. (if x < 0 then CHR ''-'' # replicate (nat (- x)) CHR ''1''
                          else CHR ''+'' # replicate (nat x) CHR ''1''))
      in \<lparr>bn_toString = pr, bn_toHexString = pr,
          bn_parse = (\<lambda>s. case s of [] \<Rightarrow> Inl (JsError ''invalid BigNumber string'')
             | c # cs \<Rightarrow> Inr (if c = CHR ''-'' then - int (length cs) else int (length cs)))\<rparr>)"

lemma unary_codec_ok: "codec_ok unary_codec"
  by (simp add: codec_ok_def unary_codec_def Let_def)

text \<open>A well-formed queue survives its trip through the database: deserialising its serialised form
  returns the same queue, items, requests and identifiers included.\<close>

lemma queue_serialisation_roundtrip:
  assumes "codec_ok bn" "gq_ok q"
  shows "deserialise_queue bn (serialise_queue bn q) = Inr q"
  using assms by (intro queue_roundtrip) (auto simp: gq_ok_def intro: item_ok_constructible)

end
