(* ===== verification/Appointment.thy ===== *)
theory Appointment
  imports BlockCache GasQueueJson
begin

text \<open>
  Appointments (src/src/dataEntities/appointment.ts): what a customer asks the tower to watch for, its
  forms in the database and in requests, the checks a request has to pass, and the identifiers that
  are made of it.  The schema of requests (src/src/public/appointmentRequestSchema.json) is a predicate on
  JSON values; what the library computes (hashes, ABI encoding, signature recovery, the BigNumber
  codec) is a parameter.  Numbers are integers: the schema also admits fractional gas limits, which the
  ABI encoder refuses.
\<close>

section \<open>The record and its forms\<close>

record IAppointmentBase =
  contractAddress :: string
  customerAddress :: string
  startBlock :: int
  endBlock :: int
  challengePeriod :: int
  app_nonce :: int
  app_data :: string
  refund_text :: string
  gasLimit :: int
  mode :: int
  eventAddress :: string
  app_topics :: "string option list"
  preCondition :: string
  postCondition :: string
  paymentHash :: string
  customerSig :: string

record IAppointmentRequest = IAppointmentBase +
  request_id :: string

record IAppointment = IAppointmentBase +
  record_customerChosenId :: string

record Appointment =
  a_contractAddress :: string
  a_customerAddress :: string
  a_startBlock :: int
  a_endBlock :: int
  a_challengePeriod :: int
  a_customerChosenId :: string
  a_nonce :: int
  a_data :: string
  a_refund :: int
  a_gasLimit :: int
  a_mode :: int
  a_eventAddress :: string
  a_topics :: "string option list"
  a_preCondition :: string
  a_postCondition :: string
  a_paymentHash :: string
  a_customerSig :: string

text \<open>\<open>AppointmentMode\<close>.\<close>

definition Relay :: int where "Relay = 0"

definition EventTriggered :: int where "EventTriggered = 1"

definition fromIAppointment :: "BigNumberCodec \<Rightarrow> IAppointment \<Rightarrow> Appointment result" where
  "fromIAppointment bn appointment =
     bind_result (bn_parse bn (refund_text appointment)) (\<lambda>refund. Inr
       \<lparr>a_contractAddress = contractAddress appointment,
        a_customerAddress = customerAddress appointment,
        a_startBlock = startBlock appointment,
        a_endBlock = endBlock appointment,
        a_challengePeriod = challengePeriod appointment,
        a_customerChosenId = record_customerChosenId appointment,
        a_nonce = app_nonce appointment,
        a_data = app_data appointment,
        a_refund = refund,
        a_gasLimit = gasLimit appointment,
        a_mode = mode appointment,
        a_eventAddress = eventAddress appointment,
        a_topics = app_topics appointment,
        a_preCondition = preCondition appointment,
        a_postCondition = postCondition appointment,
        a_paymentHash = paymentHash appointment,
        a_customerSig = customerSig appointment\<rparr>)"

definition toIAppointment :: "BigNumberCodec \<Rightarrow> Appointment \<Rightarrow> IAppointment" where
  "toIAppointment bn appointment =
     \<lparr>contractAddress = a_contractAddress appointment,
      customerAddress = a_customerAddress appointment,
      startBlock = a_startBlock appointment,
      endBlock = a_endBlock appointment,
      challengePeriod = a_challengePeriod appointment,
      app_nonce = a_nonce appointment,
      app_data = a_data appointment,
      refund_text = bn_toHexString bn (a_refund appointment),
      gasLimit = a_gasLimit appointment,
      mode = a_mode appointment,
      eventAddress = a_eventAddress appointment,
      app_topics = a_topics appointment,
      preCondition = a_preCondition appointment,
      postCondition = a_postCondition appointment,
      paymentHash = a_paymentHash appointment,
      customerSig = a_customerSig appointment,
      record_customerChosenId = a_customerChosenId appointment\<rparr>"

definition fromIAppointmentRequest :: "BigNumberCodec \<Rightarrow> IAppointmentRequest \<Rightarrow> Appointment result" where
  "fromIAppointmentRequest bn appointmentRequest =
     bind_result (bn_parse bn (refund_text appointmentRequest)) (\<lambda>refund. Inr
       \<lparr>a_contractAddress = contractAddress appointmentRequest,
        a_customerAddress = customerAddress appointmentRequest,
        a_startBlock = startBlock appointmentRequest,
        a_endBlock = endBlock appointmentRequest,
        a_challengePeriod = challengePeriod appointmentRequest,
        a_customerChosenId = request_id appointmentRequest,
        a_nonce = app_nonce appointmentRequest,
        a_data = app_data appointmentRequest,
        a_refund = refund,
        a_gasLimit = gasLimit appointmentRequest,
        a_mode = mode appointmentRequest,
        a_eventAddress = eventAddress appointmentRequest,
        a_topics = app_topics appointmentRequest,
        a_preCondition = preCondition appointmentRequest,
        a_postCondition = postCondition appointmentRequest,
        a_paymentHash = paymentHash appointmentRequest,
        a_customerSig = customerSig appointmentRequest\<rparr>)"

definition toIAppointmentRequest :: "BigNumberCodec \<Rightarrow> Appointment \<Rightarrow> IAppointmentRequest" where
  "toIAppointmentRequest bn appointment =
     \<lparr>contractAddress = a_contractAddress appointment,
      customerAddress = a_customerAddress appointment,
      startBlock = a_startBlock appointment,
      endBlock = a_endBlock appointment,
      challengePeriod = a_challengePeriod appointment,
      app_nonce = a_nonce appointment,
      app_data = a_data appointment,
      refund_text = bn_toHexString bn (a_refund appointment),
      gasLimit = a_gasLimit appointment,
      mode = a_mode appointment,
      eventAddress = a_eventAddress appointment,
      app_topics = a_topics appointment,
      preCondition = a_preCondition appointment,
      postCondition = a_postCondition appointment,
      paymentHash = a_paymentHash appointment,
      customerSig = a_customerSig appointment,
      request_id = a_customerChosenId appointment\<rparr>"

section \<open>Identifiers\<close>

definition locator :: "Appointment \<Rightarrow> string" where
  "locator this = a_customerAddress this @ ''|'' @ a_customerChosenId this"

definition appointment_id :: "Appointment \<Rightarrow> string" where
  "appointment_id this = locator this @ ''|'' @ number_string (a_nonce this)"

definition formatLog :: "Appointment \<Rightarrow> string \<Rightarrow> string" where
  "formatLog this message = ''|'' @ appointment_id this @ ''| '' @ message"

text \<open>The event filter; \<open>address\<close> and \<open>topics\<close> are optional in the type of the library.\<close>

record EventFilter =
  filter_address :: "string option"
  filter_topics :: "string option list option"

definition eventFilter :: "Appointment \<Rightarrow> EventFilter" where
  "eventFilter this = \<lparr>filter_address = Some (a_eventAddress this), filter_topics = Some (a_topics this)\<rparr>"

section \<open>Encoding\<close>

text \<open>Values handed to the ABI coder, and the functions of the library.\<close>

datatype abi_value =
    AbiString string
  | AbiNumber int
  | AbiBigNumber int
  | AbiBools "bool list"
  | AbiStrings "string list"
  | AbiTuple "abi_value list"

record Ethers =
  keccak256 :: "string \<Rightarrow> string"
  toUtf8Bytes :: "string \<Rightarrow> string"
  arrayify :: "string \<Rightarrow> string result"
  getAddress :: "string \<Rightarrow> string result"
  isHexString :: "string \<Rightarrow> bool"
  abi_encode :: "string list \<Rightarrow> abi_value list \<Rightarrow> string result"
  encode_respond :: "abi_value list \<Rightarrow> string result"
  verifyMessage :: "string \<Rightarrow> string \<Rightarrow> string result"

definition zero_topic :: string where
  "zero_topic = ''0x'' @ replicate 64 (CHR ''0'')"

definition encodeTopicsForPisa :: "Ethers \<Rightarrow> string option list \<Rightarrow> string result" where
  "encodeTopicsForPisa eth topics =
     (if length topics > 4 then Inl (ArgumentError ''There can be at most 4 topics.'')
      else
        let topicsBitmap = map (\<lambda>idx. length topics > idx \<and> topics ! idx \<noteq> None) [0, 1, 2, 3];
            topicsFull = map (\<lambda>idx. if length topics > idx \<and> topics ! idx \<noteq> None
                                    then the (topics ! idx) else zero_topic) [0, 1, 2, 3]
        in abi_encode eth [''bool[4]'', ''bytes32[4]''] [AbiBools topicsBitmap, AbiStrings topicsFull])"

definition orderForEncoding :: "Ethers \<Rightarrow> Appointment \<Rightarrow> abi_value list result" where
  "orderForEncoding eth this =
     bind_result (encodeTopicsForPisa eth (a_topics this)) (\<lambda>topics. Inr
       [AbiString (a_contractAddress this), AbiString (a_customerAddress this),
        AbiNumber (a_startBlock this), AbiNumber (a_endBlock this), AbiNumber (a_challengePeriod this),
        AbiString (a_customerChosenId this), AbiNumber (a_nonce this), AbiString (a_data this),
        AbiBigNumber (a_refund this), AbiNumber (a_gasLimit this), AbiNumber (a_mode this),
        AbiString (a_eventAddress this), AbiString topics,
        AbiString (a_preCondition this), AbiString (a_postCondition this), AbiString (a_paymentHash this)])"

definition EncodingTupleDefinition :: string where
  "EncodingTupleDefinition =
     ''tuple(address,address,uint,uint,uint,bytes32,uint,bytes,uint,uint,uint,address,bytes,bytes,bytes,bytes32)''"

definition encodeForResponse :: "Ethers \<Rightarrow> Appointment \<Rightarrow> string result" where
  "encodeForResponse eth this =
     bind_result (orderForEncoding eth this) (\<lambda>tup.
       encode_respond eth [AbiTuple tup, AbiString (a_customerSig this)])"

definition encodeForSig :: "Ethers \<Rightarrow> Appointment \<Rightarrow> string \<Rightarrow> string result" where
  "encodeForSig eth this pisaContractAddress =
     bind_result (orderForEncoding eth this) (\<lambda>tup.
       abi_encode eth [EncodingTupleDefinition, ''address''] [AbiTuple tup, AbiString pisaContractAddress])"

section \<open>Requests\<close>

datatype json =
    JNull
  | JBool bool
  | JNumber int
  | JString string
  | JArray "json list"
  | JObject "(string \<times> json) list"

text \<open>The schema: every property of the schema is required and no other is allowed.\<close>

fun is_JString :: "json \<Rightarrow> bool" where
  "is_JString (JString s) \<longleftrightarrow> True"
| "is_JString _ \<longleftrightarrow> False"

fun integer_in :: "int \<Rightarrow> int \<Rightarrow> json \<Rightarrow> bool" where
  "integer_in lo hi (JNumber n) \<longleftrightarrow> lo \<le> n \<and> n \<le> hi"
| "integer_in lo hi _ \<longleftrightarrow> False"

fun topics_json :: "json \<Rightarrow> bool" where
  "topics_json (JArray xs) \<longleftrightarrow> length xs \<le> 4 \<and> (\<forall>x\<in>set xs. is_JString x \<or> x = JNull)"
| "topics_json _ \<longleftrightarrow> False"

definition max_safe_integer :: int where
  "max_safe_integer = 9007199254740991"

definition schema_properties :: "(string \<times> (json \<Rightarrow> bool)) list" where
  "schema_properties =
     [(''challengePeriod'', integer_in 100 60000),
      (''contractAddress'', is_JString),
      (''customerAddress'', is_JString),
      (''customerSig'', is_JString),
      (''data'', is_JString),
      (''endBlock'', integer_in 0 max_safe_integer),
      (''eventAddress'', is_JString),
      (''gasLimit'', integer_in 0 2000000),
      (''id'', is_JString),
      (''nonce'', integer_in 0 max_safe_integer),
      (''mode'', integer_in 0 1),
      (''paymentHash'', is_JString),
      (''preCondition'', is_JString),
      (''postCondition'', is_JString),
      (''refund'', is_JString),
      (''startBlock'', integer_in 0 max_safe_integer),
      (''topics'', topics_json)]"

fun appointmentRequestValidation :: "json \<Rightarrow> bool" where
  "appointmentRequestValidation (JObject members) \<longleftrightarrow>
     (\<forall>(k, ok)\<in>set schema_properties. map_of members k \<noteq> None) \<and>
     (\<forall>(k, v)\<in>set members. case map_of schema_properties k of None \<Rightarrow> False | Some ok \<Rightarrow> ok v)"
| "appointmentRequestValidation _ \<longleftrightarrow> False"

text \<open>Reading a property of an object the schema admitted.\<close>

definition string_prop :: "(string \<times> json) list \<Rightarrow> string \<Rightarrow> string" where
  "string_prop members k = (case map_of members k of Some (JString s) \<Rightarrow> s | _ \<Rightarrow> [])"

definition int_prop :: "(string \<times> json) list \<Rightarrow> string \<Rightarrow> int" where
  "int_prop members k = (case map_of members k of Some (JNumber n) \<Rightarrow> n | _ \<Rightarrow> 0)"

definition topics_prop :: "(string \<times> json) list \<Rightarrow> string option list" where
  "topics_prop members =
     (case map_of members ''topics'' of
        Some (JArray xs) \<Rightarrow> map (\<lambda>x. case x of JString s \<Rightarrow> Some s | _ \<Rightarrow> None) xs
      | _ \<Rightarrow> [])"

definition as_request :: "json \<Rightarrow> IAppointmentRequest" where
  "as_request obj =
     (let members = (case obj of JObject fs \<Rightarrow> fs | _ \<Rightarrow> []) in
     \<lparr>contractAddress = string_prop members ''contractAddress'',
      customerAddress = string_prop members ''customerAddress'',
      startBlock = int_prop members ''startBlock'',
      endBlock = int_prop members ''endBlock'',
      challengePeriod = int_prop members ''challengePeriod'',
      app_nonce = int_prop members ''nonce'',
      app_data = string_prop members ''data'',
      refund_text = string_prop members ''refund'',
      gasLimit = int_prop members ''gasLimit'',
      mode = int_prop members ''mode'',
      eventAddress = string_prop members ''eventAddress'',
      app_topics = topics_prop members,
      preCondition = string_prop members ''preCondition'',
      postCondition = string_prop members ''postCondition'',
      paymentHash = string_prop members ''paymentHash'',
      customerSig = string_prop members ''customerSig'',
      request_id = string_prop members ''id''\<rparr>)"

text \<open>Whatever the parser of the library throws becomes the error of a client.\<close>

definition parseBigNumber :: "BigNumberCodec \<Rightarrow> string \<Rightarrow> string \<Rightarrow> unit result" where
  "parseBigNumber bn numberString name =
     (case bn_parse bn numberString of
        Inl doh \<Rightarrow> Inl (PublicDataValidationError (name @ '' is not a number.''))
      | Inr bigNumber \<Rightarrow>
          if bigNumber < 0 then Inl (PublicDataValidationError (name @ '' must be non negative.'')) else Inr ())"

text \<open>The pretty printer of schema errors, called for an object, always returns an array of them.\<close>

definition parse :: "BigNumberCodec \<Rightarrow> json \<Rightarrow> Appointment result" where
  "parse bn obj =
     (if \<not> appointmentRequestValidation obj then Inl (PublicDataValidationError ''Schema error.'')
      else
        let request = as_request obj in
        bind_result (parseBigNumber bn (refund_text request) ''Refund'') (\<lambda>_.
        bind_result (bn_parse bn (refund_text request)) (\<lambda>refund.
          if refund \<noteq> 0 then Inl (PublicDataValidationError ''Refund must be set to 0'')
          else fromIAppointmentRequest bn request)))"

section \<open>Validation\<close>

definition FreeHash :: "Ethers \<Rightarrow> string" where
  "FreeHash eth = toLowerCase (keccak256 eth (toUtf8Bytes eth ''on-the-house''))"

definition FORK_LIMIT :: int where "FORK_LIMIT = 20"

definition SYNCHRONISATION_LIMIT :: int where "SYNCHRONISATION_LIMIT = 3"

text \<open>A chain of checks that throw: each has a condition under which it throws and an error.\<close>

fun checks :: "(bool \<times> app_error) list \<Rightarrow> unit result" where
  "checks [] = Inr ()"
| "checks ((fails, e) # cs) = (if fails then Inl e else checks cs)"

definition topic_ok :: "Ethers \<Rightarrow> string option \<Rightarrow> bool" where
  "topic_ok eth topic \<longleftrightarrow> (case topic of None \<Rightarrow> True | Some t \<Rightarrow> length t = 2 + 2 * 32 \<and> isHexString eth t)"

definition zero_address :: string where
  "zero_address = ''0x'' @ replicate 40 (CHR ''0'')"

definition validate_mode :: "Ethers \<Rightarrow> Appointment \<Rightarrow> unit result" where
  "validate_mode eth this =
     (if a_mode this = EventTriggered then
        checks
          [(isl (getAddress eth (a_eventAddress this)), PublicDataValidationError ''Invalid eventAddress''),
           (length (a_topics this) > 4, PublicDataValidationError ''The topics array must have at most 4 elements''),
           (\<exists>topic\<in>set (a_topics this). \<not> topic_ok eth topic, PublicDataValidationError ''The topic is invalid'')]
      else if a_mode this = Relay then
        checks
          [(a_eventAddress this \<noteq> zero_address, PublicDataValidationError ''Event address must be set to zero for relay transactions.''),
           (length (a_topics this) \<noteq> 0, PublicDataValidationError ''Event topics must be set to [] for relay transactions.'')]
      else Inl (PublicDataValidationError ''Mode must be set to 0 or 1.''))"

definition validate_sig :: "Ethers \<Rightarrow> string \<Rightarrow> Appointment \<Rightarrow> unit result" where
  "validate_sig eth pisaContractAddress this =
     (case encodeForSig eth this pisaContractAddress of
        Inl doh \<Rightarrow> Inl (PublicDataValidationError ''Invalid solidity type.'')
      | Inr encoded \<Rightarrow>
          (case bind_result (arrayify eth (keccak256 eth encoded)) (\<lambda>h. verifyMessage eth h (a_customerSig this)) of
             Inl doh \<Rightarrow> Inl (PublicDataValidationError ''Invalid signature.'')
           | Inr recoveredAddress \<Rightarrow>
               if toLowerCase (a_customerAddress this) \<noteq> toLowerCase recoveredAddress
               then Inl (PublicDataValidationError ''Invalid signature - did not recover customer address.'')
               else Inr ()))"

definition validate ::
  "Ethers \<Rightarrow> ('b IBlockStub_scheme, 's) BlockCache \<Rightarrow> string \<Rightarrow> Appointment \<Rightarrow> unit result" where
  "validate eth blockCache pisaContractAddress this =
     bind_result (checks [(toLowerCase (a_paymentHash this) \<noteq> FreeHash eth, PublicDataValidationError ''Invalid payment hash.'')]) (\<lambda>_.
     bind_result (head blockCache) (\<lambda>headBlock.
     let currentHead = number headBlock in
     bind_result (checks
       [(a_startBlock this < currentHead - FORK_LIMIT - SYNCHRONISATION_LIMIT, PublicDataValidationError ''Start block too low.''),
        (a_startBlock this > currentHead + SYNCHRONISATION_LIMIT, PublicDataValidationError ''Start block too high.''),
        (a_endBlock this - a_startBlock this > 60000, PublicDataValidationError ''Appointment duration too great.''),
        (a_endBlock this - a_startBlock this < 100, PublicDataValidationError ''Appointment duration too small.''),
        (a_preCondition this \<noteq> ''0x'', PublicDataValidationError ''Pre-condition currently not supported.''),
        (a_postCondition this \<noteq> ''0x'', PublicDataValidationError ''Post-condition currently not supported.'')]) (\<lambda>_.
     bind_result (validate_mode eth this) (\<lambda>_.
     bind_result (checks [(a_refund this > 10 ^ 17, PublicDataValidationError ''Refund cannot be greater than 0.1 ether.'')]) (\<lambda>_.
       validate_sig eth pisaContractAddress this)))))"

section \<open>Signed appointments\<close>

record SignedAppointment =
  signed_appointment :: Appointment
  signerAddress :: string
  signature :: string

record SignedAppointmentSerialisation =
  ser_appointment :: IAppointmentRequest
  ser_watcherSignature :: string
  ser_watcherAddress :: string

text \<open>The object that \<open>serialise\<close> prints.\<close>

definition serialise :: "BigNumberCodec \<Rightarrow> SignedAppointment \<Rightarrow> SignedAppointmentSerialisation" where
  "serialise bn this =
     \<lparr>ser_appointment = toIAppointmentRequest bn (signed_appointment this),
      ser_watcherSignature = signature this, ser_watcherAddress = signerAddress this\<rparr>"

section \<open>Round trips\<close>

lemma appointment_roundtrips:
  assumes "codec_ok bn"
  shows "fromIAppointment bn (toIAppointment bn a) = Inr a"
    "fromIAppointmentRequest bn (toIAppointmentRequest bn a) = Inr a"
  using assms
  by (simp_all add: codec_ok_def fromIAppointment_def toIAppointment_def fromIAppointmentRequest_def
      toIAppointmentRequest_def)

section \<open>Identifiers tell appointments apart\<close>

lemma last_bar_split:
  assumes "xs @ c # ys = xs' @ c # ys'" "c \<notin> set ys" "c \<notin> set ys'"
  shows "xs = xs' \<and> ys = ys'"
proof -
  have "takeWhile (\<lambda>x. x \<noteq> c) (rev zs @ c # rev vs) = rev zs" if "c \<notin> set zs" for zs vs
    using that by (subst takeWhile_append2) auto
  from this [of ys xs] this [of ys' xs'] assms have "rev ys = rev ys'"
    by (metis append.assoc append_Cons append_Nil rev.simps(2) rev_append)
  with assms(1) show ?thesis by simp
qed

lemma first_bar_split:
  assumes "xs @ c # ys = xs' @ c # ys'" "c \<notin> set xs" "c \<notin> set xs'"
  shows "xs = xs' \<and> ys = ys'"
proof -
  have "takeWhile (\<lambda>x. x \<noteq> c) (zs @ c # vs) = zs" if "c \<notin> set zs" for zs vs
    using that by (subst takeWhile_append2) auto
  from this [of xs ys] this [of xs' ys'] assms have "xs = xs'" by metis
  with assms(1) show ?thesis by simp
qed

lemma no_bar_number_string: "CHR ''|'' \<notin> set (number_string x)"
proof -
  have "\<not> is_digit CHR ''|''" by (simp add: is_digit_def Let_def)
  then show ?thesis
    using nat_string_digits [of "nat x"] nat_string_digits [of "nat (- x)"]
    by (auto simp: number_string_def)
qed

lemma number_string_inj [simp]: "number_string x = number_string y \<longleftrightarrow> x = y"
  by (metis option.inject parseInt_number_string)

lemma appointment_id_eq:
  "appointment_id a = appointment_id b \<longleftrightarrow> locator a = locator b \<and> a_nonce a = a_nonce b"
proof
  assume "appointment_id a = appointment_id b"
  then have "locator a @ CHR ''|'' # number_string (a_nonce a) = locator b @ CHR ''|'' # number_string (a_nonce b)"
    by (simp add: appointment_id_def)
  from last_bar_split [OF this no_bar_number_string no_bar_number_string]
  show "locator a = locator b \<and> a_nonce a = a_nonce b" by simp
qed (simp add: appointment_id_def)

lemma locator_eq:
  assumes "CHR ''|'' \<notin> set (a_customerAddress a)" "CHR ''|'' \<notin> set (a_customerAddress b)"
  shows "locator a = locator b \<longleftrightarrow>
    a_customerAddress a = a_customerAddress b \<and> a_customerChosenId a = a_customerChosenId b"
proof
  assume "locator a = locator b"
  then have "a_customerAddress a @ CHR ''|'' # a_customerChosenId a = a_customerAddress b @ CHR ''|'' # a_customerChosenId b"
    by (simp add: locator_def)
  from first_bar_split [OF this assms]
  show "a_customerAddress a = a_customerAddress b \<and> a_customerChosenId a = a_customerChosenId b" by simp
qed (simp add: locator_def)

section \<open>What parsing and validation accept\<close>

text \<open>The bounds the schema puts on an appointment.\<close>

definition well_typed :: "Appointment \<Rightarrow> bool" where
  "well_typed a \<longleftrightarrow>
     0 \<le> a_startBlock a \<and> a_startBlock a \<le> max_safe_integer \<and>
     0 \<le> a_endBlock a \<and> a_endBlock a \<le> max_safe_integer \<and>
     0 \<le> a_nonce a \<and> a_nonce a \<le> max_safe_integer \<and>
     100 \<le> a_challengePeriod a \<and> a_challengePeriod a \<le> 60000 \<and>
     0 \<le> a_gasLimit a \<and> a_gasLimit a \<le> 2000000 \<and>
     (a_mode a = Relay \<or> a_mode a = EventTriggered) \<and> a_refund a = 0 \<and> length (a_topics a) \<le> 4"

lemma schema_prop:
  assumes "appointmentRequestValidation (JObject members)" "(k, ok) \<in> set schema_properties"
    "map_of schema_properties k = Some ok"
  obtains v where "map_of members k = Some v" "ok v"
proof -
  from assms(1,2) obtain v where v: "map_of members k = Some v" by fastforce
  from map_of_SomeD [OF this] assms(1,3) have "ok v" by fastforce
  with v show thesis using that by blast
qed

lemma schema_int:
  assumes "appointmentRequestValidation (JObject members)" "(k, integer_in lo hi) \<in> set schema_properties"
    "map_of schema_properties k = Some (integer_in lo hi)"
  shows "lo \<le> int_prop members k" "int_prop members k \<le> hi"
proof -
  obtain v where "map_of members k = Some v" "integer_in lo hi v" by (rule schema_prop [OF assms])
  then show "lo \<le> int_prop members k" "int_prop members k \<le> hi" by (cases v; simp add: int_prop_def)+
qed

lemma schema_topics:
  assumes "appointmentRequestValidation (JObject members)"
  shows "length (topics_prop members) \<le> 4"
proof -
  have "map_of schema_properties ''topics'' = Some topics_json" "(''topics'', topics_json) \<in> set schema_properties"
    by (simp_all add: schema_properties_def)
  then obtain v where "map_of members ''topics'' = Some v" "topics_json v" using schema_prop [OF assms] by blast
  then show ?thesis by (cases v) (auto simp: topics_prop_def)
qed

lemma parse_InrD:
  assumes "parse bn obj = Inr a"
  shows "appointmentRequestValidation obj" "bn_parse bn (refund_text (as_request obj)) = Inr 0"
    "fromIAppointmentRequest bn (as_request obj) = Inr a"
  using assms by (auto simp: parse_def Let_def result_simps split: if_splits)

lemma checks_ok: "checks cs = Inr () \<longleftrightarrow> (\<forall>(fails, e)\<in>set cs. \<not> fails)"
  by (induction cs rule: checks.induct) auto

text \<open>Validation accepts exactly the appointments within these limits whose signature recovers to the
  customer.\<close>

lemma validate_iff:
  "validate eth c pisa a = Inr () \<longleftrightarrow>
     toLowerCase (a_paymentHash a) = FreeHash eth \<and>
     (\<exists>h. head c = Inr h \<and> number h - 23 \<le> a_startBlock a \<and> a_startBlock a \<le> number h + 3) \<and>
     a_startBlock a + 100 \<le> a_endBlock a \<and> a_endBlock a \<le> a_startBlock a + 60000 \<and>
     a_preCondition a = ''0x'' \<and> a_postCondition a = ''0x'' \<and>
     (a_mode a = EventTriggered \<and> \<not> isl (getAddress eth (a_eventAddress a)) \<and>
        length (a_topics a) \<le> 4 \<and> (\<forall>t\<in>set (a_topics a). topic_ok eth t) \<or>
      a_mode a = Relay \<and> a_eventAddress a = zero_address \<and> a_topics a = []) \<and>
     a_refund a \<le> 10 ^ 17 \<and>
     (\<exists>e h signer. encodeForSig eth a pisa = Inr e \<and> arrayify eth (keccak256 eth e) = Inr h \<and>
        verifyMessage eth h (a_customerSig a) = Inr signer \<and> toLowerCase signer = toLowerCase (a_customerAddress a))"
proof -
  have sig: "validate_sig eth pisa a = Inr () \<longleftrightarrow>
      (\<exists>e h signer. encodeForSig eth a pisa = Inr e \<and> arrayify eth (keccak256 eth e) = Inr h \<and>
        verifyMessage eth h (a_customerSig a) = Inr signer \<and> toLowerCase signer = toLowerCase (a_customerAddress a))"
    by (auto simp: validate_sig_def result_simps split: sum.splits)
  have md: "validate_mode eth a = Inr () \<longleftrightarrow>
     a_mode a = EventTriggered \<and> \<not> isl (getAddress eth (a_eventAddress a)) \<and>
        length (a_topics a) \<le> 4 \<and> (\<forall>t\<in>set (a_topics a). topic_ok eth t) \<or>
      a_mode a = Relay \<and> a_eventAddress a = zero_address \<and> a_topics a = []"
    by (auto simp: validate_mode_def checks_ok Relay_def EventTriggered_def)
  show ?thesis
    unfolding validate_def Let_def
    by (simp add: result_simps sig md checks_ok FORK_LIMIT_def SYNCHRONISATION_LIMIT_def) (auto simp del: checks.simps)
qed

text \<open>A library that accepts everything, for examples.\<close>

definition ex_ethers :: Ethers where
  "ex_ethers =
     \<lparr>keccak256 = (\<lambda>s. s), toUtf8Bytes = (\<lambda>s. s), arrayify = Inr, getAddress = Inr, isHexString = (\<lambda>s. True),
      abi_encode = (\<lambda>ts vs. Inr ''0x''), encode_respond = (\<lambda>vs. Inr ''0x''), 
      verifyMessage = (\<lambda>h sig. if CHR ''|'' \<in> set sig then Inl (JsError ''invalid signature'') else Inr sig)\<rparr>"

end
