(* ===== verification/EventLogs.thy ===== *)
theory EventLogs
  imports Appointment
begin

text \<open>
  What the reducers read of a block (src/src/dataEntities/block.ts): its logs, which are matched against
  the event filters of appointments, and its transactions.
\<close>

record Log =
  log_address :: string
  log_topics :: "string list"

record Logs = TransactionHashes +
  logs :: "Log list"

record TransactionStub =
  tx_blockNumber :: "int option"
  tx_nonce :: int
  tx_to :: "string option"
  tx_from :: string
  tx_chainId :: int
  tx_data :: string
  tx_value :: int
  tx_gasLimit :: int

record Block = Logs +
  block_transactions :: "TransactionStub list"

section \<open>Matching logs\<close>

text \<open>\<open>filter.topics.every\<close>: a topic the log does not have is \<open>undefined\<close>, and neither it nor a \<open>null\<close>
  topic has a \<open>toLowerCase\<close>.\<close>

fun topics_match :: "string list \<Rightarrow> string option list \<Rightarrow> bool result" where
  "topics_match ls [] = Inr True"
| "topics_match [] (t # ts) = Inl (JsTypeError ''Cannot read property toLowerCase of undefined'')"
| "topics_match (l # ls) (None # ts) = Inl (JsTypeError ''Cannot read property toLowerCase of null'')"
| "topics_match (l # ls) (Some t # ts) =
     (if toLowerCase l = toLowerCase t then topics_match ls ts else Inr False)"

definition log_match :: "string \<Rightarrow> string option list \<Rightarrow> Log \<Rightarrow> bool result" where
  "log_match address topics log =
     (if toLowerCase (log_address log) = toLowerCase address then topics_match (log_topics log) topics
      else Inr False)"

text \<open>\<open>Array.prototype.some\<close> with a callback that may throw.\<close>

fun some_result :: "('a \<Rightarrow> bool result) \<Rightarrow> 'a list \<Rightarrow> bool result" where
  "some_result P [] = Inr False"
| "some_result P (x # xs) = bind_result (P x) (\<lambda>b. if b then Inr True else some_result P xs)"

text \<open>An address that is missing or empty is refused.\<close>

definition hasLogMatchingEventFilter :: "'a Logs_scheme \<Rightarrow> EventFilter \<Rightarrow> bool result" where
  "hasLogMatchingEventFilter block filter' =
     (case filter_address filter' of
        None \<Rightarrow> Inl (ArgumentError ''The filter must provide an address'')
      | Some address \<Rightarrow>
          if address = [] then Inl (ArgumentError ''The filter must provide an address'')
          else case filter_topics filter' of
            None \<Rightarrow> Inl (ArgumentError ''The filter must provide the topics'')
          | Some topics \<Rightarrow> some_result (log_match address topics) (logs block))"

section \<open>When it returns\<close>

text \<open>Specification: the logs of the event, as the filter describes it.\<close>

definition topic_eq :: "string \<Rightarrow> string \<Rightarrow> bool" where
  "topic_eq l t \<longleftrightarrow> toLowerCase l = toLowerCase t"

definition is_event :: "string \<Rightarrow> string list \<Rightarrow> Log \<Rightarrow> bool" where
  "is_event address topics log \<longleftrightarrow>
     toLowerCase (log_address log) = toLowerCase address \<and>
     length topics \<le> length (log_topics log) \<and> list_all2 topic_eq (take (length topics) (log_topics log)) topics"

text \<open>The topics that make the comparison throw: all topics before are the same, and then the filter has a
  \<open>null\<close>, or the log has no topic.\<close>

definition trips :: "string list \<Rightarrow> string option list \<Rightarrow> bool" where
  "trips ls ts \<longleftrightarrow>
     (\<exists>k < length ts. k \<le> length ls \<and> list_all2 (\<lambda>l t. \<exists>s. t = Some s \<and> topic_eq l s) (take k ls) (take k ts) \<and>
        (ts ! k = None \<or> k = length ls))"

lemma trips_simps [simp]:
  "trips ls [] \<longleftrightarrow> False" "trips [] (topic # ts)" "trips (l # ls) (None # ts)"
  "trips (l # ls) (Some t # ts) \<longleftrightarrow> topic_eq l t \<and> trips ls ts"
proof -
  show "trips (l # ls) (Some t # ts) \<longleftrightarrow> topic_eq l t \<and> trips ls ts"
    unfolding trips_def list.size add_Suc_right add_0_right Ex_less_Suc2 by auto
qed (auto simp: trips_def)

lemma topics_match_Inl: "(\<exists>e. topics_match ls ts = Inl e) \<longleftrightarrow> trips ls ts"
  by (induction ls ts rule: topics_match.induct) (auto simp: topic_eq_def)

lemma topics_match_JsTypeError: "topics_match ls ts = Inl e \<Longrightarrow> \<exists>m. e = JsTypeError m"
  by (induction ls ts rule: topics_match.induct) (auto split: if_splits)

lemma topics_match_Inr:
  "\<not> trips ls (map Some ts) \<Longrightarrow>
   topics_match ls (map Some ts) = Inr (length ts \<le> length ls \<and> list_all2 topic_eq (take (length ts) ls) ts)"
proof (induction ls "map Some ts" arbitrary: ts rule: topics_match.induct)
  case (4 l ls t ts')
  then obtain ts'' where ts: "ts = t # ts''" "ts' = map Some ts''" by auto
  show ?case
  proof (cases "toLowerCase l = toLowerCase t")
    case True
    with 4(1) [OF True, of ts''] 4(3) show ?thesis by (simp add: ts topic_eq_def)
  next
    case False
    then show ?thesis by (simp add: ts topic_eq_def)
  qed
qed auto

text \<open>A filter without \<open>null\<close> topics whose logs do not end early: then it tells whether a log is the event.\<close>

definition logs_fit :: "string \<Rightarrow> string list \<Rightarrow> 'a Logs_scheme \<Rightarrow> bool" where
  "logs_fit address topics block \<longleftrightarrow>
     (\<forall>log\<in>set (logs block). toLowerCase (log_address log) = toLowerCase address \<longrightarrow>
        \<not> trips (log_topics log) (map Some topics))"

lemma some_result_total:
  "(\<And>x. x \<in> set xs \<Longrightarrow> P x = Inr (Q x)) \<Longrightarrow> some_result P xs = Inr (\<exists>x\<in>set xs. Q x)"
  by (induction xs) auto

lemma hasLog_returns:
  assumes "filter_address f = Some address" "address \<noteq> []" "filter_topics f = Some (map Some topics)"
    "logs_fit address topics block"
  shows "hasLogMatchingEventFilter block f = Inr (\<exists>log\<in>set (logs block). is_event address topics log)"
proof -
  have "log_match address (map Some topics) log = Inr (is_event address topics log)" if "log \<in> set (logs block)" for log
    using assms(4) that by (auto simp: log_match_def is_event_def logs_fit_def topics_match_Inr)
  then show ?thesis
    using assms(1-3) by (simp add: hasLogMatchingEventFilter_def some_result_total)
qed

text \<open>When the search reaches a log of the address that trips, it throws.\<close>

lemma hasLog_throws:
  assumes "filter_address f = Some address" "address \<noteq> []" "filter_topics f = Some topics"
    "logs block = before @ log # after"
    "\<And>l. l \<in> set before \<Longrightarrow> toLowerCase (log_address l) \<noteq> toLowerCase address"
    "toLowerCase (log_address log) = toLowerCase address" "trips (log_topics log) topics"
  shows "\<exists>m. hasLogMatchingEventFilter block f = Inl (JsTypeError m)"
proof -
  obtain e where e: "topics_match (log_topics log) topics = Inl e" using assms(7) topics_match_Inl by blast
  then have "some_result (log_match address topics) (log # after) = Inl e"
    using assms(6) by (simp add: log_match_def)
  moreover have "some_result (log_match address topics) (ls @ log # after) = some_result (log_match address topics) (log # after)"
    if "\<And>l. l \<in> set ls \<Longrightarrow> toLowerCase (log_address l) \<noteq> toLowerCase address" for ls
    using that by (induction ls) (auto simp: log_match_def)
  ultimately have "some_result (log_match address topics) (logs block) = Inl e" using assms(4,5) by simp
  with topics_match_JsTypeError [OF e] assms(1-3) show ?thesis by (auto simp: hasLogMatchingEventFilter_def)
qed

section \<open>Blocks for examples\<close>

definition ex_full_block :: "string \<Rightarrow> int \<Rightarrow> string \<Rightarrow> Log list \<Rightarrow> TransactionStub list \<Rightarrow> Block" where
  "ex_full_block h n p ls txs = \<lparr>block_hash = h, number = n, parentHash = p, transactionHashes = [], logs = ls, block_transactions = txs\<rparr>"

end
