(* ===== verification/Components.thy ===== *)
theory Components
  imports BlockCache
begin

text \<open>
  State reducers and components (src/src/blockMonitor/component.ts).  A reducer derives the anchor state
  of a block from the block alone or from the state of its parent; it may read the block cache, so the
  reducer of a component is a function of the cache.  The result of a reducer is what it returns or
  throws, or \<open>None\<close> when a loop in it does not end.  \<open>getItems\<close> reads a collection that changes over
  time; a component is modelled at one moment, with the items it then has.
\<close>

section \<open>Computations that may throw or not return\<close>

type_synonym 'a run = "'a result option"

definition bind_run :: "'a run \<Rightarrow> ('a \<Rightarrow> 'b run) \<Rightarrow> 'b run" where
  "bind_run m f = Option.bind m (\<lambda>r. case r of Inl e \<Rightarrow> Some (Inl e) | Inr x \<Rightarrow> f x)"

lemma bind_run_simps [simp]:
  "bind_run (Some (Inr x)) f = f x" "bind_run (Some (Inl e)) f = Some (Inl e)" "bind_run None f = None"
  by (simp_all add: bind_run_def)

lemma bind_run_Inr [result_simps]:
  "bind_run m f = Some (Inr y) \<longleftrightarrow> (\<exists>x. m = Some (Inr x) \<and> f x = Some (Inr y))"
  by (cases m; cases "the m") auto

lemma bind_run_cong [fundef_cong]:
  "m = m' \<Longrightarrow> (\<And>x. m' = Some (Inr x) \<Longrightarrow> f x = f' x) \<Longrightarrow> bind_run m f = bind_run m' f'"
  by (auto simp: bind_run_def split: sum.split option.split bind_split)

section \<open>Reducers\<close>

record ('s, 'b) StateReducer =
  getInitialState :: "'b \<Rightarrow> 's run"
  reduce :: "'s \<Rightarrow> 'b \<Rightarrow> 's run"

text \<open>A state per item, and the state of the whole.\<close>

record ('m, 't) MappedState =
  state_items :: "'m js_map"
  rest :: 't

record ('o, 'm, 't, 'b) MappedStateReducer =
  getItems :: "'o list"
  getBaseReducer :: "'o \<Rightarrow> ('m, 'b) StateReducer result"
  idSelector :: "'o \<Rightarrow> string"
  whole_reducer :: "('t, 'b) StateReducer"

text \<open>The loop over the items, for the state \<open>f\<close> computes of an item.\<close>

fun mapped_items ::
  "('o \<Rightarrow> string) \<Rightarrow> ('o \<Rightarrow> 'm run) \<Rightarrow> 'o list \<Rightarrow> 'm js_map \<Rightarrow> 'm js_map run" where
  "mapped_items key f [] acc = Some (Inr acc)"
| "mapped_items key f (obj # objs) acc =
     bind_run (f obj) (\<lambda>m. mapped_items key f objs (AList.update (key obj) m acc))"

definition mapped_getInitialState ::
  "('o, 'm, 't, 'b) MappedStateReducer \<Rightarrow> 'b \<Rightarrow> ('m, 't) MappedState run" where
  "mapped_getInitialState r block =
     bind_run (mapped_items (idSelector r)
                (\<lambda>obj. bind_run (Some (getBaseReducer r obj)) (\<lambda>baseReducer. getInitialState baseReducer block))
                (getItems r) [])
       (\<lambda>its. bind_run (getInitialState (whole_reducer r) block)
         (\<lambda>state. Some (Inr \<lparr>state_items = its, rest = state\<rparr>)))"

definition mapped_reduce ::
  "('o, 'm, 't, 'b) MappedStateReducer \<Rightarrow> ('m, 't) MappedState \<Rightarrow> 'b \<Rightarrow> ('m, 't) MappedState run" where
  "mapped_reduce r prevState block =
     bind_run (mapped_items (idSelector r)
                (\<lambda>obj. bind_run (Some (getBaseReducer r obj)) (\<lambda>baseReducer.
                   case map_of (state_items prevState) (idSelector r obj) of
                     Some prevObjState \<Rightarrow> reduce baseReducer prevObjState block
                   | None \<Rightarrow> getInitialState baseReducer block))
                (getItems r) [])
       (\<lambda>its. bind_run (reduce (whole_reducer r) (rest prevState) block)
         (\<lambda>state. Some (Inr \<lparr>state_items = its, rest = state\<rparr>)))"

definition mapped_reducer ::
  "('o, 'm, 't, 'b) MappedStateReducer \<Rightarrow> (('m, 't) MappedState, 'b) StateReducer" where
  "mapped_reducer r = \<lparr>getInitialState = mapped_getInitialState r, reduce = mapped_reduce r\<rparr>"

text \<open>The block number as a state.\<close>

record BlockNumberState =
  blockNumber :: int

definition BlockNumberReducer :: "(BlockNumberState, 'a IBlockStub_scheme) StateReducer" where
  "BlockNumberReducer =
     \<lparr>getInitialState = \<lambda>block. Some (Inr \<lparr>blockNumber = number block\<rparr>),
      reduce = \<lambda>prevState block. Some (Inr \<lparr>blockNumber = number block\<rparr>)\<rparr>"

section \<open>Components\<close>

text \<open>What the machine uses of a component.  How an action is applied is the business of the
  component; the machine only sees whether it succeeded.\<close>

record ('b, 's, 'a) Component =
  component_name :: string
  reducer :: "('b, 's) BlockCache \<Rightarrow> ('s, 'b) StateReducer"
  detectChanges :: "'s \<Rightarrow> 's \<Rightarrow> 'a list result"

section \<open>The states of the items\<close>

lemma mapped_items_total:
  assumes "\<And>obj. obj \<in> set objs \<Longrightarrow> \<exists>m. f obj = Some (Inr m)"
  shows "\<exists>its. mapped_items key f objs acc = Some (Inr its)"
  using assms by (induction objs arbitrary: acc) fastforce+

text \<open>With distinct keys the map lists the state of each item, in the order of the items.\<close>

lemma update_new: "k \<notin> fst ` set al \<Longrightarrow> AList.update k v al = al @ [(k, v)]"
  by (induction al) auto

lemma mapped_items_eq:
  assumes "mapped_items key f objs acc = Some (Inr its)" "distinct (map key objs)"
    "\<And>obj. obj \<in> set objs \<Longrightarrow> key obj \<notin> fst ` set acc"
  shows "\<exists>ms. its = acc @ zip (map key objs) ms \<and> list_all2 (\<lambda>obj m. f obj = Some (Inr m)) objs ms"
  using assms
proof (induction objs arbitrary: acc)
  case (Cons obj objs)
  from Cons.prems(1) obtain m where m: "f obj = Some (Inr m)"
    "mapped_items key f objs (AList.update (key obj) m acc) = Some (Inr its)"
    by (auto simp: result_simps)
  have up: "AList.update (key obj) m acc = acc @ [(key obj, m)]"
    using Cons.prems(3) by (intro update_new) simp
  have "key obj' \<notin> fst ` set (acc @ [(key obj, m)])" if "obj' \<in> set objs" for obj'
    using Cons.prems(2) Cons.prems(3) [of obj'] that by (auto simp: image_iff)
  from Cons.IH [OF _ _ this] m(2) Cons.prems(2) obtain ms where
    "its = acc @ [(key obj, m)] @ zip (map key objs) ms" "list_all2 (\<lambda>obj m. f obj = Some (Inr m)) objs ms"
    by (auto simp: up)
  with m(1) show ?case by (intro exI [of _ "m # ms"]) simp
qed simp

lemma mapped_items_keys:
  assumes "mapped_items key f objs [] = Some (Inr its)" "distinct (map key objs)"
  shows "map fst its = map key objs"
  using mapped_items_eq [OF assms] by (auto dest: list_all2_lengthD)

lemma mapped_items_get:
  assumes "mapped_items key f objs [] = Some (Inr its)" "distinct (map key objs)" "obj \<in> set objs"
  shows "\<exists>m. f obj = Some (Inr m) \<and> map_of its (key obj) = Some m"
proof -
  from mapped_items_eq [OF assms(1,2)] obtain ms where
    ms: "its = zip (map key objs) ms" "list_all2 (\<lambda>obj m. f obj = Some (Inr m)) objs ms" by auto
  from assms(3) obtain i where i: "i < length objs" "objs ! i = obj" by (auto simp: in_set_conv_nth)
  from ms(2) i have "f obj = Some (Inr (ms ! i))" "length ms = length objs"
    by (auto dest: list_all2_nthD list_all2_lengthD)
  moreover from this(2) i assms(2) have "map_of its (key obj) = Some (ms ! i)"
    unfolding ms(1) using map_of_zip_nth [of "map key objs" ms i] by simp
  ultimately show ?thesis by blast
qed

section \<open>Mapped reducers return\<close>

lemma mapped_returns:
  assumes "\<And>obj. obj \<in> set (getItems r) \<Longrightarrow> \<exists>base. getBaseReducer r obj = Inr base \<and>
      (\<exists>m. getInitialState base b = Some (Inr m)) \<and> (\<forall>s. \<exists>m. reduce base s b = Some (Inr m))"
    "\<exists>w. getInitialState (whole_reducer r) b = Some (Inr w)" "\<And>s. \<exists>w. reduce (whole_reducer r) s b = Some (Inr w)"
  shows "\<exists>s. mapped_getInitialState r b = Some (Inr s)" "\<exists>s'. mapped_reduce r s b = Some (Inr s')"
proof -
  have "\<exists>its. mapped_items (idSelector r)
      (\<lambda>obj. bind_run (Some (getBaseReducer r obj)) (\<lambda>base. getInitialState base b)) (getItems r) [] = Some (Inr its)"
  proof (rule mapped_items_total)
    show "\<exists>m. bind_run (Some (getBaseReducer r obj)) (\<lambda>base. getInitialState base b) = Some (Inr m)"
      if "obj \<in> set (getItems r)" for obj
      using assms(1) [OF that] by auto
  qed
  then obtain its where its: "mapped_items (idSelector r)
      (\<lambda>obj. bind_run (Some (getBaseReducer r obj)) (\<lambda>base. getInitialState base b)) (getItems r) [] = Some (Inr its)"
    by blast
  from assms(2) obtain w where w: "getInitialState (whole_reducer r) b = Some (Inr w)" by blast
  show "\<exists>s. mapped_getInitialState r b = Some (Inr s)"
    unfolding mapped_getInitialState_def its bind_run_simps w by blast
next
  let ?f = "\<lambda>obj. bind_run (Some (getBaseReducer r obj)) (\<lambda>base.
      case map_of (state_items s) (idSelector r obj) of
        Some prev \<Rightarrow> reduce base prev b | None \<Rightarrow> getInitialState base b)"
  have "\<exists>its. mapped_items (idSelector r) ?f (getItems r) [] = Some (Inr its)"
  proof (rule mapped_items_total)
    show "\<exists>m. ?f obj = Some (Inr m)" if "obj \<in> set (getItems r)" for obj
      using assms(1) [OF that] by (auto split: option.split)
  qed
  then obtain its where its: "mapped_items (idSelector r) ?f (getItems r) [] = Some (Inr its)" by blast
  from assms(3) obtain w where w: "reduce (whole_reducer r) (rest s) b = Some (Inr w)" by blast
  show "\<exists>s'. mapped_reduce r s b = Some (Inr s')"
    unfolding mapped_reduce_def its bind_run_simps w by blast
qed

section \<open>Reducing along a chain\<close>

text \<open>The state after a list of blocks, oldest first.\<close>

fun reduce_chain :: "('s, 'b) StateReducer \<Rightarrow> 's \<Rightarrow> 'b list \<Rightarrow> 's run" where
  "reduce_chain r s [] = Some (Inr s)"
| "reduce_chain r s (b # bs) = bind_run (reduce r s b) (\<lambda>s'. reduce_chain r s' bs)"

lemma bind_run_assoc: "bind_run (bind_run m f) g = bind_run m (\<lambda>x. bind_run (f x) g)"
  by (cases m; cases "the m") auto

lemma reduce_chain_append:
  "reduce_chain r s (bs @ cs) = bind_run (reduce_chain r s bs) (\<lambda>s'. reduce_chain r s' cs)"
  by (induction bs arbitrary: s) (simp_all add: bind_run_assoc)

end
