(* ===== verification/ActionStore.thy ===== *)
theory ActionStore
  imports BlockItemStore
begin

text \<open>
  The store of the actions of the components (src/src/blockMonitor/actionStore.ts): actions are written
  to the database before they are run and removed when they were applied.

  The ids come from \<open>uuid\<close>, an argument of \<open>storeActions\<close>.  The members of a \<open>Set\<close> are objects compared by
  reference: they are given by their id, which no other action has.
\<close>

section \<open>The store\<close>

record 'a ActionAndId =
  action_id :: string
  action :: 'a

record 'a ActionStore =
  actions :: "'a ActionAndId list js_map"
  actionDb :: "'a js_map"

definition new_ActionStore :: "'a js_map \<Rightarrow> 'a ActionStore" where
  "new_ActionStore db = \<lparr>actions = [], actionDb = db\<rparr>"

lemma action_eta [simp]: "\<lparr>action_id = action_id a, action = action a\<rparr> = (a :: 'a ActionAndId)"
  by (cases a) simp

text \<open>\<open>Set.add\<close> of actions to the set of a component, which is made when there is none.\<close>

definition add_actions :: "string \<Rightarrow> 'a ActionAndId list \<Rightarrow> 'a ActionAndId list js_map \<Rightarrow> 'a ActionAndId list js_map" where
  "add_actions componentName as m =
     (case map_of m componentName of
        Some componentSet \<Rightarrow> AList.update componentName (fold (\<lambda>a l. if a \<in> set l then l else l @ [a]) as componentSet) m
      | None \<Rightarrow> AList.update componentName (remdups as) m)"

text \<open>The database encodes the actions as JSON, and \<open>reread\<close> is what decoding gives back of one: an object without
  its methods and getters.

  One record of the read stream; \<open>indexOf\<close> is -1 when the key has no colon.\<close>

definition load_action :: "('a \<Rightarrow> 'a) \<Rightarrow> string \<times> 'a \<Rightarrow> 'a ActionStore \<Rightarrow> 'a ActionStore" where
  "load_action reread rec s =
     (case rec of (key, value) \<Rightarrow>
        let componentName = (if CHR '':'' \<in> set key then takeWhile (\<lambda>c. c \<noteq> CHR '':'') key else []);
            actionId = (if CHR '':'' \<in> set key then tl (dropWhile (\<lambda>c. c \<noteq> CHR '':'') key) else key)
        in s\<lparr>actions := add_actions componentName [\<lparr>action_id = actionId, action = reread value\<rparr>] (actions s)\<rparr>)"

definition startInternal_actions :: "('a \<Rightarrow> 'a) \<Rightarrow> 'a js_map \<Rightarrow> 'a ActionStore \<Rightarrow> 'a ActionStore" where
  "startInternal_actions reread stream s = fold (load_action reread) stream s"

definition getActions :: "'a ActionStore \<Rightarrow> string \<Rightarrow> 'a ActionAndId list" where
  "getActions s componentName = (case map_of (actions s) componentName of Some l \<Rightarrow> l | None \<Rightarrow> [])"

definition action_key :: "string \<Rightarrow> string \<Rightarrow> string" where
  "action_key componentName actionId = componentName @ '':'' @ actionId"

definition storeActions ::
  "string list \<Rightarrow> bool \<Rightarrow> string \<Rightarrow> 'a list \<Rightarrow> ('a ActionStore, 'a ActionAndId list) eff" where
  "storeActions uuids db_ok componentName newActions s =
     (let actionsWithId = map2 (\<lambda>i a. \<lparr>action_id = i, action = a\<rparr>) uuids newActions in
      if \<not> db_ok then (Inl (JsError ''batch write''), s)
      else (Inr actionsWithId,
            s\<lparr>actionDb := fold (\<lambda>a. AList.update (action_key componentName (action_id a)) (action a))
                            actionsWithId (actionDb s),
              actions := add_actions componentName actionsWithId (actions s)\<rparr>))"

definition removeAction :: "bool \<Rightarrow> string \<Rightarrow> 'a ActionAndId \<Rightarrow> ('a ActionStore, unit) eff" where
  "removeAction db_ok componentName a s =
     (if \<not> db_ok then (Inl (JsError ''del''), s)
      else
        let s' = s\<lparr>actionDb := AList.delete (action_key componentName (action_id a)) (actionDb s)\<rparr> in
        (Inr (), case map_of (actions s') componentName of
           None \<Rightarrow> s'
         | Some l \<Rightarrow> s'\<lparr>actions := AList.update componentName (removeAll a l) (actions s')\<rparr>))"

section \<open>The contract\<close>

text \<open>What a client may pass: component names without colons and fresh, distinct ids.\<close>

datatype 'a action_call =
    Store "string list" bool string "'a list"
  | Remove bool string "'a ActionAndId"

definition action_ids :: "'a ActionStore \<Rightarrow> string \<Rightarrow> string set" where
  "action_ids s name = action_id ` set (getActions s name)"

fun action_call_ok :: "'a ActionStore \<Rightarrow> 'a action_call \<Rightarrow> bool" where
  "action_call_ok s (Store uuids db_ok name newActions) \<longleftrightarrow>
     colon_free name \<and> distinct uuids \<and> length uuids = length newActions \<and> set uuids \<inter> action_ids s name = {}"
| "action_call_ok s (Remove db_ok name a) \<longleftrightarrow> colon_free name \<and> a \<in> set (getActions s name)"

fun action_step :: "'a ActionStore \<Rightarrow> 'a action_call \<Rightarrow> 'a ActionStore result" where
  "action_step s (Store uuids db_ok name newActions) =
     (case storeActions uuids db_ok name newActions s of (r, s') \<Rightarrow> map_sum id (\<lambda>_. s') r)"
| "action_step s (Remove db_ok name a) =
     (case removeAction db_ok name a s of (r, s') \<Rightarrow> map_sum id (\<lambda>_. s') r)"

text \<open>An action in memory is the one that was written or what was read back of it.\<close>

definition same_action :: "('a \<Rightarrow> 'a) \<Rightarrow> 'a \<Rightarrow> 'a \<Rightarrow> bool" where
  "same_action reread v x \<longleftrightarrow> x = v \<or> x = reread v"

lemma same_action_simps [simp]: "same_action reread v v" "same_action reread v (reread v)" "same_action id v x \<longleftrightarrow> x = v"
  by (auto simp: same_action_def)

text \<open>Ids are unique within a component and the database holds exactly the actions in memory.\<close>

definition actions_ok :: "('a \<Rightarrow> 'a) \<Rightarrow> 'a ActionStore \<Rightarrow> bool" where
  "actions_ok reread s \<longleftrightarrow>
     (\<forall>name. distinct (map action_id (getActions s name))) \<and>
     (\<forall>name. \<not> colon_free name \<longrightarrow> getActions s name = []) \<and>
     (\<forall>name. \<forall>a\<in>set (getActions s name).
        \<exists>v. map_of (actionDb s) (action_key name (action_id a)) = Some v \<and> same_action reread v (action a)) \<and>
     (\<forall>k v. map_of (actionDb s) k = Some v \<longrightarrow>
        (\<exists>name. \<exists>a\<in>set (getActions s name). colon_free name \<and> k = action_key name (action_id a)))"

lemma actions_okD:
  assumes "actions_ok reread s"
  shows "distinct (map action_id (getActions s name))"
    "\<not> colon_free name \<Longrightarrow> getActions s name = []"
    "a \<in> set (getActions s name) \<Longrightarrow>
       \<exists>v. map_of (actionDb s) (action_key name (action_id a)) = Some v \<and> same_action reread v (action a)"
    "map_of (actionDb s) k = Some v \<Longrightarrow>
       \<exists>name. \<exists>a\<in>set (getActions s name). colon_free name \<and> k = action_key name (action_id a)"
  using assms unfolding actions_ok_def by auto

lemma action_key_inj [simp]:
  assumes "colon_free n" "colon_free n'"
  shows "action_key n i = action_key n' i' \<longleftrightarrow> n = n' \<and> i = i'"
proof
  assume eq: "action_key n i = action_key n' i'"
  then have "n = n'"
    using takeWhile_colon [OF assms(1), of i] takeWhile_colon [OF assms(2), of i'] by (simp add: action_key_def)
  with eq show "n = n' \<and> i = i'" by (simp add: action_key_def)
qed simp

lemma add_set_distinct:
  "distinct (l @ as) \<Longrightarrow> fold (\<lambda>a l. if a \<in> set l then l else l @ [a]) as l = l @ as"
  by (induction as arbitrary: l) auto

lemma getActions_add:
  assumes "distinct (map action_id (getActions s name @ as))" "actions s' = add_actions name as (actions s)"
  shows "getActions s' n =
    (if n = name then getActions s name @ as else getActions s n)"
proof -
  have "distinct (getActions s name @ as)" using assms(1) by (rule distinct_map [THEN iffD1, THEN conjunct1])
  with assms(2) show ?thesis
    by (auto simp: getActions_def add_actions_def add_set_distinct distinct_remdups_id split: option.splits)
qed

lemma fold_put:
  "map_of (fold (\<lambda>a. AList.update (f a) (g a)) as db) k =
     (case map_of (rev (map (\<lambda>a. (f a, g a)) as)) k of None \<Rightarrow> map_of db k | Some v \<Rightarrow> Some v)"
  by (induction as arbitrary: db) (auto split: option.split simp: map_add_def)

lemma put_actions:
  assumes "distinct (map action_id as)" "colon_free name"
  shows "map_of (fold (\<lambda>a. AList.update (action_key name (action_id a)) (action a)) as db) k = Some v \<longleftrightarrow>
    (\<exists>a\<in>set as. k = action_key name (action_id a) \<and> v = action a) \<or>
    (\<forall>a\<in>set as. k \<noteq> action_key name (action_id a)) \<and> map_of db k = Some v"
proof -
  let ?l = "rev (map (\<lambda>a. (action_key name (action_id a), action a)) as)"
  have "map fst ?l = rev (map (action_key name) (map action_id as))" by (simp add: rev_map)
  moreover have "inj_on (action_key name) (set (map action_id as))"
    by (rule inj_onI) (simp add: action_key_def)
  ultimately have d: "distinct (map fst ?l)" using assms(1) by (simp only: distinct_rev distinct_map)
  show ?thesis
  proof (cases "map_of ?l k")
    case None
    then have "\<forall>a\<in>set as. k \<noteq> action_key name (action_id a)" by (force simp: map_of_eq_None_iff)
    with None show ?thesis unfolding fold_put by auto
  next
    case (Some w)
    then have "(k, w) \<in> set ?l" by (rule map_of_SomeD)
    then obtain a where a: "a \<in> set as" "k = action_key name (action_id a)" "w = action a" by auto
    then have "a' = a" if "a' \<in> set as" "k = action_key name (action_id a')" for a'
      using that assms by (auto simp: distinct_map inj_on_def)
    with a have "(\<exists>a\<in>set as. k = action_key name (action_id a) \<and> v = action a) \<longleftrightarrow> v = w"
      "\<not> (\<forall>a\<in>set as. k \<noteq> action_key name (action_id a))" by blast+
    with Some show ?thesis unfolding fold_put by auto
  qed
qed

lemma in_memory_colon_free: "actions_ok reread s \<Longrightarrow> a \<in> set (getActions s name) \<Longrightarrow> colon_free name"
  using actions_okD(2) [of reread s name] by (cases "colon_free name") auto

text \<open>An id of a component names an action in memory exactly when its key is in the database.\<close>

lemma in_memory_iff:
  assumes ok: "actions_ok reread s" and name: "colon_free name"
  shows "i \<in> action_ids s name \<longleftrightarrow> map_of (actionDb s) (action_key name i) \<noteq> None"
proof
  assume "i \<in> action_ids s name"
  then obtain a where "a \<in> set (getActions s name)" "i = action_id a" by (auto simp: action_ids_def)
  with actions_okD(3) [OF ok this(1)] show "map_of (actionDb s) (action_key name i) \<noteq> None" by auto
next
  assume "map_of (actionDb s) (action_key name i) \<noteq> None"
  then obtain v where "map_of (actionDb s) (action_key name i) = Some v" by blast
  from actions_okD(4) [OF ok this] name show "i \<in> action_ids s name" by (auto simp: action_ids_def)
qed

text \<open>Adding actions with new ids to memory and database.\<close>

lemma actions_ok_add:
  assumes ok: "actions_ok reread s" and name: "colon_free name" and d: "distinct (map action_id (getActions s name @ as))"
    and s': "s' = s\<lparr>actionDb := fold (\<lambda>a. AList.update (action_key name (action_id a)) (action a)) as (actionDb s),
                     actions := add_actions name as (actions s)\<rparr>"
  shows "actions_ok reread s'"
    "getActions s' n = (if n = name then getActions s name @ as else getActions s n)"
    "map_of (actionDb s') k = Some v \<longleftrightarrow>
       (\<exists>a\<in>set as. k = action_key name (action_id a) \<and> v = action a) \<or> map_of (actionDb s) k = Some v"
proof -
  note D = actions_okD [OF ok]
  have das: "distinct (map action_id as)" using d by simp
  have get: "getActions s' n = (if n = name then getActions s name @ as else getActions s n)" for n
    by (rule getActions_add [OF d]) (simp add: s')
  have old: "map_of (actionDb s) (action_key name (action_id a)) = None" if "a \<in> set as" for a
    using in_memory_iff [OF ok name, of "action_id a"] that d by (auto simp: action_ids_def)
  have db: "map_of (actionDb s') k = Some v \<longleftrightarrow>
      (\<exists>a\<in>set as. k = action_key name (action_id a) \<and> v = action a) \<or> map_of (actionDb s) k = Some v" for k v
    using put_actions [OF das name, of "actionDb s" k v] old by (auto simp: s')
  show "actions_ok reread s'"
    unfolding actions_ok_def
  proof (intro conjI allI impI ballI)
    show "distinct (map action_id (getActions s' n))" for n
      using d D(1) [of n] by (simp add: get)
    show "getActions s' n = []" if "\<not> colon_free n" for n
      using that name D(2) by (auto simp: get)
    show "\<exists>v. map_of (actionDb s') (action_key n (action_id a)) = Some v \<and> same_action reread v (action a)"
      if "a \<in> set (getActions s' n)" for n a
      using that D(3) [of a n] unfolding db by (auto simp: get split: if_splits)
    show "\<exists>n. \<exists>a\<in>set (getActions s' n). colon_free n \<and> k = action_key n (action_id a)" if "map_of (actionDb s') k = Some v" for k v
      using that name D(4) [of k v] unfolding db get by (metis Un_iff set_append)
  qed
  show "getActions s' n = (if n = name then getActions s name @ as else getActions s n)" by (rule get)
  show "map_of (actionDb s') k = Some v \<longleftrightarrow>
       (\<exists>a\<in>set as. k = action_key name (action_id a) \<and> v = action a) \<or> map_of (actionDb s) k = Some v" by (rule db)
qed

lemma storeActions_ok:
  assumes ok: "actions_ok reread s" and call: "action_call_ok s (Store uuids True name newActions)"
  obtains as s' where "storeActions uuids True name newActions s = (Inr as, s')" "actions_ok reread s'"
    "map action_id as = uuids" "map action as = newActions"
    "\<And>n. getActions s' n = (if n = name then getActions s name @ as else getActions s n)"
    "\<And>k v. map_of (actionDb s') k = Some v \<longleftrightarrow>
       (\<exists>a\<in>set as. k = action_key name (action_id a) \<and> v = action a) \<or> map_of (actionDb s) k = Some v"
proof -
  have call: "colon_free name" "distinct uuids" "length uuids = length newActions" "set uuids \<inter> action_ids s name = {}"
    using call by auto
  obtain as where as: "as = map2 (\<lambda>i a. \<lparr>action_id = i, action = a\<rparr>) uuids newActions"
    and ids: "map action_id as = uuids" "map action as = newActions"
    using call(3) by (simp add: comp_def case_prod_unfold)
  have "distinct (map action_id (getActions s name @ as))"
    using actions_okD(1) [OF ok, of name] call(2,4) ids(1) by (auto simp: action_ids_def)
  note add = actions_ok_add [OF ok call(1) this refl]
  show thesis
    using ids add by (intro that [of as "s\<lparr>actionDb := fold (\<lambda>a. AList.update (action_key name (action_id a)) (action a)) as (actionDb s),
        actions := add_actions name as (actions s)\<rparr>"]) (simp_all add: storeActions_def Let_def as)
qed

lemma removeAction_ok:
  assumes ok: "actions_ok reread s" and a: "a \<in> set (getActions s name)"
  obtains s' where "removeAction True name a s = (Inr (), s')" "actions_ok reread s'"
    "\<And>n. getActions s' n = (if n = name then removeAll a (getActions s name) else getActions s n)"
    "map_of (actionDb s') = (map_of (actionDb s))(action_key name (action_id a) := None)"
proof -
  note D = actions_okD [OF ok]
  note name = in_memory_colon_free [OF ok a]
  let ?db = "AList.delete (action_key name (action_id a)) (actionDb s)"
  from a obtain l where l: "map_of (actions s) name = Some l" "getActions s name = l"
    by (cases "map_of (actions s) name") (auto simp: getActions_def)
  let ?s = "s\<lparr>actionDb := ?db, actions := AList.update name (removeAll a l) (actions s)\<rparr>"
  have get: "getActions ?s n = (if n = name then removeAll a (getActions s name) else getActions s n)" for n
    using l by (simp add: getActions_def)
  have db: "map_of (actionDb ?s) = (map_of (actionDb s))(action_key name (action_id a) := None)"
    by (simp add: delete_conv')
  have uniq: "b = a" if "b \<in> set (getActions s name)" "action_id b = action_id a" for b
    using that a D(1) [of name] by (auto simp: distinct_map inj_on_def)
  have "actions_ok reread ?s"
    unfolding actions_ok_def
  proof (intro conjI allI impI ballI)
    show "distinct (map action_id (getActions ?s n))" for n
      using D(1) [of n] D(1) [of name] by (simp add: get distinct_map distinct_removeAll inj_on_def)
    show "getActions ?s n = []" if "\<not> colon_free n" for n
      using that name D(2) by (auto simp: get)
    show "\<exists>v. map_of (actionDb ?s) (action_key n (action_id b)) = Some v \<and> same_action reread v (action b)"
      if b: "b \<in> set (getActions ?s n)" for n b
    proof -
      from b have b': "b \<in> set (getActions s n)" "n = name \<longrightarrow> b \<noteq> a" by (auto simp: get split: if_splits)
      then have "action_key n (action_id b) \<noteq> action_key name (action_id a)"
        using uniq in_memory_colon_free [OF ok b'(1)] name by auto
      with D(3) [OF b'(1)] show ?thesis unfolding db by simp
    qed
    show "\<exists>n. \<exists>b\<in>set (getActions ?s n). colon_free n \<and> k = action_key n (action_id b)" if k: "map_of (actionDb ?s) k = Some v" for k v
    proof -
      from k have "map_of (actionDb s) k = Some v" "k \<noteq> action_key name (action_id a)" unfolding db by (auto split: if_splits)
      with D(4) obtain n b where "b \<in> set (getActions s n)" "colon_free n" "k = action_key n (action_id b)" "n = name \<longrightarrow> b \<noteq> a"
        by blast
      then show ?thesis by (intro exI [of _ n] bexI [of _ b]) (auto simp: get)
    qed
  qed
  moreover have "removeAction True name a s = (Inr (), ?s)"
    using l by (simp add: removeAction_def Let_def)
  ultimately show thesis using get db by (intro that [of ?s]) simp_all
qed

text \<open>A write or a removal that fails leaves everything as it is.\<close>

lemma action_failures:
  "storeActions uuids False name newActions s = (Inl (JsError ''batch write''), s)"
  "removeAction False name a s = (Inl (JsError ''del''), s)"
  by (simp_all add: storeActions_def removeAction_def Let_def)

interpretation actions: object_contract action_step "actions_ok reread" action_call_ok for reread
proof
  fix reread and s s' :: "'a ActionStore" and x
  assume ok: "actions_ok reread s" "action_call_ok s x" "action_step s x = Inr s'"
  show "actions_ok reread s'"
  proof (cases x)
    case (Store uuids db_ok name newActions)
    with ok show ?thesis
      by (cases db_ok) (auto simp: action_failures elim: storeActions_ok)
  next
    case (Remove db_ok name a)
    with ok show ?thesis
      by (cases db_ok) (auto simp: action_failures elim: removeAction_ok)
  qed
qed

lemma actions_ok_new: "actions_ok reread (new_ActionStore [])"
  by (simp add: actions_ok_def new_ActionStore_def getActions_def)

section \<open>Restarting\<close>

lemma load_action_key:
  assumes "colon_free name"
  shows "load_action reread (action_key name i, v) s =
    s\<lparr>actions := add_actions name [\<lparr>action_id = i, action = reread v\<rparr>] (actions s)\<rparr>"
  using takeWhile_colon [OF assms, of i] dropWhile_colon [OF assms, of i]
  by (simp add: load_action_def action_key_def Let_def)

text \<open>\<open>loaded reread stream name\<close>: the actions of a stream of records.\<close>

definition loaded :: "('a \<Rightarrow> 'a) \<Rightarrow> 'a js_map \<Rightarrow> string \<Rightarrow> 'a ActionAndId set" where
  "loaded reread stream name = {\<lparr>action_id = i, action = reread v\<rparr> | i v. (action_key name i, v) \<in> set stream}"

lemma load_stream:
  assumes "\<forall>k\<in>fst ` set stream. \<exists>name i. colon_free name \<and> k = action_key name i" "js_wf stream"
    "\<forall>name i. action_key name i \<in> fst ` set stream \<longrightarrow> i \<notin> action_id ` set (getActions s name)"
    "\<forall>name. distinct (map action_id (getActions s name))" "colon_free name"
  shows "distinct (map action_id (getActions (fold (load_action reread) stream s) name)) \<and>
    set (getActions (fold (load_action reread) stream s) name) = set (getActions s name) \<union> loaded reread stream name \<and>
    actionDb (fold (load_action reread) stream s) = actionDb s"
  using assms
proof (induction stream arbitrary: s)
  case Nil
  then show ?case by (simp add: loaded_def)
next
  case (Cons r stream)
  obtain k v where r: "r = (k, v)" by fastforce
  with Cons.prems(1) obtain n i where k: "colon_free n" "k = action_key n i" by auto
  let ?a = "\<lparr>action_id = i, action = reread v\<rparr>"
  let ?s = "s\<lparr>actions := add_actions n [?a] (actions s)\<rparr>"
  have new: "i \<notin> action_id ` set (getActions s n)" using Cons.prems(3) r k by auto
  have "distinct (map action_id (getActions s n @ [?a]))" using new Cons.prems(4) by auto
  then have get: "getActions ?s m = (if m = n then getActions s n @ [?a] else getActions s m)" for m
    by (rule getActions_add) simp
  have notin: "k \<notin> fst ` set stream" using Cons.prems(2) r by (auto simp: js_wf_def)
  have fresh: "j \<notin> action_id ` set (getActions ?s m)" if "action_key m j \<in> fst ` set stream" for m j
    using that Cons.prems(3) notin k(2) by (auto simp: get)
  have dist: "distinct (map action_id (getActions ?s m))" for m
    using Cons.prems(4) new by (auto simp: get)
  have "load_action reread r s = ?s" by (simp add: r k load_action_key)
  moreover have "loaded reread (r # stream) name = (if name = n then {?a} else {}) \<union> loaded reread stream name"
    using Cons.prems(5) k(1) by (auto simp: loaded_def r k(2))
  moreover have "js_wf stream" "\<forall>k\<in>fst ` set stream. \<exists>name i. colon_free name \<and> k = action_key name i"
    using Cons.prems(1,2) by (simp_all add: js_wf_def)
  ultimately show ?case
    using Cons.IH [of ?s] fresh dist Cons.prems(5) by (auto simp: get)
qed

lemma load_ok:
  assumes "actions_ok reread s" "js_wf stream" "map_of stream = map_of (actionDb s)"
  defines "s' \<equiv> startInternal_actions reread stream (new_ActionStore (actionDb s))"
  shows "actions_ok reread s'" "actionDb s' = actionDb s"
    "a \<in> set (getActions s' name) \<longleftrightarrow> colon_free name \<and>
       (\<exists>v. map_of (actionDb s) (action_key name (action_id a)) = Some v \<and> action a = reread v)"
proof -
  note D = actions_okD [OF assms(1)]
  have mem: "(k, v) \<in> set stream \<longleftrightarrow> map_of (actionDb s) k = Some v" for k v
    using assms(2) by (metis assms(3) js_wf_def map_of_eq_Some_iff)
  have keys: "\<forall>k\<in>fst ` set stream. \<exists>name i. colon_free name \<and> k = action_key name i"
    using D(4) mem by (metis (no_types) imageE prod.collapse)
  from load_stream [OF keys assms(2), of "new_ActionStore (actionDb s)" _ reread]
  have cf: "distinct (map action_id (getActions s' n))" "set (getActions s' n) = loaded reread stream n"
    "actionDb s' = actionDb s" if "colon_free n" for n
    using that by (auto simp: s'_def startInternal_actions_def new_ActionStore_def getActions_def)
  from cf(3) [of "[]"] show db: "actionDb s' = actionDb s" by (simp add: colon_free_def)
  have ncf: "getActions s' n = []" if "\<not> colon_free n" for n
    using keys that unfolding s'_def startInternal_actions_def
  proof (induction stream rule: rev_induct)
    case Nil
    then show ?case by (simp add: new_ActionStore_def getActions_def)
  next
    case (snoc r stream)
    obtain k v where r: "r = (k, v)" by fastforce
    with snoc.prems(1) obtain m i where k: "colon_free m" "k = action_key m i" by auto
    with snoc.prems(2) have "m \<noteq> n" by auto
    with snoc show ?case
      by (simp add: r k load_action_key getActions_def add_actions_def split: option.splits)
  qed
  have get: "a \<in> set (getActions s' n) \<longleftrightarrow> colon_free n \<and>
      (\<exists>v. map_of (actionDb s) (action_key n (action_id a)) = Some v \<and> action a = reread v)" for n a
  proof (cases "colon_free n")
    case True
    show ?thesis unfolding cf(2) [OF True] loaded_def mem using True by (cases a) auto
  qed (simp add: ncf)
  then show "a \<in> set (getActions s' name) \<longleftrightarrow> colon_free name \<and>
      (\<exists>v. map_of (actionDb s) (action_key name (action_id a)) = Some v \<and> action a = reread v)" .
  have "distinct (map action_id (getActions s' n))" for n
    using cf(1) ncf by (cases "colon_free n") auto
  moreover have "\<exists>n. \<exists>a\<in>set (getActions s' n). colon_free n \<and> k = action_key n (action_id a)" if k: "map_of (actionDb s) k = Some v" for k v
  proof -
    from D(4) [OF k] obtain n i where "colon_free n" "k = action_key n i" by blast
    with k show ?thesis
      by (intro exI [of _ n] bexI [of _ "\<lparr>action_id = i, action = reread v\<rparr>"]) (simp_all add: get)
  qed
  ultimately show "actions_ok reread s'"
    using ncf unfolding actions_ok_def db by (auto simp: get)
qed

end
