(* ===== verification/BlockCacheInv.thy ===== *)
theory BlockCacheInv
  imports BlockCache
begin

text \<open>
  How the cache represents a set of blocks, and the interface between the cache and the listener of its
  new blocks.  A block hash names one block: \<open>B\<close> gives it.  The cache is then described by one
  function, \<open>att\<close>: whether the block of a hash is attached, detached, or not there.
\<close>

section \<open>Representation\<close>

type_synonym 'a naming = "string \<Rightarrow> 'a IBlockStub_scheme"

abbreviation att :: "('b, 's) BlockCache \<Rightarrow> string \<Rightarrow> bool option" where
  "att c h \<equiv> attached_get (blockStore c) h"

abbreviation cache_items :: "('b, 's) BlockCache \<Rightarrow> string \<Rightarrow> ('b, 's) item option" where
  "cache_items c \<equiv> map_of (items (blockStore c))"

text \<open>\<open>real B h\<close>: the block of \<open>h\<close> is a block of that hash.\<close>

definition real :: "'a naming \<Rightarrow> string \<Rightarrow> bool" where
  "real B h \<longleftrightarrow> block_hash (B h) = h \<and> colon_free h"

definition names :: "'a naming \<Rightarrow> 'a IBlockStub_scheme \<Rightarrow> bool" where
  "names B b \<longleftrightarrow> B (block_hash b) = b \<and> colon_free (block_hash b)"

definition block_suffix :: string where
  "block_suffix = '':'' @ KEY_BLOCK"

definition rep_ok :: "'a naming \<Rightarrow> ('a IBlockStub_scheme, 's) BlockCache \<Rightarrow> bool" where
  "rep_ok B c \<longleftrightarrow>
     store_inv (\<lambda>h. number (B h)) (blockStore c) \<and> batch_open (blockStore c) \<and>
     (\<forall>h. att c h \<noteq> None \<longrightarrow> real B h) \<and>
     (\<forall>h. cache_items c (memKey h KEY_BLOCK) = map_option (\<lambda>a. BlockItem (B h)) (att c h)) \<and>
     (\<forall>h. cache_items c (memKey h KEY_ATTACHED) = map_option AttachedItem (att c h))"

lemma rep_okD:
  assumes "rep_ok B c"
  shows "store_inv (\<lambda>h. number (B h)) (blockStore c)" "batch_open (blockStore c)"
    "att c h \<noteq> None \<Longrightarrow> real B h"
    "cache_items c (memKey h KEY_BLOCK) = map_option (\<lambda>a. BlockItem (B h)) (att c h)"
    "cache_items c (memKey h KEY_ATTACHED) = map_option AttachedItem (att c h)"
  using assms by (auto simp: rep_ok_def)

lemma block_get_rep: "rep_ok B c \<Longrightarrow> block_get (blockStore c) h = map_option (\<lambda>a. B h) (att c h)"
  by (cases "att c h") (simp_all add: block_get_def getItem_def rep_okD(4))

lemma hasBlock_rep: "rep_ok B c \<Longrightarrow> hasBlock c h d \<longleftrightarrow> att c h = Some True \<or> d \<and> att c h \<noteq> None"
  by (auto simp: hasBlock_def block_get_rep)

lemma getBlock_rep: "rep_ok B c \<Longrightarrow> att c h \<noteq> None \<Longrightarrow> getBlock c h = Inr (B h)"
  by (auto simp: getBlock_def block_get_rep)

text \<open>The keys of blocks and of the attached flags are told apart by their ends.\<close>

lemma key_ends: "last (memKey h KEY_BLOCK) = CHR ''k''" "last (memKey h KEY_ATTACHED) = CHR ''d''"
  by (simp_all add: memKey_def KEY_BLOCK_def KEY_ATTACHED_def)

lemma memKey_block_attached [simp]:
  "memKey h KEY_BLOCK \<noteq> memKey h' KEY_ATTACHED" "memKey h KEY_ATTACHED \<noteq> memKey h' KEY_BLOCK"
proof -
  have "CHR ''k'' \<noteq> CHR ''d''" by simp
  then show "memKey h KEY_BLOCK \<noteq> memKey h' KEY_ATTACHED" "memKey h KEY_ATTACHED \<noteq> memKey h' KEY_BLOCK"
    using key_ends [of h] key_ends [of h'] by metis+
qed

lemma memKey_same [simp]: "memKey h k = memKey h' k \<longleftrightarrow> h = h'"
  by (simp add: memKey_def)

lemma attached_get_items:
  "attached_get s h = (case map_of (items s) (memKey h KEY_ATTACHED) of Some (AttachedItem a) \<Rightarrow> Some a | _ \<Rightarrow> None)"
  by (simp add: attached_get_def getItem_def)

lemma endsWith_block_suffix:
  "endsWith k block_suffix \<longleftrightarrow> (\<exists>h. k = memKey h KEY_BLOCK)"
proof
  assume "endsWith k block_suffix"
  then have "k = take (length k - length block_suffix) k @ block_suffix"
    by (metis append_take_drop_id endsWith_def)
  then show "\<exists>h. k = memKey h KEY_BLOCK" by (auto simp: memKey_def block_suffix_def)
qed (auto simp: endsWith_def memKey_def block_suffix_def)

lemma block_suffix_hash [simp]: "take (length (memKey h KEY_BLOCK) - length block_suffix) (memKey h KEY_BLOCK) = h"
  by (simp add: memKey_def block_suffix_def)

text \<open>The blocks of a height.\<close>

lemma blocks_at_height:
  assumes "rep_ok B c"
  obtains hs where "distinct hs" "set hs = {h. att c h \<noteq> None \<and> number (B h) = n}"
    "getBlocksAtHeight (blockStore c) (Some n) = map (\<lambda>h. (Some (B h), att c h)) hs"
proof -
  let ?s = "blockStore c"
  let ?keys = "filter (\<lambda>k. endsWith k block_suffix) (keys_at ?s (Some n))"
  let ?hash = "\<lambda>k. take (length k - length block_suffix) k"
  let ?hs = "map ?hash ?keys"
  note inv = rep_okD(1) [OF assms]
  have keys: "\<exists>h. k = memKey h KEY_BLOCK" if "k \<in> set ?keys" for k
    using that by (auto simp: endsWith_block_suffix)
  have hash: "key_hash (memKey h KEY_BLOCK) = h" if "att c h \<noteq> None" for h
    using rep_okD(3) [OF assms that] by (simp add: real_def)
  have mem: "memKey h KEY_BLOCK \<in> set ?keys \<longleftrightarrow> att c h \<noteq> None \<and> number (B h) = n" for h
    using inv hash [of h] by (auto simp: store_inv_def rep_okD(4) [OF assms] endsWith_block_suffix)
  have "distinct ?keys" using inv by (simp add: store_inv_def)
  moreover have "inj_on ?hash (set ?keys)"
    by (rule inj_onI) (metis keys block_suffix_hash)
  ultimately have "distinct ?hs" by (simp only: distinct_map)
  moreover have "h \<in> set ?hs \<longleftrightarrow> att c h \<noteq> None \<and> number (B h) = n" for h
  proof -
    have "h \<in> set ?hs \<longleftrightarrow> memKey h KEY_BLOCK \<in> set ?keys"
    proof
      assume "h \<in> set ?hs"
      then obtain k where "k \<in> set ?keys" "h = ?hash k" by auto
      with keys [of k] show "memKey h KEY_BLOCK \<in> set ?keys" by auto
    next
      assume "memKey h KEY_BLOCK \<in> set ?keys"
      then have "?hash (memKey h KEY_BLOCK) \<in> set ?hs" by (simp only: set_map) (rule imageI)
      then show "h \<in> set ?hs" by simp
    qed
    with mem show ?thesis by simp
  qed
  moreover have "getBlocksAtHeight ?s (Some n) = map (\<lambda>h. (Some (B h), att c h)) ?hs"
  proof -
    have "(block_get ?s (?hash k), att c (?hash k)) = (Some (B (?hash k)), att c (?hash k))" if "k \<in> set ?keys" for k
    proof -
      from keys [OF that] obtain h where k: "k = memKey h KEY_BLOCK" by blast
      with that mem [of h] have "att c h \<noteq> None" by blast
      with k show ?thesis by (auto simp: block_get_rep [OF assms])
    qed
    then show ?thesis
      by (auto simp: getBlocksAtHeight_def Let_def block_suffix_def)
  qed
  ultimately show thesis by (intro that [of ?hs]) auto
qed

section \<open>Changes of the representation\<close>

text \<open>A block that is put with its flag.\<close>

lemma on_store_simp: "m (blockStore c) = (r, s') \<Longrightarrow> on_store m c = (r, c\<lparr>blockStore := s'\<rparr>)"
  by (simp add: on_store_def)

lemma set_attached_rep:
  assumes "rep_ok B c" "att c h \<noteq> None" "number (B h) = n"
  obtains s' where "on_store (attached_set n h a) c = (Inr (), c\<lparr>blockStore := s'\<rparr>)"
    "rep_ok B (c\<lparr>blockStore := s'\<rparr>)" "att (c\<lparr>blockStore := s'\<rparr>) = (att c)(h \<mapsto> a)"
proof -
  have h: "real B h" using assms(1,2) rep_okD(3) by blast
  then have "number (B (key_hash (memKey h KEY_ATTACHED))) = n" using assms(3) by (simp add: real_def)
  from rep_okD(1,2) [OF assms(1)] this obtain s' where
    s': "putBlockItem n h KEY_ATTACHED (AttachedItem a) (blockStore c) = (Inr (), s')"
      "store_inv (\<lambda>h. number (B h)) s'" "batch_open s'"
      "map_of (items s') = (map_of (items (blockStore c)))(memKey h KEY_ATTACHED \<mapsto> AttachedItem a)"
    by (rule putBlockItem_open [where it = "AttachedItem a"])
  have att': "attached_get s' h' = (if h' = h then Some a else att c h')" for h'
    by (simp add: attached_get_items s'(4))
  have "rep_ok B (c\<lparr>blockStore := s'\<rparr>)"
    using assms(1,2) h s'(2,3) unfolding rep_ok_def by (auto simp: att' s'(4))
  moreover have "on_store (attached_set n h a) c = (Inr (), c\<lparr>blockStore := s'\<rparr>)"
    by (rule on_store_simp) (simp add: attached_set_def s'(1))
  ultimately show thesis by (intro that [of s']) (auto simp: att' fun_eq_iff)
qed

lemma put_block_rep:
  assumes "rep_ok B c" "names B b"
  obtains s1 s' where
    "on_store (block_set (number b) (block_hash b) b) c = (Inr (), c\<lparr>blockStore := s1\<rparr>)"
    "on_store (attached_set (number b) (block_hash b) a) (c\<lparr>blockStore := s1\<rparr>) = (Inr (), c\<lparr>blockStore := s'\<rparr>)"
    "rep_ok B (c\<lparr>blockStore := s'\<rparr>)" "att (c\<lparr>blockStore := s'\<rparr>) = (att c)(block_hash b \<mapsto> a)"
    "map_of (items s') =
       (cache_items c)(memKey (block_hash b) KEY_BLOCK \<mapsto> BlockItem b, memKey (block_hash b) KEY_ATTACHED \<mapsto> AttachedItem a)"
proof -
  let ?h = "block_hash b" and ?N = "\<lambda>h. number (B h)"
  have B: "B ?h = b" "colon_free ?h" "real B ?h" using assms(2) by (auto simp: names_def real_def)
  then have n: "?N (key_hash (memKey ?h KEY_BLOCK)) = number b" "?N (key_hash (memKey ?h KEY_ATTACHED)) = number b" by auto
  from rep_okD(1,2) [OF assms(1)] n(1) obtain s1 where
    s1: "putBlockItem (number b) ?h KEY_BLOCK (BlockItem b) (blockStore c) = (Inr (), s1)"
      "store_inv ?N s1" "batch_open s1"
      "map_of (items s1) = (map_of (items (blockStore c)))(memKey ?h KEY_BLOCK \<mapsto> BlockItem b)"
    by (rule putBlockItem_open [where it = "BlockItem b"])
  from s1(2,3) n(2) obtain s' where
    s': "putBlockItem (number b) ?h KEY_ATTACHED (AttachedItem a) s1 = (Inr (), s')"
      "store_inv ?N s'" "batch_open s'"
      "map_of (items s') = (map_of (items s1))(memKey ?h KEY_ATTACHED \<mapsto> AttachedItem a)"
    by (rule putBlockItem_open [where it = "AttachedItem a"])
  have att': "attached_get s' h = (if h = ?h then Some a else att c h)" for h
    by (simp add: attached_get_items s'(4) s1(4))
  have "rep_ok B (c\<lparr>blockStore := s'\<rparr>)"
    using assms(1) B s'(2,3) unfolding rep_ok_def by (auto simp: att' s'(4) s1(4))
  moreover have "on_store (block_set (number b) ?h b) c = (Inr (), c\<lparr>blockStore := s1\<rparr>)"
    by (rule on_store_simp) (simp add: block_set_def s1(1))
  moreover have "on_store (attached_set (number b) ?h a) (c\<lparr>blockStore := s1\<rparr>) = (Inr (), c\<lparr>blockStore := s'\<rparr>)"
    by (simp add: on_store_def attached_set_def s'(1))
  ultimately show thesis by (intro that [of s1 s']) (auto simp: att' s1(4) s'(4) fun_eq_iff)
qed

text \<open>A height that is deleted.\<close>

lemma delete_height_rep:
  assumes "rep_ok B c"
  obtains s' where "deleteItemsAtHeight n (blockStore c) = (Inr (), s')"
    "rep_ok B (c\<lparr>blockStore := s'\<rparr>)"
    "att (c\<lparr>blockStore := s'\<rparr>) = (\<lambda>h. if number (B h) = n then None else att c h)"
proof -
  let ?N = "\<lambda>h. number (B h)"
  from rep_okD(1,2) [OF assms] obtain s' where
    s': "deleteItemsAtHeight n (blockStore c) = (Inr (), s')" "store_inv ?N s'" "batch_open s'"
      "map_of (items s') = (\<lambda>k. if number (B (key_hash k)) = n then None else cache_items c k)"
    by (rule deleteItemsAtHeight_open)
  have keys: "map_of (items s') (memKey h k) = (if number (B h) = n then None else cache_items c (memKey h k))"
    if "k = KEY_BLOCK \<or> k = KEY_ATTACHED" for h k
  proof (cases "att c h")
    case None
    with that show ?thesis by (auto simp: s'(4) rep_okD(4,5) [OF assms])
  next
    case (Some a)
    then have "colon_free h" using rep_okD(3) [OF assms, of h] by (simp add: real_def)
    then show ?thesis by (simp add: s'(4))
  qed
  have att': "attached_get s' h = (if number (B h) = n then None else att c h)" for h
    by (simp add: attached_get_items keys)
  have "rep_ok B (c\<lparr>blockStore := s'\<rparr>)"
    using assms s'(2,3) unfolding rep_ok_def by (auto simp: att' keys)
  with s'(1) show thesis by (intro that [of s']) (auto simp: att' fun_eq_iff)
qed

end
