(* ===== verification/BlockCacheRuns.thy ===== *)
theory BlockCacheRuns
  imports BlockCacheInv
begin

text \<open>
  Adding blocks to the cache, for any listener that keeps the promise of the interface
  \<open>new_block_listener\<close>: on the chains it is made for, it returns and leaves the blocks of the cache
  alone.
\<close>

section \<open>The invariant of the cache\<close>

abbreviation lo :: "('b, 's) BlockCache \<Rightarrow> int" where
  "lo c \<equiv> the (pruneHeight c)"

text \<open>Every block is emitted once, and the emitted blocks that are high enough are the attached ones.\<close>

definition emission_ok :: "'a naming \<Rightarrow> ('a IBlockStub_scheme, 's) BlockCache \<Rightarrow> bool" where
  "emission_ok B c \<longleftrightarrow>
     (\<forall>e\<in>set (emitted c). names B e) \<and> distinct (emitted c) \<and>
     (\<forall>h. att c h = Some True \<longleftrightarrow> real B h \<and> B h \<in> set (emitted c) \<and> lo c \<le> number (B h))"

text \<open>A cache that has seen a block: nothing is below \<open>pruneHeight\<close>, which is the minimum height.\<close>

definition core :: "'a naming \<Rightarrow> ('a IBlockStub_scheme, 's) BlockCache \<Rightarrow> bool" where
  "core B c \<longleftrightarrow>
     rep_ok B c \<and> 0 \<le> maxDepth c \<and> \<not> mIsEmpty c \<and> pruneHeight c \<noteq> None \<and>
     mMaxHeight c - maxDepth c \<le> lo c \<and> (\<forall>h. att c h \<noteq> None \<longrightarrow> lo c \<le> number (B h)) \<and>
     emission_ok B c"

definition bounded :: "'a naming \<Rightarrow> ('a IBlockStub_scheme, 's) BlockCache \<Rightarrow> bool" where
  "bounded B c \<longleftrightarrow> (\<forall>h. att c h = Some True \<longrightarrow> number (B h) \<le> mMaxHeight c)"

definition cache_inv :: "'a naming \<Rightarrow> ('a IBlockStub_scheme, 's) BlockCache \<Rightarrow> bool" where
  "cache_inv B c \<longleftrightarrow>
     (if mIsEmpty c then
        rep_ok B c \<and> 0 \<le> maxDepth c \<and> pruneHeight c = None \<and> mMaxHeight c = 0 \<and>
        (\<forall>h. att c h = None) \<and> emitted c = []
      else core B c \<and> bounded B c)"

lemma coreD:
  assumes "core B c"
  shows "rep_ok B c" "0 \<le> maxDepth c" "\<not> mIsEmpty c" "pruneHeight c = Some (lo c)"
    "mMaxHeight c - maxDepth c \<le> lo c" "att c h \<noteq> None \<Longrightarrow> lo c \<le> number (B h)" "emission_ok B c"
    "minHeight c = Some (lo c)"
  using assms by (auto simp: core_def minHeight_def)

lemma rep_ok_more [simp]:
  "rep_ok B (c\<lparr>pruneHeight := x\<rparr>) = rep_ok B c" "rep_ok B (c\<lparr>mIsEmpty := e\<rparr>) = rep_ok B c"
  "rep_ok B (c\<lparr>mMaxHeight := m\<rparr>) = rep_ok B c" "rep_ok B (c\<lparr>emitted := l\<rparr>) = rep_ok B c"
  "rep_ok B (c\<lparr>headHash := h\<rparr>) = rep_ok B c"
  by (simp_all add: rep_ok_def)

definition detached :: "('b, 's) BlockCache \<Rightarrow> string set" where
  "detached c = {h. att c h = Some False}"

lemma finite_att: "finite {h. att c h \<noteq> None}"
proof (rule finite_imageD [of "\<lambda>h. memKey h KEY_ATTACHED"])
  have "(\<lambda>h. memKey h KEY_ATTACHED) ` {h. att c h \<noteq> None} \<subseteq> dom (cache_items c)"
    by (auto simp: attached_get_items split: option.splits)
  then show "finite ((\<lambda>h. memKey h KEY_ATTACHED) ` {h. att c h \<noteq> None})"
    by (rule finite_subset) (rule finite_dom_map_of)
qed (simp add: inj_on_def)

lemma finite_detached [simp]: "finite (detached c)"
  by (rule finite_subset [OF _ finite_att [of c]]) (auto simp: detached_def)

section \<open>Pruning\<close>

lemma prune_rep:
  assumes "rep_ok B c" "pruneHeight c = Some p" "\<And>h. att c h \<noteq> None \<Longrightarrow> p \<le> number (B h)"
  shows "\<exists>s'. prune c = (Inr (), c\<lparr>blockStore := s', pruneHeight := Some (max p (mMaxHeight c - maxDepth c))\<rparr>) \<and>
    rep_ok B (c\<lparr>blockStore := s'\<rparr>) \<and>
    (\<forall>h. attached_get s' h = (if number (B h) < max p (mMaxHeight c - maxDepth c) then None else att c h))"
  using assms
proof (induction "nat (mMaxHeight c - maxDepth c - p)" arbitrary: c p)
  case 0
  then have "max p (mMaxHeight c - maxDepth c) = p" by simp
  moreover have "prune c = (Inr (), c)"
    using 0 by (subst prune.simps) (simp add: minHeight_def)
  moreover have "attached_get (blockStore c) h = (if number (B h) < p then None else att c h)" for h
    using 0(4) [of h] by (cases "att c h") auto
  ultimately show ?case
    using 0(2,3) by (intro exI [of _ "blockStore c"]) simp
next
  case (Suc d)
  let ?m = "mMaxHeight c - maxDepth c"
  from Suc.hyps(2) have lt: "p < ?m" by simp
  obtain s1 where
    s1: "deleteItemsAtHeight p (blockStore c) = (Inr (), s1)" "rep_ok B (c\<lparr>blockStore := s1\<rparr>)"
      "att (c\<lparr>blockStore := s1\<rparr>) = (\<lambda>h. if number (B h) = p then None else att c h)"
    by (rule delete_height_rep [OF Suc.prems(1)])
  let ?c = "c\<lparr>blockStore := s1, pruneHeight := Some (p + 1)\<rparr>"
  have step: "prune c = prune ?c"
    using lt Suc.prems(2) by (subst prune.simps) (simp add: minHeight_def s1(1))
  have a1: "attached_get s1 h = (if number (B h) = p then None else att c h)" for h
    using fun_cong [OF s1(3), of h] by simp
  have "d = nat (mMaxHeight ?c - maxDepth ?c - (p + 1))" using Suc.hyps(2) by simp
  moreover have "p + 1 \<le> number (B h)" if "att ?c h \<noteq> None" for h
    using that Suc.prems(3) [of h] by (auto simp: a1 split: if_splits)
  ultimately obtain s' where s': "prune ?c = (Inr (), ?c\<lparr>blockStore := s', pruneHeight := Some (max (p + 1) ?m)\<rparr>)"
    "rep_ok B (?c\<lparr>blockStore := s'\<rparr>)"
    "\<forall>h. attached_get s' h = (if number (B h) < max (p + 1) ?m then None else att ?c h)"
    using Suc.hyps(1) [of ?c "p + 1"] s1(2) by auto
  have "max (p + 1) ?m = ?m" "max p ?m = ?m" using lt by auto
  with s' step a1 Suc.prems(3) show ?case
    by (intro exI [of _ s']) (auto simp: rep_ok_def)
qed

lemma update_rep:
  assumes "core B c"
  obtains c' where "updateMaxHeightAndPrune n c = (Inr (), c')" "core B c'"
    "mMaxHeight c' = max (mMaxHeight c) n" "lo c' = max (lo c) (mMaxHeight c' - maxDepth c)"
    "\<And>h. att c' h = (if number (B h) < lo c' then None else att c h)"
    "maxDepth c' = maxDepth c" "emitted c' = emitted c" "headHash c' = headHash c"
proof (cases "mMaxHeight c < n")
  case False
  then have "updateMaxHeightAndPrune n c = (Inr (), c)" by (simp add: updateMaxHeightAndPrune_def)
  moreover have "att c h = (if number (B h) < lo c then None else att c h)" for h
    using coreD(6) [OF assms, of h] by (cases "att c h") auto
  ultimately show thesis
    using assms False coreD(5) [OF assms] by (intro that [of c]) (simp_all add: not_less max_def)
next
  case True
  let ?c = "c\<lparr>mMaxHeight := n\<rparr>" and ?p = "max (lo c) (n - maxDepth c)"
  note D = coreD [OF assms]
  have "rep_ok B ?c" "pruneHeight ?c = Some (lo c)" using D by simp_all
  then obtain s' where s': "prune ?c = (Inr (), ?c\<lparr>blockStore := s', pruneHeight := Some ?p\<rparr>)"
    "rep_ok B (?c\<lparr>blockStore := s'\<rparr>)"
    "\<And>h. attached_get s' h = (if number (B h) < ?p then None else att c h)"
    using prune_rep [of B ?c "lo c"] D(6) by auto
  let ?c' = "?c\<lparr>blockStore := s', pruneHeight := Some ?p\<rparr>"
  have "emission_ok B ?c'"
    using D(7) by (auto simp: emission_ok_def s'(3))
  moreover have "rep_ok B ?c'" using s'(2) by (simp add: rep_ok_def)
  ultimately have "core B ?c'"
    using D by (auto simp: core_def s'(3))
  moreover have "updateMaxHeightAndPrune n c = (Inr (), ?c')"
    using True s'(1) by (simp add: updateMaxHeightAndPrune_def)
  ultimately show thesis using True by (intro that [of ?c']) (auto simp: s'(3))
qed

lemma canAttachBlock_core:
  "core B c \<Longrightarrow> canAttachBlock c b \<longleftrightarrow> att c (parentHash b) = Some True \<or> number b = lo c"
  using coreD(3,8) [of B c] by (auto simp: canAttachBlock_def hasBlock_rep [OF coreD(1)])

lemma minHeight_inv:
  "cache_inv B c \<Longrightarrow> minHeight c = (if mIsEmpty c then None else Some (lo c))"
  by (auto simp: cache_inv_def minHeight_def dest: coreD(8) split: if_splits)

text \<open>The state in which a block is put: the first block fixes the minimum height.\<close>

definition started :: "'a IBlockStub_scheme \<Rightarrow> ('a IBlockStub_scheme, 's) BlockCache \<Rightarrow> ('a IBlockStub_scheme, 's) BlockCache" where
  "started b c = (if mIsEmpty c then c\<lparr>pruneHeight := Some (number b), mIsEmpty := False\<rparr> else c)"

lemma started_core:
  assumes "cache_inv B c" "0 \<le> number b"
  shows "core B (started b c)" "bounded B (started b c)" "att (started b c) = att c"
    "maxDepth (started b c) = maxDepth c" "emitted (started b c) = emitted c"
    "mMaxHeight (started b c) = mMaxHeight c" "headHash (started b c) = headHash c"
  using assms by (auto simp: started_def cache_inv_def core_def bounded_def emission_ok_def split: if_splits)

lemma lo_started: "lo (started b c) = (if mIsEmpty c then number b else lo c)"
  by (simp add: started_def)

section \<open>Listeners\<close>

locale new_block_listener =
  fixes chain_ok :: "'a naming \<Rightarrow> bool"
    and listener :: "('a IBlockStub_scheme, 's) listener"
  assumes listener_keeps:
    "chain_ok B \<Longrightarrow> rep_ok B c \<Longrightarrow> names B b \<Longrightarrow> att c (block_hash b) = Some True \<Longrightarrow>
     \<exists>s'. listener b c = Some (Inr (), c\<lparr>blockStore := s'\<rparr>) \<and> rep_ok B (c\<lparr>blockStore := s'\<rparr>) \<and>
       (\<forall>h. attached_get s' h = att c h)"
begin

lemma emit_rep:
  assumes "chain_ok B" "rep_ok B c" "names B b" "att c (block_hash b) = Some True"
  obtains s' where "emit listener b c = Some (Inr (), c\<lparr>emitted := emitted c @ [b], blockStore := s'\<rparr>)"
    "rep_ok B (c\<lparr>emitted := emitted c @ [b], blockStore := s'\<rparr>)" "\<And>h. attached_get s' h = att c h"
proof -
  have "rep_ok B (c\<lparr>emitted := emitted c @ [b]\<rparr>)" using assms(2) by simp
  from listener_keeps [OF assms(1) this assms(3)] assms(4) that show thesis
    by (auto simp: emit_def)
qed

lemma attach_detached_rep:
  assumes "chain_ok B" "rep_ok B c" "att c h \<noteq> None" "number (B h) = n"
  obtains s' where
    "attach_detached listener n (Some (B h)) c = Some (Inr (), c\<lparr>emitted := emitted c @ [B h], blockStore := s'\<rparr>)"
    "rep_ok B (c\<lparr>emitted := emitted c @ [B h], blockStore := s'\<rparr>)"
    "\<And>h'. attached_get s' h' = (if h' = h then Some True else att c h')"
proof -
  have h: "block_hash (B h) = h" "colon_free h" using assms(2,3) rep_okD(3) by (auto simp: real_def)
  from set_attached_rep [OF assms(2-4), of True] obtain s1 where
    s1: "on_store (attached_set n h True) c = (Inr (), c\<lparr>blockStore := s1\<rparr>)"
      "rep_ok B (c\<lparr>blockStore := s1\<rparr>)" "att (c\<lparr>blockStore := s1\<rparr>) = (att c)(h \<mapsto> True)" by blast
  have "names B (B h)" "att (c\<lparr>blockStore := s1\<rparr>) (block_hash (B h)) = Some True"
    using h s1(3) by (auto simp: names_def)
  from emit_rep [OF assms(1) s1(2) this] obtain s' where
    s': "emit listener (B h) (c\<lparr>blockStore := s1\<rparr>) = Some (Inr (), c\<lparr>emitted := emitted c @ [B h], blockStore := s'\<rparr>)"
      "rep_ok B (c\<lparr>emitted := emitted c @ [B h], blockStore := s'\<rparr>)"
      "\<And>h'. attached_get s' h' = att (c\<lparr>blockStore := s1\<rparr>) h'"
    by auto
  have "attach_detached listener n (Some (B h)) c = Some (Inr (), c\<lparr>emitted := emitted c @ [B h], blockStore := s'\<rparr>)"
    by (simp add: attach_detached_def h s1(1) s'(1))
  with s'(2) show thesis
    using fun_cong [OF s1(3)] by (intro that [of s']) (simp_all add: s'(3))
qed

lemma attach_all_rep:
  assumes "chain_ok B" "rep_ok B c" "distinct hs" "\<forall>h\<in>set hs. att c h \<noteq> None \<and> number (B h) = n"
  shows "\<exists>s'. for_each_prog (attach_detached listener n) (map (\<lambda>h. Some (B h)) hs) c =
      Some (Inr (), c\<lparr>emitted := emitted c @ map B hs, blockStore := s'\<rparr>) \<and>
    rep_ok B (c\<lparr>emitted := emitted c @ map B hs, blockStore := s'\<rparr>) \<and>
    (\<forall>h. attached_get s' h = (if h \<in> set hs then Some True else att c h))"
  using assms
proof (induction hs arbitrary: c)
  case Nil
  then show ?case by (intro exI [of _ "blockStore c"]) simp
next
  case (Cons h hs)
  from Cons.prems(4) have "att c h \<noteq> None" "number (B h) = n" by auto
  from attach_detached_rep [OF Cons.prems(1,2) this] obtain s1 where
    s1: "attach_detached listener n (Some (B h)) c = Some (Inr (), c\<lparr>emitted := emitted c @ [B h], blockStore := s1\<rparr>)"
      "rep_ok B (c\<lparr>emitted := emitted c @ [B h], blockStore := s1\<rparr>)"
      "\<And>h'. attached_get s1 h' = (if h' = h then Some True else att c h')" by blast
  let ?c = "c\<lparr>emitted := emitted c @ [B h], blockStore := s1\<rparr>"
  have "\<forall>h'\<in>set hs. att ?c h' \<noteq> None \<and> number (B h') = n"
    using Cons.prems(3,4) by (auto simp: s1(3))
  from Cons.IH [OF Cons.prems(1) s1(2) _ this] Cons.prems(3) obtain s' where
    "for_each_prog (attach_detached listener n) (map (\<lambda>h. Some (B h)) hs) ?c =
      Some (Inr (), ?c\<lparr>emitted := emitted ?c @ map B hs, blockStore := s'\<rparr>)"
    "rep_ok B (?c\<lparr>emitted := emitted ?c @ map B hs, blockStore := s'\<rparr>)"
    "\<forall>h'. attached_get s' h' = (if h' \<in> set hs then Some True else att ?c h')" by auto
  then show ?case
    by (intro exI [of _ s']) (auto simp: s1)
qed

end

section \<open>Attaching detached blocks\<close>

text \<open>\<open>grows_but E\<close>: no block appears, none is detached, only blocks that are too low go, and no detached
  block is left right above a block that was attached meanwhile, unless its height is in \<open>E\<close>.  If the
  minimum height rises, a detached block has become attached; it follows the maximum height, which is
  the height of a block that was there.\<close>

definition grows_but ::
  "int set \<Rightarrow> 'a naming \<Rightarrow> ('a IBlockStub_scheme, 's) BlockCache \<Rightarrow> ('a IBlockStub_scheme, 's) BlockCache \<Rightarrow> bool" where
  "grows_but E B c c' \<longleftrightarrow>
     core B c' \<and> bounded B c' \<and> maxDepth c' = maxDepth c \<and> headHash c' = headHash c \<and>
     mMaxHeight c \<le> mMaxHeight c' \<and> lo c \<le> lo c' \<and>
     (\<forall>h. att c' h \<noteq> None \<longrightarrow> att c h \<noteq> None) \<and>
     (\<forall>h. att c' h = Some False \<longrightarrow> att c h = Some False) \<and>
     (\<forall>h. att c h \<noteq> None \<and> lo c' \<le> number (B h) \<longrightarrow> att c' h \<noteq> None) \<and>
     (\<forall>h h'. att c h = Some False \<and> att c' h = Some True \<and> number (B h) \<notin> E \<and> att c' h' = Some False \<longrightarrow>
        number (B h') \<noteq> number (B h) + 1) \<and>
     (lo c' = lo c \<or> detached c' \<subset> detached c) \<and>
     (\<exists>es. emitted c' = emitted c @ es \<and> set es \<subseteq> B ` detached c) \<and>
     lo c' = max (lo c) (mMaxHeight c' - maxDepth c) \<and>
     (mMaxHeight c' = mMaxHeight c \<or> (\<exists>h. att c h \<noteq> None \<and> number (B h) = mMaxHeight c'))"

abbreviation grows :: "'a naming \<Rightarrow> ('a IBlockStub_scheme, 's) BlockCache \<Rightarrow> ('a IBlockStub_scheme, 's) BlockCache \<Rightarrow> bool" where
  "grows \<equiv> grows_but {}"

definition no_detached_at :: "'a naming \<Rightarrow> ('a IBlockStub_scheme, 's) BlockCache \<Rightarrow> int \<Rightarrow> bool" where
  "no_detached_at B c n \<longleftrightarrow> (\<forall>h. att c h = Some False \<longrightarrow> number (B h) \<noteq> n)"

lemma grows_butD:
  assumes "grows_but E B c c'"
  shows "core B c'" "bounded B c'" "maxDepth c' = maxDepth c" "headHash c' = headHash c"
    "mMaxHeight c \<le> mMaxHeight c'" "lo c \<le> lo c'"
    "att c' h \<noteq> None \<Longrightarrow> att c h \<noteq> None"
    "att c' h = Some False \<Longrightarrow> att c h = Some False"
    "att c h \<noteq> None \<Longrightarrow> lo c' \<le> number (B h) \<Longrightarrow> att c' h \<noteq> None"
    "att c h = Some False \<Longrightarrow> att c' h = Some True \<Longrightarrow> number (B h) \<notin> E \<Longrightarrow> att c' h' = Some False \<Longrightarrow>
       number (B h') \<noteq> number (B h) + 1"
    "lo c' = lo c \<or> detached c' \<subset> detached c" "\<exists>es. emitted c' = emitted c @ es \<and> set es \<subseteq> B ` detached c"
    "lo c' = max (lo c) (mMaxHeight c' - maxDepth c)"
    "mMaxHeight c' = mMaxHeight c \<or> (\<exists>h. att c h \<noteq> None \<and> number (B h) = mMaxHeight c')"
  using assms unfolding grows_but_def by blast+

lemma grows_detached: "grows_but E B c c' \<Longrightarrow> detached c' \<subseteq> detached c"
  by (auto simp: grows_but_def detached_def)

lemma grows_refl: "core B c \<Longrightarrow> bounded B c \<Longrightarrow> grows B c c"
  by (auto simp: grows_but_def dest: coreD(5))

lemma no_detached_mono: "grows_but E B c c' \<Longrightarrow> no_detached_at B c n \<Longrightarrow> no_detached_at B c' n"
  by (auto simp: grows_but_def no_detached_at_def)

text \<open>Two phases compose when the second leaves no detached block above the heights the first excused.\<close>

lemma grows_trans:
  assumes 1: "grows_but E B c c1" and 2: "grows B c1 c2"
    and E: "\<And>n. n \<in> E \<Longrightarrow> no_detached_at B c2 (n + 1)"
  shows "grows B c c2"
proof -
  note D1 = grows_butD [OF 1] and D2 = grows_butD [OF 2]
  have "number (B h') \<noteq> number (B h) + 1"
    if a: "att c h = Some False" "att c2 h = Some True" "att c2 h' = Some False" for h h'
  proof (cases "att c1 h = Some False")
    case True
    from D2(10) [OF True a(2) _ a(3)] show ?thesis by simp
  next
    case False
    with D2(7) [of h] a(2) have t: "att c1 h = Some True" by (cases "att c1 h") auto
    show ?thesis
    proof (cases "number (B h) \<in> E")
      case True
      with E a(3) show ?thesis by (auto simp: no_detached_at_def)
    next
      case False
      from D1(10) [OF a(1) t False D2(8) [OF a(3)]] show ?thesis .
    qed
  qed
  moreover have "att c2 h \<noteq> None" if "att c h \<noteq> None" "lo c2 \<le> number (B h)" for h
  proof -
    have "att c1 h \<noteq> None" by (rule D1(9) [OF that(1)]) (use that(2) D2(6) in linarith)
    then show ?thesis by (rule D2(9)) (rule that(2))
  qed
  moreover have "lo c2 = lo c \<or> detached c2 \<subset> detached c"
    using D1(11) D2(11) grows_detached [OF 1] grows_detached [OF 2] by auto
  moreover have "\<exists>es. emitted c2 = emitted c @ es \<and> set es \<subseteq> B ` detached c"
  proof -
    from D1(12) D2(12) obtain es1 es2 where "emitted c2 = emitted c @ es1 @ es2" "set es1 \<subseteq> B ` detached c"
      "set es2 \<subseteq> B ` detached c1" by auto
    with image_mono [OF grows_detached [OF 1], of B] show ?thesis by (intro exI [of _ "es1 @ es2"]) auto
  qed
  moreover have "lo c2 = max (lo c) (mMaxHeight c2 - maxDepth c)" using D1(3,13) D2(5,13) by auto
  moreover have "mMaxHeight c2 = mMaxHeight c \<or> (\<exists>h. att c h \<noteq> None \<and> number (B h) = mMaxHeight c2)"
    using D1(7,14) D2(14) by metis
  ultimately show ?thesis
    unfolding grows_but_def using D1(3-8) D2(1-8) by (auto intro: order_trans)
qed

text \<open>Marking one new block as attached, and emitting it.\<close>

lemma core_emit:
  assumes core: "core B c" and b: "names B b" "att c (block_hash b) = None" "lo c \<le> number b"
    and c2: "c2 = c\<lparr>emitted := emitted c @ [b], blockStore := s2\<rparr>" "rep_ok B c2"
      "\<And>h. attached_get s2 h = (if h = block_hash b then Some True else att c h)"
  shows "core B c2"
proof -
  note D = coreD [OF core] and em = coreD(7) [OF core, unfolded emission_ok_def]
  have B: "B (block_hash b) = b" "real B (block_hash b)" using b(1) by (auto simp: names_def real_def)
  have notin: "b \<notin> set (emitted c)"
  proof
    assume "b \<in> set (emitted c)"
    then have "att c (block_hash b) = Some True" using em B b(3) by auto
    with b(2) show False by simp
  qed
  have "emission_ok B c2"
    unfolding emission_ok_def
  proof (intro conjI ballI allI)
    show "att c2 h = Some True \<longleftrightarrow> real B h \<and> B h \<in> set (emitted c2) \<and> lo c2 \<le> number (B h)" for h
    proof (cases "h = block_hash b")
      case True
      with B b(3) show ?thesis by (simp add: c2(1,3))
    next
      case False
      have "B h \<noteq> b" if "real B h" using that False by (auto simp: real_def)
      with False em show ?thesis by (auto simp: c2(1,3))
    qed
  qed (use em b(1) notin c2(1) in auto)
  then show ?thesis using D b(3) B c2(2) by (auto simp: core_def c2(1,3))
qed

text \<open>Marking the detached blocks \<open>hs\<close> of a height as attached, and emitting them.\<close>

lemma core_attach:
  assumes core: "core B c" and hs: "distinct hs" "set hs = {h. att c h = Some False \<and> number (B h) = n}"
    and c1: "c1 = c\<lparr>emitted := emitted c @ map B hs, blockStore := s1\<rparr>" "rep_ok B c1"
      "\<And>h. attached_get s1 h = (if h \<in> set hs then Some True else att c h)"
  shows "core B c1"
proof -
  note D = coreD [OF core]
  have real: "real B h" if "h \<in> set hs" for h using that hs(2) rep_okD(3) [OF D(1)] by auto
  have bh: "block_hash (B h) = h" if "h \<in> set hs" for h using real [OF that] by (simp add: real_def)
  note em = D(7) [unfolded emission_ok_def]
  have "emission_ok B c1"
    unfolding emission_ok_def
  proof (intro conjI ballI allI)
    show "names B e" if "e \<in> set (emitted c1)" for e
      using that em real by (auto simp: names_def real_def c1(1))
    have "inj_on B (set hs)" by (rule inj_onI) (metis bh)
    moreover have "B h \<notin> set (emitted c)" if "h \<in> set hs" for h
    proof
      assume "B h \<in> set (emitted c)"
      moreover have "att c h = Some False" using that hs(2) by simp
      moreover have "lo c \<le> number (B h)" using D(6) [of h] \<open>att c h = Some False\<close> by simp
      ultimately have "att c h = Some True" using em real [OF that] by blast
      with \<open>att c h = Some False\<close> show False by simp
    qed
    ultimately show "distinct (emitted c1)"
      using em hs(1) by (auto simp: distinct_map c1(1))
    show "att c1 h = Some True \<longleftrightarrow> real B h \<and> B h \<in> set (emitted c1) \<and> lo c1 \<le> number (B h)" for h
    proof (cases "h \<in> set hs")
      case True
      then have "att c h = Some False" using hs(2) by simp
      with True real D(6) [of h] show ?thesis by (simp add: c1(1,3))
    next
      case False
      have "B h \<notin> B ` set hs" if "real B h"
        using False that bh by (metis imageE real_def)
      with False em show ?thesis by (auto simp: c1(1,3))
    qed
  qed
  then show ?thesis using D hs(2) c1(2) by (auto simp: core_def c1(1,3))
qed

lemma grows_attach:
  assumes bd: "bounded B c" and hs: "hs \<noteq> []" "set hs = {h. att c h = Some False \<and> number (B h) = n}"
    and c2: "core B c2" "mMaxHeight c2 = max (mMaxHeight c) n" "lo c2 = max (lo c) (mMaxHeight c2 - maxDepth c)"
      "\<And>h. att c2 h = (if number (B h) < lo c2 then None else if h \<in> set hs then Some True else att c h)"
      "maxDepth c2 = maxDepth c" "emitted c2 = emitted c @ map B hs" "headHash c2 = headHash c"
  shows "grows_but {n} B c c2" "detached c2 \<subset> detached c" "no_detached_at B c2 n"
proof -
  have bd2: "bounded B c2"
    using bd hs(2) by (force simp: bounded_def c2(2,4) split: if_splits)
  have "hd hs \<in> detached c" "hd hs \<notin> detached c2" "detached c2 \<subseteq> detached c"
    using hs hd_in_set [OF hs(1)] by (auto simp: detached_def c2(4) split: if_splits)
  then show less: "detached c2 \<subset> detached c" by blast
  show "grows_but {n} B c c2"
    unfolding grows_but_def
  proof (intro conjI allI impI)
    show "att c h \<noteq> None" if "att c2 h \<noteq> None" for h
      using that hs(2) by (auto simp: c2(4) split: if_splits)
    show "att c h = Some False" if "att c2 h = Some False" for h
      using that by (auto simp: c2(4) split: if_splits)
    show "att c2 h \<noteq> None" if "att c h \<noteq> None \<and> lo c2 \<le> number (B h)" for h
      using that by (auto simp: c2(4))
    show "number (B h') \<noteq> number (B h) + 1"
      if "att c h = Some False \<and> att c2 h = Some True \<and> number (B h) \<notin> {n} \<and> att c2 h' = Some False" for h h'
    proof -
      have "h \<in> set hs" using that by (auto simp: c2(4) split: if_splits)
      with that hs(2) show ?thesis by simp
    qed
    show "lo c2 = lo c \<or> detached c2 \<subset> detached c" using less by blast
    have "set hs \<subseteq> detached c" using hs(2) by (auto simp: detached_def)
    then show "\<exists>es. emitted c2 = emitted c @ es \<and> set es \<subseteq> B ` detached c" using c2(6) by auto
    have "att c (hd hs) \<noteq> None \<and> number (B (hd hs)) = n" using hs(2) hd_in_set [OF hs(1)] by auto
    then show "mMaxHeight c2 = mMaxHeight c \<or> (\<exists>h. att c h \<noteq> None \<and> number (B h) = mMaxHeight c2)"
      using c2(2) by (metis max_def)
  qed (use c2 bd2 in auto)
  show "no_detached_at B c2 n" using hs(2) by (auto simp: no_detached_at_def c2(4) split: if_splits)
qed

context new_block_listener
begin

lemma attach_height:
  assumes ok: "chain_ok B" and core: "core B c" and bd: "bounded B c"
    and hs: "distinct hs" "hs \<noteq> []" "set hs = {h. att c h = Some False \<and> number (B h) = n}"
  shows "\<exists>c1 c2. for_each_prog (attach_detached listener n) (map (\<lambda>h. Some (B h)) hs) c = Some (Inr (), c1) \<and>
    updateMaxHeightAndPrune n c1 = (Inr (), c2) \<and> grows_but {n} B c c2 \<and> detached c2 \<subset> detached c \<and>
    no_detached_at B c2 n"
proof -
  from attach_all_rep [OF ok coreD(1) [OF core] hs(1), of n] hs(3) obtain s1 where
    s1: "for_each_prog (attach_detached listener n) (map (\<lambda>h. Some (B h)) hs) c =
        Some (Inr (), c\<lparr>emitted := emitted c @ map B hs, blockStore := s1\<rparr>)"
      "rep_ok B (c\<lparr>emitted := emitted c @ map B hs, blockStore := s1\<rparr>)"
      "\<And>h. attached_get s1 h = (if h \<in> set hs then Some True else att c h)" by auto
  let ?c1 = "c\<lparr>emitted := emitted c @ map B hs, blockStore := s1\<rparr>"
  have "core B ?c1" by (rule core_attach [OF core hs(1,3) refl s1(2,3)])
  from update_rep [OF this, of n] obtain c2 where
    c2: "updateMaxHeightAndPrune n ?c1 = (Inr (), c2)" "core B c2" "mMaxHeight c2 = max (mMaxHeight c) n"
      "lo c2 = max (lo c) (mMaxHeight c2 - maxDepth c)"
      "\<And>h. att c2 h = (if number (B h) < lo c2 then None else att ?c1 h)"
      "maxDepth c2 = maxDepth c" "emitted c2 = emitted ?c1" "headHash c2 = headHash c" by auto
  have "att c2 h = (if number (B h) < lo c2 then None else if h \<in> set hs then Some True else att c h)" for h
    by (simp add: c2(5) s1(3))
  from grows_attach [OF bd hs(2,3) c2(2-4) this c2(6) _ c2(8)] c2(7) s1(1) c2(1) show ?thesis by auto
qed

lemma filter_detached:
  assumes "rep_ok B c"
  obtains hs where "distinct hs" "set hs = {h. att c h = Some False \<and> number (B h) = n}"
    "map fst (filter (\<lambda>b. snd b \<noteq> Some True) (getBlocksAtHeight (blockStore c) (Some n))) = map (\<lambda>h. Some (B h)) hs"
proof -
  obtain ks where ks: "distinct ks" "set ks = {h. att c h \<noteq> None \<and> number (B h) = n}"
    "getBlocksAtHeight (blockStore c) (Some n) = map (\<lambda>h. (Some (B h), att c h)) ks"
    by (rule blocks_at_height [OF assms])
  let ?hs = "filter (\<lambda>h. att c h \<noteq> Some True) ks"
  have "map fst (filter (\<lambda>b. snd b \<noteq> Some True) (map (\<lambda>h. (Some (B h), att c h)) ks)) = map (\<lambda>h. Some (B h)) ?hs"
    by (induction ks) auto
  moreover have "set ?hs = {h. att c h = Some False \<and> number (B h) = n}"
    using ks(2) by auto
  ultimately show thesis using ks by (intro that [of ?hs]) auto
qed

lemma processDetached_grows:
  assumes ok: "chain_ok B" and "core B c" "bounded B c"
  shows "\<exists>c'. processDetached listener n c = Some (Inr (), c') \<and> grows B c c' \<and> no_detached_at B c' n"
  using assms(2,3)
proof (induction "card (detached c)" arbitrary: c n rule: less_induct)
  case less
  obtain hs where hs: "distinct hs" "set hs = {h. att c h = Some False \<and> number (B h) = n}"
    "map fst (filter (\<lambda>b. snd b \<noteq> Some True) (getBlocksAtHeight (blockStore c) (Some n))) = map (\<lambda>h. Some (B h)) hs"
    by (rule filter_detached [OF coreD(1) [OF less.prems(1)]])
  have len: "length (filter (\<lambda>b. snd b \<noteq> Some True) (getBlocksAtHeight (blockStore c) (Some n))) = length hs"
    by (metis hs(3) length_map)
  show ?case
  proof (cases "hs = []")
    case True
    have "processDetached listener n c = Some (Inr (), c)"
      using True hs(3) len by (subst processDetached.simps) (simp add: Let_def)
    moreover have "no_detached_at B c n" using True hs(2) by (auto simp: no_detached_at_def)
    ultimately show ?thesis using grows_refl less.prems by blast
  next
    case False
    from attach_height [OF ok less.prems hs(1) False hs(2)] obtain c1 c2 where
      st: "for_each_prog (attach_detached listener n) (map (\<lambda>h. Some (B h)) hs) c = Some (Inr (), c1)"
        "updateMaxHeightAndPrune n c1 = (Inr (), c2)" "grows_but {n} B c c2" "detached c2 \<subset> detached c"
        "no_detached_at B c2 n" by blast
    have "card (detached c2) < card (detached c)" using st(4) by (simp add: psubset_card_mono)
    from less.hyps [OF this grows_butD(1,2) [OF st(3)], of "n + 1"] obtain c' where
      c': "processDetached listener (n + 1) c2 = Some (Inr (), c')" "grows B c2 c'" "no_detached_at B c' (n + 1)" by auto
    have "processDetached listener n c = Some (Inr (), c')"
      using False st(1,2) c'(1) hs(3) len by (subst processDetached.simps) (auto simp: Let_def)
    moreover have "grows B c c'" by (rule grows_trans [OF st(3) c'(2)]) (use c'(3) in simp)
    moreover have "no_detached_at B c' n" by (rule no_detached_mono [OF c'(2) st(5)])
    ultimately show ?thesis by blast
  qed
qed

lemma processDetachedBlocksAtMinHeight_grows:
  assumes ok: "chain_ok B" and "core B c" "bounded B c"
  shows "\<exists>c'. processDetachedBlocksAtMinHeight listener c = Some (Inr (), c') \<and> grows B c c' \<and>
    no_detached_at B c' (lo c')"
  using assms(2,3)
proof (induction "card (detached c)" arbitrary: c rule: less_induct)
  case less
  from processDetached_grows [OF ok less.prems] obtain c1 where
    c1: "processDetached listener (lo c) c = Some (Inr (), c1)" "grows B c c1" "no_detached_at B c1 (lo c)" by blast
  note D1 = grows_butD [OF c1(2)]
  have m: "minHeight c = Some (lo c)" "minHeight c1 = Some (lo c1)"
    using coreD(8) less.prems(1) D1(1) by blast+
  show ?case
  proof (cases "lo c < lo c1")
    case False
    then have "lo c1 = lo c" using D1(6) by simp
    moreover have "processDetachedBlocksAtMinHeight listener c = Some (Inr (), c1)"
      using False c1(1) m by (subst processDetachedBlocksAtMinHeight.simps) (simp add: Let_def)
    ultimately show ?thesis using c1(2,3) by auto
  next
    case True
    then have "detached c1 \<subset> detached c" using D1(11) by auto
    then have "card (detached c1) < card (detached c)" by (simp add: psubset_card_mono)
    then obtain c' where c': "processDetachedBlocksAtMinHeight listener c1 = Some (Inr (), c')"
      "grows B c1 c'" "no_detached_at B c' (lo c')" using less.hyps D1(1,2) by blast
    have "processDetachedBlocksAtMinHeight listener c = Some (Inr (), c')"
      using True c1(1) c'(1) m by (subst processDetachedBlocksAtMinHeight.simps) (simp add: Let_def)
    moreover have "grows B c c'" by (rule grows_trans [OF c1(2) c'(2)]) simp
    ultimately show ?thesis using c'(3) by blast
  qed
qed

section \<open>Adding a block\<close>

text \<open>A block that can be attached is put, emitted and the cache pruned.\<close>

lemma attach_block:
  assumes ok: "chain_ok B" and core: "core B c" and bd: "bounded B c"
    and b: "names B b" "att c (block_hash b) = None" "lo c \<le> number b"
  shows "\<exists>c2. (\<forall>m :: (_, BlockAddResult) prog. then_prog (lift_eff (on_store (block_set (number b) (block_hash b) b)))
      (then_prog (lift_eff (on_store (attached_set (number b) (block_hash b) True)))
        (then_prog (emit listener b) (then_prog (lift_eff (updateMaxHeightAndPrune (number b))) m))) c = m c2) \<and>
    core B c2 \<and> bounded B c2 \<and> maxDepth c2 = maxDepth c \<and> headHash c2 = headHash c \<and>
    mMaxHeight c2 = max (mMaxHeight c) (number b) \<and> lo c2 = max (lo c) (mMaxHeight c2 - maxDepth c) \<and>
    (\<forall>h. att c2 h = (if number (B h) < lo c2 then None else if h = block_hash b then Some True else att c h)) \<and>
    emitted c2 = emitted c @ [b]"
proof -
  let ?h = "block_hash b"
  note D = coreD [OF core]
  have B: "B ?h = b" "real B ?h" using b(1) by (auto simp: names_def real_def)
  from put_block_rep [OF D(1) b(1), of True] obtain s0 s1 where
    s: "on_store (block_set (number b) ?h b) c = (Inr (), c\<lparr>blockStore := s0\<rparr>)"
      "on_store (attached_set (number b) ?h True) (c\<lparr>blockStore := s0\<rparr>) = (Inr (), c\<lparr>blockStore := s1\<rparr>)"
      "rep_ok B (c\<lparr>blockStore := s1\<rparr>)" "att (c\<lparr>blockStore := s1\<rparr>) = (att c)(?h \<mapsto> True)" by metis
  have "att (c\<lparr>blockStore := s1\<rparr>) ?h = Some True" using s(4) by simp
  from emit_rep [OF ok s(3) b(1) this] obtain s2 where
    e: "emit listener b (c\<lparr>blockStore := s1\<rparr>) = Some (Inr (), c\<lparr>emitted := emitted c @ [b], blockStore := s2\<rparr>)"
      "rep_ok B (c\<lparr>emitted := emitted c @ [b], blockStore := s2\<rparr>)"
      "\<And>h. attached_get s2 h = att (c\<lparr>blockStore := s1\<rparr>) h" by auto
  let ?c2 = "c\<lparr>emitted := emitted c @ [b], blockStore := s2\<rparr>"
  have a2: "attached_get s2 h = (if h = ?h then Some True else att c h)" for h
    using e(3) [of h] fun_cong [OF s(4), of h] by simp
  have core2: "core B ?c2" by (rule core_emit [OF core b refl e(2) a2])
  from update_rep [OF core2, of "number b"] obtain c2 where
    c2: "updateMaxHeightAndPrune (number b) ?c2 = (Inr (), c2)" "core B c2" "mMaxHeight c2 = max (mMaxHeight c) (number b)"
      "lo c2 = max (lo c) (mMaxHeight c2 - maxDepth c)"
      "\<And>h. att c2 h = (if number (B h) < lo c2 then None else att ?c2 h)"
      "maxDepth c2 = maxDepth c" "emitted c2 = emitted ?c2" "headHash c2 = headHash c" by auto
  have "bounded B c2" using bd B by (auto simp: bounded_def c2(3,5) a2 le_max_iff_disj split: if_splits)
  with s(1,2) e(1) c2 show ?thesis by (intro exI [of _ c2]) (simp add: a2)
qed

text \<open>A block that cannot be attached is put as detached.\<close>

lemma detach_block:
  assumes core: "core B c" and bd: "bounded B c" and b: "names B b" "att c (block_hash b) = None" "lo c \<le> number b"
  shows "\<exists>c2. then_prog (lift_eff (on_store (block_set (number b) (block_hash b) b)))
      (then_prog (lift_eff (on_store (attached_set (number b) (block_hash b) False)))
        (return_prog AddedDetached)) c = Some (Inr AddedDetached, c2) \<and>
    core B c2 \<and> bounded B c2 \<and> maxDepth c2 = maxDepth c \<and> headHash c2 = headHash c \<and>
    mMaxHeight c2 = mMaxHeight c \<and> lo c2 = lo c \<and> att c2 = (att c)(block_hash b \<mapsto> False) \<and>
    emitted c2 = emitted c"
proof -
  let ?h = "block_hash b"
  note D = coreD [OF core]
  have B: "B ?h = b" using b(1) by (auto simp: names_def)
  from put_block_rep [OF D(1) b(1), of False] obtain s0 s1 where
    s: "on_store (block_set (number b) ?h b) c = (Inr (), c\<lparr>blockStore := s0\<rparr>)"
      "on_store (attached_set (number b) ?h False) (c\<lparr>blockStore := s0\<rparr>) = (Inr (), c\<lparr>blockStore := s1\<rparr>)"
      "rep_ok B (c\<lparr>blockStore := s1\<rparr>)" "att (c\<lparr>blockStore := s1\<rparr>) = (att c)(?h \<mapsto> False)" by metis
  let ?c2 = "c\<lparr>blockStore := s1\<rparr>"
  have a: "attached_get s1 h = (if h = ?h then Some False else att c h)" for h
    using fun_cong [OF s(4), of h] by simp
  note em = D(7) [unfolded emission_ok_def]
  have "att ?c2 h = Some True \<longleftrightarrow> real B h \<and> B h \<in> set (emitted ?c2) \<and> lo ?c2 \<le> number (B h)" for h
    using em [THEN conjunct2, THEN conjunct2, rule_format, of h] b(2) by (cases "h = ?h") (simp_all add: a)
  then have "emission_ok B ?c2" using em by (simp add: emission_ok_def)
  then have "core B ?c2" using D b(3) B s(3) by (auto simp: core_def a)
  moreover have "bounded B ?c2" using bd by (auto simp: bounded_def a)
  ultimately show ?thesis using s(1,2) by (intro exI [of _ ?c2]) (simp add: a fun_eq_iff)
qed

text \<open>\<open>addBlock\<close> on every branch.\<close>

lemma addBlock_refused:
  assumes "cache_inv B c"
  shows "att c (block_hash b) = Some True \<Longrightarrow> addBlock listener b c = Some (Inr NotAddedAlreadyExisted, c)"
    "att c (block_hash b) \<noteq> Some True \<Longrightarrow> \<not> mIsEmpty c \<Longrightarrow> number b < lo c \<Longrightarrow>
       addBlock listener b c = Some (Inr NotAddedBlockNumberTooLow, c)"
    "att c (block_hash b) = Some False \<Longrightarrow> mIsEmpty c \<or> lo c \<le> number b \<Longrightarrow>
       addBlock listener b c = Some (Inr NotAddedAlreadyExistedDetached, c)"
  by (auto simp: addBlock_def Let_def minHeight_inv [OF assms])

lemma addBlock_detached:
  assumes inv: "cache_inv B c" and b: "names B b" "0 \<le> number b" "att c (block_hash b) = None"
    and low: "mIsEmpty c \<or> lo c \<le> number b" and no: "\<not> canAttachBlock (started b c) b"
  shows "\<exists>c'. addBlock listener b c = Some (Inr AddedDetached, c') \<and> \<not> mIsEmpty c \<and> core B c' \<and> bounded B c' \<and>
    maxDepth c' = maxDepth c \<and> mMaxHeight c' = mMaxHeight c \<and> lo c' = lo c \<and>
    att c' = (att c)(block_hash b \<mapsto> False) \<and> emitted c' = emitted c \<and> headHash c' = headHash c"
proof -
  note S = started_core [OF inv b(2)]
  have ne: "\<not> mIsEmpty c"
    using no canAttachBlock_core [OF S(1), of b] by (auto simp: lo_started)
  then have st: "started b c = c" by (simp add: started_def)
  have "lo c \<le> number b" "core B c" "bounded B c" using low ne S(1,2) st by auto
  from detach_block [OF this(2,3) b(1,3) this(1)] obtain c' where
    c': "then_prog (lift_eff (on_store (block_set (number b) (block_hash b) b)))
      (then_prog (lift_eff (on_store (attached_set (number b) (block_hash b) False)))
        (return_prog AddedDetached)) c = Some (Inr AddedDetached, c')"
    "core B c'" "bounded B c'" "maxDepth c' = maxDepth c" "mMaxHeight c' = mMaxHeight c" "lo c' = lo c"
    "att c' = (att c)(block_hash b \<mapsto> False)" "emitted c' = emitted c" "headHash c' = headHash c" by blast
  have "addBlock listener b c = Some (Inr AddedDetached, c')"
    using b(3) ne low no c'(1) st by (simp add: addBlock_def Let_def minHeight_inv [OF inv])
  with c' ne show ?thesis by blast
qed

lemma addBlock_added:
  assumes ok: "chain_ok B" and inv: "cache_inv B c" and b: "names B b" "0 \<le> number b" "att c (block_hash b) = None"
    and low: "mIsEmpty c \<or> lo c \<le> number b" and can: "canAttachBlock (started b c) b"
  shows "\<exists>c2 c'. addBlock listener b c = Some (Inr Added, c') \<and>
    (core B c2 \<and> bounded B c2 \<and> maxDepth c2 = maxDepth c \<and> headHash c2 = headHash c \<and>
     mMaxHeight c2 = max (mMaxHeight c) (number b) \<and> lo c2 = max (lo (started b c)) (mMaxHeight c2 - maxDepth c) \<and>
     (\<forall>h. att c2 h = (if number (B h) < lo c2 then None else if h = block_hash b then Some True else att c h)) \<and>
     emitted c2 = emitted c @ [b]) \<and>
    grows B c2 c' \<and> no_detached_at B c' (number b + 1) \<and> no_detached_at B c' (lo c')"
proof -
  note S = started_core [OF inv b(2)]
  have low': "lo (started b c) \<le> number b" using low by (auto simp: lo_started)
  have none: "att (started b c) (block_hash b) = None" by (simp add: S(3) b(3))
  from attach_block [OF ok S(1,2) b(1) none low'] obtain c2 where
    c2: "\<And>m :: (_, BlockAddResult) prog. then_prog (lift_eff (on_store (block_set (number b) (block_hash b) b)))
      (then_prog (lift_eff (on_store (attached_set (number b) (block_hash b) True)))
        (then_prog (emit listener b) (then_prog (lift_eff (updateMaxHeightAndPrune (number b))) m))) (started b c) = m c2"
    "core B c2 \<and> bounded B c2 \<and> maxDepth c2 = maxDepth c \<and> headHash c2 = headHash c \<and>
     mMaxHeight c2 = max (mMaxHeight c) (number b) \<and> lo c2 = max (lo (started b c)) (mMaxHeight c2 - maxDepth c) \<and>
     (\<forall>h. att c2 h = (if number (B h) < lo c2 then None else if h = block_hash b then Some True else att c h)) \<and>
     emitted c2 = emitted c @ [b]"
    unfolding S(3-7) by blast
  then have core2: "core B c2" "bounded B c2" by auto
  from processDetached_grows [OF ok this, of "number b + 1"] obtain c3 where
    c3: "processDetached listener (number b + 1) c2 = Some (Inr (), c3)" "grows B c2 c3"
      "no_detached_at B c3 (number b + 1)" by auto
  from processDetachedBlocksAtMinHeight_grows [OF ok grows_butD(1,2) [OF c3(2)]] obtain c' where
    c': "processDetachedBlocksAtMinHeight listener c3 = Some (Inr (), c')" "grows B c3 c'" "no_detached_at B c' (lo c')" by blast
  have "addBlock listener b c = Some (Inr Added, c')"
    using b(3) low can c2(1) c3(1) c'(1)
    by (auto simp: addBlock_def Let_def minHeight_inv [OF inv] started_def split: if_splits)
  moreover have "grows B c2 c'" by (rule grows_trans [OF c3(2) c'(2)]) simp
  moreover have "no_detached_at B c' (number b + 1)" by (rule no_detached_mono [OF c'(2) c3(3)])
  ultimately show ?thesis using c2(2) c'(3) by blast
qed

end

end
