(* ===== verification/BlockchainMachine.thy ===== *)
theory BlockchainMachine
  imports Components ActionStore BlockCacheRuns
begin

text \<open>
  The blockchain machine (src/src/blockMonitor/blockchainMachine.ts): it computes the anchor state of every
  component for every block the cache emits, and for every new head the actions the components want,
  which it stores and runs.

  Both handlers run under the lock of the machine, so each is one step.  An action runs in the
  background: it is \<open>running\<close> until it is applied or fails, and the logs say which actions were stored
  and which were applied.  An anchor state is an object, so a state that is there is never falsy.
\<close>

section \<open>The machine\<close>

record ('b, 's, 'a) BlockchainMachine =
  components :: "('b, 's, 'a) Component list"
  componentNames :: "string list"
  machine_started :: bool

definition new_BlockchainMachine :: "('b, 's, 'a) BlockchainMachine" where
  "new_BlockchainMachine = \<lparr>components = [], componentNames = [], machine_started = False\<rparr>"

definition addComponent ::
  "('b, 's, 'a) Component \<Rightarrow> ('b, 's, 'a) BlockchainMachine \<Rightarrow> ('b, 's, 'a) BlockchainMachine result" where
  "addComponent component m =
     (if machine_started m
      then Inl (ApplicationError ''Components must be added before the BlockchainMachine is started.'')
      else if component_name component \<in> set (componentNames m)
      then Inl (ApplicationError ''A Component with the name was already added.'')
      else Inr (m\<lparr>components := components m @ [component],
                  componentNames := componentNames m @ [component_name component]\<rparr>))"

section \<open>New blocks\<close>

text \<open>The state of a component for a block, and the state of the last head before it.\<close>

definition state_for ::
  "('b IBlockStub_scheme, 's, 'a) Component \<Rightarrow> 'b IBlockStub_scheme \<Rightarrow>
   ('b IBlockStub_scheme, 's) BlockCache \<Rightarrow> ('s \<times> 's option) run" where
  "state_for component block c =
     (if hasBlock c (parentHash block) False then
        bind_run (Some (getBlock c (parentHash block))) (\<lambda>parentBlock.
          let prevHeadAnchorState =
                prevEmittedAnchorState_get (blockStore c) (component_name component) (block_hash parentBlock) in
          bind_run (case anchorState_get (blockStore c) (component_name component) (block_hash parentBlock) of
                      Some s \<Rightarrow> Some (Inr s)
                    | None \<Rightarrow> getInitialState (reducer component c) parentBlock) (\<lambda>prevAnchorState.
            bind_run (reduce (reducer component c) prevAnchorState block) (\<lambda>newState.
              Some (Inr (newState, prevHeadAnchorState)))))
      else
        bind_run (getInitialState (reducer component c) block) (\<lambda>newState. Some (Inr (newState, None))))"

definition new_state ::
  "'b IBlockStub_scheme \<Rightarrow> ('b IBlockStub_scheme, 's, 'a) Component \<Rightarrow>
   (('b IBlockStub_scheme, 's) BlockCache, unit) prog" where
  "new_state block component =
     bind_prog (\<lambda>c. map_option (\<lambda>r. (r, c)) (state_for component block c)) (\<lambda>(newState, prevHeadAnchorState).
       then_prog (lift_eff (on_store
           (anchorState_set (component_name component) (number block) (block_hash block) newState)))
         (case prevHeadAnchorState of
            None \<Rightarrow> return_prog ()
          | Some p \<Rightarrow> lift_eff (on_store
              (prevEmittedAnchorState_set (component_name component) (number block) (block_hash block) p))))"

definition processNewBlock ::
  "('b IBlockStub_scheme, 's, 'a) Component list \<Rightarrow> ('b IBlockStub_scheme, 's) listener" where
  "processNewBlock comps block = for_each_prog (new_state block) comps"

section \<open>New heads\<close>

record ('b, 's, 'a) machine_state =
  cache :: "('b, 's) BlockCache"
  action_store :: "'a ActionStore"
  running :: "(string \<times> 'a ActionAndId) list"
  stored :: "(string \<times> 'a ActionAndId) list"
  applied :: "(string \<times> 'a ActionAndId) list"

definition runActionsForComponent ::
  "string \<Rightarrow> 'a ActionAndId list \<Rightarrow> ('b, 's, 'a) machine_state \<Rightarrow> ('b, 's, 'a) machine_state" where
  "runActionsForComponent name as m = m\<lparr>running := running m @ map (Pair name) as\<rparr>"

text \<open>For a component: the ids that \<open>uuid\<close> makes for its actions and whether the write of the actions
  succeeds.\<close>

type_synonym head_env = "string \<Rightarrow> (nat \<Rightarrow> string) \<times> bool"

definition store_and_run ::
  "head_env \<Rightarrow> string \<Rightarrow> 'a list \<Rightarrow> (('b, 's, 'a) machine_state, unit) eff" where
  "store_and_run env name newActions m =
     (if length newActions > 0 then
        (case storeActions (map (fst (env name)) [0..<length newActions]) (snd (env name)) name newActions
                (action_store m) of
           (Inl e, s') \<Rightarrow> (Inl e, m\<lparr>action_store := s'\<rparr>)
         | (Inr as, s') \<Rightarrow>
             (Inr (), runActionsForComponent name as
                (m\<lparr>action_store := s', stored := stored m @ map (Pair name) as\<rparr>)))
      else (Inr (), m))"

definition on_cache ::
  "(('b, 's) BlockCache, 'x) eff \<Rightarrow> (('b, 's, 'a) machine_state, 'x) eff" where
  "on_cache f m = (case f (cache m) of (r, c') \<Rightarrow> (r, m\<lparr>cache := c'\<rparr>))"

text \<open>A missing state stops the whole loop.\<close>

fun head_loop ::
  "head_env \<Rightarrow> ('b IBlockStub_scheme, 's, 'a) Component list \<Rightarrow> 'b IBlockStub_scheme \<Rightarrow>
   (('b IBlockStub_scheme, 's, 'a) machine_state, unit) eff" where
  "head_loop env [] h m = (Inr (), m)"
| "head_loop env (component # comps) h m =
     (case anchorState_get (blockStore (cache m)) (component_name component) (block_hash h) of
        None \<Rightarrow> (Inr (), m)
      | Some state \<Rightarrow>
          then_eff
            (case prevEmittedAnchorState_get (blockStore (cache m)) (component_name component) (block_hash h) of
               None \<Rightarrow> return_eff ()
             | Some prevEmittedState \<Rightarrow>
                 (case detectChanges component prevEmittedState state of
                    Inl e \<Rightarrow> throw_eff e
                  | Inr newActions \<Rightarrow> store_and_run env (component_name component) newActions))
            (then_eff
              (on_cache (on_store
                (prevEmittedAnchorState_set (component_name component) (number h) (block_hash h) state)))
              (head_loop env comps h)) m)"

definition processNewHead ::
  "head_env \<Rightarrow> ('b IBlockStub_scheme, 's, 'a) Component list \<Rightarrow> 'b IBlockStub_scheme \<Rightarrow>
   (('b IBlockStub_scheme, 's, 'a) machine_state, unit) eff" where
  "processNewHead env comps h = head_loop env comps h"

section \<open>Actions\<close>

text \<open>The end of a running action: \<open>applyAction\<close> succeeds or throws, and after a success the action is
  removed from the store, if the database lets it.  Errors are logged.\<close>

definition finish_action ::
  "bool \<Rightarrow> bool \<Rightarrow> string \<Rightarrow> 'a ActionAndId \<Rightarrow> ('b, 's, 'a) machine_state \<Rightarrow> ('b, 's, 'a) machine_state" where
  "finish_action apply_ok db_ok name a m =
     (let m1 = m\<lparr>running := remove1 (name, a) (running m)\<rparr> in
      if \<not> apply_ok then m1
      else m1\<lparr>applied := applied m @ [(name, a)],
              action_store := snd (removeAction db_ok name a (action_store m))\<rparr>)"

text \<open>The start of the machine runs every action that is in the store.\<close>

definition startInternal_machine ::
  "('b, 's, 'a) Component list \<Rightarrow> ('b, 's, 'a) machine_state \<Rightarrow> ('b, 's, 'a) machine_state" where
  "startInternal_machine comps m =
     fold (\<lambda>component m. runActionsForComponent (component_name component)
                           (getActions (action_store m) (component_name component)) m) comps m"

text \<open>A crash loses the memory; the action store starts again on its database.\<close>

definition restart_machine ::
  "('a \<Rightarrow> 'a) \<Rightarrow> ('b, 's, 'a) Component list \<Rightarrow> ('b, 's) BlockCache \<Rightarrow> 'a js_map \<Rightarrow>
   ('b, 's, 'a) machine_state \<Rightarrow> ('b, 's, 'a) machine_state" where
  "restart_machine reread comps c stream m =
     startInternal_machine comps
       (m\<lparr>cache := c, running := [],
          action_store := startInternal_actions reread stream (new_ActionStore (actionDb (action_store m)))\<rparr>)"

section \<open>Writing anchor states\<close>

text \<open>The keys of anchor states are told apart from those of blocks and attached flags by their ends.\<close>

lemma last_state_key:
  "last (memKey h (n @ '':'' @ KEY_STATE)) = CHR ''e''" "last (memKey h (n @ '':'' @ KEY_PREV_EMITTED_STATE)) = CHR ''e''"
  by (simp_all add: memKey_def KEY_STATE_def KEY_PREV_EMITTED_STATE_def)

definition state_key :: "string \<Rightarrow> bool" where
  "state_key k \<longleftrightarrow> (\<exists>n. k = n @ '':'' @ KEY_STATE \<or> k = n @ '':'' @ KEY_PREV_EMITTED_STATE)"

lemma state_key [simp]: "state_key (n @ '':'' @ KEY_STATE)" "state_key (n @ '':'' @ KEY_PREV_EMITTED_STATE)"
  by (auto simp: state_key_def)

lemma memKey_state_other:
  assumes "state_key k"
  shows "memKey h' KEY_BLOCK \<noteq> memKey h k" "memKey h' KEY_ATTACHED \<noteq> memKey h k"
proof -
  have "last (memKey h k) = CHR ''e''" using assms last_state_key unfolding state_key_def by metis
  with key_ends [of h'] show "memKey h' KEY_BLOCK \<noteq> memKey h k" "memKey h' KEY_ATTACHED \<noteq> memKey h k" by force+
qed

lemma put_state_rep:
  assumes "rep_ok B c" "real B h" "state_key k"
  obtains s' where "on_store (putBlockItem (number (B h)) h k (StateItem x)) c = (Inr (), c\<lparr>blockStore := s'\<rparr>)"
    "rep_ok B (c\<lparr>blockStore := s'\<rparr>)" "\<And>h'. attached_get s' h' = att c h'"
    "map_of (items s') = (cache_items c)(memKey h k \<mapsto> StateItem x)"
proof -
  have "number (B (key_hash (memKey h k))) = number (B h)" using assms(2) by (simp add: real_def)
  from rep_okD(1,2) [OF assms(1)] this obtain s' where
    s': "putBlockItem (number (B h)) h k (StateItem x) (blockStore c) = (Inr (), s')"
      "store_inv (\<lambda>h. number (B h)) s'" "batch_open s'"
      "map_of (items s') = (cache_items c)(memKey h k \<mapsto> StateItem x)"
    by (rule putBlockItem_open [where it = "StateItem x"])
  note other = memKey_state_other [OF assms(3)]
  have att': "attached_get s' h' = att c h'" for h'
    using other [of h' h] by (simp add: attached_get_items s'(4))
  have "rep_ok B (c\<lparr>blockStore := s'\<rparr>)"
    using assms(1) s'(2,3) other unfolding rep_ok_def by (simp add: att' s'(4))
  with s' att' show thesis by (intro that [of s'] on_store_simp) simp_all
qed

section \<open>The promise of the machine to the cache\<close>

text \<open>On the blocks of \<open>B\<close> the reducer of a component returns.\<close>

definition reducer_returns ::
  "'b naming \<Rightarrow> ('b IBlockStub_scheme, 's, 'a) Component \<Rightarrow> bool" where
  "reducer_returns B component \<longleftrightarrow>
     (\<forall>c h. rep_ok B c \<longrightarrow> att c h = Some True \<longrightarrow>
        (\<exists>s. getInitialState (reducer component c) (B h) = Some (Inr s)) \<and>
        (\<forall>s. \<exists>s'. reduce (reducer component c) s (B h) = Some (Inr s')))"

definition components_return ::
  "('b IBlockStub_scheme, 's, 'a) Component list \<Rightarrow> 'b naming \<Rightarrow> bool" where
  "components_return comps B \<longleftrightarrow> (\<forall>component\<in>set comps. reducer_returns B component)"

lemma state_for_returns:
  assumes rep: "rep_ok B c" and b: "names B b" "att c (block_hash b) = Some True" and r: "reducer_returns B component"
  shows "\<exists>s p. state_for component b c = Some (Inr (s, p))"
proof -
  have bh: "B (block_hash b) = b" using b(1) by (simp add: names_def)
  note R = r [unfolded reducer_returns_def, rule_format, OF rep]
  have red: "\<exists>s'. reduce (reducer component c) s b = Some (Inr s')" for s
    using R [OF b(2)] bh by simp
  show ?thesis
  proof (cases "att c (parentHash b) = Some True")
    case True
    then have "getBlock c (parentHash b) = Inr (B (parentHash b))" "real B (parentHash b)"
      using rep by (auto intro: getBlock_rep rep_okD(3))
    moreover obtain s where "getInitialState (reducer component c) (B (parentHash b)) = Some (Inr s)"
      using R [OF True] by blast
    ultimately obtain prev where prev:
      "(case anchorState_get (blockStore c) (component_name component) (block_hash (B (parentHash b))) of
          Some s \<Rightarrow> Some (Inr s)
        | None \<Rightarrow> getInitialState (reducer component c) (B (parentHash b))) = Some (Inr prev)"
      by (cases "anchorState_get (blockStore c) (component_name component) (block_hash (B (parentHash b)))") auto
    from red obtain s' where "reduce (reducer component c) prev b = Some (Inr s')" by blast
    with True prev \<open>getBlock c (parentHash b) = _\<close> show ?thesis
      by (simp add: state_for_def hasBlock_rep [OF rep] Let_def)
  next
    case False
    obtain s where "getInitialState (reducer component c) b = Some (Inr s)" using R [OF b(2)] bh by auto
    with False show ?thesis by (simp add: state_for_def hasBlock_rep [OF rep])
  qed
qed

lemma new_state_keeps:
  assumes rep: "rep_ok B c" and b: "names B b" "att c (block_hash b) = Some True" and r: "reducer_returns B component"
  shows "\<exists>s'. new_state b component c = Some (Inr (), c\<lparr>blockStore := s'\<rparr>) \<and> rep_ok B (c\<lparr>blockStore := s'\<rparr>) \<and>
    (\<forall>h. attached_get s' h = att c h) \<and>
    (\<forall>s p. state_for component b c = Some (Inr (s, p)) \<longrightarrow>
       map_of (items s') = (case p of None \<Rightarrow> (\<lambda>m. m)
           | Some q \<Rightarrow> (\<lambda>m. m(memKey (block_hash b) (component_name component @ '':'' @ KEY_PREV_EMITTED_STATE) \<mapsto> StateItem q)))
         ((cache_items c)(memKey (block_hash b) (component_name component @ '':'' @ KEY_STATE) \<mapsto> StateItem s)))"
proof -
  let ?h = "block_hash b" and ?n = "component_name component"
  have bh: "B ?h = b" "real B ?h" using b(1) by (auto simp: names_def real_def)
  from state_for_returns [OF assms] obtain s p where sp: "state_for component b c = Some (Inr (s, p))" by blast
  obtain s1 where
    s1: "on_store (anchorState_set ?n (number b) ?h s) c = (Inr (), c\<lparr>blockStore := s1\<rparr>)"
      "rep_ok B (c\<lparr>blockStore := s1\<rparr>)" "\<And>h. attached_get s1 h = att c h"
      "map_of (items s1) = (cache_items c)(memKey ?h (?n @ '':'' @ KEY_STATE) \<mapsto> StateItem s)"
    by (rule put_state_rep [OF rep bh(2) state_key(1) [of ?n], of s]) (simp only: anchorState_set_def bh(1))
  show ?thesis
  proof (cases p)
    case None
    with sp s1 show ?thesis by (intro exI [of _ s1]) (simp add: new_state_def bind_prog_def then_prog_def)
  next
    case (Some q)
    obtain s2 where
      s2: "on_store (prevEmittedAnchorState_set ?n (number b) ?h q) (c\<lparr>blockStore := s1\<rparr>) = (Inr (), c\<lparr>blockStore := s1, blockStore := s2\<rparr>)"
      "rep_ok B (c\<lparr>blockStore := s1, blockStore := s2\<rparr>)" "\<And>h. attached_get s2 h = att (c\<lparr>blockStore := s1\<rparr>) h"
      "map_of (items s2) = (cache_items (c\<lparr>blockStore := s1\<rparr>))(memKey ?h (?n @ '':'' @ KEY_PREV_EMITTED_STATE) \<mapsto> StateItem q)"
      by (rule put_state_rep [OF s1(2) bh(2) state_key(2) [of ?n], of q])
        (simp only: prevEmittedAnchorState_set_def bh(1))
    with Some sp s1 show ?thesis by (intro exI [of _ s2]) (simp add: new_state_def bind_prog_def then_prog_def)
  qed
qed

lemma processNewBlock_keeps:
  assumes "components_return comps B" "rep_ok B c" "names B b" "att c (block_hash b) = Some True"
  shows "\<exists>s'. processNewBlock comps b c = Some (Inr (), c\<lparr>blockStore := s'\<rparr>) \<and> rep_ok B (c\<lparr>blockStore := s'\<rparr>) \<and>
    (\<forall>h. attached_get s' h = att c h)"
  using assms unfolding processNewBlock_def
proof (induction comps arbitrary: c)
  case Nil
  then show ?case by (intro exI [of _ "blockStore c"]) simp
next
  case (Cons component comps)
  then have "reducer_returns B component" "components_return comps B" by (auto simp: components_return_def)
  with new_state_keeps [OF Cons.prems(2-4)] obtain s1 where
    s1: "new_state b component c = Some (Inr (), c\<lparr>blockStore := s1\<rparr>)" "rep_ok B (c\<lparr>blockStore := s1\<rparr>)"
      "\<forall>h. attached_get s1 h = att c h" by blast
  from Cons.IH [OF \<open>components_return comps B\<close> s1(2) Cons.prems(3)] s1(3) Cons.prems(4) obtain s' where
    "for_each_prog (new_state b) comps (c\<lparr>blockStore := s1\<rparr>) = Some (Inr (), c\<lparr>blockStore := s'\<rparr>)"
    "rep_ok B (c\<lparr>blockStore := s'\<rparr>)" "\<forall>h. attached_get s' h = att c h" by auto
  then show ?case by (intro exI [of _ s']) (simp add: s1(1))
qed

interpretation machine: new_block_listener "components_return comps" "processNewBlock comps" for comps
  by unfold_locales (rule processNewBlock_keeps)

end
