(* ===== verification/ResponderStore.thy ===== *)
theory ResponderStore
  imports GasQueueJson
begin

text \<open>
  The persistent store of the responder (src/src/responder/store.ts): the gas queue and the record
  of every transaction the responder tracks, each in memory and in a database.

  The database is a third-party package.  Its contents are an association list from keys to values;
  a batch takes effect as a whole or not at all (the argument \<open>db_ok\<close> says whether the write
  succeeds); the read stream of \<open>startInternal\<close> is an argument, a list of the stored entries in
  any order.
\<close>

section \<open>The store\<close>

datatype responder_record =
    QueueRecord GasQueueSerialisation
  | ItemRecord GasQueueItemSerialisation

record ResponderStore =
  mTransactions :: "GasQueueItem js_map"
  mQueue :: GasQueue
  subDb :: "responder_record js_map"
  queueKey :: string

abbreviation item_id :: "GasQueueItem \<Rightarrow> string" where
  "item_id i \<equiv> req_id (request i)"

definition new_ResponderStore :: "responder_record js_map \<Rightarrow> string \<Rightarrow> GasQueue \<Rightarrow> ResponderStore" where
  "new_ResponderStore db responderAddress seedQueue =
     \<lparr>mTransactions = [], mQueue = seedQueue, subDb = db,
      queueKey = responderAddress @ '':queue''\<rparr>"

definition updateQueue ::
  "BigNumberCodec \<Rightarrow> bool \<Rightarrow> ResponderStore \<Rightarrow> GasQueue \<Rightarrow> (ResponderStore \<times> GasQueueItem list) result" where
  "updateQueue bn db_ok this queue =
     (let diff = difference queue (mQueue this);
          batch = fold (\<lambda>item. AList.update (item_id item) (ItemRecord (serialise_item bn item))) diff
                    (AList.update (queueKey this) (QueueRecord (serialise_queue bn queue)) (subDb this))
      in if \<not> db_ok then Inl (JsError ''batch write'')
         else Inr (this\<lparr>subDb := batch,
                        mTransactions := fold (\<lambda>d. AList.update (item_id d) d) diff (mTransactions this),
                        mQueue := queue\<rparr>, diff))"

definition removeResponse :: "bool \<Rightarrow> ResponderStore \<Rightarrow> string \<Rightarrow> ResponderStore result" where
  "removeResponse db_ok this rid =
     (if \<not> db_ok then Inl (JsError ''delete'')
      else Inr (this\<lparr>subDb := AList.delete rid (subDb this),
                     mTransactions := AList.delete rid (mTransactions this)\<rparr>))"

text \<open>The loop of \<open>getAll\<close> over the read stream; a value of the other kind lacks the property that
  is read first.\<close>

fun getAll ::
  "BigNumberCodec \<Rightarrow> string \<Rightarrow> responder_record js_map \<Rightarrow> GasQueue option \<Rightarrow> GasQueueItem js_map \<Rightarrow>
   (GasQueue option \<times> GasQueueItem js_map) result" where
  "getAll bn qk [] queue transactions = Inr (queue, transactions)"
| "getAll bn qk ((key, value) # stream) queue transactions =
     (if key = qk then
        (case value of
           QueueRecord s \<Rightarrow> bind_result (deserialise_queue bn s) (\<lambda>q. getAll bn qk stream (Some q) transactions)
         | ItemRecord s \<Rightarrow> Inl (JsTypeError ''Cannot read property of undefined''))
      else
        (case value of
           ItemRecord s \<Rightarrow> bind_result (deserialise_item bn s) (\<lambda>i.
             getAll bn qk stream queue (AList.update key i transactions))
         | QueueRecord s \<Rightarrow> Inl (JsTypeError ''Cannot read property of undefined'')))"

definition startInternal ::
  "BigNumberCodec \<Rightarrow> responder_record js_map \<Rightarrow> ResponderStore \<Rightarrow> ResponderStore result" where
  "startInternal bn stream this =
     bind_result (getAll bn (queueKey this) stream None []) (\<lambda>(queue, respondedTransactions).
     bind_result
       (case queue of
          None \<Rightarrow> Inr this
        | Some q \<Rightarrow>
            bind_result (new_GasQueue (queueItems q) (emptyNonce q) (replacementRate (mQueue this))
                           (maxQueueDepth (mQueue this)))
              (\<lambda>q'. Inr (this\<lparr>mQueue := q'\<rparr>)))
       (\<lambda>this'. Inr (this'\<lparr>mTransactions :=
          fold (\<lambda>(key, value). AList.update key value) respondedTransactions (mTransactions this')\<rparr>)))"

section \<open>Consistency of memory, database and queue\<close>

text \<open>Every record is filed under the id of its request and no id is the key of the queue.\<close>

definition well_filed :: "ResponderStore \<Rightarrow> bool" where
  "well_filed s \<longleftrightarrow>
     (\<forall>k i. map_of (mTransactions s) k = Some i \<longrightarrow> item_id i = k \<and> k \<noteq> queueKey s \<and> item_ok i)"

text \<open>Every transaction of the queue is tracked, in its latest version.\<close>

definition tracked :: "ResponderStore \<Rightarrow> bool" where
  "tracked s \<longleftrightarrow> (\<forall>i\<in>set (queueItems (mQueue s)). map_of (mTransactions s) (item_id i) = Some i)"

text \<open>The database holds the serialised form of what is in memory.  Until the first update it has no
  queue, and the queue in memory is the one the responder was seeded with.\<close>

definition db_view :: "BigNumberCodec \<Rightarrow> ResponderStore \<Rightarrow> string \<Rightarrow> responder_record option" where
  "db_view bn s k =
     (if k = queueKey s then Some (QueueRecord (serialise_queue bn (mQueue s)))
      else map_option (\<lambda>i. ItemRecord (serialise_item bn i)) (map_of (mTransactions s) k))"

definition synced :: "BigNumberCodec \<Rightarrow> GasQueue \<Rightarrow> ResponderStore \<Rightarrow> bool" where
  "synced bn seed s \<longleftrightarrow>
     map_of (subDb s) = db_view bn s \<or>
     map_of (subDb s) = (db_view bn s)(queueKey s := None) \<and> mQueue s = seed"

definition store_ok :: "BigNumberCodec \<Rightarrow> GasQueue \<Rightarrow> ResponderStore \<Rightarrow> bool" where
  "store_ok bn seed s \<longleftrightarrow>
     gq_ok (mQueue s) \<and> js_wf (mTransactions s) \<and> well_filed s \<and> tracked s \<and> synced bn seed s"

lemma store_okD:
  assumes "store_ok bn seed s"
  shows "gq_ok (mQueue s)" "js_wf (mTransactions s)" "well_filed s" "tracked s" "synced bn seed s"
  using assms by (auto simp: store_ok_def)

text \<open>What the store relies on when its queue is replaced: a well-formed queue whose items have
  distinct ids, none of them the queue key.\<close>

definition queue_fits :: "ResponderStore \<Rightarrow> GasQueue \<Rightarrow> bool" where
  "queue_fits s q \<longleftrightarrow>
     gq_ok q \<and> distinct (map item_id (queueItems q)) \<and> (\<forall>i\<in>set (queueItems q). item_id i \<noteq> queueKey s)"

lemma map_of_fold_update:
  assumes "distinct (map key xs)"
  shows "map_of (fold (\<lambda>x. AList.update (key x) (val x)) xs m) k =
    (case find (\<lambda>x. key x = k) xs of None \<Rightarrow> map_of m k | Some x \<Rightarrow> Some (val x))"
  using assms
proof (induction xs arbitrary: m)
  case (Cons x xs)
  then have "find (\<lambda>y. key y = key x) xs = None" by (auto simp: find_None_iff image_iff)
  with Cons show ?case by (auto split: option.splits)
qed simp

lemma js_wf_fold_update [simp, intro]:
  "js_wf m \<Longrightarrow> js_wf (fold (\<lambda>x. AList.update (key x) (val x)) xs m)"
  by (induction xs arbitrary: m) auto

lemma find_eq_Some_distinct:
  assumes "distinct (map key xs)"
  shows "find (\<lambda>x. key x = k) xs = Some x \<longleftrightarrow> x \<in> set xs \<and> key x = k"
  using assms by (induction xs) (auto simp: image_iff)

lemma distinct_difference:
  "distinct (map key (queueItems q)) \<Longrightarrow> distinct (map key (difference q q'))"
  by (simp add: difference_def distinct_map inj_on_def)

lemma set_difference: "set (difference q q') = set (queueItems q) - set (queueItems q')"
  by (auto simp: difference_def)

lemma updateQueue_InrD:
  assumes "updateQueue bn db_ok s q = Inr (s', diff)"
  shows "db_ok" "diff = difference q (mQueue s)" "mQueue s' = q" "queueKey s' = queueKey s"
    "mTransactions s' = fold (\<lambda>d. AList.update (item_id d) d) diff (mTransactions s)"
    "subDb s' = fold (\<lambda>item. AList.update (item_id item) (ItemRecord (serialise_item bn item))) diff
                  (AList.update (queueKey s) (QueueRecord (serialise_queue bn q)) (subDb s))"
  using assms by (auto simp: updateQueue_def Let_def split: if_splits)

lemma updateQueue_lookup:
  assumes "queue_fits s q" "updateQueue bn db_ok s q = Inr (s', diff)"
  shows "map_of (mTransactions s') k =
    (case find (\<lambda>d. item_id d = k) diff of None \<Rightarrow> map_of (mTransactions s) k | Some d \<Rightarrow> Some d)"
  using assms(1) distinct_difference [where key = item_id and q = q]
  unfolding updateQueue_InrD(5) [OF assms(2)]
  by (simp add: updateQueue_InrD(2) [OF assms(2)] queue_fits_def map_of_fold_update)

lemma updateQueue_tracked:
  assumes "tracked s" "queue_fits s q" "updateQueue bn db_ok s q = Inr (s', diff)"
  shows "tracked s'"
  unfolding tracked_def updateQueue_InrD(3) [OF assms(3)]
proof
  fix i assume i: "i \<in> set (queueItems q)"
  have dist: "distinct (map item_id (queueItems q))" using assms(2) by (simp add: queue_fits_def)
  have diff: "diff = difference q (mQueue s)" using updateQueue_InrD(2) [OF assms(3)] .
  note find = find_eq_Some_distinct [OF distinct_difference [OF dist], where k = "item_id i"]
  show "map_of (mTransactions s') (item_id i) = Some i"
  proof (cases "i \<in> set (queueItems (mQueue s))")
    case True
    have "find (\<lambda>d. item_id d = item_id i) diff = None"
      using True i dist by (auto simp: diff find_None_iff set_difference distinct_map inj_on_def)
    with True assms(1) show ?thesis
      by (simp add: updateQueue_lookup [OF assms(2,3)] tracked_def)
  next
    case False
    then have "find (\<lambda>d. item_id d = item_id i) diff = Some i"
      using i by (simp add: diff find set_difference)
    then show ?thesis by (simp add: updateQueue_lookup [OF assms(2,3)])
  qed
qed

lemma updateQueue_well_filed:
  assumes "well_filed s" "queue_fits s q" "updateQueue bn db_ok s q = Inr (s', diff)"
  shows "well_filed s'"
proof -
  have new: "item_id d = k \<and> k \<noteq> queueKey s \<and> item_ok d"
    if "find (\<lambda>d. item_id d = k) diff = Some d" for k d
  proof -
    from that have "d \<in> set diff" "item_id d = k"
      by (auto simp: find_Some_iff)
    then have "d \<in> set (queueItems q)" "item_id d = k"
      by (simp_all add: updateQueue_InrD(2) [OF assms(3)] set_difference)
    with assms(2) show ?thesis by (auto simp: queue_fits_def gq_ok_def)
  qed
  show ?thesis
    unfolding well_filed_def updateQueue_lookup [OF assms(2,3)] updateQueue_InrD(4) [OF assms(3)]
  proof (intro allI impI)
    fix k i
    assume "(case find (\<lambda>d. item_id d = k) diff of None \<Rightarrow> map_of (mTransactions s) k | Some d \<Rightarrow> Some d) = Some i"
    with new [of k i] assms(1) show "item_id i = k \<and> k \<noteq> queueKey s \<and> item_ok i"
      unfolding well_filed_def by (cases "find (\<lambda>d. item_id d = k) diff") simp_all
  qed
qed

lemma updateQueue_synced:
  assumes "synced bn seed s" "queue_fits s q" "updateQueue bn db_ok s q = Inr (s', diff)"
  shows "map_of (subDb s') = db_view bn s'"
proof
  fix k
  have diff: "diff = difference q (mQueue s)" using updateQueue_InrD(2) [OF assms(3)] .
  have dist: "distinct (map item_id diff)"
    using assms(2) distinct_difference [where key = item_id and q = q] by (simp add: queue_fits_def diff)
  have "find (\<lambda>d. item_id d = queueKey s) diff = None"
    using assms(2) by (auto simp: find_None_iff queue_fits_def diff set_difference)
  then show "map_of (subDb s') k = db_view bn s' k"
    using assms(1) unfolding updateQueue_InrD(6) [OF assms(3)] map_of_fold_update [OF dist]
    by (cases "k = queueKey s")
       (auto simp: db_view_def synced_def updateQueue_InrD(3,4) [OF assms(3)]
          updateQueue_lookup [OF assms(2,3)] split: option.splits)
qed

lemma updateQueue_ok:
  assumes "store_ok bn seed s" "queue_fits s q" "updateQueue bn db_ok s q = Inr (s', diff)"
  shows "store_ok bn seed s'"
  unfolding store_ok_def
proof (intro conjI)
  show "gq_ok (mQueue s')" using assms(2) updateQueue_InrD(3) [OF assms(3)] by (simp add: queue_fits_def)
  show "js_wf (mTransactions s')"
    unfolding updateQueue_InrD(5) [OF assms(3)]
    by (rule js_wf_fold_update [where key = item_id and val = id, simplified]) (rule store_okD(2) [OF assms(1)])
  show "well_filed s'" by (rule updateQueue_well_filed [OF store_okD(3) [OF assms(1)] assms(2,3)])
  show "tracked s'" by (rule updateQueue_tracked [OF store_okD(4) [OF assms(1)] assms(2,3)])
  show "synced bn seed s'"
    unfolding synced_def using updateQueue_synced [OF store_okD(5) [OF assms(1)] assms(2,3)] by blast
qed

text \<open>A response may be removed once its transaction has left the queue.\<close>

lemma removeResponse_ok:
  assumes ok: "store_ok bn seed s" and r: "removeResponse db_ok s rid = Inr s'"
    and out: "rid \<noteq> queueKey s" "rid \<notin> item_id ` set (queueItems (mQueue s))"
  shows "store_ok bn seed s'"
proof -
  note D = store_okD [OF ok]
  have s': "s' = s\<lparr>subDb := AList.delete rid (subDb s), mTransactions := AList.delete rid (mTransactions s)\<rparr>"
    using r by (auto simp: removeResponse_def split: if_splits)
  have view: "db_view bn s' = (db_view bn s)(rid := None)"
    using out(1) by (auto simp: s' db_view_def fun_eq_iff)
  have "synced bn seed s'"
    using D(5) out(1) unfolding synced_def view by (auto simp: s' fun_upd_twist)
  with D out show ?thesis
    by (auto simp: store_ok_def s' well_filed_def tracked_def split: if_splits)
qed

section \<open>Recovery\<close>

lemma item_ok_roundtrip:
  "codec_ok bn \<Longrightarrow> item_ok i \<Longrightarrow> deserialise_item bn (serialise_item bn i) = Inr i"
  by (rule item_roundtrip) (auto intro: item_ok_constructible)

lemma gq_ok_roundtrip:
  "codec_ok bn \<Longrightarrow> gq_ok q \<Longrightarrow> deserialise_queue bn (serialise_queue bn q) = Inr q"
  by (rule queue_roundtrip) (auto simp: gq_ok_def intro: item_ok_constructible)

text \<open>A stream of entries each of which is the queue under its key or the record \<open>T k\<close> under
  another key is read back as that queue and those records.\<close>

lemma getAll_entries:
  assumes "codec_ok bn" "gq_ok q" "\<And>k i. T k = Some i \<Longrightarrow> item_ok i"
    and "\<And>k v. (k, v) \<in> set stream \<Longrightarrow>
      (if k = qk then v = QueueRecord (serialise_queue bn q)
       else \<exists>i. T k = Some i \<and> v = ItemRecord (serialise_item bn i))"
  shows "\<exists>m'. getAll bn qk stream qo m = Inr (if qk \<in> fst ` set stream then Some q else qo, m') \<and>
    (js_wf m \<longrightarrow> js_wf m') \<and>
    map_of m' = (\<lambda>k. if k \<noteq> qk \<and> k \<in> fst ` set stream then T k else map_of m k)"
  using assms(4)
proof (induction stream arbitrary: qo m)
  case (Cons e stream)
  obtain k v where e: "e = (k, v)" by fastforce
  have prem: "\<And>k v. (k, v) \<in> set stream \<Longrightarrow>
      (if k = qk then v = QueueRecord (serialise_queue bn q)
       else \<exists>i. T k = Some i \<and> v = ItemRecord (serialise_item bn i))"
    by (rule Cons.prems) simp
  show ?case
  proof (cases "k = qk")
    case True
    then have "v = QueueRecord (serialise_queue bn q)" using Cons.prems [of k v] e by simp
    with True e Cons.IH [OF prem, of "Some q" m] show ?thesis
      by (auto simp: gq_ok_roundtrip [OF assms(1,2)] fun_eq_iff)
  next
    case False
    then obtain i where i: "T k = Some i" "v = ItemRecord (serialise_item bn i)"
      using Cons.prems [of k v] e by auto
    from Cons.IH [OF prem, of qo "AList.update k i m"] obtain m' where
      m': "getAll bn qk stream qo (AList.update k i m) =
             Inr (if qk \<in> fst ` set stream then Some q else qo, m')"
        "js_wf (AList.update k i m) \<longrightarrow> js_wf m'"
        "map_of m' = (\<lambda>k'. if k' \<noteq> qk \<and> k' \<in> fst ` set stream then T k'
                        else map_of (AList.update k i m) k')" by blast
    have "getAll bn qk (e # stream) qo m = Inr (if qk \<in> fst ` set (e # stream) then Some q else qo, m')"
      using False e i m'(1) by (simp add: item_ok_roundtrip [OF assms(1) assms(3)])
    moreover have "map_of m' = (\<lambda>k'. if k' \<noteq> qk \<and> k' \<in> fst ` set (e # stream) then T k' else map_of m k')"
      unfolding m'(3) using False e i(1) by auto
    ultimately show ?thesis using m'(2) by blast
  qed
qed simp

lemma fold_set_entries:
  assumes "js_wf m" shows "map_of (fold (\<lambda>(key, value). AList.update key value) m []) = map_of m"
proof -
  have "fold (\<lambda>(key, value). AList.update key value) m n = fold (\<lambda>e. AList.update (fst e) (snd e)) m n" for n
    by (rule fold_cong) (auto simp: split_def)
  moreover have "map_of (fold (\<lambda>e. AList.update (fst e) (snd e)) m []) k = map_of m k" for k
  proof (cases "find (\<lambda>e. fst e = k) m")
    case None
    then have "map_of m k = None" by (auto simp: find_None_iff map_of_eq_None_iff)
    with None assms show ?thesis by (simp add: js_wf_def map_of_fold_update)
  next
    case (Some e)
    then have "e \<in> set m" "fst e = k" using assms by (auto simp: js_wf_def find_eq_Some_distinct)
    then have "map_of m k = Some (snd e)" using assms by (auto simp: js_wf_def)
    with Some assms show ?thesis by (simp add: js_wf_def map_of_fold_update)
  qed
  ultimately show ?thesis by auto
qed

lemma js_wf_fold_set: "js_wf n \<Longrightarrow> js_wf (fold (\<lambda>(key, value). AList.update key value) m n)"
  by (induction m arbitrary: n) auto

text \<open>What a store that starts on the database of another, in any order of its entries, finds.\<close>

lemma startInternal_eq:
  assumes bn: "codec_ok bn" and ok: "store_ok bn seed s"
    and stream: "js_wf stream" "map_of stream = map_of (subDb s)"
    and s0: "queueKey s0 = queueKey s" "mTransactions s0 = []"
  shows "\<exists>m. map_of m = map_of (mTransactions s) \<and> js_wf m \<and>
    startInternal bn stream s0 =
      (if map_of (subDb s) (queueKey s) = None then Inr (s0\<lparr>mTransactions := m\<rparr>)
       else bind_result (new_GasQueue (queueItems (mQueue s)) (emptyNonce (mQueue s))
                           (replacementRate (mQueue s0)) (maxQueueDepth (mQueue s0)))
              (\<lambda>q'. Inr (s0\<lparr>mQueue := q', mTransactions := m\<rparr>)))"
proof -
  note D = store_okD [OF ok]
  let ?qk = "queueKey s" and ?T = "map_of (mTransactions s)"
  have filed: "item_ok i" "k \<noteq> ?qk" if "?T k = Some i" for k i
    using that D(3) by (auto simp: well_filed_def)
  then have qk: "?T ?qk = None" by (metis not_None_eq)
  have db: "map_of stream k = (if k = ?qk \<and> map_of (subDb s) k = None then None else db_view bn s k)" for k
    using D(5) unfolding stream(2) synced_def by auto
  have entries: "if k = ?qk then v = QueueRecord (serialise_queue bn (mQueue s))
      else \<exists>i. ?T k = Some i \<and> v = ItemRecord (serialise_item bn i)"
    if "(k, v) \<in> set stream" for k v
  proof -
    have "map_of stream k = Some v" using that stream(1) by (simp add: js_wf_def)
    then show ?thesis unfolding db by (auto simp: db_view_def split: if_splits)
  qed
  have "\<exists>m. getAll bn ?qk stream None [] =
      Inr (if ?qk \<in> fst ` set stream then Some (mQueue s) else None, m) \<and> (js_wf ([] :: GasQueueItem js_map) \<longrightarrow> js_wf m) \<and>
    map_of m = (\<lambda>k. if k \<noteq> ?qk \<and> k \<in> fst ` set stream then ?T k else map_of [] k)"
    by (rule getAll_entries [OF bn D(1) filed(1) entries])
  then obtain m where m: "getAll bn ?qk stream None [] =
      Inr (if ?qk \<in> fst ` set stream then Some (mQueue s) else None, m)" "js_wf m"
    "map_of m = (\<lambda>k. if k \<noteq> ?qk \<and> k \<in> fst ` set stream then ?T k else None)"
    by (auto simp: fun_eq_iff)
  have dom: "k \<in> fst ` set stream \<longleftrightarrow> map_of stream k \<noteq> None" for k
    by (metis map_of_eq_None_iff)
  have "map_of m k = ?T k" for k
    unfolding m(3) dom db using qk by (auto simp: db_view_def)
  then have "map_of m = ?T" ..
  moreover have "?qk \<in> fst ` set stream \<longleftrightarrow> map_of (subDb s) ?qk \<noteq> None"
    unfolding dom stream(2) ..
  ultimately show ?thesis
    using m fold_set_entries [OF m(2)] js_wf_fold_set [of "[]" m] s0
    by (intro exI [of _ "fold (\<lambda>(key, value). AList.update key value) m []"])
       (auto simp: startInternal_def bind_result_assoc)
qed

lemma new_GasQueue_restart:
  assumes "gq_ok q" "1 \<le> rr" "1 \<le> md"
  shows "new_GasQueue (queueItems q) (emptyNonce q) rr md =
    (if int (length (queueItems q)) \<le> md
     then Inr (q\<lparr>replacementRate := rr, maxQueueDepth := md\<rparr>)
     else Inl (ArgumentError ''Cannot create queue. Max queue depth reached.''))"
proof -
  have same: "new_GasQueue (queueItems q) (emptyNonce q) (replacementRate q) (maxQueueDepth q) = Inr q"
    using assms(1) by (simp add: gq_ok_def new_GasQueue_Inr_iff)
  then have "(if length (queueItems q) > 1
      then first_error (map (check_index (queueItems q)) [1..<length (queueItems q)]) else None) = None"
    "\<not> (length (queueItems q) > 0 \<and> nonce (queueItems q ! (length (queueItems q) - 1)) + 1 \<noteq> emptyNonce q)"
    "\<not> emptyNonce q < 0"
    unfolding new_GasQueue_def by (auto simp: result_simps split: option.splits if_splits)
  with assms(2,3) show ?thesis
    unfolding new_GasQueue_def by (simp add: linorder_not_le)
qed

section \<open>The store as an object\<close>

datatype store_call = UpdateQueue bool GasQueue | RemoveResponse bool string

fun store_step :: "BigNumberCodec \<Rightarrow> ResponderStore \<Rightarrow> store_call \<Rightarrow> ResponderStore result" where
  "store_step bn s (UpdateQueue db_ok q) = bind_result (updateQueue bn db_ok s q) (\<lambda>(s', diff). Inr s')"
| "store_step bn s (RemoveResponse db_ok rid) = removeResponse db_ok s rid"

fun store_call_ok :: "ResponderStore \<Rightarrow> store_call \<Rightarrow> bool" where
  "store_call_ok s (UpdateQueue db_ok q) \<longleftrightarrow> queue_fits s q"
| "store_call_ok s (RemoveResponse db_ok rid) \<longleftrightarrow>
     rid \<noteq> queueKey s \<and> rid \<notin> item_id ` set (queueItems (mQueue s))"

lemma store_step_ok:
  assumes "store_ok bn seed s" "store_call_ok s c" "store_step bn s c = Inr s'"
  shows "store_ok bn seed s'"
  using assms by (cases c) (auto simp: result_simps intro: updateQueue_ok removeResponse_ok)

interpretation rstore: object_contract "store_step bn" "store_ok bn seed" store_call_ok for bn seed
  by unfold_locales (rule store_step_ok)

lemma store_step_queueKey: "store_step bn s c = Inr s' \<Longrightarrow> queueKey s' = queueKey s"
  by (cases c) (auto simp: result_simps removeResponse_def dest: updateQueue_InrD(4) split: if_splits)

lemma run_store_queueKey: "queueKey (run_ops (store_step bn) s cs) = queueKey s"
  by (induction cs arbitrary: s) (auto split: sum.splits dest: store_step_queueKey)

lemma new_ResponderStore_ok:
  assumes "gq_ok seed" "queueItems seed = []"
  shows "store_ok bn seed (new_ResponderStore [] address seed)"
  using assms
  by (auto simp: store_ok_def new_ResponderStore_def well_filed_def tracked_def synced_def db_view_def)

section \<open>Properties\<close>

text \<open>\<open>updateQueue\<close> throws and leaves the store as it is when the batch is not written; otherwise
  the queue is replaced, the items that are new or changed are returned, and each of them, and no
  other transaction, becomes the record under its id.\<close>

lemma updateQueue_outcome:
  assumes "queue_fits s q"
  shows "updateQueue bn False s q = Inl (JsError ''batch write'') \<and>
    (\<exists>s'. updateQueue bn True s q = Inr (s', difference q (mQueue s)) \<and> mQueue s' = q \<and>
       (\<forall>i\<in>set (difference q (mQueue s)). map_of (mTransactions s') (item_id i) = Some i) \<and>
       (\<forall>k. k \<notin> item_id ` set (difference q (mQueue s)) \<longrightarrow>
          map_of (mTransactions s') k = map_of (mTransactions s) k))"
proof -
  let ?d = "difference q (mQueue s)"
  have "updateQueue bn False s q = Inl (JsError ''batch write'')"
    by (simp add: updateQueue_def Let_def)
  moreover obtain s' where s': "updateQueue bn True s q = Inr (s', ?d)"
    by (simp add: updateQueue_def Let_def)
  have dist: "distinct (map item_id ?d)"
    using assms distinct_difference [where key = item_id and q = q] by (simp add: queue_fits_def)
  have new: "map_of (mTransactions s') (item_id i) = Some i" if "i \<in> set ?d" for i
  proof -
    have "find (\<lambda>d. item_id d = item_id i) ?d = Some i"
      using that by (simp add: find_eq_Some_distinct [OF dist])
    then show ?thesis by (simp add: updateQueue_lookup [OF assms s'])
  qed
  have old: "map_of (mTransactions s') k = map_of (mTransactions s) k" if "k \<notin> item_id ` set ?d" for k
  proof -
    have "find (\<lambda>d. item_id d = k) ?d = None" using that by (auto simp: find_None_iff)
    then show ?thesis by (simp add: updateQueue_lookup [OF assms s'])
  qed
  from s' new old updateQueue_InrD(3) [OF s'] calculation show ?thesis by blast
qed

definition ex_queue2 :: GasQueue where
  "ex_queue2 = \<lparr>queueItems = [(ex_item ''a'' 30 5)\<lparr>request := (ex_req ''a'' 30)\<lparr>req_id := ''a''\<rparr>\<rparr>,
      (ex_item ''b'' 20 6)\<lparr>request := (ex_req ''b'' 20)\<lparr>req_id := ''b''\<rparr>\<rparr>],
     emptyNonce = 7, replacementRate = 12, maxQueueDepth = 13\<rparr>"

definition ex_seed :: GasQueue where
  "ex_seed = \<lparr>queueItems = [], emptyNonce = 5, replacementRate = 12, maxQueueDepth = 13\<rparr>"

lemma ex_seed_ok: "gq_ok ex_seed" "queueItems ex_seed = []"
  by (simp_all add: gq_ok_def gq_inv_def ex_seed_def nonces_to_def prices_desc_def idents_distinct_def)

lemma ex_queue2_ok: "gq_ok ex_queue2"
  by (simp add: gq_ok_def gq_inv_def ex_queue2_def nonces_to_def prices_desc_def idents_distinct_def
      canon_def item_ok_def All_less_Suc numeral_2_eq_2)

lemma ex_queue2_fits: "queue_fits (new_ResponderStore [] ''0x1'' ex_seed) ex_queue2"
  using ex_queue2_ok by (simp add: queue_fits_def ex_queue2_def new_ResponderStore_def)

text \<open>C12: Recovery from a crash: whatever calls a store has served, a store that starts on its
  database, read in any order, has the same queue and the same transactions, when it is configured
  with the same replacement rate and depth (and, when no queue was ever saved, the same seed).\<close>

theorem store_recovers:
  assumes "codec_ok bn" "gq_ok seed" "queueItems seed = []"
    and "calls_ok (store_step bn) store_call_ok (new_ResponderStore [] address seed) calls"
    and "s = run_ops (store_step bn) (new_ResponderStore [] address seed) calls"
    and "js_wf stream" "map_of stream = map_of (subDb s)"
    and "replacementRate seed' = replacementRate (mQueue s)" "maxQueueDepth seed' = maxQueueDepth (mQueue s)"
    and "map_of (subDb s) (queueKey s) = None \<longrightarrow> seed' = seed"
  shows "\<exists>s'. startInternal bn stream (new_ResponderStore (subDb s) address seed') = Inr s' \<and>
    mQueue s' = mQueue s \<and> map_of (mTransactions s') = map_of (mTransactions s) \<and> store_ok bn seed s'"
proof -
  let ?s0 = "new_ResponderStore (subDb s) address seed'"
  have ok: "store_ok bn seed s"
    unfolding assms(5) by (rule rstore.run_inv [OF new_ResponderStore_ok [OF assms(2,3)] assms(4)])
  note D = store_okD [OF ok]
  have key: "queueKey ?s0 = queueKey s" "mTransactions ?s0 = []" "mQueue ?s0 = seed'" "subDb ?s0 = subDb s"
    by (simp_all add: assms(5) run_store_queueKey new_ResponderStore_def)
  from startInternal_eq [OF assms(1) ok assms(6,7) key(1,2)] obtain m where
    m: "map_of m = map_of (mTransactions s)" "js_wf m" and
    st: "startInternal bn stream ?s0 =
      (if map_of (subDb s) (queueKey s) = None then Inr (?s0\<lparr>mTransactions := m\<rparr>)
       else bind_result (new_GasQueue (queueItems (mQueue s)) (emptyNonce (mQueue s))
                           (replacementRate (mQueue s)) (maxQueueDepth (mQueue s)))
              (\<lambda>q'. Inr (?s0\<lparr>mQueue := q', mTransactions := m\<rparr>)))"
    unfolding key(3) assms(8,9) by blast
  let ?s' = "s\<lparr>mTransactions := m\<rparr>"
  have "new_GasQueue (queueItems (mQueue s)) (emptyNonce (mQueue s))
      (replacementRate (mQueue s)) (maxQueueDepth (mQueue s)) = Inr (mQueue s)"
    using D(1) by (simp add: gq_ok_def new_GasQueue_Inr_iff)
  moreover have "mQueue s = seed'" if "map_of (subDb s) (queueKey s) = None"
    using that D(5) assms(10) by (auto simp: synced_def db_view_def)
  ultimately have "startInternal bn stream ?s0 = Inr ?s'"
    unfolding st using key by (auto intro!: ResponderStore.equality)
  moreover have "db_view bn ?s' = db_view bn s"
    by (simp add: db_view_def fun_eq_iff m(1))
  then have "store_ok bn seed ?s'"
    using ok m by (simp add: store_ok_def well_filed_def tracked_def synced_def)
  ultimately show ?thesis using m by auto
qed

theorem store_recovers_witness:
  "\<exists>s s'. s = run_ops (store_step unary_codec) (new_ResponderStore [] ''0x1'' ex_seed) [UpdateQueue True ex_queue2] \<and>
     mQueue s = ex_queue2 \<and>
     startInternal unary_codec (subDb s) (new_ResponderStore (subDb s) ''0x1'' ex_seed) = Inr s' \<and>
     mQueue s' = ex_queue2"
proof -
  let ?s = "run_ops (store_step unary_codec) (new_ResponderStore [] ''0x1'' ex_seed) [UpdateQueue True ex_queue2]"
  have c: "calls_ok (store_step unary_codec) store_call_ok (new_ResponderStore [] ''0x1'' ex_seed) [UpdateQueue True ex_queue2]"
    using ex_queue2_fits by simp
  have s: "mQueue ?s = ex_queue2" "js_wf (subDb ?s)" "map_of (subDb ?s) (queueKey ?s) \<noteq> None"
    by (simp_all add: updateQueue_def Let_def new_ResponderStore_def ex_queue2_def ex_seed_def
        difference_def js_wf_def)
  have r: "replacementRate ex_seed = replacementRate (mQueue ?s)" "maxQueueDepth ex_seed = maxQueueDepth (mQueue ?s)"
    unfolding s(1) by (simp_all add: ex_seed_def ex_queue2_def)
  from store_recovers [OF unary_codec_ok ex_seed_ok c refl s(2) refl r] s(1,3) show ?thesis by metis
qed

text \<open>A store that starts with a smaller queue depth than the saved queue needs refuses to start;
  with enough depth it takes the saved items over with the new rate and depth.\<close>

lemma restart_with_new_limits:
  assumes "codec_ok bn" "store_ok bn seed s" "js_wf stream" "map_of stream = map_of (subDb s)"
    and "map_of (subDb s) (queueKey s) \<noteq> None" "queueKey s = address @ '':queue''"
    and "1 \<le> replacementRate seed'" "1 \<le> maxQueueDepth seed'"
  shows "if int (length (queueItems (mQueue s))) \<le> maxQueueDepth seed'
    then \<exists>s'. startInternal bn stream (new_ResponderStore (subDb s) address seed') = Inr s' \<and>
           mQueue s' = (mQueue s)\<lparr>replacementRate := replacementRate seed', maxQueueDepth := maxQueueDepth seed'\<rparr>
    else startInternal bn stream (new_ResponderStore (subDb s) address seed') =
           Inl (ArgumentError ''Cannot create queue. Max queue depth reached.'')"
proof -
  have key: "queueKey (new_ResponderStore (subDb s) address seed') = queueKey s"
    "mTransactions (new_ResponderStore (subDb s) address seed') = []"
    "mQueue (new_ResponderStore (subDb s) address seed') = seed'"
    by (simp_all add: assms(6) new_ResponderStore_def)
  from startInternal_eq [OF assms(1-4) key(1,2)] assms(5)
    new_GasQueue_restart [OF store_okD(1) [OF assms(2)] assms(7,8)]
  show ?thesis unfolding key(3) by auto
qed

end
