(* ===== verification/MultiResponder.thy ===== *)
theory MultiResponder
  imports ResponderStore
begin

text \<open>
  The responder (src/src/responder/multiResponder.ts): the handlers that enqueue a response, take a
  mined transaction out of the queue, put transactions lost in a reorganisation back, and forget a
  response.  Each handler computes a new queue from the current one and stores it inside one lock,
  so no other handler runs between the two; the transactions that are new or changed are then
  broadcast.

  What the handlers ask of the outside is the record \<open>Env\<close> of a call: the gas price the estimator
  returns for a deadline, whether the database write succeeds, which transactions the node
  accepts (a refused one is logged and forgotten), and the balance the provider reports, with the
  threshold it is compared with.  A handler returns \<open>Inl\<close> what it throws to its
  caller; an error it catches and logs leaves the state as it was.
\<close>

section \<open>State and environment\<close>

record MultiResponder =
  chainId :: int
  zStore :: ResponderStore
  sent :: "TransactionRequest list"

record Env =
  estimate :: "int \<Rightarrow> int result"
  write_ok :: bool
  accepts :: "TransactionRequest \<Rightarrow> bool"
  balance :: "int result"
  balanceThreshold :: int

abbreviation queue :: "MultiResponder \<Rightarrow> GasQueue" where
  "queue r \<equiv> mQueue (zStore r)"

abbreviation transactions :: "MultiResponder \<Rightarrow> string \<Rightarrow> GasQueueItem option" where
  "transactions r \<equiv> map_of (mTransactions (zStore r))"

definition PisaGasAllowance :: int where
  "PisaGasAllowance = 2000000"

section \<open>Handlers\<close>

definition broadcast :: "Env \<Rightarrow> MultiResponder \<Rightarrow> GasQueueItem \<Rightarrow> MultiResponder" where
  "broadcast env this queueItem =
     (let tx = toTransactionRequest queueItem in
      if accepts env tx then this\<lparr>sent := sent this @ [tx]\<rparr> else this)"

definition startResponse ::
  "BigNumberCodec \<Rightarrow> Env \<Rightarrow> MultiResponder \<Rightarrow> string \<Rightarrow> string \<Rightarrow> int \<Rightarrow> string \<Rightarrow> int \<Rightarrow> int \<Rightarrow>
   MultiResponder result" where
  "startResponse bn env this to responseData gasLimit responseId startBlock endBlock =
     (let txIdentifier = \<lparr>id_chainId = chainId this, id_data = responseData, id_to = to,
                          id_value = 0, id_gasLimit = gasLimit\<rparr>;
          locked =
            (if depthReached (queue this)
             then Inl (QueueConsistencyError ''Cannot add to queue. Max queue depth reached.'')
             else
               bind_result (estimate env endBlock) (\<lambda>idealGas.
               bind_result
                 (add (queue this)
                    \<lparr>req_identifier = txIdentifier, req_idealGasPrice = idealGas,
                     req_id = responseId, req_blockObserved = startBlock\<rparr>)
                 (\<lambda>replacedQueue. updateQueue bn (write_ok env) (zStore this) replacedQueue)))
      in case locked of
           Inr (store, replaced) \<Rightarrow> Inr (fold (\<lambda>b r. broadcast env r b) replaced (this\<lparr>zStore := store\<rparr>))
         | Inl doh \<Rightarrow>
             (case doh of
                GasQueueError AlreadyAdded m \<Rightarrow>
                  Inl (PublicInspectionError ''Appointment already being responded to.'')
              | _ \<Rightarrow> Inr this))"

definition txMined ::
  "BigNumberCodec \<Rightarrow> Env \<Rightarrow> MultiResponder \<Rightarrow> PisaTransactionIdentifier \<Rightarrow> int \<Rightarrow> MultiResponder result" where
  "txMined bn env this txIdentifier minedNonce =
     (let items = queueItems (queue this);
          locked =
            (if length items = 0
             then Inl (QueueConsistencyError ''Transaction mined for empty queue'')
             else if findIndex (\<lambda>item. equals (ident item) txIdentifier) items = -1
             then Inl (QueueConsistencyError ''Transaction identifier not found in queue.'')
             else
               let frontItem = items ! 0 in
               if nonce frontItem \<noteq> minedNonce
               then Inl (QueueConsistencyError ''Front of queue nonce does not correspond to nonce'')
               else if equals txIdentifier (ident frontItem)
               then bind_result (dequeue (queue this))
                      (\<lambda>dequeuedQueue. updateQueue bn (write_ok env) (zStore this) dequeuedQueue)
               else bind_result (consume (queue this) txIdentifier)
                      (\<lambda>reducedQueue. updateQueue bn (write_ok env) (zStore this) reducedQueue))
      in case locked of
           Inr (store, replaced) \<Rightarrow> Inr (fold (\<lambda>b r. broadcast env r b) replaced (this\<lparr>zStore := store\<rparr>))
         | Inl doh \<Rightarrow> Inr this)"

definition reEnqueueMissingItems ::
  "BigNumberCodec \<Rightarrow> Env \<Rightarrow> MultiResponder \<Rightarrow> string list \<Rightarrow> MultiResponder result" where
  "reEnqueueMissingItems bn env this appointmentIdsStillPending =
     bind_result
       (map_result
          (\<lambda>txRecord. case txRecord of
             None \<Rightarrow> Inl (ArgumentError ''No record of appointment in responder.'')
           | Some i \<Rightarrow> Inr i)
          (map (\<lambda>appId. transactions this appId) appointmentIdsStillPending))
       (\<lambda>records.
          let missingQueueItems = filter (\<lambda>item. \<not> contains (queue this) (ident item)) records in
          if length missingQueueItems \<noteq> 0 then
            bind_result (prepend (queue this) missingQueueItems) (\<lambda>unlockedQueue.
            bind_result (updateQueue bn (write_ok env) (zStore this) unlockedQueue)
              (\<lambda>(store, replaced). Inr (fold (\<lambda>b r. broadcast env r b) replaced (this\<lparr>zStore := store\<rparr>))))
          else Inr this)"

definition endResponse :: "Env \<Rightarrow> MultiResponder \<Rightarrow> string \<Rightarrow> MultiResponder result" where
  "endResponse env this appointmentId =
     bind_result (removeResponse (write_ok env) (zStore this) appointmentId)
       (\<lambda>store. Inr (this\<lparr>zStore := store\<rparr>))"

text \<open>Whether \<open>checkBalance\<close> logs a warning, if the provider reports the balance.\<close>

definition checkBalance :: "Env \<Rightarrow> bool result" where
  "checkBalance env = bind_result (balance env) (\<lambda>currentBalance. Inr (currentBalance < balanceThreshold env))"

section \<open>Broadcasting\<close>

lemma broadcast_all:
  "fold (\<lambda>b r. broadcast env r b) items r =
     r\<lparr>sent := sent r @ filter (accepts env) (map toTransactionRequest items)\<rparr>"
  by (induction items arbitrary: r) (auto simp: broadcast_def Let_def)

text \<open>The common end of the handlers: store the queue, then broadcast what changed.\<close>

definition installed :: "BigNumberCodec \<Rightarrow> Env \<Rightarrow> MultiResponder \<Rightarrow> GasQueue \<Rightarrow> MultiResponder" where
  "installed bn env r q =
     (case updateQueue bn True (zStore r) q of
        Inl e \<Rightarrow> r
      | Inr (store, diff) \<Rightarrow>
          r\<lparr>zStore := store, sent := sent r @ filter (accepts env) (map toTransactionRequest diff)\<rparr>)"

lemma updateQueue_write_failed [simp]: "updateQueue bn False s q = Inl (JsError ''batch write'')"
  by (simp add: updateQueue_def Let_def)

lemma updateQueue_written: "\<exists>s'. updateQueue bn True s q = Inr (s', difference q (mQueue s))"
  by (simp add: updateQueue_def Let_def)

lemma queue_installed [simp]: "queue (installed bn env r q) = q"
  using updateQueue_written [of bn "zStore r" q] updateQueue_InrD(3) [of bn True "zStore r" q]
  by (auto simp: installed_def)

lemma installed_simps [simp]:
  "chainId (installed bn env r q) = chainId r"
  "queueKey (zStore (installed bn env r q)) = queueKey (zStore r)"
  "sent (installed bn env r q) =
     sent r @ filter (accepts env) (map toTransactionRequest (difference q (queue r)))"
  using updateQueue_written [of bn "zStore r" q] updateQueue_InrD(4) [of bn True "zStore r" q]
  by (auto simp: installed_def)

lemma commit_broadcast:
  "bind_result (updateQueue bn ok (zStore r) q)
     (\<lambda>(store, replaced). Inr (fold (\<lambda>b r. broadcast env r b) replaced (r\<lparr>zStore := store\<rparr>))) =
   (if ok then Inr (installed bn env r q) else Inl (JsError ''batch write''))"
  using updateQueue_written [of bn "zStore r" q]
  by (cases ok) (auto simp: installed_def broadcast_all)

text \<open>The handlers, with their inner results spelled out.\<close>

abbreviation response_request ::
  "int \<Rightarrow> string \<Rightarrow> string \<Rightarrow> int \<Rightarrow> string \<Rightarrow> int \<Rightarrow> int \<Rightarrow> GasQueueItemRequest" where
  "response_request cid to responseData gasLimit rid startBlock p \<equiv>
     \<lparr>req_identifier = \<lparr>id_chainId = cid, id_data = responseData, id_to = to, id_value = 0,
                        id_gasLimit = gasLimit\<rparr>,
      req_idealGasPrice = p, req_id = rid, req_blockObserved = startBlock\<rparr>"

lemma startResponse_eq:
  "startResponse bn env r to responseData gasLimit rid startBlock endBlock =
     (if depthReached (queue r) then Inr r
      else case estimate env endBlock of
        Inl (GasQueueError AlreadyAdded m) \<Rightarrow> Inl (PublicInspectionError ''Appointment already being responded to.'')
      | Inl e \<Rightarrow> Inr r
      | Inr p \<Rightarrow>
          (case add (queue r) (response_request (chainId r) to responseData gasLimit rid startBlock p) of
             Inl (GasQueueError AlreadyAdded m) \<Rightarrow>
               Inl (PublicInspectionError ''Appointment already being responded to.'')
           | Inl e \<Rightarrow> Inr r
           | Inr q \<Rightarrow> if write_ok env then Inr (installed bn env r q) else Inr r))"
proof -
  have fin: "(case updateQueue bn (write_ok env) (zStore r) q of
      Inr (store, replaced) \<Rightarrow> Inr (fold (\<lambda>b r. broadcast env r b) replaced (r\<lparr>zStore := store\<rparr>))
    | Inl doh \<Rightarrow>
        (case doh of
           GasQueueError AlreadyAdded m \<Rightarrow> Inl (PublicInspectionError ''Appointment already being responded to.'')
         | _ \<Rightarrow> Inr r)) = (if write_ok env then Inr (installed bn env r q) else Inr r)" for q
    using updateQueue_written [of bn "zStore r" q]
    by (cases "write_ok env") (auto simp: installed_def broadcast_all)
  show ?thesis
    by (auto simp: startResponse_def Let_def fin split: sum.splits)
qed

lemma txMined_eq:
  "txMined bn env r idn n =
     (if queueItems (queue r) = [] \<or> \<not> contains (queue r) idn \<or>
         nonce (queueItems (queue r) ! 0) \<noteq> n \<or> \<not> write_ok env
      then Inr r
      else case (if equals idn (ident (queueItems (queue r) ! 0)) then dequeue (queue r)
                 else consume (queue r) idn) of
        Inl e \<Rightarrow> Inr r
      | Inr q \<Rightarrow> Inr (installed bn env r q))"
proof -
  have fin: "(case bind_result x (\<lambda>q. updateQueue bn (write_ok env) (zStore r) q) of
      Inr (store, replaced) \<Rightarrow> Inr (fold (\<lambda>b r. broadcast env r b) replaced (r\<lparr>zStore := store\<rparr>))
    | Inl doh \<Rightarrow> Inr r) =
    (if \<not> write_ok env then Inr r else case x of Inl e \<Rightarrow> Inr r | Inr q \<Rightarrow> Inr (installed bn env r q))"
    for x :: "GasQueue result"
  proof (cases x)
    case (Inr q)
    with updateQueue_written [of bn "zStore r" q] show ?thesis
      by (cases "write_ok env") (auto simp: installed_def broadcast_all)
  qed simp
  show ?thesis
    by (cases "queueItems (queue r) = []"; cases "contains (queue r) idn";
        cases "nonce (queueItems (queue r) ! 0) = n"; cases "equals idn (ident (queueItems (queue r) ! 0))")
       (simp_all add: txMined_def Let_def fin contains_def del: findIndex_none)
qed

section \<open>Which requests a handler leaves in the queue\<close>

lemma set_requests: "set (requests q) = request ` set (queueItems q)"
  by (simp add: requests_def)

lemma add_requests:
  assumes "gq_ok q" "0 \<le> req_idealGasPrice req" "add q req = Inr q'"
  shows "set (requests q') = insert req (set (requests q))"
proof -
  have "requests q' = insert_request req (requests q)"
    using add_InrD(1) [OF assms] requests_add_items by (simp add: requests_def)
  then show ?thesis
    using mset_insert_request [of req "requests q"] by (metis set_mset_add_mset_insert set_mset_mset)
qed

lemma dequeue_requests:
  assumes "gq_ok q" "dequeue q = Inr q'" shows "set (requests q') \<subseteq> set (requests q)"
proof -
  have "q' = q\<lparr>queueItems := drop 1 (queueItems q)\<rparr>"
    using assms dequeue_eq(1) [OF gq_okD(1)] by auto
  then show ?thesis by (auto simp: set_requests dest: in_set_dropD)
qed

lemma consume_requests:
  assumes "gq_ok q" "consume q idn = Inr q'" shows "set (requests q') \<subseteq> set (requests q)"
proof -
  obtain k where k: "k < length (queueItems q)"
    "q' = \<lparr>queueItems = consume_items q k, emptyNonce = emptyNonce q,
           replacementRate = replacementRate q, maxQueueDepth = maxQueueDepth q\<rparr>"
    by (rule consume_InrD [OF assms])
  have "requests q' = map request (consume_items q k)"
    unfolding k(2) requests_def by simp
  also have "\<dots> = remove_nth k (requests q)" by (rule requests_consume_items [OF k(1)])
  finally show ?thesis by (simp add: set_remove_nth)
qed

lemma prepend_requests:
  assumes "gq_ok q" "items_ok lower" "prepend q lower = Inr q'"
  shows "set (requests q') = request ` set (lower @ queueItems q)"
proof -
  have "items_ok (lower @ queueItems q)" using assms by (auto simp: gq_ok_def)
  note iff = prepend_Inr_iff [OF gq_okD(1) [OF assms(1)] this, of q']
  have "queueItems q' = prepend_items q lower" using iffD1 [OF iff assms(3)] by simp
  then have "requests q' = map request (sort_by_gas (sort_by_nonce (lower @ queueItems q)))"
    unfolding requests_def prepend_items_def Let_def
    by (simp only:) (rule map_request_reassign, simp)
  then show ?thesis by simp
qed

section \<open>The invariant of the responder\<close>

text \<open>The responder is handed ids that determine the transaction: \<open>F\<close> gives the canonical
  identifier of an id.  No id is the database key of the queue.\<close>

type_synonym ident_of_id = "string \<Rightarrow> int \<times> string \<times> string \<times> int \<times> int"

definition req_fits :: "ident_of_id \<Rightarrow> string \<Rightarrow> GasQueueItemRequest \<Rightarrow> bool" where
  "req_fits F qk req \<longleftrightarrow> canon (req_identifier req) = F (req_id req) \<and> req_id req \<noteq> qk"

definition responder_ok :: "BigNumberCodec \<Rightarrow> GasQueue \<Rightarrow> ident_of_id \<Rightarrow> MultiResponder \<Rightarrow> bool" where
  "responder_ok bn seed F r \<longleftrightarrow>
     store_ok bn seed (zStore r) \<and>
     (\<forall>k i. transactions r k = Some i \<longrightarrow> req_fits F (queueKey (zStore r)) (request i))"

lemma responder_ok_store: "responder_ok bn seed F r \<Longrightarrow> store_ok bn seed (zStore r)"
  by (simp add: responder_ok_def)

lemma responder_ok_queue: "responder_ok bn seed F r \<Longrightarrow> gq_ok (queue r)"
  by (blast dest: responder_ok_store store_okD(1))

lemma responder_ok_record:
  assumes "responder_ok bn seed F r" "transactions r k = Some i"
  shows "req_fits F (queueKey (zStore r)) (request i)" "item_ok i" "item_id i = k"
  using assms by (auto simp: responder_ok_def store_ok_def well_filed_def)

lemma responder_ok_tracked:
  "responder_ok bn seed F r \<Longrightarrow> i \<in> set (queueItems (queue r)) \<Longrightarrow> transactions r (item_id i) = Some i"
  by (auto simp: responder_ok_def store_ok_def tracked_def)

lemma responder_ok_requests:
  assumes "responder_ok bn seed F r" "rq \<in> set (requests (queue r))"
  shows "req_fits F (queueKey (zStore r)) rq"
  using assms responder_ok_record(1) [OF assms(1) responder_ok_tracked [OF assms(1)]]
  by (auto simp: set_requests)

lemma queue_fitsI:
  assumes "gq_ok q" "\<And>rq. rq \<in> set (requests q) \<Longrightarrow> req_fits F (queueKey s) rq"
  shows "queue_fits s q"
proof -
  have eq: "map (\<lambda>i. canon (ident i)) (queueItems q) = map (\<lambda>i. F (item_id i)) (queueItems q)"
    using assms(2) by (auto simp: set_requests req_fits_def)
  have "distinct (map (\<lambda>i. F (item_id i)) (queueItems q))"
    using gq_invD(7) [OF gq_okD(1) [OF assms(1)]] unfolding idents_distinct_def eq .
  then have "distinct (map item_id (queueItems q))"
    by (simp add: distinct_map inj_on_def)
  with assms show ?thesis by (auto simp: queue_fits_def set_requests req_fits_def)
qed

lemma installed_ok:
  assumes ok: "responder_ok bn seed F r" and q: "gq_ok q"
    and fit: "\<And>rq. rq \<in> set (requests q) \<Longrightarrow> req_fits F (queueKey (zStore r)) rq"
  shows "responder_ok bn seed F (installed bn env r q)"
proof -
  note qf = queue_fitsI [of q F "zStore r", OF q fit]
  obtain s' where s': "updateQueue bn True (zStore r) q = Inr (s', difference q (queue r))"
    using updateQueue_written by blast
  have z: "zStore (installed bn env r q) = s'" by (simp add: installed_def s')
  have "req_fits F (queueKey (zStore r)) (request i)" if i: "map_of (mTransactions s') k = Some i" for k i
  proof (cases "find (\<lambda>d. item_id d = k) (difference q (queue r))")
    case None
    with i responder_ok_record(1) [OF ok] show ?thesis
      by (simp add: updateQueue_lookup [OF qf s'])
  next
    case (Some d)
    then have "d \<in> set (queueItems q)" by (auto simp: find_Some_iff difference_def dest: nth_mem)
    then have "req_fits F (queueKey (zStore r)) (request d)" by (intro fit) (simp add: set_requests)
    moreover have "i = d" using Some i by (simp add: updateQueue_lookup [OF qf s'])
    ultimately show ?thesis by simp
  qed
  with updateQueue_ok [OF responder_ok_store [OF ok] qf s'] updateQueue_InrD(4) [OF s'] show ?thesis
    unfolding responder_ok_def z by auto
qed

section \<open>The responder as an object\<close>

datatype responder_call =
    StartResponse Env string string int string int int
  | TxMined Env PisaTransactionIdentifier int
  | ReEnqueueMissingItems Env "string list"
  | EndResponse Env string

fun responder_step :: "BigNumberCodec \<Rightarrow> MultiResponder \<Rightarrow> responder_call \<Rightarrow> MultiResponder result" where
  "responder_step bn r (StartResponse env to responseData gasLimit rid startBlock endBlock) =
     startResponse bn env r to responseData gasLimit rid startBlock endBlock"
| "responder_step bn r (TxMined env idn n) = txMined bn env r idn n"
| "responder_step bn r (ReEnqueueMissingItems env ids) = reEnqueueMissingItems bn env r ids"
| "responder_step bn r (EndResponse env rid) = endResponse env r rid"

definition estimate_ok :: "Env \<Rightarrow> bool" where
  "estimate_ok env \<longleftrightarrow> (\<forall>endBlock p. estimate env endBlock = Inr p \<longrightarrow> 0 \<le> p)"

text \<open>What the callers of the responder promise: prices are not negative, ids determine transactions,
  and a response is ended only once its transaction has left the queue.\<close>

fun responder_call_ok :: "ident_of_id \<Rightarrow> MultiResponder \<Rightarrow> responder_call \<Rightarrow> bool" where
  "responder_call_ok F r (StartResponse env to responseData gasLimit rid startBlock endBlock) \<longleftrightarrow>
     estimate_ok env \<and> rid \<noteq> queueKey (zStore r) \<and>
     F rid = (chainId r, responseData, toLowerCase to, 0, gasLimit)"
| "responder_call_ok F r (TxMined env idn n) \<longleftrightarrow> True"
| "responder_call_ok F r (ReEnqueueMissingItems env ids) \<longleftrightarrow> True"
| "responder_call_ok F r (EndResponse env rid) \<longleftrightarrow>
     rid \<noteq> queueKey (zStore r) \<and> rid \<notin> item_id ` set (queueItems (queue r))"

lemma startResponse_InrD:
  assumes "startResponse bn env r to d g rid sb eb = Inr r'"
  shows "r' = r \<or> (\<exists>p q. estimate env eb = Inr p \<and>
    add (queue r) (response_request (chainId r) to d g rid sb p) = Inr q \<and> r' = installed bn env r q)"
  using assms unfolding startResponse_eq
  by (auto split: if_splits sum.splits app_error.splits GasQueueErrorKind.splits)

lemma txMined_InrD:
  assumes "txMined bn env r idn n = Inr r'"
  shows "r' = r \<or> (\<exists>q. (dequeue (queue r) = Inr q \<or> consume (queue r) idn = Inr q) \<and> r' = installed bn env r q)"
  using assms unfolding txMined_eq by (auto split: if_splits sum.splits)

lemma pending_records:
  "map_result (\<lambda>t. case t of None \<Rightarrow> Inl e | Some i \<Rightarrow> Inr i) (map f ids) = Inr records \<longleftrightarrow>
     map f ids = map Some records"
proof (induction ids arbitrary: records)
  case (Cons k ids)
  then show ?case by (cases records) (auto simp: bind_result_Inr_iff split: option.splits)
qed auto

lemma reEnqueueMissingItems_InrD:
  assumes "reEnqueueMissingItems bn env r ids = Inr r'"
  obtains records where "map (transactions r) ids = map Some records"
    "let missing = filter (\<lambda>i. \<not> contains (queue r) (ident i)) records in
     if missing = [] then r' = r
     else \<exists>q. prepend (queue r) missing = Inr q \<and> r' = installed bn env r q"
  using assms unfolding reEnqueueMissingItems_def
  by (auto simp: result_simps pending_records commit_broadcast Let_def split: if_splits)

lemma start_fits:
  assumes "responder_ok bn seed F r" "responder_call_ok F r (StartResponse env to d g rid sb eb)"
    and "rq = response_request (chainId r) to d g rid sb p \<or> rq \<in> set (requests (queue r))"
  shows "req_fits F (queueKey (zStore r)) rq"
  using assms(3)
proof
  assume "rq = response_request (chainId r) to d g rid sb p"
  with assms(2) show ?thesis by (simp add: req_fits_def canon_def)
qed (rule responder_ok_requests [OF assms(1)])

lemma startResponse_ok:
  assumes ok: "responder_ok bn seed F r" and c: "responder_call_ok F r (StartResponse env to d g rid sb eb)"
    and st: "startResponse bn env r to d g rid sb eb = Inr r'"
  shows "responder_ok bn seed F r'"
proof -
  from startResponse_InrD [OF st] consider "r' = r"
    | p q where "estimate env eb = Inr p"
        "add (queue r) (response_request (chainId r) to d g rid sb p) = Inr q" "r' = installed bn env r q"
    by auto
  then show ?thesis
  proof cases
    case 2
    have nn: "0 \<le> req_idealGasPrice (response_request (chainId r) to d g rid sb p)"
      using c 2(1) by (simp add: estimate_ok_def)
    show ?thesis
      unfolding 2(3)
    proof (rule installed_ok [OF ok])
      show "gq_ok q" by (rule add_InrD(7) [OF responder_ok_queue [OF ok] nn 2(2)])
      fix rq assume "rq \<in> set (requests q)"
      then show "req_fits F (queueKey (zStore r)) rq"
        using start_fits [OF ok c] add_requests [OF responder_ok_queue [OF ok] nn 2(2)] by blast
    qed
  qed (use ok in simp)
qed

lemma txMined_ok:
  assumes ok: "responder_ok bn seed F r" and st: "txMined bn env r idn n = Inr r'"
  shows "responder_ok bn seed F r'"
proof -
  from txMined_InrD [OF st] consider "r' = r"
    | q where "dequeue (queue r) = Inr q \<or> consume (queue r) idn = Inr q" "r' = installed bn env r q"
    by auto
  then show ?thesis
  proof cases
    case 2
    have "gq_ok q"
      using 2(1) responder_ok_queue [OF ok] gq_step_ok [of "queue r" Dequeue q]
        gq_step_ok [of "queue r" "Consume idn" q] by auto
    moreover have "set (requests q) \<subseteq> set (requests (queue r))"
      using 2(1) dequeue_requests [OF responder_ok_queue [OF ok]]
        consume_requests [OF responder_ok_queue [OF ok]] by blast
    ultimately show ?thesis
      unfolding 2(2) by (intro installed_ok [OF ok] responder_ok_requests [OF ok]) auto
  qed (use ok in simp)
qed

lemma reEnqueueMissingItems_ok:
  assumes ok: "responder_ok bn seed F r" and st: "reEnqueueMissingItems bn env r ids = Inr r'"
  shows "responder_ok bn seed F r'"
proof -
  obtain records where rec: "map (transactions r) ids = map Some records" and
    out: "let missing = filter (\<lambda>i. \<not> contains (queue r) (ident i)) records in
     if missing = [] then r' = r
     else \<exists>q. prepend (queue r) missing = Inr q \<and> r' = installed bn env r q"
    using st by (rule reEnqueueMissingItems_InrD)
  let ?missing = "filter (\<lambda>i. \<not> contains (queue r) (ident i)) records"
  have records: "req_fits F (queueKey (zStore r)) (request i)" "item_ok i" if "i \<in> set records" for i
  proof -
    from that rec have "Some i \<in> set (map (transactions r) ids)" by simp
    then obtain k where "transactions r k = Some i" by auto
    then show "req_fits F (queueKey (zStore r)) (request i)" "item_ok i"
      by (rule responder_ok_record [OF ok])+
  qed
  from out consider "r' = r" | q where "prepend (queue r) ?missing = Inr q" "r' = installed bn env r q"
    by (auto simp: Let_def split: if_splits)
  then show ?thesis
  proof cases
    case 2
    have items: "items_ok ?missing" using records(2) by auto
    have "gq_ok q"
      using gq_step_ok [of "queue r" "Prepend ?missing" q] 2(1) items responder_ok_queue [OF ok] by simp
    moreover have "req_fits F (queueKey (zStore r)) rq" if "rq \<in> set (requests q)" for rq
      using that records(1) responder_ok_requests [OF ok]
        prepend_requests [OF responder_ok_queue [OF ok] items 2(1)] by (auto simp: set_requests)
    ultimately show ?thesis unfolding 2(2) by (rule installed_ok [OF ok])
  qed (use ok in simp)
qed

lemma responder_step_ok:
  assumes ok: "responder_ok bn seed F r" and c: "responder_call_ok F r c"
    and st: "responder_step bn r c = Inr r'"
  shows "responder_ok bn seed F r'"
proof (cases c)
  case (StartResponse env to d g rid sb eb)
  with startResponse_ok [OF ok] c st show ?thesis by simp
next
  case (TxMined env idn n)
  with txMined_ok [OF ok] st show ?thesis by simp
next
  case (ReEnqueueMissingItems env ids)
  with reEnqueueMissingItems_ok [OF ok] st show ?thesis by simp
next
  case (EndResponse env rid)
  with st obtain store where "removeResponse (write_ok env) (zStore r) rid = Inr store" "r' = r\<lparr>zStore := store\<rparr>"
    by (auto simp: endResponse_def result_simps)
  moreover from this have "store_ok bn seed store"
    using removeResponse_ok [OF responder_ok_store [OF ok]] c EndResponse by auto
  ultimately show ?thesis
    using ok by (auto simp: responder_ok_def removeResponse_def split: if_splits)
qed

interpretation resp: object_contract "responder_step bn" "responder_ok bn seed F" "responder_call_ok F"
  for bn seed F
  by unfold_locales (rule responder_step_ok)

end
