(* ===== verification/ResponderComponent.thy ===== *)
theory ResponderComponent
  imports EventLogs BlockchainMachine MultiResponder
begin

text \<open>
  The responder as a component (src/src/responder/component.ts): it watches the chain for the transactions
  the responder has sent, and turns what it sees into the actions the responder carries out.
\<close>

section \<open>The state of a response\<close>

text \<open>\<open>PendingResponseState\<close> and \<open>MinedResponseState\<close>.  The block number a transaction reports may be
  missing.\<close>

datatype ResponderAppointmentAnchorState =
    is_Pending: Pending (state_appointmentId: string) (state_identifier: PisaTransactionIdentifier)
  | Mined (state_appointmentId: string) (state_identifier: PisaTransactionIdentifier)
      (blockMined: "int option") (mined_nonce: int)

type_synonym ResponderAnchorState = "(ResponderAppointmentAnchorState, BlockNumberState) MappedState"

record ResponderAppointmentReducer =
  r_identifier :: PisaTransactionIdentifier
  r_appointmentId :: string
  r_blockObserved :: int
  r_address :: string

definition tx_identifier :: "TransactionStub \<Rightarrow> string \<Rightarrow> PisaTransactionIdentifier" where
  "tx_identifier tx to =
     \<lparr>id_chainId = tx_chainId tx, id_data = tx_data tx, id_to = to, id_value = tx_value tx,
      id_gasLimit = tx_gasLimit tx\<rparr>"

text \<open>A contract creation has no \<open>to\<close>, or an empty one.\<close>

fun txIdentifier_in ::
  "string \<Rightarrow> PisaTransactionIdentifier \<Rightarrow> TransactionStub list \<Rightarrow> (int option \<times> int) option" where
  "txIdentifier_in address identifier [] = None"
| "txIdentifier_in address identifier (tx # txs) =
     (case tx_to tx of
        None \<Rightarrow> txIdentifier_in address identifier txs
      | Some to \<Rightarrow>
          if to = [] then txIdentifier_in address identifier txs
          else if equals (tx_identifier tx to) identifier \<and> toLowerCase (tx_from tx) = toLowerCase address
          then Some (tx_blockNumber tx, tx_nonce tx)
          else txIdentifier_in address identifier txs)"

definition txIdentifierInBlock ::
  "ResponderAppointmentReducer \<Rightarrow> 'a Block_scheme \<Rightarrow> PisaTransactionIdentifier \<Rightarrow> (int option \<times> int) option" where
  "txIdentifierInBlock this block identifier = txIdentifier_in (r_address this) identifier (block_transactions block)"

definition getMinedTransaction ::
  "ResponderAppointmentReducer \<Rightarrow> ('a Block_scheme, 's) BlockCache \<Rightarrow> string \<Rightarrow> PisaTransactionIdentifier \<Rightarrow>
   (int option \<times> int) option run" where
  "getMinedTransaction this blockCache start identifier =
     bind_run (for_ancestry blockCache start (\<lambda>block.
         if number block < r_blockObserved this then Inr (Some None)
         else Inr (map_option Some (txIdentifierInBlock this block identifier))))
       (\<lambda>found. Some (Inr (case found of None \<Rightarrow> None | Some txInfo \<Rightarrow> txInfo)))"

definition response_getInitialState ::
  "ResponderAppointmentReducer \<Rightarrow> ('a Block_scheme, 's) BlockCache \<Rightarrow> 'a Block_scheme \<Rightarrow>
   ResponderAppointmentAnchorState run" where
  "response_getInitialState this blockCache block =
     bind_run (getMinedTransaction this blockCache (block_hash block) (r_identifier this)) (\<lambda>minedTx.
       Some (Inr (case minedTx of
           Some (minedBlock, minedNonce) \<Rightarrow> Mined (r_appointmentId this) (r_identifier this) minedBlock minedNonce
         | None \<Rightarrow> Pending (r_appointmentId this) (r_identifier this))))"

fun response_reduce ::
  "ResponderAppointmentReducer \<Rightarrow> ResponderAppointmentAnchorState \<Rightarrow> 'a Block_scheme \<Rightarrow>
   ResponderAppointmentAnchorState run" where
  "response_reduce this (Pending appointmentId identifier) block =
     (case txIdentifierInBlock this block identifier of
        Some (_, minedNonce) \<Rightarrow> Some (Inr (Mined appointmentId identifier (Some (number block)) minedNonce))
      | None \<Rightarrow> Some (Inr (Pending appointmentId identifier)))"
| "response_reduce this prevState block = Some (Inr prevState)"

definition response_reducer ::
  "ResponderAppointmentReducer \<Rightarrow> ('a Block_scheme, 's) BlockCache \<Rightarrow>
   (ResponderAppointmentAnchorState, 'a Block_scheme) StateReducer" where
  "response_reducer this blockCache =
     \<lparr>getInitialState = response_getInitialState this blockCache, reduce = response_reduce this\<rparr>"

section \<open>The component\<close>

datatype ResponderAction =
    ReEnqueueMissingItems "string list"
  | TxMined PisaTransactionIdentifier int
  | EndResponse string
  | CheckResponderBalance

record MultiResponderComponent =
  component_responder :: MultiResponder
  responder_address :: string
  confirmationsRequired :: int

definition responder_reducer ::
  "MultiResponderComponent \<Rightarrow> ('a Block_scheme, 's) BlockCache \<Rightarrow> (ResponderAnchorState, 'a Block_scheme) StateReducer" where
  "responder_reducer this blockCache =
     mapped_reducer
       \<lparr>getItems = map snd (mTransactions (zStore (component_responder this))),
        getBaseReducer = (\<lambda>item. Inr (response_reducer
           \<lparr>r_identifier = req_identifier (request item), r_appointmentId = req_id (request item),
            r_blockObserved = req_blockObserved (request item), r_address = responder_address this\<rparr> blockCache)),
        idSelector = (\<lambda>item. req_id (request item)),
        whole_reducer = BlockNumberReducer\<rparr>"

definition hasResponseBeenMined :: "ResponderAppointmentAnchorState option \<Rightarrow> bool" where
  "hasResponseBeenMined appointmentState =
     (case appointmentState of Some (Mined a i b n) \<Rightarrow> True | _ \<Rightarrow> False)"

text \<open>A comparison with the difference to a missing block number is false.\<close>

definition shouldAppointmentBeRemoved ::
  "MultiResponderComponent \<Rightarrow> ResponderAnchorState \<Rightarrow> ResponderAppointmentAnchorState option \<Rightarrow> bool" where
  "shouldAppointmentBeRemoved this state appointmentState =
     (case appointmentState of
        Some (Mined a i (Some b) n) \<Rightarrow> blockNumber (rest state) - b > confirmationsRequired this
      | _ \<Rightarrow> False)"

definition detect_response ::
  "MultiResponderComponent \<Rightarrow> ResponderAnchorState \<Rightarrow> ResponderAnchorState \<Rightarrow> string \<Rightarrow>
   ResponderAppointmentAnchorState \<Rightarrow> ResponderAction list" where
  "detect_response this prevState state appointmentId currentItem =
     (let prevItem = map_of (state_items prevState) appointmentId in
      (if \<not> hasResponseBeenMined prevItem \<and> hasResponseBeenMined (Some currentItem)
       then [TxMined (state_identifier currentItem) (mined_nonce currentItem), CheckResponderBalance] else []) @
      (if \<not> shouldAppointmentBeRemoved this prevState prevItem \<and> shouldAppointmentBeRemoved this state (Some currentItem)
       then [EndResponse (state_appointmentId currentItem)] else []))"

definition responder_detectChanges ::
  "MultiResponderComponent \<Rightarrow> ResponderAnchorState \<Rightarrow> ResponderAnchorState \<Rightarrow> ResponderAction list" where
  "responder_detectChanges this prevState state =
     (let reEnqueueItems = map state_appointmentId (filter is_Pending (map snd (state_items state))) in
      (if length reEnqueueItems > 0 then [ReEnqueueMissingItems reEnqueueItems] else []) @
      concat (map (\<lambda>(appointmentId, currentItem). detect_response this prevState state appointmentId currentItem)
                (state_items state)))"

definition responder_component ::
  "MultiResponderComponent \<Rightarrow> ('a Block_scheme, ResponderAnchorState, ResponderAction) Component" where
  "responder_component this =
     \<lparr>component_name = ''responder'', reducer = responder_reducer this,
      detectChanges = (\<lambda>prevState state. Inr (responder_detectChanges this prevState state))\<rparr>"

text \<open>Checking the balance throws when the provider does, and does not change the responder.\<close>

fun responder_applyAction ::
  "BigNumberCodec \<Rightarrow> Env \<Rightarrow> ResponderAction \<Rightarrow> MultiResponder \<Rightarrow> MultiResponder result" where
  "responder_applyAction bn env (ReEnqueueMissingItems appointmentIds) responder =
     reEnqueueMissingItems bn env responder appointmentIds"
| "responder_applyAction bn env (TxMined identifier minedNonce) responder = txMined bn env responder identifier minedNonce"
| "responder_applyAction bn env (EndResponse appointmentId) responder = endResponse env responder appointmentId"
| "responder_applyAction bn env CheckResponderBalance responder = bind_result (checkBalance env) (\<lambda>low. Inr responder)"

lemma balance_checked [simp]: "(case bind_result m (\<lambda>low. Inr r) of Inl e \<Rightarrow> r | Inr r' \<Rightarrow> r') = r"
  by (cases m) auto

end
