(* ===== verification/BlockCacheQueries.thy ===== *)
theory BlockCacheQueries
  imports BlockCacheInv
begin

text \<open>
  The queries of the cache: the ancestry of a block is a finite path, and the loops over it stop at the
  first block they look for.
\<close>

section \<open>The ancestry of a block\<close>

text \<open>The chain: the parent of a block is one block lower.\<close>

definition links :: "'a naming \<Rightarrow> bool" where
  "links B \<longleftrightarrow> (\<forall>h. real B h \<longrightarrow> real B (parentHash (B h)) \<longrightarrow> number (B (parentHash (B h))) + 1 = number (B h))"

text \<open>The hashes from a block to its oldest ancestor in the cache.\<close>

fun ancestry_path :: "'a naming \<Rightarrow> ('a IBlockStub_scheme, 's) BlockCache \<Rightarrow> string list \<Rightarrow> bool" where
  "ancestry_path B c [] \<longleftrightarrow> False"
| "ancestry_path B c [h] \<longleftrightarrow> att c h \<noteq> None \<and> att c (parentHash (B h)) \<noteq> Some True"
| "ancestry_path B c (h # p # hs) \<longleftrightarrow>
     att c h \<noteq> None \<and> p = parentHash (B h) \<and> att c p = Some True \<and> ancestry_path B c (p # hs)"

lemma ancestry_path_nonempty: "ancestry_path B c hs \<Longrightarrow> hs \<noteq> []"
  by auto

lemma ancestry_path_real: "rep_ok B c \<Longrightarrow> ancestry_path B c hs \<Longrightarrow> h \<in> set hs \<Longrightarrow> real B h"
  by (induction hs rule: ancestry_path.induct) (auto intro: rep_okD(3))

text \<open>It exists, because the numbers go down and the cache is finite.\<close>

lemma ancestry_path_exists:
  assumes "rep_ok B c" "links B" "att c h \<noteq> None"
  obtains hs where "ancestry_path B c (h # hs)"
proof -
  have "\<exists>hs. ancestry_path B c (h # hs)"
    using assms(3)
  proof (induction "card {x. att c x \<noteq> None \<and> number (B x) < number (B h)}" arbitrary: h rule: less_induct)
    case less
    let ?below = "\<lambda>h. {x. att c x \<noteq> None \<and> number (B x) < number (B h)}"
    let ?p = "parentHash (B h)"
    show ?case
    proof (cases "att c ?p = Some True")
      case False
      with less.prems have "ancestry_path B c [h]" by simp
      then show ?thesis by blast
    next
      case True
      then have "number (B ?p) + 1 = number (B h)"
        using assms(1,2) less.prems by (auto simp: links_def dest: rep_okD(3))
      then have sub: "?below ?p \<subseteq> ?below h" "?p \<notin> ?below ?p" "?p \<in> ?below h" using True by auto
      have "finite (?below h)"
      proof (rule finite_imageD [of "\<lambda>h. memKey h KEY_ATTACHED"])
        have "(\<lambda>h. memKey h KEY_ATTACHED) ` ?below h \<subseteq> dom (cache_items c)"
          by (auto simp: attached_get_items split: option.splits)
        then show "finite ((\<lambda>h. memKey h KEY_ATTACHED) ` ?below h)"
          by (rule finite_subset) (rule finite_dom_map_of)
      qed (simp add: inj_on_def)
      moreover have "?below ?p \<subset> ?below h" using sub by blast
      ultimately have "card (?below ?p) < card (?below h)" by (rule psubset_card_mono)
      from less.hyps [OF this] True obtain hs where "ancestry_path B c (?p # hs)" by auto
      with True less.prems have "ancestry_path B c (h # ?p # hs)" by simp
      then show ?thesis by blast
    qed
  qed
  then show thesis using that by blast
qed

lemma ancestry_path_unique:
  "ancestry_path B c (h # hs) \<Longrightarrow> ancestry_path B c (h # hs') \<Longrightarrow> hs = hs'"
proof (induction hs arbitrary: h hs')
  case Nil
  then show ?case by (cases hs') auto
next
  case (Cons p hs)
  then show ?case by (cases hs') auto
qed

text \<open>The heights on the path go down one by one.\<close>

lemma ancestry_path_number:
  assumes "rep_ok B c" "links B" "ancestry_path B c (h # hs)" "i \<le> length hs"
  shows "number (B ((h # hs) ! i)) = number (B h) - int i"
  using assms(3,4)
proof (induction hs arbitrary: h i)
  case (Cons p hs)
  show ?case
  proof (cases i)
    case (Suc j)
    have p: "p = parentHash (B h)" "att c h \<noteq> None" "att c p \<noteq> None" "ancestry_path B c (p # hs)"
      using Cons.prems(1) by auto
    then have "number (B p) + 1 = number (B h)"
      using assms(1,2) by (auto simp: links_def dest: rep_okD(3))
    with Cons.IH [OF p(4), of j] Suc Cons.prems(2) show ?thesis by simp
  qed simp
qed simp

section \<open>Loops over the ancestry\<close>

fun first_stop :: "('b \<Rightarrow> 'r option result) \<Rightarrow> 'b list \<Rightarrow> 'r option result" where
  "first_stop body [] = Inr None"
| "first_stop body (b # bs) =
     (case body b of Inl e \<Rightarrow> Inl e | Inr (Some r) \<Rightarrow> Inr (Some r) | Inr None \<Rightarrow> first_stop body bs)"

lemma ancestry_loop_path:
  assumes "rep_ok B c" "ancestry_path B c (h # hs)"
  shows "ancestry_loop c body (B h) = Some (first_stop body (map B (h # hs)))"
  using assms(2)
proof (induction hs arbitrary: h)
  case Nil
  then have "\<not> hasBlock c (parentHash (B h)) False" by (simp add: hasBlock_rep [OF assms(1)])
  then show ?case by (subst ancestry_loop.simps) (simp split: sum.split option.split)
next
  case (Cons p hs)
  then have p: "p = parentHash (B h)" "att c p = Some True" by auto
  then have "hasBlock c (parentHash (B h)) False" "getBlock c (parentHash (B h)) = Inr (B p)"
    using assms(1) by (auto simp: hasBlock_rep getBlock_rep)
  moreover have "ancestry_loop c body (B p) = Some (first_stop body (map B (p # hs)))"
    by (rule Cons.IH) (use Cons.prems in auto)
  ultimately show ?case by (subst ancestry_loop.simps) (simp split: sum.split option.split)
qed

lemma for_ancestry_path:
  assumes "rep_ok B c" "ancestry_path B c (h # hs)"
  shows "for_ancestry c h body = Some (first_stop body (map B (h # hs)))"
proof -
  have "att c h \<noteq> None" using assms(2) by (cases hs) auto
  with assms show ?thesis
    by (simp add: for_ancestry_def getBlock_rep ancestry_loop_path)
qed

section \<open>The queries\<close>

text \<open>The first block of a list that satisfies a predicate that may throw.\<close>

fun find_result :: "('b \<Rightarrow> bool result) \<Rightarrow> 'b list \<Rightarrow> 'b option result" where
  "find_result P [] = Inr None"
| "find_result P (b # bs) =
     bind_result (P b) (\<lambda>ok. if ok then Inr (Some b) else find_result P bs)"

lemma find_result_total: "find_result (\<lambda>b. Inr (P b)) bs = Inr (find P bs)"
  by (induction bs) auto

lemma first_stop_find:
  "map_sum id (\<lambda>r. case r of Some found \<Rightarrow> found | None \<Rightarrow> None)
     (first_stop (\<lambda>b. if number b < m then Inr (Some None)
        else (case P b of Inl e \<Rightarrow> Inl e | Inr ok \<Rightarrow> Inr (if ok then Some (Some b) else None))) bs) =
   find_result P (takeWhile (\<lambda>b. m \<le> number b) bs)"
  by (induction bs) (auto split: sum.splits)

lemma findAncestor_path:
  assumes "rep_ok B c" "ancestry_path B c (h # hs)"
  shows "findAncestor c h P m = Some (find_result P (takeWhile (\<lambda>b. m \<le> number b) (map B (h # hs))))"
  unfolding findAncestor_def for_ancestry_path [OF assms] by (simp only: option.map first_stop_find)

lemma path_attached: "ancestry_path B c (h # hs) \<Longrightarrow> x \<in> set hs \<Longrightarrow> att c x = Some True"
  by (induction hs arbitrary: h) auto

lemma path_last: "ancestry_path B c (h # hs) \<Longrightarrow> att c (parentHash (B (last (h # hs)))) \<noteq> Some True"
  by (induction hs arbitrary: h) auto

lemma path_parent: "ancestry_path B c (h # hs) \<Longrightarrow> x \<in> set (butlast (h # hs)) \<Longrightarrow> att c (parentHash (B x)) = Some True"
  by (induction hs arbitrary: h) (auto split: if_splits)

lemma find_last:
  "xs \<noteq> [] \<Longrightarrow> (\<And>x. x \<in> set (butlast xs) \<Longrightarrow> \<not> P x) \<Longrightarrow> P (last xs) \<Longrightarrow> find P xs = Some (last xs)"
  by (induction xs) (auto split: if_splits)

lemma takeWhile_path:
  assumes "rep_ok B c" "ancestry_path B c (h # hs)" "\<forall>x. real B x \<longrightarrow> 0 \<le> number (B x)"
  shows "takeWhile (\<lambda>b. 0 \<le> number b) (map B (h # hs)) = map B (h # hs)"
  using assms ancestry_path_real [OF assms(1,2)] by (intro takeWhile_eq_all_conv [THEN iffD2]) auto

end
