(* ===== verification/BlockCacheProps.thy ===== *)
theory BlockCacheProps
  imports BlockCacheQueries BlockchainMachine
begin

text \<open>
  The properties of the block cache: what \<open>addBlock\<close> does on every branch, what holds of the cache
  after any blocks were added in any order, and what the queries return.
\<close>

section \<open>Any sequence of blocks\<close>

definition add_blocks ::
  "('a IBlockStub_scheme, 's) listener \<Rightarrow> 'a IBlockStub_scheme list \<Rightarrow> (('a IBlockStub_scheme, 's) BlockCache, unit) prog" where
  "add_blocks listener bs = for_each_prog (\<lambda>b. then_prog (addBlock listener b) (return_prog ())) bs"

text \<open>What \<open>addBlock\<close> returns.\<close>

definition add_result ::
  "('a IBlockStub_scheme, 's) BlockCache \<Rightarrow> 'a IBlockStub_scheme \<Rightarrow> BlockAddResult" where
  "add_result c b =
     (if att c (block_hash b) = Some True then NotAddedAlreadyExisted
      else if \<not> mIsEmpty c \<and> number b < lo c then NotAddedBlockNumberTooLow
      else if att c (block_hash b) = Some False then NotAddedAlreadyExistedDetached
      else if mIsEmpty c \<or> att c (parentHash b) = Some True \<or> number b = lo c then Added
      else AddedDetached)"

text \<open>No detached block could be attached: its parent is not attached and it is not at the minimum
  height.\<close>

definition none_stuck :: "'a naming \<Rightarrow> ('a IBlockStub_scheme, 's) BlockCache \<Rightarrow> bool" where
  "none_stuck B c \<longleftrightarrow>
     (\<forall>h. att c h = Some False \<longrightarrow> att c (parentHash (B h)) \<noteq> Some True \<and> number (B h) \<noteq> lo c)"

definition run_inv :: "'a naming \<Rightarrow> 'a IBlockStub_scheme list \<Rightarrow> ('a IBlockStub_scheme, 's) BlockCache \<Rightarrow> bool" where
  "run_inv B bs c \<longleftrightarrow>
     cache_inv B c \<and> (mIsEmpty c \<longleftrightarrow> bs = []) \<and> (\<forall>b\<in>set bs. names B b) \<and>
     (\<forall>h. att c h \<noteq> None \<longrightarrow> B h \<in> set bs) \<and> set (emitted c) \<subseteq> set bs \<and>
     (bs \<noteq> [] \<longrightarrow> lo c = max (number (hd bs)) (mMaxHeight c - maxDepth c)) \<and>
     mMaxHeight c \<in> insert 0 (number ` set bs) \<and>
     (\<forall>b\<in>set bs. lo c \<le> number b \<longrightarrow> att c (block_hash b) \<noteq> None) \<and>
     (links B \<longrightarrow> none_stuck B c)"

lemma run_invD:
  assumes "run_inv B bs c"
  shows "cache_inv B c" "mIsEmpty c \<longleftrightarrow> bs = []" "b \<in> set bs \<Longrightarrow> names B b" "att c h \<noteq> None \<Longrightarrow> B h \<in> set bs" "set (emitted c) \<subseteq> set bs"
    "bs \<noteq> [] \<Longrightarrow> number (hd bs) \<le> lo c" "b \<in> set bs \<Longrightarrow> lo c \<le> number b \<Longrightarrow> att c (block_hash b) \<noteq> None"
    "links B \<Longrightarrow> none_stuck B c" "bs \<noteq> [] \<Longrightarrow> lo c = max (number (hd bs)) (mMaxHeight c - maxDepth c)"
    "mMaxHeight c \<in> insert 0 (number ` set bs)"
  using assms unfolding run_inv_def by auto

lemma cache_inv_core: "core B c \<Longrightarrow> bounded B c \<Longrightarrow> cache_inv B c"
  using coreD(3) by (auto simp: cache_inv_def)

lemma canAttach_started:
  assumes "cache_inv B c" "0 \<le> number b"
  shows "canAttachBlock (started b c) b \<longleftrightarrow> mIsEmpty c \<or> att c (parentHash b) = Some True \<or> number b = lo c"
  using canAttachBlock_core [OF started_core(1) [OF assms], of b] assms(1)
  by (auto simp: started_core(3) [OF assms] lo_started cache_inv_def)

lemma names_hash: "names B b \<Longrightarrow> B (block_hash b) = b"
  by (simp add: names_def)

text \<open>A block that is refused was below the minimum or is there already.\<close>

lemma refused_run_inv:
  assumes inv: "run_inv B bs c" and b: "names B b"
    and refused: "att c (block_hash b) \<noteq> None \<or> \<not> mIsEmpty c \<and> number b < lo c"
  shows "run_inv B (bs @ [b]) c"
proof -
  note D = run_invD [OF inv]
  have ne: "bs \<noteq> []"
    using refused D(1,2) by (auto simp: cache_inv_def)
  then show ?thesis
    using inv refused b unfolding run_inv_def by (auto simp: hd_append)
qed

text \<open>A block that waits for its parent.\<close>

lemma detached_run_inv:
  assumes inv: "run_inv B bs c" and b: "names B b" "att c (block_hash b) = None" "lo c \<le> number b"
    and ne: "\<not> mIsEmpty c" and cant: "att c (parentHash b) \<noteq> Some True" "number b \<noteq> lo c"
    and c': "core B c'" "bounded B c'" "lo c' = lo c" "att c' = (att c)(block_hash b \<mapsto> False)" "emitted c' = emitted c"
      "maxDepth c' = maxDepth c" "mMaxHeight c' = mMaxHeight c"
  shows "run_inv B (bs @ [b]) c'"
proof -
  note D = run_invD [OF inv]
  have "bs \<noteq> []" "\<not> mIsEmpty c'" using ne D(2) coreD(3) [OF c'(1)] by auto
  moreover have "none_stuck B c'" if "links B"
    using D(8) [OF that] cant b(1) by (auto simp: none_stuck_def c'(3,4) names_hash)
  ultimately show ?thesis
    using D(3-5,7,9,10) b(1) cache_inv_core [OF c'(1,2)]
    unfolding run_inv_def by (auto simp: c'(3-7) hd_append names_hash)
qed

text \<open>A block that is attached, with the detached blocks that follow.\<close>

lemma added_none_stuck:
  assumes inv: "run_inv B bs c" and links: "links B" and b: "names B b"
    and c2: "\<And>h. att c2 h = (if number (B h) < lo c2 then None else if h = block_hash b then Some True else att c h)"
    and g: "grows B c2 c'" "no_detached_at B c' (number b + 1)" "no_detached_at B c' (lo c')"
  shows "none_stuck B c'"
  unfolding none_stuck_def
proof (intro allI impI conjI)
  fix h assume h: "att c' h = Some False"
  note G = grows_butD [OF g(1)]
  show "number (B h) \<noteq> lo c'" using h g(3) by (simp add: no_detached_at_def)
  have "att c2 h = Some False" using G(8) [OF h] .
  then have hc: "att c h = Some False" "real B h"
    using rep_okD(3) [OF coreD(1) [OF G(1)], of h] h by (auto simp: c2 split: if_splits)
  let ?p = "parentHash (B h)"
  show "att c' ?p \<noteq> Some True"
  proof
    assume p: "att c' ?p = Some True"
    then have "real B ?p" using rep_okD(3) [OF coreD(1) [OF G(1)], of ?p] by simp
    with links hc(2) have num: "number (B ?p) + 1 = number (B h)" by (simp add: links_def)
    from run_invD(8) [OF inv links] hc(1) have "att c ?p \<noteq> Some True" by (simp add: none_stuck_def)
    with p G(7) [of ?p] have "?p = block_hash b \<or> att c2 ?p = Some False"
      by (cases "att c2 ?p") (auto simp: c2 split: if_splits)
    then show False
    proof
      assume "?p = block_hash b"
      with num b have "number (B h) = number b + 1" by (simp add: names_hash)
      with h g(2) show False by (simp add: no_detached_at_def)
    next
      assume "att c2 ?p = Some False"
      from G(10) [OF this p _ h] num show False by simp
    qed
  qed
qed

lemma added_run_inv:
  assumes inv: "run_inv B bs c" and b: "names B b" "att c (block_hash b) = None" "mIsEmpty c \<or> lo c \<le> number b"
    and c2: "\<And>h. att c2 h = (if number (B h) < lo c2 then None else if h = block_hash b then Some True else att c h)"
      "lo c2 = max (lo (started b c)) (mMaxHeight c2 - maxDepth c)" "emitted c2 = emitted c @ [b]"
      "maxDepth c2 = maxDepth c" "mMaxHeight c2 = max (mMaxHeight c) (number b)"
    and g: "grows B c2 c'" "no_detached_at B c' (number b + 1)" "no_detached_at B c' (lo c')"
  shows "run_inv B (bs @ [b]) c'"
proof -
  note D = run_invD [OF inv] and G = grows_butD [OF g(1)]
  have B: "B (block_hash b) = b" using b(1) by (rule names_hash)
  have old: "B h \<in> set (bs @ [b])" if "att c2 h \<noteq> None" for h
    using that D(4) [of h] B by (auto simp: c2(1) split: if_splits)
  have "set (emitted c') \<subseteq> set (bs @ [b])"
  proof -
    from G(12) obtain es where es: "emitted c' = emitted c2 @ es" "set es \<subseteq> B ` detached c2" by blast
    have "B ` detached c2 \<subseteq> set (bs @ [b])" using old by (auto simp: detached_def)
    with es D(5) c2(3) show ?thesis by auto
  qed
  moreover have "lo c' = max (number (hd (bs @ [b]))) (mMaxHeight c' - maxDepth c')"
  proof -
    have "mMaxHeight c \<le> mMaxHeight c2" using c2(5) by simp
    then have "lo c2 = max (number (hd (bs @ [b]))) (mMaxHeight c2 - maxDepth c)"
      unfolding c2(2) using D(2,9) by (cases "bs = []") (simp_all add: lo_started max.assoc)
    with G(3,5,13) c2(4) show ?thesis by (simp add: max.assoc)
  qed
  moreover have "mMaxHeight c' \<in> insert 0 (number ` set (bs @ [b]))"
  proof -
    from G(14) old consider "mMaxHeight c' = mMaxHeight c2" | "mMaxHeight c' \<in> number ` set (bs @ [b])" by (metis imageI)
    then show ?thesis
    proof cases
      case 1
      then show ?thesis using c2(5) D(10) by (auto simp: max_def)
    qed simp
  qed
  moreover have "att c' (block_hash b') \<noteq> None" if b': "b' \<in> set (bs @ [b])" "lo c' \<le> number b'" for b'
  proof -
    have num: "number (B (block_hash b')) = number b'" using b'(1) b(1) D(3) by (auto simp: names_hash)
    have ge: "lo c2 \<le> number b'" using b'(2) G(6) by linarith
    have "att c2 (block_hash b') \<noteq> None"
    proof (cases "b' = b")
      case False
      then have mem: "b' \<in> set bs" using b'(1) by auto
      then have "\<not> mIsEmpty c" using D(2) by auto
      then have "lo c \<le> number b'" using ge c2(2) by (simp add: lo_started)
      with D(7) [OF mem] num ge show ?thesis by (auto simp: c2(1))
    qed (use ge num in \<open>simp add: c2(1)\<close>)
    then show ?thesis by (rule G(9)) (simp add: num b'(2))
  qed
  moreover have "\<forall>b'\<in>set (bs @ [b]). names B b'" using D(3) b(1) by auto
  ultimately show ?thesis
    unfolding run_inv_def
  proof (intro conjI allI impI)
    show "B h \<in> set (bs @ [b])" if "att c' h \<noteq> None" for h using old G(7) [OF that] by blast
    show "none_stuck B c'" if "links B" by (rule added_none_stuck [OF inv that b(1) c2(1) g])
  qed (use cache_inv_core [OF G(1,2)] coreD(3) [OF G(1)] in \<open>auto\<close>)
qed

context new_block_listener
begin

lemma addBlock_run_inv:
  assumes ok: "chain_ok B" and inv: "run_inv B bs c" and b: "names B b" "0 \<le> number b"
  shows "\<exists>c'. addBlock listener b c = Some (Inr (add_result c b), c') \<and> run_inv B (bs @ [b]) c' \<and>
    headHash c' = headHash c \<and> maxDepth c' = maxDepth c \<and>
    (case add_result c b of
       Added \<Rightarrow> (\<exists>es. emitted c' = emitted c @ b # es) \<and> no_detached_at B c' (number b + 1)
     | AddedDetached \<Rightarrow> att c' = (att c)(block_hash b \<mapsto> False) \<and> emitted c' = emitted c \<and> lo c' = lo c
     | _ \<Rightarrow> c' = c)"
proof -
  note D = run_invD [OF inv]
  note can = canAttach_started [OF D(1) b(2)]
  consider (refused) "att c (block_hash b) \<noteq> None \<or> \<not> mIsEmpty c \<and> number b < lo c"
    | (new) "att c (block_hash b) = None" "mIsEmpty c \<or> lo c \<le> number b" by linarith
  then show ?thesis
  proof cases
    case refused
    have "addBlock listener b c = Some (Inr (add_result c b), c)"
      using refused addBlock_refused [OF D(1), of b] by (cases "att c (block_hash b)") (auto simp: add_result_def not_less)
    moreover have "add_result c b \<notin> {Added, AddedDetached}" using refused by (auto simp: add_result_def)
    ultimately show ?thesis using refused_run_inv [OF inv b(1) refused] by (auto split: BlockAddResult.split)
  next
    case new
    show ?thesis
    proof (cases "canAttachBlock (started b c) b")
      case True
      then have "add_result c b = Added" using new can by (auto simp: add_result_def)
      moreover from addBlock_added [OF ok D(1) b new True] obtain c2 c' where
        "addBlock listener b c = Some (Inr Added, c')"
        "\<forall>h. att c2 h = (if number (B h) < lo c2 then None else if h = block_hash b then Some True else att c h)"
        "lo c2 = max (lo (started b c)) (mMaxHeight c2 - maxDepth c)" "emitted c2 = emitted c @ [b]"
        "maxDepth c2 = maxDepth c" "mMaxHeight c2 = max (mMaxHeight c) (number b)" "headHash c2 = headHash c"
        "grows B c2 c'" "no_detached_at B c' (number b + 1)" "no_detached_at B c' (lo c')" by blast
      ultimately show ?thesis
        using added_run_inv [OF inv b(1) new, of c2] grows_butD(3,4,12) [of "{}" B c2 c'] by auto
    next
      case False
      then have r: "add_result c b = AddedDetached" "\<not> mIsEmpty c" "att c (parentHash b) \<noteq> Some True" "number b \<noteq> lo c"
        using new can by (auto simp: add_result_def)
      from addBlock_detached [OF D(1) b new False] obtain c' where
        c': "addBlock listener b c = Some (Inr AddedDetached, c')" "core B c'" "bounded B c'" "lo c' = lo c"
          "att c' = (att c)(block_hash b \<mapsto> False)" "emitted c' = emitted c" "maxDepth c' = maxDepth c"
          "mMaxHeight c' = mMaxHeight c" "headHash c' = headHash c" by blast
      have "lo c \<le> number b" using new(2) r(2) by simp
      from detached_run_inv [OF inv b(1) new(1) this r(2-4) c'(2-8)] c'(1,4-9) r(1) show ?thesis by auto
    qed
  qed
qed

lemma add_blocks_run_inv:
  assumes "chain_ok B" "run_inv B bs0 c" "\<forall>b\<in>set bs. names B b \<and> 0 \<le> number b"
  shows "\<exists>c'. add_blocks listener bs c = Some (Inr (), c') \<and> run_inv B (bs0 @ bs) c'"
  using assms(2,3) unfolding add_blocks_def
proof (induction bs arbitrary: bs0 c)
  case (Cons b bs)
  from addBlock_run_inv [OF assms(1) Cons.prems(1), of b] Cons.prems(2) obtain c1 where
    c1: "addBlock listener b c = Some (Inr (add_result c b), c1)" "run_inv B (bs0 @ [b]) c1" by auto
  from Cons.IH [OF c1(2)] Cons.prems(2) c1(1) show ?case by (auto simp: then_prog_def bind_prog_def)
qed simp

end

text \<open>A new cache, on an empty store whose batch is open.\<close>

definition empty_cache :: "int \<Rightarrow> ('b, 's) BlockCache" where
  "empty_cache depth = new_BlockCache depth ((new_BlockItemStore [])\<lparr>mBatch := Some []\<rparr>)"

lemma run_inv_empty: "0 \<le> depth \<Longrightarrow> run_inv B [] (empty_cache depth)"
proof -
  assume d: "0 \<le> depth"
  have "store_inv N ((new_BlockItemStore [])\<lparr>mBatch := Some []\<rparr>)" for N :: "string \<Rightarrow> int"
    by (simp add: store_inv_def keys_at_def new_BlockItemStore_def)
  then have "rep_ok B (empty_cache depth)"
    by (simp add: rep_ok_def empty_cache_def new_BlockCache_def batch_open_def attached_get_def getItem_def)
      (simp add: new_BlockItemStore_def)
  with d show ?thesis
    by (simp add: run_inv_def cache_inv_def empty_cache_def new_BlockCache_def attached_get_def getItem_def none_stuck_def)
      (simp add: new_BlockItemStore_def)
qed

lemma run_inv_rep: "run_inv B bs c \<Longrightarrow> rep_ok B c"
  by (auto simp: run_inv_def cache_inv_def dest: coreD(1) split: if_splits)

text \<open>The state after any blocks were added to an empty cache.\<close>

lemma run_from_empty:
  assumes "components_return comps B" "0 \<le> depth" "\<forall>b\<in>set bs. names B b \<and> 0 \<le> number b"
  obtains c where "add_blocks (processNewBlock comps) bs (empty_cache depth) = Some (Inr (), c)" "run_inv B bs c"
  using machine.add_blocks_run_inv [OF assms(1) run_inv_empty [OF assms(2)] assms(3)] by auto

lemma reached_run_inv:
  assumes "components_return comps B" "0 \<le> depth" "\<forall>b\<in>set bs. names B b \<and> 0 \<le> number b"
    "add_blocks (processNewBlock comps) bs (empty_cache depth) = Some (Inr (), c)"
  shows "run_inv B bs c"
  using run_from_empty [OF assms(1-3)] assms(4) by auto

lemma reached_core:
  assumes "run_inv B bs c" "bs \<noteq> []"
  shows "core B c" "bounded B c"
  using assms by (auto simp: run_inv_def cache_inv_def)

section \<open>An example\<close>

text \<open>A chain \<open>g\<close>, \<open>a\<close>, \<open>b\<close> and a block \<open>o\<close> at the height of \<open>b\<close> whose parent nobody has.\<close>

definition ex_block :: "string \<Rightarrow> int \<Rightarrow> string \<Rightarrow> string list \<Rightarrow> TransactionHashes" where
  "ex_block h n p txs = \<lparr>block_hash = h, number = n, parentHash = p, transactionHashes = txs\<rparr>"

definition ex_chain :: "string \<Rightarrow> TransactionHashes" where
  "ex_chain h =
     (if h = ''a'' then ex_block ''a'' 6 ''g'' [''tx'']
      else if h = ''b'' then ex_block ''b'' 7 ''a'' []
      else if h = ''o'' then ex_block ''o'' 7 ''q'' []
      else ex_block ''g'' 5 ''x'' [])"

lemma ex_chain_names:
  "\<forall>b\<in>set (map ex_chain [''g'', ''o'', ''a'', ''b'']). names ex_chain b \<and> 0 \<le> number b"
  by (simp add: names_def ex_chain_def ex_block_def colon_free_def)

lemma ex_chain_links: "links ex_chain"
  by (auto simp: links_def real_def ex_chain_def ex_block_def split: if_splits)

lemma no_components_return: "components_return [] B"
  by (simp add: components_return_def)

abbreviation ex_run :: "string list \<Rightarrow> (unit result \<times> (TransactionHashes, unit) BlockCache) option" where
  "ex_run hs \<equiv> add_blocks (processNewBlock ([] :: (TransactionHashes, unit, unit) Component list)) (map ex_chain hs) (empty_cache 10)"

lemma ex_run_eval:
  "map_option (\<lambda>(r, c). (map (att c) [''g'', ''o'', ''a''], lo c)) (ex_run [''g'', ''o'']) =
     Some ([Some True, Some False, None], 5)"
  "map_option (\<lambda>(r, c). (map (att c) [''g'', ''o'', ''a'', ''b'', ''x'', ''q''], lo c)) (ex_run [''g'', ''o'', ''a'', ''b'']) =
     Some ([Some True, Some True, Some True, Some True, None, None], 5)"
  by code_simp+

lemma ex_chain_ok: "set hs \<subseteq> {''g'', ''o'', ''a'', ''b''} \<Longrightarrow> \<forall>b\<in>set (map ex_chain hs). names ex_chain b \<and> 0 \<le> number b"
  using ex_chain_names by fastforce

lemma ex_run_state:
  assumes "set hs \<subseteq> {''g'', ''o'', ''a'', ''b''}"
  obtains c where "ex_run hs = Some (Inr (), c)" "run_inv ex_chain (map ex_chain hs) c"
  by (rule run_from_empty [OF no_components_return [of ex_chain] _ ex_chain_ok [OF assms], of 10]) simp_all

section \<open>Adding blocks\<close>

text \<open>C25: When the reducers of the components return on every block that is attached, adding blocks ends and never throws:
  whatever blocks are added, in any order, the loops over detached blocks and heights stop, also when
  attaching blocks raises the minimum height again.  The reducers of the watcher and of the responder do
  return, unless a log makes a filter throw; then adding its block throws (C30).\<close>

theorem add_blocks_terminates:
  assumes "components_return comps B" "0 \<le> depth" "\<forall>b\<in>set bs. names B b \<and> 0 \<le> number b"
  shows "\<exists>c. add_blocks (processNewBlock comps) bs (empty_cache depth) = Some (Inr (), c)"
  by (rule run_from_empty [OF assms]) blast


text \<open>C24: \<open>addBlock\<close> on every branch, in any state that was reached: a block that is there or too low is refused
  and nothing changes; the first block, a block whose parent is attached or one at the minimum height is
  attached and emitted; any other waits, detached, and nothing is emitted.\<close>

theorem addBlock_outcome:
  assumes "components_return comps B" "0 \<le> depth" "\<forall>b\<in>set bs. names B b \<and> 0 \<le> number b"
    "add_blocks (processNewBlock comps) bs (empty_cache depth) = Some (Inr (), c)" "names B b" "0 \<le> number b"
  shows "\<exists>c'. addBlock (processNewBlock comps) b c =
      Some (Inr (if att c (block_hash b) = Some True then NotAddedAlreadyExisted
                 else if bs \<noteq> [] \<and> number b < lo c then NotAddedBlockNumberTooLow
                 else if att c (block_hash b) = Some False then NotAddedAlreadyExistedDetached
                 else if bs = [] \<or> att c (parentHash b) = Some True \<or> number b = lo c then Added
                 else AddedDetached), c') \<and>
    (case add_result c b of
       Added \<Rightarrow> \<exists>es. emitted c' = emitted c @ b # es
     | AddedDetached \<Rightarrow> att c' = (att c)(block_hash b \<mapsto> False) \<and> emitted c' = emitted c \<and> lo c' = lo c
     | _ \<Rightarrow> c' = c)"
proof -
  note inv = reached_run_inv [OF assms(1-4)]
  from machine.addBlock_run_inv [OF assms(1) inv assms(5,6)] run_invD(2) [OF inv] show ?thesis
    by (auto simp: add_result_def split: if_splits)
qed

theorem addBlock_outcome_witness:
  "\<exists>c c'. ex_run [''g'', ''o''] = Some (Inr (), c) \<and>
     addBlock (processNewBlock ([] :: (TransactionHashes, unit, unit) Component list)) (ex_chain ''a'') c = Some (Inr Added, c') \<and>
     (\<exists>es. emitted c' = emitted c @ ex_chain ''a'' # es)"
proof -
  obtain c where c: "ex_run [''g'', ''o''] = Some (Inr (), c)" by (rule ex_run_state [of "[''g'', ''o'']"]) auto
  then have v: "att c ''g'' = Some True" "att c ''a'' = None" "lo c = 5" using ex_run_eval(1) by auto
  have "names ex_chain (ex_chain ''a'')" "0 \<le> number (ex_chain ''a'')" using ex_chain_names by auto
  from addBlock_outcome [OF no_components_return _ ex_chain_ok c this] v c show ?thesis
    by (auto simp: add_result_def ex_chain_def ex_block_def)
qed

text \<open>C26: The window of the cache: after any blocks were added, the minimum height is the larger of the
  height of the first block and of \<open>maxDepth\<close> below \<open>maxHeight\<close>, no block below it is kept, no block is
  kept that is more than \<open>maxDepth\<close> below an attached one, and no attached block is higher than
  \<open>maxHeight\<close>.\<close>

theorem blocks_in_window:
  assumes "components_return comps B" "0 \<le> depth" "\<forall>b\<in>set bs. names B b \<and> 0 \<le> number b" "bs \<noteq> []"
    "add_blocks (processNewBlock comps) bs (empty_cache depth) = Some (Inr (), c)"
    "att c h \<noteq> None"
  shows "minHeight c = Some (max (number (hd bs)) (mMaxHeight c - maxDepth c)) \<and>
    max (number (hd bs)) (mMaxHeight c - maxDepth c) \<le> number (B h) \<and>
    (\<forall>a. att c a = Some True \<longrightarrow> number (B a) - maxDepth c \<le> number (B h) \<and> number (B a) \<le> mMaxHeight c)"
proof -
  note inv = reached_run_inv [OF assms(1-3,5)]
  note core = reached_core [OF inv assms(4)]
  have low: "lo c \<le> number (B h)" using coreD(6) [OF core(1) assms(6)] .
  moreover have "lo c = max (number (hd bs)) (mMaxHeight c - maxDepth c)" by (rule run_invD(9) [OF inv assms(4)])
  moreover have "number (B a) - maxDepth c \<le> number (B h) \<and> number (B a) \<le> mMaxHeight c" if "att c a = Some True" for a
    using core(2) that coreD(5) [OF core(1)] low by (fastforce simp: bounded_def)
  ultimately show ?thesis using coreD(8) [OF core(1)] by auto
qed

theorem blocks_in_window_witness:
  "\<exists>c. ex_run [''g'', ''o''] = Some (Inr (), c) \<and> 5 \<le> number (ex_chain ''o'') \<and> number (ex_chain ''g'') \<le> mMaxHeight c"
proof -
  obtain c where c: "ex_run [''g'', ''o''] = Some (Inr (), c)" by (rule ex_run_state [of "[''g'', ''o'']"]) auto
  then have v: "att c ''o'' = Some False" "att c ''g'' = Some True" using ex_run_eval(1) by auto
  from blocks_in_window [OF no_components_return _ ex_chain_ok _ c, of "''o''"] v c show ?thesis
    by (auto simp: ex_chain_def ex_block_def)
qed

text \<open>C27: No block is lost or announced twice: every block that was added and is not below the minimum height
  is in the cache, no block is emitted twice or without having been added, and the attached blocks are
  exactly those that were emitted and are not below the minimum height.\<close>

theorem no_block_lost:
  assumes "components_return comps B" "0 \<le> depth" "\<forall>b\<in>set bs. names B b \<and> 0 \<le> number b" "bs \<noteq> []"
    "add_blocks (processNewBlock comps) bs (empty_cache depth) = Some (Inr (), c)"
  shows "(\<forall>b\<in>set bs. lo c \<le> number b \<longrightarrow> att c (block_hash b) \<noteq> None) \<and>
    distinct (emitted c) \<and> set (emitted c) \<subseteq> set bs \<and>
    (\<forall>b\<in>set bs. att c (block_hash b) = Some True \<longleftrightarrow> b \<in> set (emitted c) \<and> lo c \<le> number b)"
proof -
  note inv = reached_run_inv [OF assms(1-3,5)]
  note D = run_invD [OF inv]
  have em: "emission_ok B c" by (rule coreD(7) [OF reached_core(1) [OF inv assms(4)]])
  have "real B (block_hash b)" "B (block_hash b) = b" if "b \<in> set bs" for b
    using D(3) [OF that] by (auto simp: names_def real_def)
  with em D(5,7) show ?thesis by (auto simp: emission_ok_def)
qed

theorem no_block_lost_witness:
  "\<exists>c. ex_run [''g'', ''o'', ''a'', ''b''] = Some (Inr (), c) \<and> distinct (emitted c) \<and> ex_chain ''b'' \<in> set (emitted c)"
proof -
  let ?hs = "[''g'', ''o'', ''a'', ''b'']"
  obtain c where c: "ex_run ?hs = Some (Inr (), c)" by (rule ex_run_state [of ?hs]) auto
  then have v: "att c ''b'' = Some True" using ex_run_eval(2) by auto
  from no_block_lost [OF no_components_return _ ex_chain_names _ c] v c show ?thesis
    by (auto simp: ex_chain_def ex_block_def)
qed

text \<open>No block waits in vain: when the parent of a block is one block lower, then after any blocks were
  added in any order, no detached block has an attached parent and none is at the minimum height.\<close>

lemma detached_blocks_attach:
  assumes "components_return comps B" "0 \<le> depth" "\<forall>b\<in>set bs. names B b \<and> 0 \<le> number b" "links B"
    "add_blocks (processNewBlock comps) bs (empty_cache depth) = Some (Inr (), c)" "att c h = Some False"
  shows "att c (parentHash (B h)) \<noteq> Some True \<and> minHeight c \<noteq> Some (number (B h))"
proof -
  note inv = reached_run_inv [OF assms(1-3,5)]
  have "bs \<noteq> []" using run_invD(4) [OF inv, of h] assms(6) by auto
  with run_invD(8) [OF inv assms(4)] assms(6) coreD(8) [OF reached_core(1) [OF inv]] show ?thesis
    by (auto simp: none_stuck_def)
qed

text \<open>A block that is attached takes with it every detached block one higher, whoever the parent of that
  block is: \<open>processDetached\<close> goes by the height alone.\<close>

lemma detached_attached_by_height:
  assumes "components_return comps B" "0 \<le> depth" "\<forall>b\<in>set bs. names B b \<and> 0 \<le> number b"
    "add_blocks (processNewBlock comps) bs (empty_cache depth) = Some (Inr (), c)" "names B b" "0 \<le> number b"
    "add_result c b = Added"
  shows "\<exists>c'. addBlock (processNewBlock comps) b c = Some (Inr Added, c') \<and>
    (\<forall>h. att c h = Some False \<and> number (B h) = number b + 1 \<and> lo c' \<le> number (B h) \<longrightarrow> att c' h = Some True)"
proof -
  note inv = reached_run_inv [OF assms(1-4)]
  from machine.addBlock_run_inv [OF assms(1) inv assms(5,6)] assms(7) obtain c' where
    c': "addBlock (processNewBlock comps) b c = Some (Inr Added, c')" "run_inv B (bs @ [b]) c'"
      "no_detached_at B c' (number b + 1)" by auto
  have "att c' h = Some True" if h: "att c h = Some False" "number (B h) = number b + 1" "lo c' \<le> number (B h)" for h
  proof -
    have "B h \<in> set (bs @ [b])" "block_hash (B h) = h"
      using run_invD(4) [OF inv, of h] rep_okD(3) [OF run_inv_rep [OF inv], of h] h(1) by (auto simp: real_def)
    with run_invD(7) [OF c'(2), of "B h"] h(3) have "att c' h \<noteq> None" by simp
    moreover have "att c' h \<noteq> Some False" using c'(3) h(2) by (auto simp: no_detached_at_def)
    ultimately show ?thesis by (cases "att c' h") auto
  qed
  with c'(1) show ?thesis by blast
qed

section \<open>The queries\<close>

text \<open>The queries walk the ancestry and stop: from any block of the cache there is a finite path of
  attached parents, \<open>findAncestor\<close> returns the nearest block on it that satisfies the predicate and is
  not below the minimum height asked for, and \<open>getOldestAncestorInCache\<close> its last block.\<close>

lemma findAncestor_nearest:
  assumes "components_return comps B" "0 \<le> depth" "\<forall>b\<in>set bs. names B b \<and> 0 \<le> number b" "links B"
    "add_blocks (processNewBlock comps) bs (empty_cache depth) = Some (Inr (), c)" "att c h \<noteq> None"
  shows "\<exists>hs. ancestry_path B c (h # hs) \<and>
    (\<forall>P m. findAncestor c h (\<lambda>b. Inr (P b)) m = Some (Inr (find P (takeWhile (\<lambda>b. m \<le> number b) (map B (h # hs)))))) \<and>
    (att c h = Some True \<longrightarrow> getOldestAncestorInCache c h = Some (Inr (B (last (h # hs)))))"
proof -
  note inv = reached_run_inv [OF assms(1-3,5)]
  note rep = run_inv_rep [OF inv]
  from ancestry_path_exists [OF rep assms(4,6)] obtain hs where path: "ancestry_path B c (h # hs)" by blast
  have find: "findAncestor c h (\<lambda>b. Inr (P b)) m = Some (Inr (find P (takeWhile (\<lambda>b. m \<le> number b) (map B (h # hs)))))" for P m
    unfolding findAncestor_path [OF rep path] find_result_total ..
  have "0 \<le> number (B x)" if "x \<in> set (h # hs)" for x
    using that assms(3) run_invD(4) [OF inv, of x] path_attached [OF path, of x] assms(6) by auto
  then have all: "takeWhile (\<lambda>b. 0 \<le> number b) (map B (h # hs)) = map B (h # hs)"
    by (intro takeWhile_eq_all_conv [THEN iffD2]) auto
  have "find (\<lambda>b. \<not> hasBlock c (parentHash b) False) (map B (h # hs)) = Some (last (map B (h # hs)))"
    by (rule find_last)
      (use path_parent [OF path] path_last [OF path] in \<open>auto simp: hasBlock_rep [OF rep] last_map simp flip: map_butlast split: if_splits\<close>)
  then have "getOldestAncestorInCache c h = Some (Inr (B (last (h # hs))))" if "att c h = Some True"
    using that unfolding getOldestAncestorInCache_def find all by (simp add: hasBlock_rep [OF rep] last_map)
  with path find show ?thesis by blast
qed

text \<open>\<open>getConfirmations\<close> counts: it is 1 for a transaction in the head, one more for every block on top of
  the nearest ancestor that has the transaction, and 0 when no ancestor in the cache has it.\<close>

lemma getConfirmations_counts:
  assumes "components_return comps B" "0 \<le> depth" "\<forall>b\<in>set bs. names B b \<and> 0 \<le> number b" "links B"
    "add_blocks (processNewBlock comps) bs (empty_cache depth) = Some (Inr (), c)" "att c h \<noteq> None"
  shows "\<exists>hs. ancestry_path B c (h # hs) \<and>
    getConfirmations c h tx = Some (Inr (findIndex (\<lambda>b. tx \<in> set (transactionHashes b)) (map B (h # hs)) + 1))"
proof -
  note inv = reached_run_inv [OF assms(1-3,5)]
  note rep = run_inv_rep [OF inv]
  from ancestry_path_exists [OF rep assms(4,6)] obtain hs where path: "ancestry_path B c (h # hs)" by blast
  let ?P = "\<lambda>b. tx \<in> set (transactionHashes b)" and ?bs = "map B (h # hs)"
  have "0 \<le> number (B x)" if "x \<in> set (h # hs)" for x
    using that assms(3) run_invD(4) [OF inv, of x] path_attached [OF path, of x] assms(6) by auto
  then have all: "takeWhile (\<lambda>b. 0 \<le> number b) ?bs = ?bs"
    by (intro takeWhile_eq_all_conv [THEN iffD2]) auto
  have eq: "getConfirmations c h tx = Some (Inr (case find ?P ?bs of None \<Rightarrow> 0 | Some b \<Rightarrow> number (B h) - number b + 1))"
    using assms(6) unfolding getConfirmations_def findAncestor_path [OF rep path] all find_result_total
    by (simp add: getBlock_rep [OF rep])
  have "(case find ?P ?bs of None \<Rightarrow> 0 | Some b \<Rightarrow> number (B h) - number b + 1) = findIndex ?P ?bs + 1"
  proof (cases "findIndex ?P ?bs = -1")
    case True
    then have "find ?P ?bs = None" unfolding findIndex_none by (simp only: find_None_iff) blast
    with True show ?thesis by simp
  next
    case False
    then obtain k where k: "findIndex ?P ?bs = int k" "k < length ?bs" "?P (?bs ! k)" "\<And>j. j < k \<Longrightarrow> \<not> ?P (?bs ! j)"
      using findIndex_some by blast
    then have "find ?P ?bs = Some (?bs ! k)" by (auto simp only: find_Some_iff)
    moreover have "number (?bs ! k) = number (B h) - int k"
      using ancestry_path_number [OF rep assms(4) path, of k] k(2) by (simp only: nth_map length_map) simp
    ultimately show ?thesis by (simp only: k(1) option.case)
  qed
  with eq path show ?thesis by (intro exI [of _ hs]) simp
qed

end
