(* ===== verification/ResponderComponentProps.thy ===== *)
theory ResponderComponentProps
  imports ResponderComponent BlockCacheProps
begin

text \<open>
  The responder component: its reducers always return, the state it reduces block by block is the one it
  reads from the chain at once, and its actions are the transitions of that state.
\<close>

section \<open>The mined transaction on the ancestry\<close>

fun first_some :: "('b \<Rightarrow> 'r option) \<Rightarrow> 'b list \<Rightarrow> 'r option" where
  "first_some f [] = None"
| "first_some f (b # bs) = (case f b of Some r \<Rightarrow> Some r | None \<Rightarrow> first_some f bs)"

lemma first_some_None [simp]: "first_some f bs = None \<longleftrightarrow> (\<forall>b\<in>set bs. f b = None)"
  by (induction bs) (auto split: option.split)

lemma first_stop_some:
  "\<exists>found. first_stop (\<lambda>b. if number b < m then Inr (Some None) else Inr (map_option Some (f b))) bs = Inr found \<and>
     (case found of None \<Rightarrow> None | Some r \<Rightarrow> r) = first_some f (takeWhile (\<lambda>b. m \<le> number b) bs)"
proof (induction bs)
  case (Cons b bs)
  then show ?case by (cases "f b") auto
qed simp

lemma getMinedTransaction_path:
  assumes "rep_ok B c" "ancestry_path B c (h # hs)"
  shows "getMinedTransaction this c h i =
    Some (Inr (first_some (\<lambda>b. txIdentifierInBlock this b i)
                 (takeWhile (\<lambda>b. r_blockObserved this \<le> number b) (map B (h # hs)))))"
proof -
  obtain found where "first_stop (\<lambda>b. if number b < r_blockObserved this then Inr (Some None)
        else Inr (map_option Some (txIdentifierInBlock this b i))) (map B (h # hs)) = Inr found"
    "(case found of None \<Rightarrow> None | Some r \<Rightarrow> r) = first_some (\<lambda>b. txIdentifierInBlock this b i)
                 (takeWhile (\<lambda>b. r_blockObserved this \<le> number b) (map B (h # hs)))"
    using first_stop_some [of "r_blockObserved this" "\<lambda>b. txIdentifierInBlock this b i" "map B (h # hs)"] by blast
  then show ?thesis
    unfolding getMinedTransaction_def for_ancestry_path [OF assms] by simp
qed

abbreviation mined_on ::
  "ResponderAppointmentReducer \<Rightarrow> 'a Block_scheme list \<Rightarrow> (int option \<times> int) option" where
  "mined_on this bs \<equiv> first_some (\<lambda>b. txIdentifierInBlock this b (r_identifier this))
     (takeWhile (\<lambda>b. r_blockObserved this \<le> number b) bs)"

fun response_state :: "ResponderAppointmentReducer \<Rightarrow> (int option \<times> int) option \<Rightarrow> ResponderAppointmentAnchorState" where
  "response_state this (Some (b, n)) = Mined (r_appointmentId this) (r_identifier this) b n"
| "response_state this None = Pending (r_appointmentId this) (r_identifier this)"

lemma response_getInitialState_path:
  assumes "rep_ok B c" "ancestry_path B c (h # hs)"
  shows "response_getInitialState this c (B h) = Some (Inr (response_state this (mined_on this (map B (h # hs)))))"
proof -
  have h: "block_hash (B h) = h" using ancestry_path_real [OF assms] by (simp add: real_def)
  have state: "bind_run (Some (Inr m)) (\<lambda>minedTx. Some (Inr (case minedTx of
           Some (minedBlock, minedNonce) \<Rightarrow> Mined (r_appointmentId this) (r_identifier this) minedBlock minedNonce
         | None \<Rightarrow> Pending (r_appointmentId this) (r_identifier this)))) = Some (Inr (response_state this m))" for m
    by (cases m) auto
  show ?thesis
    unfolding response_getInitialState_def h getMinedTransaction_path [OF assms] by (rule state)
qed

section \<open>The reducers return\<close>

lemma response_reduce_returns: "\<exists>s'. response_reduce this s b = Some (Inr s')"
  by (cases s) (auto split: option.split)

lemma responder_reducer_returns:
  assumes "links B" "rep_ok B c" "att c h = Some True"
  shows "\<exists>s. getInitialState (responder_reducer this c) (B h) = Some (Inr s)"
    "\<exists>s'. reduce (responder_reducer this c) s (B h) = Some (Inr s')"
proof -
  obtain hs where path: "ancestry_path B c (h # hs)" using ancestry_path_exists [OF assms(2,1), of h] assms(3) by auto
  have base: "(\<exists>m. getInitialState (response_reducer r c) (B h) = Some (Inr m)) \<and>
      (\<forall>s. \<exists>m. reduce (response_reducer r c) s (B h) = Some (Inr m))" for r
    by (simp add: response_reducer_def response_getInitialState_path [OF assms(2) path] response_reduce_returns)
  show "\<exists>s. getInitialState (responder_reducer this c) (B h) = Some (Inr s)"
    "\<exists>s'. reduce (responder_reducer this c) s (B h) = Some (Inr s')"
    unfolding responder_reducer_def mapped_reducer_def StateReducer.simps
    by (intro mapped_returns; simp add: base BlockNumberReducer_def)+
qed

lemma responder_component_returns: "links B \<Longrightarrow> reducer_returns B (responder_component this)"
  by (simp add: reducer_returns_def responder_component_def responder_reducer_returns)

section \<open>Reading the chain at once or block by block\<close>

text \<open>What the chain gives: a transaction reports the number of its block, and the same one is not mined twice
  on one chain.\<close>

definition reports_block :: "ResponderAppointmentReducer \<Rightarrow> 'a Block_scheme \<Rightarrow> bool" where
  "reports_block this b \<longleftrightarrow>
     (\<forall>m n. txIdentifierInBlock this b (r_identifier this) = Some (m, n) \<longrightarrow> m = Some (number b))"

definition mined_in :: "ResponderAppointmentReducer \<Rightarrow> 'a Block_scheme \<Rightarrow> bool" where
  "mined_in this b \<longleftrightarrow> txIdentifierInBlock this b (r_identifier this) \<noteq> None"

lemma mined_on_None: "(\<And>b. b \<in> set bs \<Longrightarrow> \<not> mined_in this b) \<Longrightarrow> mined_on this bs = None"
  unfolding first_some_None mined_in_def by (blast dest: set_takeWhileD)

lemma response_reduce_state:
  assumes "reports_block this b" "r_blockObserved this \<le> number b"
    "mined_in this b \<Longrightarrow> mined_on this bs = None"
  shows "response_reduce this (response_state this (mined_on this bs)) b =
    Some (Inr (response_state this (mined_on this (b # bs))))"
proof (cases "txIdentifierInBlock this b (r_identifier this)")
  case None
  then show ?thesis using assms(2) by (cases "mined_on this bs") (auto simp del: first_some_None)
next
  case (Some mn)
  obtain n where n: "mn = (Some (number b), n)" using assms(1) Some by (cases mn) (auto simp: reports_block_def)
  have "mined_on this bs = None" using assms(3) Some by (simp only: mined_in_def) simp
  then show ?thesis using Some assms(2) by (simp only: n response_state.simps response_reduce.simps) simp
qed

lemma path_suffix: "ancestry_path B c (xs @ p # hs) \<Longrightarrow> ancestry_path B c (p # hs)"
proof (induction xs)
  case (Cons x xs)
  then show ?case by (cases xs) auto
qed simp

lemma path_numbers_down:
  assumes "rep_ok B c" "links B" "ancestry_path B c (h # hs)" "x \<in> set hs"
  shows "number (B x) < number (B h)"
proof -
  from assms(4) obtain i where "i < length hs" "x = hs ! i" by (auto simp: in_set_conv_nth)
  with ancestry_path_number [OF assms(1-3), of "Suc i"] show ?thesis by simp
qed

lemma reduced_state_path:
  assumes rep: "rep_ok B c" "links B" and path: "ancestry_path B c (new @ p # old)"
    and new: "\<And>x. x \<in> set new \<Longrightarrow> r_blockObserved this \<le> number (B x) \<and> reports_block this (B x)"
    and once: "\<And>x y. x \<in> set (new @ p # old) \<Longrightarrow> y \<in> set (new @ p # old) \<Longrightarrow>
      mined_in this (B x) \<Longrightarrow> mined_in this (B y) \<Longrightarrow> x = y"
  shows "reduce_chain (response_reducer this c) (response_state this (mined_on this (map B (p # old)))) (map B (rev new)) =
    Some (Inr (response_state this (mined_on this (map B (new @ p # old)))))"
  using path new once
proof (induction new)
  case (Cons h new)
  have tail: "ancestry_path B c (h # (new @ p # old))" using Cons.prems(1) by simp
  then have "ancestry_path B c (new @ p # old)" by (cases new) auto
  then have IH: "reduce_chain (response_reducer this c) (response_state this (mined_on this (map B (p # old)))) (map B (rev new)) =
    Some (Inr (response_state this (mined_on this (map B (new @ p # old)))))"
  proof (rule Cons.IH)
    show "r_blockObserved this \<le> number (B x) \<and> reports_block this (B x)" if "x \<in> set new" for x
      by (rule Cons.prems(2)) (simp add: that)
    show "x = y" if "x \<in> set (new @ p # old)" "y \<in> set (new @ p # old)" "mined_in this (B x)" "mined_in this (B y)" for x y
      by (rule Cons.prems(3) [OF _ _ that(3,4)]) (use that in simp_all)
  qed
  have older: "\<not> mined_in this (B x)" if "mined_in this (B h)" "x \<in> set (new @ p # old)" for x
  proof
    assume "mined_in this (B x)"
    with Cons.prems(3) [of h x] that have "h = x" by simp
    with path_numbers_down [OF rep tail that(2)] show False by simp
  qed
  have "mined_on this (map B (new @ p # old)) = None" if "mined_in this (B h)"
  proof (rule mined_on_None)
    show "\<not> mined_in this b" if "b \<in> set (map B (new @ p # old))" for b
      using that older [OF \<open>mined_in this (B h)\<close>] unfolding set_map by blast
  qed
  with Cons.prems(2) [of h] have "response_reduce this (response_state this (mined_on this (map B (new @ p # old)))) (B h) =
      Some (Inr (response_state this (mined_on this (B h # map B (new @ p # old)))))"
    by (intro response_reduce_state) (simp_all only: list.set_intros)
  then have "reduce_chain (response_reducer this c) (response_state this (mined_on this (map B (new @ p # old)))) [B h] =
      Some (Inr (response_state this (mined_on this (map B ((h # new) @ p # old)))))"
    by (simp add: response_reducer_def)
  moreover have "map B (rev (h # new)) = map B (rev new) @ [B h]" by simp
  ultimately show ?case by (simp only: reduce_chain_append IH bind_run_simps)
qed simp

text \<open>C32: The state of a response that the machine reduces block by block is the state it would read from the
  chain at once: starting anywhere on the ancestry of a head and reducing up to it gives the initial
  state of the head, so a restart finds the responses as they were.  The chain must have mined the
  transaction at most once, and the reduced blocks must not be older than the observed one.\<close>

theorem responder_state_equivalence:
  assumes "rep_ok B c" "links B" "ancestry_path B c (new @ p # old)"
    and "\<And>x. x \<in> set new \<Longrightarrow> r_blockObserved this \<le> number (B x) \<and> reports_block this (B x)"
    and "\<And>x y. x \<in> set (new @ p # old) \<Longrightarrow> y \<in> set (new @ p # old) \<Longrightarrow>
      mined_in this (B x) \<Longrightarrow> mined_in this (B y) \<Longrightarrow> x = y"
  shows "bind_run (getInitialState (response_reducer this c) (B p))
      (\<lambda>s. reduce_chain (response_reducer this c) s (map B (rev new))) =
    getInitialState (response_reducer this c) (B (hd (new @ [p])))"
proof -
  obtain h hs where hs: "new @ p # old = h # hs" by (cases new) auto
  then have h: "hd (new @ [p]) = h" by (cases new) auto
  have path: "ancestry_path B c (h # hs)" using assms(3) hs by simp
  show ?thesis
    using reduced_state_path [OF assms]
    unfolding h by (simp only: response_reducer_def StateReducer.simps hs bind_run_simps
      response_getInitialState_path [OF assms(1) path_suffix [OF assms(3)]]
      response_getInitialState_path [OF assms(1) path])
qed

text \<open>A chain of three blocks, with the transaction in the middle one.\<close>

definition ex_identifier :: PisaTransactionIdentifier where
  "ex_identifier = \<lparr>id_chainId = 1, id_data = ''0xd'', id_to = ''0xc'', id_value = 0, id_gasLimit = 5\<rparr>"

definition ex_reducer :: ResponderAppointmentReducer where
  "ex_reducer = \<lparr>r_identifier = ex_identifier, r_appointmentId = ''id'', r_blockObserved = 6, r_address = ''0xA''\<rparr>"

definition ex_tx :: TransactionStub where
  "ex_tx = \<lparr>tx_blockNumber = Some 6, tx_nonce = 3, tx_to = Some ''0xC'', tx_from = ''0xa'', tx_chainId = 1,
            tx_data = ''0xd'', tx_value = 0, tx_gasLimit = 5\<rparr>"

definition ex_mined :: "string \<Rightarrow> Block" where
  "ex_mined h =
     (if h = ''a'' then ex_full_block ''a'' 6 ''g'' [] [ex_tx]
      else if h = ''b'' then ex_full_block ''b'' 7 ''a'' [] []
      else ex_full_block ''g'' 5 ''x'' [] [])"

theorem responder_state_equivalence_witness:
  "\<exists>c. add_blocks (processNewBlock ([] :: (Block, unit, unit) Component list)) (map ex_mined [''g'', ''a'', ''b'']) (empty_cache 10) = Some (Inr (), c) \<and>
     bind_run (getInitialState (response_reducer ex_reducer c) (ex_mined ''g''))
        (\<lambda>s. reduce_chain (response_reducer ex_reducer c) s (map ex_mined [''a'', ''b''])) =
       Some (Inr (Mined ''id'' ex_identifier (Some 6) 3))"
proof -
  have names: "\<forall>b\<in>set (map ex_mined [''g'', ''a'', ''b'']). names ex_mined b \<and> 0 \<le> number b"
    by (simp add: names_def ex_mined_def ex_full_block_def colon_free_def)
  obtain c where c: "add_blocks (processNewBlock ([] :: (Block, unit, unit) Component list)) (map ex_mined [''g'', ''a'', ''b'']) (empty_cache 10) = Some (Inr (), c)"
    "run_inv ex_mined (map ex_mined [''g'', ''a'', ''b'']) c"
    by (rule run_from_empty [OF no_components_return [of ex_mined] _ names, of 10]) simp_all
  have "map_option (\<lambda>(r, c). map (att c) [''g'', ''a'', ''b'', ''x''])
      (add_blocks (processNewBlock ([] :: (Block, unit, unit) Component list)) (map ex_mined [''g'', ''a'', ''b'']) (empty_cache 10)) =
      Some [Some True, Some True, Some True, None]" by code_simp
  with c(1) have v: "att c ''g'' = Some True" "att c ''a'' = Some True" "att c ''b'' = Some True" "att c ''x'' = None" by auto
  note rep = run_inv_rep [OF c(2)]
  have links: "links ex_mined" by (auto simp: links_def real_def ex_mined_def ex_full_block_def split: if_splits)
  have path: "ancestry_path ex_mined c ([''b'', ''a''] @ ''g'' # [])"
    by (simp add: ex_mined_def ex_full_block_def v)
  have lower: "toLowerCase ''0xC'' = ''0xc''" "toLowerCase ''0xc'' = ''0xc''" "toLowerCase ''0xA'' = ''0xa''" "toLowerCase ''0xa'' = ''0xa''"
    by code_simp+
  have mined: "txIdentifierInBlock ex_reducer (ex_mined h) ex_identifier = (if h = ''a'' then Some (Some 6, 3) else None)" for h
    by (simp add: txIdentifierInBlock_def ex_mined_def ex_full_block_def ex_reducer_def ex_tx_def equals_def
        tx_identifier_def ex_identifier_def lower)
  have "bind_run (getInitialState (response_reducer ex_reducer c) (ex_mined ''g''))
        (\<lambda>s. reduce_chain (response_reducer ex_reducer c) s (map ex_mined (rev [''b'', ''a'']))) =
      getInitialState (response_reducer ex_reducer c) (ex_mined (hd ([''b'', ''a''] @ [''g''])))"
  proof (rule responder_state_equivalence [OF rep links path])
    show "r_blockObserved ex_reducer \<le> number (ex_mined x) \<and> reports_block ex_reducer (ex_mined x)" if "x \<in> set [''b'', ''a'']" for x
      using that mined [of x]
      by (auto simp: reports_block_def) (auto simp: ex_reducer_def ex_mined_def ex_full_block_def)
    show "x = y" if "mined_in ex_reducer (ex_mined x)" "mined_in ex_reducer (ex_mined y)" for x y
      using that mined by (auto simp: mined_in_def ex_reducer_def split: if_splits)
  qed
  moreover have "getInitialState (response_reducer ex_reducer c) (ex_mined ''b'') = Some (Inr (Mined ''id'' ex_identifier (Some 6) 3))"
  proof -
    have num: "number (ex_mined ''b'') = 7" "number (ex_mined ''a'') = 6" "number (ex_mined ''g'') = 5"
      by (simp_all add: ex_mined_def ex_full_block_def)
    have fields: "r_identifier ex_reducer = ex_identifier" "r_appointmentId ex_reducer = ''id''" "r_blockObserved ex_reducer = 6"
      by (simp_all add: ex_reducer_def)
    have "mined_on ex_reducer (map ex_mined [''b'', ''a'', ''g'']) = Some (Some 6, 3)"
      by (simp add: num fields mined)
    with response_getInitialState_path [OF rep path [unfolded append_Cons append_Nil], of ex_reducer]
    show ?thesis by (simp only: response_reducer_def StateReducer.simps response_state.simps fields)
  qed
  ultimately show ?thesis using c(1) by auto
qed

end
