(* ===== verification/ResponderRuns.thy ===== *)
theory ResponderRuns
  imports MultiResponder
begin

text \<open>
  What the responder does over a run: the transactions it hands to the node for one nonce outbid each
  other, a reorganisation that drops mined transactions is undone by re-enqueueing them, and every
  handler's outcome on each of its branches.
\<close>

section \<open>The history of broadcasts\<close>

text \<open>A transaction at a used nonce raises the price by the replacement rate.\<close>

definition raises :: "int \<Rightarrow> TransactionRequest \<Rightarrow> TransactionRequest \<Rightarrow> bool" where
  "raises rr a b \<longleftrightarrow> tr_gasPrice a * (100 + rr) \<le> 100 * tr_gasPrice b"

text \<open>Every broadcast transaction is at a used nonce, and the item the queue has at that nonce, if any,
  is that transaction or outbids it.\<close>

definition dominated :: "GasQueue \<Rightarrow> TransactionRequest list \<Rightarrow> bool" where
  "dominated q txs \<longleftrightarrow>
     (\<forall>tx\<in>set txs. tr_nonce tx < emptyNonce q \<and>
        (\<forall>j\<in>set (queueItems q). nonce j = tr_nonce tx \<longrightarrow>
           toTransactionRequest j = tx \<or> raises (replacementRate q) tx (toTransactionRequest j)))"

definition outbidding :: "int \<Rightarrow> TransactionRequest list \<Rightarrow> bool" where
  "outbidding rr txs \<longleftrightarrow> sorted_wrt (\<lambda>a b. tr_nonce a = tr_nonce b \<longrightarrow> raises rr a b) txs"

definition history_ok :: "MultiResponder \<Rightarrow> bool" where
  "history_ok r \<longleftrightarrow> dominated (queue r) (sent r) \<and> outbidding (replacementRate (queue r)) (sent r)"

lemma tr_simps [simp]:
  "tr_nonce (toTransactionRequest i) = nonce i" "tr_gasPrice (toTransactionRequest i) = nonceGasPrice i"
  by (simp_all add: toTransactionRequest_def)

lemma raises_trans:
  assumes "raises rr a b" "raises rr b c" "0 \<le> rr" "0 \<le> tr_gasPrice b"
  shows "raises rr a c"
proof -
  have "tr_gasPrice b * 100 \<le> tr_gasPrice b * (100 + rr)" using assms(3,4) by (intro mult_left_mono) auto
  with assms(1,2) show ?thesis by (simp add: raises_def)
qed

lemma outbids_raises:
  "outbids rr i j \<longleftrightarrow> j = i \<or> raises rr (toTransactionRequest i) (toTransactionRequest j)"
  by (simp add: outbids_def raises_def)

lemma sorted_wrt_distinct_key: "sorted_wrt (\<lambda>a b. f a \<noteq> f b) xs \<longleftrightarrow> distinct (map f xs)"
  by (induction xs) (auto simp: image_iff)

lemma nonce_below: "gq_ok q \<Longrightarrow> i \<in> set (queueItems q) \<Longrightarrow> nonce i < emptyNonce q"
  using gq_invD(5) [OF gq_okD(1)] by (auto simp: in_set_conv_nth nonces_to_def)

lemma distinct_nonces: "gq_ok q \<Longrightarrow> distinct (map nonce (queueItems q))"
  using nonces_to_inj [OF gq_invD(5) [OF gq_okD(1)]] by (auto simp: distinct_conv_nth)

lemma same_nonce: "gq_ok q \<Longrightarrow> i \<in> set (queueItems q) \<Longrightarrow> j \<in> set (queueItems q) \<Longrightarrow> nonce i = nonce j \<Longrightarrow> i = j"
  by (rule same_nonce_same_item [OF gq_invD(5) [OF gq_okD(1)]])

text \<open>A transaction of the past and the item of the next queue at its nonce.\<close>

lemma past_raises:
  assumes q: "gq_ok q" "extends_pool q q'" and dom: "dominated q txs" and tx: "tx \<in> set txs"
    and j: "j \<in> set (queueItems q')" "nonce j = tr_nonce tx"
  shows "raises (replacementRate q) tx (toTransactionRequest j) \<or>
    toTransactionRequest j = tx \<and> j \<in> set (queueItems q)"
proof -
  let ?rr = "replacementRate q"
  have "tr_nonce tx < emptyNonce q" using dom tx by (simp add: dominated_def)
  with q(2) j obtain i where i: "i \<in> set (queueItems q)" "nonce i = nonce j" "outbids ?rr i j"
    by (auto simp: extends_pool_def)
  from dom tx i(1,2) j(2) have step: "toTransactionRequest i = tx \<or> raises ?rr tx (toTransactionRequest i)"
    by (simp add: dominated_def)
  have nn: "0 \<le> nonceGasPrice i" "0 \<le> ?rr"
    using gq_okD(2) [OF q(1)] i(1) gq_invD(1) [OF gq_okD(1) [OF q(1)]] by (auto simp: item_ok_def)
  show ?thesis
  proof (cases "j = i")
    case True
    with step i(1) show ?thesis by auto
  next
    case False
    with i(3) have "raises ?rr (toTransactionRequest i) (toTransactionRequest j)"
      by (simp add: outbids_raises)
    with step nn show ?thesis by (auto intro: raises_trans)
  qed
qed

lemma dominated_extends:
  assumes q: "gq_ok q" "gq_ok q'" "extends_pool q q'" and dom: "dominated q txs"
    and new: "set new \<subseteq> toTransactionRequest ` set (queueItems q')"
  shows "dominated q' (txs @ new)"
proof -
  have rr: "replacementRate q' = replacementRate q" "emptyNonce q \<le> emptyNonce q'"
    using q(3) by (auto simp: extends_pool_def)
  have "tr_nonce tx < emptyNonce q' \<and> (\<forall>j\<in>set (queueItems q'). nonce j = tr_nonce tx \<longrightarrow>
      toTransactionRequest j = tx \<or> raises (replacementRate q) tx (toTransactionRequest j))"
    if "tx \<in> set (txs @ new)" for tx
  proof (cases "tx \<in> set txs")
    case True
    with past_raises [OF q(1,3) dom True] dom rr show ?thesis by (auto simp: dominated_def)
  next
    case False
    with that new obtain i where i: "i \<in> set (queueItems q')" "tx = toTransactionRequest i" by auto
    with nonce_below [OF q(2)] same_nonce [OF q(2)] show ?thesis by auto
  qed
  then show ?thesis unfolding dominated_def rr by blast
qed

lemma outbidding_extends:
  assumes q: "gq_ok q" "gq_ok q'" "extends_pool q q'" and dom: "dominated q txs"
    and old: "outbidding (replacementRate q) txs"
  shows "outbidding (replacementRate q) (txs @ filter P (map toTransactionRequest (difference q' q)))"
proof -
  let ?new = "filter P (map toTransactionRequest (difference q' q))"
  have "distinct (map tr_nonce (map toTransactionRequest (difference q' q)))"
    using distinct_difference [where key = nonce, OF distinct_nonces [OF q(2)]] by (simp add: comp_def)
  then have "sorted_wrt (\<lambda>a b. tr_nonce a \<noteq> tr_nonce b) ?new"
    unfolding sorted_wrt_distinct_key by (rule distinct_map_filter)
  then have "outbidding (replacementRate q) ?new"
    unfolding outbidding_def by (rule sorted_wrt_mono_rel [rotated]) auto
  moreover have "raises (replacementRate q) a b"
    if "a \<in> set txs" "b \<in> set ?new" "tr_nonce a = tr_nonce b" for a b
  proof -
    from that(2) obtain j where "j \<in> set (queueItems q')" "j \<notin> set (queueItems q)" "b = toTransactionRequest j"
      by (auto simp: set_difference)
    with past_raises [OF q(1,3) dom that(1), of j] that(3) show ?thesis by auto
  qed
  ultimately show ?thesis using old by (simp add: outbidding_def sorted_wrt_append)
qed

lemma history_installed:
  assumes "gq_ok (queue r)" "gq_ok q'" "extends_pool (queue r) q'" "history_ok r"
  shows "history_ok (installed bn env r q')"
proof -
  have rr: "replacementRate q' = replacementRate (queue r)" using assms(3) by (simp add: extends_pool_def)
  have "set (filter (accepts env) (map toTransactionRequest (difference q' (queue r))))
      \<subseteq> toTransactionRequest ` set (queueItems q')" by (auto simp: set_difference)
  from dominated_extends [OF assms(1-3) _ this] outbidding_extends [OF assms(1-3)] assms(4)
  show ?thesis by (simp add: history_ok_def rr)
qed

text \<open>The calls of a chain that is not reorganised.\<close>

fun forward_response :: "ident_of_id \<Rightarrow> MultiResponder \<Rightarrow> responder_call \<Rightarrow> bool" where
  "forward_response F r (ReEnqueueMissingItems env ids) \<longleftrightarrow> False"
| "forward_response F r c \<longleftrightarrow> responder_call_ok F r c"

lemma forward_response_ok: "forward_response F r c \<Longrightarrow> responder_call_ok F r c"
  by (cases c) auto

lemma queue_removeResponse: "removeResponse ok s rid = Inr s' \<Longrightarrow> mQueue s' = mQueue s"
  by (auto simp: removeResponse_def split: if_splits)

text \<open>Each of them leaves the queue or installs the result of a forward call on it.\<close>

lemma forward_response_step:
  assumes ok: "responder_ok bn seed F r" and c: "forward_response F r c"
    and st: "responder_step bn r c = Inr r'"
  obtains "queue r' = queue r" "sent r' = sent r"
  | env q gc where "gq_step (queue r) gc = Inr q" "forward_call gc" "r' = installed bn env r q"
proof (cases c)
  case (StartResponse env to d g rid sb eb)
  with st startResponse_InrD [of bn env r to d g rid sb eb r'] consider "r' = r"
    | p q where "estimate env eb = Inr p"
        "add (queue r) (response_request (chainId r) to d g rid sb p) = Inr q" "r' = installed bn env r q"
    by auto
  then show thesis
  proof cases
    case 1 with that(1) show thesis by simp
  next
    case 2
    with c StartResponse that(2) [of "Add (response_request (chainId r) to d g rid sb p)" q env]
    show thesis by (auto simp: estimate_ok_def)
  qed
next
  case (TxMined env idn n)
  with st txMined_InrD [of bn env r idn n r'] consider "r' = r"
    | q where "dequeue (queue r) = Inr q" "r' = installed bn env r q"
    | q where "consume (queue r) idn = Inr q" "r' = installed bn env r q"
    by auto
  then show thesis
    using that(1) that(2) [of Dequeue _ env] that(2) [of "Consume idn" _ env] by cases auto
next
  case (EndResponse env rid)
  with st that(1) show thesis by (auto simp: endResponse_def result_simps queue_removeResponse)
qed (use c in simp)

lemma history_step:
  assumes ok: "responder_ok bn seed F r \<and> history_ok r" and c: "forward_response F r c"
    and st: "responder_step bn r c = Inr r'"
  shows "responder_ok bn seed F r' \<and> history_ok r'"
proof
  from ok have ok1: "responder_ok bn seed F r" by blast
  note q = responder_ok_queue [OF ok1]
  show "responder_ok bn seed F r'" by (rule responder_step_ok [OF ok1 forward_response_ok [OF c] st])
  from ok1 c st show "history_ok r'"
  proof (cases rule: forward_response_step)
    case 1 with ok show ?thesis by (simp add: history_ok_def)
  next
    case (2 env q' gc)
    then show ?thesis
      using history_installed [OF q _ forward_extends [OF q 2(2,1)]] ok
        gq_step_ok [OF q forward_call_ok [OF 2(2)] 2(1)] by simp
  qed
qed

interpretation hist: object_contract "responder_step bn" "\<lambda>r. responder_ok bn seed F r \<and> history_ok r"
  "forward_response F" for bn seed F
  by unfold_locales (rule history_step)

section \<open>Calls that are in order in every state\<close>

lemma responder_step_constants:
  assumes "responder_step bn r c = Inr r'"
  shows "chainId r' = chainId r \<and> queueKey (zStore r') = queueKey (zStore r)"
proof (cases c)
  case (StartResponse env to d g rid sb eb)
  with assms startResponse_InrD [of bn env r to d g rid sb eb r'] show ?thesis by auto
next
  case (TxMined env idn n)
  with assms txMined_InrD [of bn env r idn n r'] show ?thesis by auto
next
  case (ReEnqueueMissingItems env ids)
  with assms have "reEnqueueMissingItems bn env r ids = Inr r'" by simp
  then show ?thesis by (rule reEnqueueMissingItems_InrD) (auto simp: Let_def split: if_splits)
next
  case (EndResponse env rid)
  with assms show ?thesis by (auto simp: endResponse_def removeResponse_def result_simps split: if_splits)
qed

lemma run_constants:
  "chainId (run_ops (responder_step bn) r cs) = chainId r"
  "queueKey (zStore (run_ops (responder_step bn) r cs)) = queueKey (zStore r)"
  by (induction cs arbitrary: r) (auto split: sum.splits dest: responder_step_constants)

fun static_call :: "ident_of_id \<Rightarrow> int \<Rightarrow> string \<Rightarrow> responder_call \<Rightarrow> bool" where
  "static_call F cid qk (StartResponse env to d g rid sb eb) \<longleftrightarrow>
     estimate_ok env \<and> rid \<noteq> qk \<and> F rid = (cid, d, toLowerCase to, 0, g)"
| "static_call F cid qk (TxMined env idn n) \<longleftrightarrow> True"
| "static_call F cid qk c \<longleftrightarrow> False"

lemma static_calls_forward:
  assumes "\<forall>c\<in>set cs. static_call F (chainId r) (queueKey (zStore r)) c"
  shows "calls_ok (responder_step bn) (forward_response F) r cs"
  using assms
proof (induction cs arbitrary: r)
  case (Cons c cs)
  have "forward_response F r c" using Cons.prems by (cases c) auto
  moreover have "calls_ok (responder_step bn) (forward_response F) r cs" using Cons by simp
  moreover have "calls_ok (responder_step bn) (forward_response F) r' cs" if "responder_step bn r c = Inr r'" for r'
    using Cons responder_step_constants [OF that] by simp
  ultimately show ?case by (cases "responder_step bn r c") auto
qed simp

lemma forward_calls_ok:
  "calls_ok step (forward_response F) r cs \<Longrightarrow> calls_ok step (responder_call_ok F) r cs"
  by (erule calls_ok_mono) (rule forward_response_ok)

section \<open>Mined transactions and reorganisations\<close>

text \<open>A queue that only loses items is installed without a broadcast and without a change of the
  records.\<close>

lemma installed_shrink:
  assumes "set (queueItems q) \<subseteq> set (queueItems (queue r))"
  shows "mTransactions (zStore (installed bn env r q)) = mTransactions (zStore r)"
    "sent (installed bn env r q) = sent r"
proof -
  have d: "difference q (queue r) = []" using assms by (auto simp: difference_def filter_empty_conv)
  obtain s' where s': "updateQueue bn True (zStore r) q = Inr (s', [])"
    using updateQueue_written [of bn "zStore r" q] unfolding d by blast
  show "mTransactions (zStore (installed bn env r q)) = mTransactions (zStore r)"
    using updateQueue_InrD(5) [OF s'] by (simp add: installed_def s')
  show "sent (installed bn env r q) = sent r" by (simp add: d)
qed

lemma txMined_front:
  assumes ok: "responder_ok bn seed F r" and w: "write_ok env" and q: "queueItems (queue r) = i # rest"
  shows "txMined bn env r (ident i) (nonce i) = Inr (installed bn env r ((queue r)\<lparr>queueItems := rest\<rparr>))"
proof -
  have "dequeue (queue r) = Inr ((queue r)\<lparr>queueItems := rest\<rparr>)"
    using dequeue_eq(1) [OF gq_okD(1) [OF responder_ok_queue [OF ok]]] by (simp add: q)
  moreover have "contains (queue r) (ident i)" by (auto simp: contains_def q equals_canon)
  ultimately show ?thesis using w by (simp add: txMined_eq q equals_canon)
qed

abbreviation mined_calls :: "Env \<Rightarrow> GasQueueItem list \<Rightarrow> responder_call list" where
  "mined_calls env items \<equiv> map (\<lambda>i. TxMined env (ident i) (nonce i)) items"

lemma mined_run:
  assumes "responder_ok bn seed F r" "write_ok env"
    and "r1 = run_ops (responder_step bn) r (mined_calls env (take m (queueItems (queue r))))"
  shows "responder_ok bn seed F r1 \<and> queue r1 = (queue r)\<lparr>queueItems := drop m (queueItems (queue r))\<rparr> \<and>
    mTransactions (zStore r1) = mTransactions (zStore r) \<and> sent r1 = sent r"
  using assms(1,3)
proof (induction m arbitrary: r)
  case (Suc m)
  show ?case
  proof (cases "queueItems (queue r)")
    case (Cons i rest)
    let ?q = "(queue r)\<lparr>queueItems := rest\<rparr>" and ?r = "installed bn env r ((queue r)\<lparr>queueItems := rest\<rparr>)"
    note mined = txMined_front [OF Suc.prems(1) assms(2) Cons]
    have "responder_ok bn seed F ?r"
      using responder_step_ok [OF Suc.prems(1), of "TxMined env (ident i) (nonce i)" ?r] mined by simp
    moreover have "r1 = run_ops (responder_step bn) ?r (mined_calls env (take m (queueItems (queue ?r))))"
      using Suc.prems(2) by (simp add: Cons mined)
    ultimately show ?thesis
      using Suc.IH [of ?r] installed_shrink [where q = ?q and r = r and bn = bn and env = env] by (simp add: Cons) blast
  qed (use Suc.prems in simp)
qed simp

lemma prepend_cong_mset:
  assumes "mset xs = mset ys" "distinct (map nonce (xs @ queueItems q))"
  shows "prepend q xs = prepend q ys"
proof -
  have "inj_on nonce (set (xs @ queueItems q))" using assms(2) by (simp only: distinct_map)
  then have "sort_key nonce (xs @ queueItems q) = sort_key nonce (ys @ queueItems q)"
    using assms(1) by (intro sort_key_inj_key_eq) auto
  then show ?thesis by (simp add: prepend_def sort_by_nonce_def)
qed

text \<open>Of the pending responses, those whose transactions were mined are missing from the queue.\<close>

lemma contains_iff: "contains q idn \<longleftrightarrow> (\<exists>i\<in>set (queueItems q). canon (ident i) = canon idn)"
  by (auto simp: contains_def equals_canon)

lemma missing_are_mined:
  assumes q: "gq_ok q" and recs: "set records \<subseteq> set (queueItems q)" "distinct records"
    and mined: "set (take m (queueItems q)) \<subseteq> set records"
  shows "mset (filter (\<lambda>i. \<not> contains (q\<lparr>queueItems := drop m (queueItems q)\<rparr>) (ident i)) records) =
    mset (take m (queueItems q))"
proof -
  let ?items = "queueItems q"
  have inj: "i = j" if "i \<in> set ?items" "j \<in> set ?items" "canon (ident i) = canon (ident j)" for i j
    using that gq_invD(7) [OF gq_okD(1) [OF q]] by (auto simp: idents_distinct_def distinct_map inj_on_def)
  have dist: "distinct ?items"
    using gq_invD(7) [OF gq_okD(1) [OF q]] by (auto simp: idents_distinct_def distinct_map)
  have parts: "set ?items = set (take m ?items) \<union> set (drop m ?items)" "set (take m ?items) \<inter> set (drop m ?items) = {}"
    using dist by (metis append_take_drop_id set_append) (metis append_take_drop_id dist distinct_append)
  have "contains (q\<lparr>queueItems := drop m ?items\<rparr>) (ident i) \<longleftrightarrow> i \<in> set (drop m ?items)" if "i \<in> set records" for i
    using inj that recs(1) unfolding contains_iff by (simp, metis in_set_dropD subsetD)
  then have "set (filter (\<lambda>i. \<not> contains (q\<lparr>queueItems := drop m ?items\<rparr>) (ident i)) records) =
      set records - set (drop m ?items)" by auto
  also have "\<dots> = set (take m ?items)" using recs(1) mined parts by auto
  finally have "set (filter (\<lambda>i. \<not> contains (q\<lparr>queueItems := drop m ?items\<rparr>) (ident i)) records) = set (take m ?items)" .
  then show ?thesis
    using recs(2) dist by (metis distinct_filter distinct_take set_eq_iff_mset_eq_distinct)
qed

text \<open>The records of ids of queued items, and the missing ones among them.\<close>

lemma records_of_ids:
  assumes ok: "responder_ok bn seed F r"
    and r1: "queue r1 = (queue r)\<lparr>queueItems := drop m (queueItems (queue r))\<rparr>" "transactions r1 = transactions r"
    and ids: "distinct ids" "set ids \<subseteq> item_id ` set (queueItems (queue r))"
      "item_id ` set (take m (queueItems (queue r))) \<subseteq> set ids"
  obtains records where "map (transactions r1) ids = map Some records"
    "mset (filter (\<lambda>i. \<not> contains (queue r1) (ident i)) records) = mset (take m (queueItems (queue r)))"
proof -
  let ?items = "queueItems (queue r)" and ?rec = "\<lambda>k. the (transactions r k)"
  have rec: "transactions r (item_id i) = Some i" if "i \<in> set ?items" for i
    by (rule responder_ok_tracked [OF ok that])
  define records where "records = map ?rec ids"
  have "map (transactions r1) ids = map Some records"
    using ids(2) rec unfolding records_def r1(2) by auto
  moreover have "set records \<subseteq> set ?items" using ids(2) rec by (auto simp: records_def)
  moreover have "map item_id records = ids"
    unfolding records_def map_map by (rule map_idI) (use ids(2) rec in auto)
  then have "distinct records" using ids(1) by (metis distinct_map)
  moreover have "i \<in> set records" if "i \<in> set (take m ?items)" for i
  proof -
    have "item_id i \<in> set ids" using ids(3) that by auto
    then have "?rec (item_id i) \<in> set records" unfolding records_def by simp
    with rec [OF in_set_takeD [OF that]] show ?thesis by simp
  qed
  then have "set (take m ?items) \<subseteq> set records" ..
  ultimately show thesis
    using that missing_are_mined [OF responder_ok_queue [OF ok], of records m] unfolding r1(1) by blast
qed

text \<open>Installing a queue whose items are all on record changes no record.\<close>

lemma installed_transactions:
  assumes "queue_fits (zStore r1) q" "\<And>i. i \<in> set (queueItems q) \<Longrightarrow> transactions r1 (item_id i) = Some i"
  shows "transactions (installed bn env r1 q) = transactions r1"
proof
  fix k
  obtain s' where s': "updateQueue bn True (zStore r1) q = Inr (s', difference q (queue r1))"
    using updateQueue_written by blast
  show "transactions (installed bn env r1 q) k = transactions r1 k"
  proof (cases "find (\<lambda>d. item_id d = k) (difference q (queue r1))")
    case None
    then show ?thesis using updateQueue_lookup [OF assms(1) s', of k] by (simp add: installed_def s')
  next
    case (Some d)
    then have "d \<in> set (difference q (queue r1))" "item_id d = k"
      by (auto simp: find_Some_iff)
    then have "transactions r1 k = Some d" using assms(2) by (auto simp: set_difference)
    then show ?thesis using Some updateQueue_lookup [OF assms(1) s', of k] by (simp add: installed_def s')
  qed
qed

lemma reorg_restores:
  assumes ok: "responder_ok bn seed F r" and w: "write_ok env"
    and r1: "r1 = run_ops (responder_step bn) r (mined_calls env (take m (queueItems (queue r))))"
    and ids: "distinct ids" "set ids \<subseteq> item_id ` set (queueItems (queue r))"
      "item_id ` set (take m (queueItems (queue r))) \<subseteq> set ids"
  shows "\<exists>r2. reEnqueueMissingItems bn env r1 ids = Inr r2 \<and> queue r2 = queue r \<and>
    transactions r2 = transactions r"
proof -
  let ?items = "queueItems (queue r)"
  note q = responder_ok_queue [OF ok]
  from mined_run [OF ok w r1] have
    R1: "responder_ok bn seed F r1" "queue r1 = (queue r)\<lparr>queueItems := drop m ?items\<rparr>"
      "transactions r1 = transactions r" by auto
  obtain records where recs: "map (transactions r1) ids = map Some records"
    "mset (filter (\<lambda>i. \<not> contains (queue r1) (ident i)) records) = mset (take m ?items)"
    by (rule records_of_ids [OF ok R1(2,3) ids])
  let ?missing = "filter (\<lambda>i. \<not> contains (queue r1) (ident i)) records"
  have "distinct (map nonce (?missing @ queueItems (queue r1)))"
  proof -
    have "mset (map nonce (?missing @ queueItems (queue r1))) = mset (map nonce (take m ?items @ drop m ?items))"
      using recs(2) by (simp add: R1(2) del: append_take_drop_id)
    then show ?thesis using distinct_nonces [OF q] by (metis append_take_drop_id mset_eq_imp_distinct_iff)
  qed
  from prepend_cong_mset [OF recs(2) this] have pre: "prepend (queue r1) ?missing = Inr (queue r)"
    unfolding R1(2) by (simp add: prepend_taken [OF q])
  have out: "reEnqueueMissingItems bn env r1 ids = Inr (if ?missing = [] then r1 else installed bn env r1 (queue r))"
    using recs(1) pending_records [of _ "transactions r1" ids records] w pre
    by (simp add: reEnqueueMissingItems_def commit_broadcast)
  show ?thesis
  proof (cases "?missing = []")
    case True
    then have "take m ?items = []" using recs(2) by simp
    then have "drop m ?items = ?items" by (metis append_Nil append_take_drop_id)
    then have "queue r1 = queue r" by (simp add: R1(2))
    with out True R1(3) show ?thesis by simp
  next
    case False
    have "queue_fits (zStore r1) (queue r)"
      using queue_fitsI [OF q, of F "zStore r1"] responder_ok_requests [OF ok]
      by (simp add: r1 run_constants)
    from installed_transactions [OF this] responder_ok_tracked [OF ok] R1(3)
    have "transactions (installed bn env r1 (queue r)) = transactions r" by simp
    with out False show ?thesis by simp
  qed
qed

end
