(* ===== verification/ResponderProps.thy ===== *)
theory ResponderProps
  imports ResponderRuns
begin

text \<open>
  The properties of the responder, each with an instance on a responder that serves a short run.
\<close>

section \<open>Helpers\<close>

lemma responder_ok_start:
  assumes "gq_ok seed" "queueItems seed = []"
  shows "responder_ok bn seed F \<lparr>chainId = cid, zStore = new_ResponderStore [] address seed, sent = []\<rparr>"
  using new_ResponderStore_ok [OF assms] by (simp add: responder_ok_def) (simp add: new_ResponderStore_def)

lemma history_ok_start: "sent r = [] \<Longrightarrow> history_ok r"
  by (simp add: history_ok_def dominated_def outbidding_def)

text \<open>The queue holds an added request, and the responder a record of it.\<close>

lemma add_tracked:
  assumes ok: "responder_ok bn seed F r" and ok': "responder_ok bn seed F (installed bn env r q)"
    and a: "add (queue r) req = Inr q" "0 \<le> req_idealGasPrice req"
  shows "\<exists>i\<in>set (queueItems q). request i = req \<and>
    transactions (installed bn env r q) (req_id req) = Some i"
proof -
  have "req \<in> set (requests q)"
    using add_requests [OF responder_ok_queue [OF ok] a(2,1)] by simp
  then obtain i where i: "i \<in> set (queueItems q)" "request i = req" by (auto simp: set_requests)
  with responder_ok_tracked [OF ok', of i] show ?thesis by auto
qed

lemma remove_nth_notin: "distinct xs \<Longrightarrow> k < length xs \<Longrightarrow> xs ! k \<notin> set (remove_nth k xs)"
  unfolding remove_nth_def using id_take_nth_drop [of k xs]
  by (metis Un_iff distinct.simps(2) distinct_append disjoint_iff list.set_intros(1) set_append)

lemma consume_update:
  assumes "gq_ok q" "0 < k" "k < length (queueItems q)" "equals idn (ident (queueItems q ! k))"
  shows "consume q idn = Inr (q\<lparr>queueItems := consume_items q k\<rparr>)"
  using consume_eq [OF gq_okD(1) [OF assms(1)] gq_okD(2) [OF assms(1)] assms(2-4)]
  by (simp add: GasQueue.equality)

lemma remove_nth_set: "distinct xs \<Longrightarrow> k < length xs \<Longrightarrow> set (remove_nth k xs) = set xs - {xs ! k}"
  using remove_nth_notin [of xs k] id_take_nth_drop [of k xs]
  by (metis (no_types, lifting) Diff_insert_absorb Un_insert_right list.simps(15) remove_nth_def set_append)

text \<open>What \<open>txMined\<close> installs for the transaction at index \<open>k\<close> of the queue.\<close>

lemma txMined_at:
  assumes ok: "responder_ok bn seed F r" and w: "write_ok env"
    and k: "k < length (queueItems (queue r))" "equals idn (ident (queueItems (queue r) ! k))"
    and n: "nonce (queueItems (queue r) ! 0) = n"
  shows "\<exists>q. txMined bn env r idn n = Inr (installed bn env r q) \<and> gq_ok q \<and>
    requests q = remove_nth k (requests (queue r)) \<and> emptyNonce q = emptyNonce (queue r) \<and>
    (if k = 0 then q = (queue r)\<lparr>queueItems := drop 1 (queueItems (queue r))\<rparr> else consume (queue r) idn = Inr q)"
proof -
  let ?items = "queueItems (queue r)"
  note gq = responder_ok_queue [OF ok] and inv = gq_okD(1) [OF responder_ok_queue [OF ok]]
  have c: "contains (queue r) idn" using k by (auto simp: contains_iff equals_canon)
  have inj: "i = k" if "i < length ?items" "equals idn (ident (?items ! i))" for i
    using that k gq_invD(7) [OF inv] by (auto simp: idents_distinct_def distinct_conv_nth equals_canon)
  show ?thesis
  proof (cases "k = 0")
    case True
    let ?q = "(queue r)\<lparr>queueItems := drop 1 ?items\<rparr>"
    have d: "dequeue (queue r) = Inr ?q" using k(1) dequeue_eq(1) [OF inv] by auto
    then have "txMined bn env r idn n = Inr (installed bn env r ?q)" using k n c True w by (auto simp: txMined_eq)
    with True gq_step_ok [OF gq, of Dequeue ?q] d show ?thesis
      by (auto simp: requests_def remove_nth_def drop_Suc map_tl)
  next
    case False
    let ?q = "(queue r)\<lparr>queueItems := consume_items (queue r) k\<rparr>"
    have d: "consume (queue r) idn = Inr ?q" using consume_update [OF gq _ k] False by simp
    have "?items \<noteq> []" using k(1) by auto
    then have "\<not> equals idn (ident (?items ! 0))" using inj [of 0] False by auto
    then have "txMined bn env r idn n = Inr (installed bn env r ?q)" using k n c False w d by (auto simp: txMined_eq)
    with False d gq_step_ok [OF gq, of "Consume idn" ?q] requests_consume_items [OF k(1)] show ?thesis
      by (auto simp: requests_def)
  qed
qed

section \<open>An example run\<close>

definition ex_F :: ident_of_id where
  "ex_F k = (1, k, ''0x'', 0, 100)"

definition ex_env :: "int \<Rightarrow> Env" where
  "ex_env p = \<lparr>estimate = (\<lambda>endBlock. Inr p), write_ok = True, accepts = (\<lambda>tx. True), balance = Inr 0, balanceThreshold = 0\<rparr>"

definition ex_responder :: MultiResponder where
  "ex_responder = \<lparr>chainId = 1, zStore = new_ResponderStore [] ''0x1'' ex_seed, sent = []\<rparr>"

abbreviation ex_start :: "string \<Rightarrow> int \<Rightarrow> responder_call" where
  "ex_start d p \<equiv> StartResponse (ex_env p) ''0x'' d 100 d 1 10"

abbreviation ex_id :: "string \<Rightarrow> PisaTransactionIdentifier" where
  "ex_id d \<equiv> \<lparr>id_chainId = 1, id_data = d, id_to = ''0x'', id_value = 0, id_gasLimit = 100\<rparr>"

lemma ex_responder_ok: "responder_ok bn ex_seed ex_F ex_responder"
  unfolding ex_responder_def by (rule responder_ok_start [OF ex_seed_ok])

lemma ex_responder_simps [simp]:
  "chainId ex_responder = 1" "queueKey (zStore ex_responder) = ''0x1:queue''"
  "sent ex_responder = []" "queue ex_responder = ex_seed" "mTransactions (zStore ex_responder) = []"
  by (simp_all add: ex_responder_def new_ResponderStore_def)

lemma ex_start_static:
  "d \<noteq> ''0x1:queue'' \<Longrightarrow> 0 \<le> p \<Longrightarrow> static_call ex_F 1 ''0x1:queue'' (ex_start d p)"
  by (simp add: estimate_ok_def ex_env_def ex_F_def toLowerCase_def lower_char_def)

abbreviation ex_calls :: "responder_call list" where
  "ex_calls \<equiv> [ex_start ''a'' 30, ex_start ''b'' 20]"

lemma ex_calls_ok:
  "calls_ok (responder_step bn) (forward_response ex_F) ex_responder ex_calls"
  by (rule static_calls_forward) (simp add: ex_start_static del: static_call.simps)

definition ex_running :: MultiResponder where
  "ex_running = run_ops (responder_step unary_codec) ex_responder ex_calls"

lemma ex_running_constants: "chainId ex_running = 1" "queueKey (zStore ex_running) = ''0x1:queue''"
  unfolding ex_running_def run_constants by simp_all

lemma ex_running_ok: "responder_ok unary_codec ex_seed ex_F ex_running"
  unfolding ex_running_def
  by (rule resp.run_inv [OF ex_responder_ok forward_calls_ok [OF ex_calls_ok]])

text \<open>What the run leaves in the queue.\<close>

lemma run_start:
  assumes "responder_ok bn seed F r" "\<not> depthReached (queue r)" "0 \<le> p"
    and "\<not> contains (queue r) (ex_id d)" "chainId r = 1"
  shows "queue (case startResponse bn (ex_env p) r ''0x'' d 100 d 1 10 of Inl e \<Rightarrow> r | Inr r' \<Rightarrow> r') =
    \<lparr>queueItems = add_items (queue r) (response_request 1 ''0x'' d 100 d 1 p),
     emptyNonce = emptyNonce (queue r) + 1, replacementRate = replacementRate (queue r),
     maxQueueDepth = maxQueueDepth (queue r)\<rparr>"
  using assms add_eq [OF gq_okD(1) [OF responder_ok_queue [OF assms(1)]]
      gq_okD(2) [OF responder_ok_queue [OF assms(1)]], of "response_request 1 ''0x'' d 100 d 1 p"]
  by (simp add: startResponse_eq ex_env_def)

abbreviation ex_pending :: "string \<Rightarrow> int \<Rightarrow> int \<Rightarrow> GasQueueItem" where
  "ex_pending d p n \<equiv> \<lparr>request = response_request 1 ''0x'' d 100 d 1 p, nonceGasPrice = p, idealGasPrice = p, nonce = n\<rparr>"

lemma run_start_sent:
  assumes "responder_ok bn seed F r" "\<not> depthReached (queue r)" "0 \<le> p"
    and "\<not> contains (queue r) (ex_id d)" "chainId r = 1"
  shows "sent (case startResponse bn (ex_env p) r ''0x'' d 100 d 1 10 of Inl e \<Rightarrow> r | Inr r' \<Rightarrow> r') =
    sent r @ map toTransactionRequest
      (filter (\<lambda>i. i \<notin> set (queueItems (queue r))) (add_items (queue r) (response_request 1 ''0x'' d 100 d 1 p)))"
  using assms add_eq [OF gq_okD(1) [OF responder_ok_queue [OF assms(1)]]
      gq_okD(2) [OF responder_ok_queue [OF assms(1)]], of "response_request 1 ''0x'' d 100 d 1 p"]
  by (simp add: startResponse_eq ex_env_def difference_def)

lemma ex_running_queue_sent:
  "queue ex_running = \<lparr>queueItems = [ex_pending ''a'' 30 5, ex_pending ''b'' 20 6],
     emptyNonce = 7, replacementRate = 12, maxQueueDepth = 13\<rparr> \<and>
   sent ex_running = [toTransactionRequest (ex_pending ''a'' 30 5), toTransactionRequest (ex_pending ''b'' 20 6)]"
proof -
  let ?step = "\<lambda>r d p. case startResponse unary_codec (ex_env p) r ''0x'' d 100 d 1 10 of Inl e \<Rightarrow> r | Inr r' \<Rightarrow> r'"
  let ?r1 = "?step ex_responder ''a'' 30"
  have r1: "?r1 = run_ops (responder_step unary_codec) ex_responder [ex_start ''a'' 30]"
    by simp
  have ok1: "responder_ok unary_codec ex_seed ex_F ?r1" unfolding r1
    by (rule resp.run_inv [OF ex_responder_ok], rule forward_calls_ok, rule static_calls_forward)
       (simp add: ex_start_static del: static_call.simps)
  have c1: "chainId ?r1 = 1" unfolding r1 run_constants by simp
  note start = run_start [OF ex_responder_ok] run_start_sent [OF ex_responder_ok]
  note eval = depthReached_def contains_def equals_def add_items_def insert_request_def requests_def
    reassign_def fresh_def
  have q1: "queue ?r1 = \<lparr>queueItems = [ex_pending ''a'' 30 5], emptyNonce = 6, replacementRate = 12, maxQueueDepth = 13\<rparr>"
    by (subst start(1)) (simp_all add: ex_seed_def eval)
  have s1: "sent ?r1 = [toTransactionRequest (ex_pending ''a'' 30 5)]"
    by (subst start(2)) (simp_all add: ex_seed_def eval)
  have "queue (?step ?r1 ''b'' 20) = \<lparr>queueItems = [ex_pending ''a'' 30 5, ex_pending ''b'' 20 6],
     emptyNonce = 7, replacementRate = 12, maxQueueDepth = 13\<rparr>"
    by (subst run_start [OF ok1]) (simp_all add: q1 c1 eval)
  moreover have "sent (?step ?r1 ''b'' 20) = [toTransactionRequest (ex_pending ''a'' 30 5), toTransactionRequest (ex_pending ''b'' 20 6)]"
    by (subst run_start_sent [OF ok1]) (simp_all add: q1 c1 s1 eval)
  ultimately show ?thesis by (simp add: ex_running_def)
qed

lemmas ex_running_queue = ex_running_queue_sent [THEN conjunct1]
lemmas ex_running_sent = ex_running_queue_sent [THEN conjunct2]

section \<open>Properties\<close>

text \<open>C14: \<open>startResponse\<close> on every branch.  A full queue, an estimator that throws whatever it throws (the
  gas price estimator never throws the queue's own error of a known transaction) and a failed write leave
  the responder as it is, and the caller is not told; a transaction that is already in the queue is the
  one error that reaches the caller.  Otherwise the request is in the queue and on record
  under its id, and what changed in the queue is broadcast.\<close>

theorem startResponse_outcome:
  assumes ok: "responder_ok bn seed F r"
    and call: "responder_call_ok F r (StartResponse env to d g rid sb eb)"
  defines "req \<equiv> \<lambda>p. response_request (chainId r) to d g rid sb p"
    and "result \<equiv> startResponse bn env r to d g rid sb eb"
  shows "(depthReached (queue r) \<longrightarrow> result = Inr r) \<and>
    (\<forall>e. \<not> depthReached (queue r) \<and> estimate env eb = Inl e \<and> (\<forall>m. e \<noteq> GasQueueError AlreadyAdded m) \<longrightarrow> result = Inr r) \<and>
    (\<forall>p. \<not> depthReached (queue r) \<and> estimate env eb = Inr p \<longrightarrow>
       (if contains (queue r) (req_identifier (req p))
        then result = Inl (PublicInspectionError ''Appointment already being responded to.'')
        else if \<not> write_ok env then result = Inr r
        else \<exists>q' r'. add (queue r) (req p) = Inr q' \<and> result = Inr r' \<and> queue r' = q' \<and>
          (\<exists>i\<in>set (queueItems q'). request i = req p \<and> transactions r' rid = Some i) \<and>
          sent r' = sent r @ filter (accepts env) (map toTransactionRequest (difference q' (queue r)))))"
proof (intro conjI allI impI)
  show "result = Inr r" if "depthReached (queue r)"
    using that by (simp add: result_def startResponse_eq)
  show "result = Inr r"
    if "\<not> depthReached (queue r) \<and> estimate env eb = Inl e \<and> (\<forall>m. e \<noteq> GasQueueError AlreadyAdded m)" for e
    using that by (auto simp: result_def startResponse_eq split: app_error.split GasQueueErrorKind.split)
  fix p assume p: "\<not> depthReached (queue r) \<and> estimate env eb = Inr p"
  have nn: "0 \<le> req_idealGasPrice (req p)" using call p by (auto simp: estimate_ok_def req_def)
  note add = add_eq [OF gq_okD(1) [OF responder_ok_queue [OF ok]] gq_okD(2) [OF responder_ok_queue [OF ok]] nn]
  show "if contains (queue r) (req_identifier (req p))
    then result = Inl (PublicInspectionError ''Appointment already being responded to.'')
    else if \<not> write_ok env then result = Inr r
    else \<exists>q' r'. add (queue r) (req p) = Inr q' \<and> result = Inr r' \<and> queue r' = q' \<and>
      (\<exists>i\<in>set (queueItems q'). request i = req p \<and> transactions r' rid = Some i) \<and>
      sent r' = sent r @ filter (accepts env) (map toTransactionRequest (difference q' (queue r)))"
  proof (cases "contains (queue r) (req_identifier (req p)) \<or> \<not> write_ok env")
    case True
    then show ?thesis using p add by (auto simp: result_def startResponse_eq req_def)
  next
    case False
    then obtain q' where q': "add (queue r) (req p) = Inr q'" using p add by auto
    with p False have res: "result = Inr (installed bn env r q')"
      by (simp add: result_def startResponse_eq req_def)
    then have "responder_ok bn seed F (installed bn env r q')"
      using responder_step_ok [OF ok call] by (simp add: result_def)
    from add_tracked [OF ok this q' nn] False q' res show ?thesis by (auto simp: req_def)
  qed
qed

theorem startResponse_outcome_witness:
  "startResponse unary_codec (ex_env 40) ex_running ''0x'' ''a'' 100 ''a'' 1 10 =
      Inl (PublicInspectionError ''Appointment already being responded to.'') \<and>
   (\<exists>r'. startResponse unary_codec (ex_env 40) ex_running ''0x'' ''c'' 100 ''c'' 1 10 = Inr r' \<and>
      (\<exists>i\<in>set (queueItems (queue r')). transactions r' ''c'' = Some i))"
proof -
  have c: "responder_call_ok ex_F ex_running (ex_start d 40)" if "d \<noteq> ''0x1:queue''" for d
    using ex_start_static [OF that, of 40] ex_running_constants by simp
  have q: "\<not> depthReached (queue ex_running)" "estimate (ex_env 40) 10 = Inr 40" "write_ok (ex_env 40)"
    "contains (queue ex_running) (ex_id ''a'')" "\<not> contains (queue ex_running) (ex_id ''c'')" "chainId ex_running = 1"
    by (simp_all add: ex_running_queue depthReached_def ex_env_def contains_def equals_def ex_running_constants)
  from startResponse_outcome [OF ex_running_ok c, of "''a''"] startResponse_outcome [OF ex_running_ok c, of "''c''"] q
  show ?thesis by (auto simp: Let_def)
qed

text \<open>C15: \<open>txMined\<close> on every branch.  A transaction that is not in the queue, a nonce that is not
  the front's and a failed write change nothing.  The transaction at the front leaves the queue and
  nothing is broadcast; one behind the front leaves the queue, the requests in front of it move up one
  nonce, and what changed is broadcast.  Records are kept either way.\<close>

theorem txMined_outcome:
  assumes ok: "responder_ok bn seed F r"
  shows "(queueItems (queue r) = [] \<or> \<not> contains (queue r) idn \<or>
       nonce (queueItems (queue r) ! 0) \<noteq> n \<or> \<not> write_ok env \<longrightarrow> txMined bn env r idn n = Inr r) \<and>
    (\<forall>k<length (queueItems (queue r)).
       write_ok env \<and> equals idn (ident (queueItems (queue r) ! k)) \<and> nonce (queueItems (queue r) ! 0) = n \<longrightarrow>
       (\<exists>r'. txMined bn env r idn n = Inr r' \<and>
          requests (queue r') = remove_nth k (requests (queue r)) \<and>
          emptyNonce (queue r') = emptyNonce (queue r) \<and>
          (if k = 0 then queueItems (queue r') = tl (queueItems (queue r)) \<and> sent r' = sent r \<and>
             transactions r' = transactions r
           else consume (queue r) idn = Inr (queue r') \<and>
             sent r' = sent r @ filter (accepts env) (map toTransactionRequest (difference (queue r') (queue r))))))"
proof (intro conjI allI impI)
  assume "queueItems (queue r) = [] \<or> \<not> contains (queue r) idn \<or>
    nonce (queueItems (queue r) ! 0) \<noteq> n \<or> \<not> write_ok env"
  then show "txMined bn env r idn n = Inr r" by (simp only: txMined_eq if_True)
next
  fix k assume k: "k < length (queueItems (queue r))"
    and a: "write_ok env \<and> equals idn (ident (queueItems (queue r) ! k)) \<and> nonce (queueItems (queue r) ! 0) = n"
  from txMined_at [OF ok, of env k idn n] k a obtain q where
    q: "txMined bn env r idn n = Inr (installed bn env r q)" "requests q = remove_nth k (requests (queue r))"
      "emptyNonce q = emptyNonce (queue r)"
      "if k = 0 then q = (queue r)\<lparr>queueItems := drop 1 (queueItems (queue r))\<rparr> else consume (queue r) idn = Inr q"
    by blast
  have shrunk: "sent (installed bn env r q) = sent r \<and> transactions (installed bn env r q) = transactions r" if "k = 0"
    using that q(4) installed_shrink [of q r bn env] set_drop_subset [of 1 "queueItems (queue r)"] by simp
  show "\<exists>r'. txMined bn env r idn n = Inr r' \<and> requests (queue r') = remove_nth k (requests (queue r)) \<and>
    emptyNonce (queue r') = emptyNonce (queue r) \<and>
    (if k = 0 then queueItems (queue r') = tl (queueItems (queue r)) \<and> sent r' = sent r \<and> transactions r' = transactions r
     else consume (queue r) idn = Inr (queue r') \<and>
       sent r' = sent r @ filter (accepts env) (map toTransactionRequest (difference (queue r') (queue r))))"
    using q shrunk by (intro exI [of _ "installed bn env r q"]) (auto simp: drop_Suc)
qed

theorem txMined_outcome_witness:
  "\<exists>r'. txMined unary_codec (ex_env 0) ex_running (ex_id ''b'') 5 = Inr r' \<and>
     requests (queue r') = [response_request 1 ''0x'' ''a'' 100 ''a'' 1 30] \<and> emptyNonce (queue r') = 7"
proof -
  have k: "1 < length (queueItems (queue ex_running))"
    "write_ok (ex_env 0) \<and> equals (ex_id ''b'') (ident (queueItems (queue ex_running) ! 1)) \<and>
     nonce (queueItems (queue ex_running) ! 0) = 5"
    by (simp_all add: ex_running_queue equals_def ex_env_def)
  have "remove_nth 1 (requests (queue ex_running)) = [response_request 1 ''0x'' ''a'' 100 ''a'' 1 30]"
    "emptyNonce (queue ex_running) = 7"
    by (simp_all add: ex_running_queue requests_def remove_nth_def)
  with txMined_outcome [OF ex_running_ok, of "ex_id ''b''" 5 "ex_env 0"] k show ?thesis by metis
qed

text \<open>C11: Through any run of the handlers, those that throw or swallow an error included, the
  responder stays consistent: a well-formed queue, every queued transaction on record under its id, and
  a database that holds what is in memory.  The callers must keep to \<open>responder_call_ok\<close>: an id, which is not
  the key of the queue, always stands for one transaction, the estimator returns no negative price, and a
  response is ended only when its transaction is not in the queue.\<close>

theorem responder_stays_consistent:
  assumes "gq_ok seed" "queueItems seed = []"
    and "r = \<lparr>chainId = cid, zStore = new_ResponderStore [] address seed, sent = []\<rparr>"
    and "calls_ok (responder_step bn) (responder_call_ok F) r calls"
  shows "store_ok bn seed (zStore (run_ops (responder_step bn) r calls))"
proof -
  have "responder_ok bn seed F r" unfolding assms(3) by (rule responder_ok_start [OF assms(1,2)])
  from resp.run_inv [OF this assms(4)] show ?thesis by (rule responder_ok_store)
qed

theorem responder_stays_consistent_witness:
  "store_ok unary_codec ex_seed (zStore (run_ops (responder_step unary_codec) ex_responder ex_calls))"
  by (rule responder_stays_consistent [OF ex_seed_ok ex_responder_def forward_calls_ok [OF ex_calls_ok]])

text \<open>Without the first of these promises the property fails: two transactions under one id are both queued, and
  only the second is on record.  Two relay requests with the same id and nonce do this.\<close>

lemma same_id_off_record:
  "let r = run_ops (responder_step unary_codec) ex_responder
       [StartResponse (ex_env 30) ''0x'' ''a'' 100 ''id'' 1 10, StartResponse (ex_env 20) ''0x'' ''b'' 100 ''id'' 1 10]
   in map (\<lambda>i. id_data (ident i)) (queueItems (queue r)) = [''a'', ''b''] \<and>
      map_option (\<lambda>i. id_data (ident i)) (transactions r ''id'') = Some ''b'' \<and> length (mTransactions (zStore r)) = 1"
  by code_simp

text \<open>C7: The node sees a nonce reused only at a higher price: over any run without re-enqueueing, a
  transaction that was broadcast after another with the same nonce offers a gas price higher by at
  least the replacement rate.\<close>

theorem broadcasts_outbid:
  assumes "gq_ok seed" "queueItems seed = []"
    and "r = \<lparr>chainId = cid, zStore = new_ResponderStore [] address seed, sent = []\<rparr>"
    and "calls_ok (responder_step bn) (forward_response F) r calls"
    and "txs = sent (run_ops (responder_step bn) r calls)" "i < j" "j < length txs"
    and "tr_nonce (txs ! i) = tr_nonce (txs ! j)"
  shows "tr_gasPrice (txs ! i) * (100 + replacementRate (queue (run_ops (responder_step bn) r calls)))
    \<le> 100 * tr_gasPrice (txs ! j)"
proof -
  have "responder_ok bn seed F r \<and> history_ok r"
    unfolding assms(3) by (simp add: responder_ok_start [OF assms(1,2)] history_ok_start)
  from hist.run_inv [OF this assms(4)]
  have "outbidding (replacementRate (queue (run_ops (responder_step bn) r calls))) txs"
    by (simp add: history_ok_def assms(5))
  with assms(6-8) show ?thesis by (auto simp: outbidding_def sorted_wrt_iff_nth_less raises_def)
qed

theorem broadcasts_outbid_witness:
  "\<exists>txs. txs = sent (run_ops (responder_step unary_codec) ex_responder (ex_calls @ [ex_start ''c'' 25])) \<and>
     tr_nonce (txs ! 1) = tr_nonce (txs ! 2) \<and> 100 * tr_gasPrice (txs ! 2) \<ge> tr_gasPrice (txs ! 1) * 112"
proof -
  let ?calls = "ex_calls @ [ex_start ''c'' 25]"
  let ?r = "run_ops (responder_step unary_codec) ex_responder ?calls"
  have ok: "calls_ok (responder_step unary_codec) (forward_response ex_F) ex_responder ?calls"
    by (rule static_calls_forward) (simp add: ex_start_static del: static_call.simps)
  have last: "?r = (case startResponse unary_codec (ex_env 25) ex_running ''0x'' ''c'' 100 ''c'' 1 10 of
      Inl e \<Rightarrow> ex_running | Inr r' \<Rightarrow> r')"
    unfolding run_ops_append ex_running_def [symmetric] by simp
  have free: "\<not> depthReached (queue ex_running)" "\<not> contains (queue ex_running) (ex_id ''c'')"
    by (simp_all add: ex_running_queue depthReached_def contains_def equals_def)
  have sent: "sent ?r = sent ex_running @ [toTransactionRequest \<lparr>request = response_request 1 ''0x'' ''c'' 100 ''c'' 1 25,
      nonceGasPrice = 25, idealGasPrice = 25, nonce = 6\<rparr>, toTransactionRequest (ex_pending ''b'' 20 7)]"
    unfolding last run_start_sent [OF ex_running_ok free(1) _ free(2) ex_running_constants(1), of 25, simplified]
    by (simp add: ex_running_queue add_items_def insert_request_def requests_def reassign_def fresh_def
        bump_def getReplacementGasPrice_def bn_div_def)
  have rate: "replacementRate (queue ?r) = 12"
    unfolding last run_start [OF ex_running_ok free(1) _ free(2) ex_running_constants(1), of 25, simplified]
    by (simp add: ex_running_queue)
  have len: "1 < (2::nat)" "2 < length (sent ?r)" "tr_nonce (sent ?r ! 1) = tr_nonce (sent ?r ! 2)"
    unfolding sent ex_running_sent by simp_all
  from broadcasts_outbid [OF ex_seed_ok ex_responder_def ok refl len] len(3) show ?thesis
    unfolding rate by auto
qed

text \<open>C10: A reorganisation is undone: after any number of transactions were mined from the front and
  then dropped, re-enqueueing the pending responses, in any order, restores the queue and the
  records.\<close>

theorem reorg_roundtrip:
  assumes "responder_ok bn seed F r" "write_ok env"
    and "r1 = run_ops (responder_step bn) r (mined_calls env (take m (queueItems (queue r))))"
    and "distinct ids" "set ids \<subseteq> item_id ` set (queueItems (queue r))"
    and "item_id ` set (take m (queueItems (queue r))) \<subseteq> set ids"
  shows "\<exists>r2. reEnqueueMissingItems bn env r1 ids = Inr r2 \<and> queue r2 = queue r \<and>
    transactions r2 = transactions r"
  using assms by (rule reorg_restores)

theorem reorg_roundtrip_witness:
  "\<exists>r1 r2. r1 = run_ops (responder_step unary_codec) ex_running
       [TxMined (ex_env 0) (ex_id ''a'') 5, TxMined (ex_env 0) (ex_id ''b'') 6] \<and>
     reEnqueueMissingItems unary_codec (ex_env 0) r1 [''b'', ''a''] = Inr r2 \<and> queue r2 = queue ex_running"
proof -
  have w: "write_ok (ex_env 0)" by (simp add: ex_env_def)
  have m: "mined_calls (ex_env 0) (take 2 (queueItems (queue ex_running))) =
      [TxMined (ex_env 0) (ex_id ''a'') 5, TxMined (ex_env 0) (ex_id ''b'') 6]"
    by (simp add: ex_running_queue)
  from reorg_roundtrip [OF ex_running_ok w refl, of "[''b'', ''a'']" 2] show ?thesis
    unfolding m by (auto simp: ex_running_queue)
qed

text \<open>When an item behind the front is consumed, its identifier leaves the queue and its record stays.\<close>

lemma consumed_gone:
  assumes ok: "responder_ok bn seed F r" and k: "k < length (queueItems (queue r))"
    and rq: "rq \<in> set (map request (consume_items (queue r) k))"
  shows "rq \<in> set (requests (queue r))" "canon (req_identifier rq) \<noteq> canon (ident (queueItems (queue r) ! k))"
proof -
  have rest: "map request (consume_items (queue r) k) = remove_nth k (requests (queue r))"
    by (rule requests_consume_items [OF k])
  show "rq \<in> set (requests (queue r))" using rq set_remove_nth unfolding rest by (rule subsetD [rotated])
  have dist: "distinct (map (\<lambda>rq. canon (req_identifier rq)) (requests (queue r)))"
    using gq_invD(7) [OF gq_okD(1) [OF responder_ok_queue [OF ok]]] by (simp only: idents_distinct_requests requests_def)
  have "canon (req_identifier rq) \<in> set (remove_nth k (map (\<lambda>rq. canon (req_identifier rq)) (requests (queue r))))"
    using rq unfolding rest map_remove_nth [symmetric] by simp
  moreover have "canon (ident (queueItems (queue r) ! k)) = map (\<lambda>rq. canon (req_identifier rq)) (requests (queue r)) ! k"
    using k by (simp add: requests_nth)
  ultimately show "canon (req_identifier rq) \<noteq> canon (ident (queueItems (queue r) ! k))"
    using remove_nth_notin [OF dist, of k] k by auto
qed

lemma consumed_record:
  assumes ok: "responder_ok bn seed F r" and k: "k < length (queueItems (queue r))"
    and q: "q = (queue r)\<lparr>queueItems := consume_items (queue r) k\<rparr>" "gq_ok q"
  shows "transactions (installed bn env r q) (item_id (queueItems (queue r) ! k)) = Some (queueItems (queue r) ! k)"
proof -
  let ?i = "queueItems (queue r) ! k"
  have i: "?i \<in> set (queueItems (queue r))" using k by simp
  have set_q: "set (requests q) = set (map request (consume_items (queue r) k))" by (simp add: q(1) requests_def)
  have gone: "rq \<in> set (requests (queue r))" "canon (req_identifier rq) \<noteq> canon (ident ?i)" if "rq \<in> set (requests q)" for rq
    using consumed_gone [OF ok k] that unfolding set_q by blast+
  have fits: "queue_fits (zStore r) q"
    by (rule queue_fitsI [OF q(2)]) (rule responder_ok_requests [OF ok gone(1)])
  obtain s' where s': "updateQueue bn True (zStore r) q = Inr (s', difference q (queue r))"
    using updateQueue_written by blast
  have "item_id j \<noteq> item_id ?i" if "j \<in> set (queueItems q)" for j
  proof -
    have "request j \<in> set (requests q)" using that by (simp add: set_requests)
    with gone [of "request j"] responder_ok_requests [OF ok, of "request j"] responder_ok_requests [OF ok, of "request ?i"] i
    show ?thesis by (auto simp: req_fits_def set_requests)
  qed
  then have "find (\<lambda>d. item_id d = item_id ?i) (difference q (queue r)) = None"
    by (auto simp: find_None_iff set_difference)
  then show ?thesis
    using updateQueue_lookup [OF fits s', of "item_id ?i"] responder_ok_tracked [OF ok i]
    by (simp add: installed_def s')
qed

text \<open>C16: A transaction that was mined from behind the front cannot be put back by a reorganisation:
  re-enqueueing its response throws, since its record keeps a nonce that another transaction of the
  queue has taken over.\<close>

theorem early_mined_response_is_lost:
  assumes ok: "responder_ok bn seed F r" and w: "write_ok env"
    and k: "0 < k" "k < length (queueItems (queue r))"
    and mined: "txMined bn env r (ident (queueItems (queue r) ! k)) (nonce (queueItems (queue r) ! 0)) = Inr r1"
  shows "\<exists>e. reEnqueueMissingItems bn env' r1 [item_id (queueItems (queue r) ! k)] = Inl e"
proof -
  let ?i = "queueItems (queue r) ! k"
  have e: "equals (ident ?i) (ident ?i)" by (simp add: equals_canon)
  have "canon (ident ?i) \<noteq> canon (ident (queueItems (queue r) ! 0))"
  proof -
    have "distinct (map (\<lambda>i. canon (ident i)) (queueItems (queue r)))"
      using gq_invD(7) [OF gq_okD(1) [OF responder_ok_queue [OF ok]]] by (simp add: idents_distinct_def)
    from distinct_conv_nth [THEN iffD1, OF this, rule_format, of k 0] k less_trans [OF k] show ?thesis by simp
  qed
  then have front: "\<not> equals (ident ?i) (ident (queueItems (queue r) ! 0))" by (simp add: equals_canon)
  have c: "contains (queue r) (ident ?i)" using k by (auto simp: contains_iff)
  let ?q = "(queue r)\<lparr>queueItems := consume_items (queue r) k\<rparr>"
  have q: "consume (queue r) (ident ?i) = Inr ?q" by (rule consume_update [OF responder_ok_queue [OF ok] k e])
  have r1: "r1 = installed bn env r ?q"
    using mined k front c w q by (auto simp: txMined_eq split: if_splits)
  have "gq_ok ?q" using gq_step_ok [OF responder_ok_queue [OF ok], of "Consume (ident ?i)" ?q] q by simp
  then have "transactions r1 (item_id ?i) = Some ?i" unfolding r1 by (rule consumed_record [OF ok k(2) refl])
  moreover have "\<not> contains (queue r1) (ident ?i)"
    using consumed_gone(2) [OF ok k(2)] by (auto simp: r1 contains_iff)
  moreover obtain e where "prepend ?q [?i] = Inl e"
    using consumed_item_cannot_be_prepended [OF responder_ok_queue [OF ok] k e q] by blast
  ultimately show ?thesis by (simp add: reEnqueueMissingItems_def r1)
qed

theorem early_mined_response_is_lost_witness:
  "\<exists>r1 e. txMined unary_codec (ex_env 0) ex_running (ex_id ''b'') 5 = Inr r1 \<and>
     reEnqueueMissingItems unary_codec (ex_env 0) r1 [''b''] = Inl e"
proof -
  have k: "(0::nat) < 1" "1 < length (queueItems (queue ex_running))" "write_ok (ex_env 0)"
    "ident (queueItems (queue ex_running) ! 1) = ex_id ''b''" "nonce (queueItems (queue ex_running) ! 0) = 5"
    "item_id (queueItems (queue ex_running) ! 1) = ''b''"
    by (simp_all add: ex_running_queue ex_env_def)
  obtain r1 where r1: "txMined unary_codec (ex_env 0) ex_running (ex_id ''b'') 5 = Inr r1"
    using k(3) consume_update [OF responder_ok_queue [OF ex_running_ok] k(1,2), of "ex_id ''b''"]
    by (simp add: txMined_eq ex_running_queue equals_def contains_def)
  from early_mined_response_is_lost [OF ex_running_ok k(3) k(1,2), of r1] r1 show ?thesis
    unfolding k(4-6) by blast
qed

end
