(* ===== verification/ResponderChain.thy ===== *)
theory ResponderChain
  imports ResponderComponentProps ResponderProps
begin

text \<open>
  The responder and its component on a chain of heads: when mined transactions are reported in the order
  of their nonces, the queue holds exactly the responses the chain has not mined, through reorganisations
  and with new responses in between.  Two ways in which the component reports them in another order, or
  not at all, and the queue is then stuck, unless a later reorganisation drops what is mined.
\<close>

section \<open>The transactions of a queue\<close>

definition queued :: "MultiResponder \<Rightarrow> (int \<times> string \<times> string \<times> int \<times> int) set" where
  "queued r = (\<lambda>i. canon (ident i)) ` set (queueItems (queue r))"

lemma contains_queued: "contains (queue r) idn \<longleftrightarrow> canon idn \<in> queued r"
  by (force simp: contains_iff queued_def)

lemma queued_requests: "queued r = (\<lambda>rq. canon (req_identifier rq)) ` set (requests (queue r))"
  by (simp add: queued_def set_requests image_image)

lemma canon_record: "responder_ok bn seed F r \<Longrightarrow> transactions r k = Some i \<Longrightarrow> canon (ident i) = F k"
  using responder_ok_record [of bn seed F r k i] by (simp add: req_fits_def)

lemma queued_ids:
  assumes "responder_ok bn seed F r"
  shows "item_id ` set (queueItems (queue r)) \<subseteq> dom (transactions r)"
    "i \<in> set (queueItems (queue r)) \<Longrightarrow> F (item_id i) \<in> queued r"
  using responder_ok_tracked [OF assms] canon_record [OF assms] by (blast, force simp: queued_def)

lemma grown_dom: "D' = D \<union> A \<Longrightarrow> B - A \<subseteq> C \<Longrightarrow> A \<subseteq> B \<Longrightarrow> C \<subseteq> D \<Longrightarrow> D' = D \<union> B" for D :: "'a set"
  by blast

text \<open>Which records a responder has after a queue was installed.\<close>

lemma dom_fold_update:
  "dom (map_of (fold (\<lambda>x. AList.update (key x) x) xs m)) = dom (map_of m) \<union> key ` set xs"
  by (induction xs arbitrary: m) auto

lemma installed_dom:
  assumes "responder_ok bn seed F r"
  shows "dom (transactions (installed bn env r q)) = dom (transactions r) \<union> item_id ` set (queueItems q)"
proof -
  obtain s' where s': "updateQueue bn True (zStore r) q = Inr (s', difference q (queue r))"
    using updateQueue_written by blast
  have "dom (transactions (installed bn env r q)) = dom (transactions r) \<union> item_id ` set (difference q (queue r))"
    using updateQueue_InrD(5) [OF s'] by (simp add: installed_def s' dom_fold_update)
  moreover have "item_id ` set (queueItems q) - item_id ` set (difference q (queue r)) \<subseteq> item_id ` set (queueItems (queue r))"
    "item_id ` set (difference q (queue r)) \<subseteq> item_id ` set (queueItems q)"
    by (auto simp: set_difference)
  ultimately show ?thesis using queued_ids(1) [OF assms] by (rule grown_dom)
qed

section \<open>What a handler does to them\<close>

lemma startResponse_queued:
  assumes ok: "responder_ok bn seed F r" and c: "responder_call_ok F r (responder_call.StartResponse env to d g rid sb eb)"
    and st: "startResponse bn env r to d g rid sb eb = Inr r'"
  shows "r' = r \<or> queued r' = insert (F rid) (queued r) \<and> dom (transactions r') = insert rid (dom (transactions r))"
proof -
  from startResponse_InrD [OF st] consider "r' = r"
    | p q where "estimate env eb = Inr p"
        "add (queue r) (response_request (chainId r) to d g rid sb p) = Inr q" "r' = installed bn env r q"
    by auto
  then show ?thesis
  proof cases
    case 2
    let ?rq = "response_request (chainId r) to d g rid sb p"
    have nn: "0 \<le> req_idealGasPrice ?rq" using c 2(1) by (simp add: estimate_ok_def)
    note q = add_requests [OF responder_ok_queue [OF ok] nn 2(2)]
    have "canon (req_identifier ?rq) = F rid" using c by (simp add: canon_def)
    then have "queued r' = insert (F rid) (queued r)" by (simp add: queued_requests 2(3) q)
    moreover have "dom (transactions r') = dom (transactions r) \<union> item_id ` set (queueItems q)"
      unfolding 2(3) by (rule installed_dom [OF ok])
    moreover have "item_id ` set (queueItems q) = insert rid (item_id ` set (queueItems (queue r)))"
    proof -
      have "item_id ` set (queueItems q) = req_id ` set (requests q)" by (simp add: set_requests image_image)
      then show ?thesis by (simp add: q) (simp add: set_requests image_image)
    qed
    ultimately have "dom (transactions r') = insert rid (dom (transactions r))"
      using queued_ids(1) [OF ok] by (simp only: Un_insert_right sup.absorb1)
    with \<open>queued r' = _\<close> show ?thesis by (intro disjI2 conjI)
  qed simp
qed

lemma reEnqueueMissingItems_queued:
  assumes ok: "responder_ok bn seed F r" and st: "reEnqueueMissingItems bn env r ids = Inr r'"
  shows "queued r' = queued r \<union> F ` set ids \<and> set ids \<subseteq> dom (transactions r) \<and>
    dom (transactions r') = dom (transactions r)"
proof -
  obtain records where rec: "map (transactions r) ids = map Some records" and
    out: "let missing = filter (\<lambda>i. \<not> contains (queue r) (ident i)) records in
     if missing = [] then r' = r
     else \<exists>q. prepend (queue r) missing = Inr q \<and> r' = installed bn env r q"
    using st by (rule reEnqueueMissingItems_InrD)
  let ?missing = "filter (\<lambda>i. \<not> contains (queue r) (ident i)) records"
  have ids: "set ids \<subseteq> dom (transactions r)"
  proof
    fix k assume "k \<in> set ids"
    then have "transactions r k \<in> set (map Some records)" unfolding rec [symmetric] by simp
    then show "k \<in> dom (transactions r)" by auto
  qed
  have rcd: "\<exists>k\<in>set ids. transactions r k = Some i" if "i \<in> set records" for i
  proof -
    from that have "Some i \<in> set (map (transactions r) ids)" by (simp add: rec)
    then show ?thesis by auto
  qed
  have "(\<lambda>i. canon (ident i)) ` set records = F ` set ids"
  proof -
    have "canon (ident i) \<in> F ` set ids" if "i \<in> set records" for i
      using rcd [OF that] canon_record [OF ok] by force
    moreover have "F k \<in> (\<lambda>i. canon (ident i)) ` set records" if "k \<in> set ids" for k
    proof -
      from that have "transactions r k \<in> set (map Some records)" unfolding rec [symmetric] by simp
      then obtain i where "i \<in> set records" "transactions r k = Some i" by auto
      with canon_record [OF ok this(2)] show ?thesis by force
    qed
    ultimately show ?thesis by auto
  qed
  then have all: "queued r \<union> F ` set ids = queued r \<union> (\<lambda>i. canon (ident i)) ` set ?missing"
    by (fastforce simp: contains_queued)
  from out consider "r' = r" "?missing = []" | q where "prepend (queue r) ?missing = Inr q" "r' = installed bn env r q"
    by (auto simp: Let_def split: if_splits)
  then show ?thesis
  proof cases
    case 1
    then show ?thesis using all ids by simp
  next
    case 2
    have items: "items_ok ?missing" using rcd responder_ok_record(2) [OF ok] by auto
    note q = prepend_requests [OF responder_ok_queue [OF ok] items 2(1)]
    have "queued r' = queued r \<union> (\<lambda>i. canon (ident i)) ` set ?missing"
      by (auto simp: queued_requests 2(2) q) (auto simp: set_requests)
    moreover have "dom (transactions r') = dom (transactions r) \<union> item_id ` set (queueItems q)"
      unfolding 2(2) by (rule installed_dom [OF ok])
    moreover have "item_id ` set (queueItems q) = item_id ` set (?missing @ queueItems (queue r))"
    proof -
      have "item_id ` set (queueItems q) = req_id ` set (requests q)" by (simp add: set_requests image_image)
      then show ?thesis by (simp add: q image_image image_Un)
    qed
    moreover have "item_id ` set records \<subseteq> dom (transactions r)"
      using rcd responder_ok_record(3) [OF ok] by blast
    then have "item_id ` set (?missing @ queueItems (queue r)) \<subseteq> dom (transactions r)" using queued_ids(1) [OF ok] by auto
    ultimately have "dom (transactions r') = dom (transactions r)" by (simp only: sup.absorb1)
    with all ids \<open>queued r' = _\<close> show ?thesis by (intro conjI) simp_all
  qed
qed

text \<open>The promise of the callers of \<open>txMined\<close>: the nonce is the one at the front.\<close>

lemma txMined_queued:
  assumes ok: "responder_ok bn seed F r" and w: "write_ok env"
    and front: "contains (queue r) idn \<Longrightarrow> nonce (hd (queueItems (queue r))) = n"
  shows "\<exists>r'. txMined bn env r idn n = Inr r' \<and> queued r' = queued r - {canon idn} \<and>
    dom (transactions r') = dom (transactions r)"
proof (cases "contains (queue r) idn")
  case False
  then have "txMined bn env r idn n = Inr r" by (simp add: txMined_eq)
  with False show ?thesis by (auto simp: contains_queued)
next
  case True
  let ?items = "queueItems (queue r)" and ?canon = "\<lambda>rq. canon (req_identifier rq)"
  note gq = responder_ok_queue [OF ok]
  from True obtain k where k: "k < length ?items" "equals idn (ident (?items ! k))"
    by (auto simp: contains_def equals_sym in_set_conv_nth)
  have "nonce (?items ! 0) = n" using front [OF True] k(1) by (metis hd_conv_nth length_0_conv not_less_zero)
  from txMined_at [OF ok w k(1,2) this] obtain q where
    q: "txMined bn env r idn n = Inr (installed bn env r q)" "gq_ok q" "requests q = remove_nth k (requests (queue r))"
    by blast
  have dist: "distinct (map ?canon (requests (queue r)))"
    using gq_invD(7) [OF gq_okD(1) [OF gq]] by (simp only: idents_distinct_requests requests_def)
  have "canon idn = map ?canon (requests (queue r)) ! k" using k by (simp add: requests_nth equals_canon)
  then have "?canon ` set (requests q) = ?canon ` set (requests (queue r)) - {canon idn}"
    using remove_nth_set [OF dist, of k] k(1) by (simp add: q(3) map_remove_nth flip: set_map)
  then have "queued (installed bn env r q) = queued r - {canon idn}" by (simp add: queued_requests)
  moreover have sub: "set (requests q) \<subseteq> set (requests (queue r))" unfolding q(3) by (rule set_remove_nth)
  have "dom (transactions (installed bn env r q)) = dom (transactions r) \<union> item_id ` set (queueItems q)"
    by (rule installed_dom [OF ok])
  moreover have "item_id ` set (queueItems q) \<subseteq> item_id ` set ?items"
    using image_mono [OF sub, of req_id] by (simp add: set_requests image_image)
  ultimately have "dom (transactions (installed bn env r q)) = dom (transactions r)"
    using queued_ids(1) [OF ok] by (simp only: sup.absorb1)
  with q(1) \<open>queued (installed bn env r q) = _\<close> show ?thesis by simp
qed

lemma endResponse_queued:
  assumes "write_ok env" shows "\<exists>r'. endResponse env r k = Inr r' \<and> queue r' = queue r \<and> queued r' = queued r \<and>
    dom (transactions r') = dom (transactions r) - {k}"
  using assms by (auto simp: endResponse_def removeResponse_def queued_def)

section \<open>The actions of a head\<close>

text \<open>The machine runs the actions of a head without waiting for them, but each of them but the check of the
  balance takes the lock of the responder, which is fair: they are applied one after the other.  One that
  throws is logged.\<close>

definition apply_actions :: "BigNumberCodec \<Rightarrow> Env \<Rightarrow> ResponderAction list \<Rightarrow> MultiResponder \<Rightarrow> MultiResponder" where
  "apply_actions bn env as responder = run_ops (\<lambda>r a. responder_applyAction bn env a r) responder as"

text \<open>The records of the responses that are not in the queue.\<close>

definition missing_items :: "MultiResponder \<Rightarrow> string list \<Rightarrow> GasQueueItem list" where
  "missing_items r ids = filter (\<lambda>i. \<not> contains (queue r) (ident i)) (map (\<lambda>k. the (transactions r k)) ids)"

text \<open>Items that a queue has room for and whose nonces are the ones right below it.\<close>

definition right_below :: "GasQueue \<Rightarrow> GasQueueItem list \<Rightarrow> bool" where
  "right_below q lower \<longleftrightarrow> nonces_to (sort_by_nonce (lower @ queueItems q)) (emptyNonce q) \<and>
     int (length lower + length (queueItems q)) \<le> maxQueueDepth q"

text \<open>The nonces the chain reports: a transaction that is in the queue is mined with the nonce at the front, as
  \<open>txMined\<close> expects of its callers, and what a reorganisation drops are the transactions that were mined last, right
  below the queue.\<close>

fun action_in_order :: "MultiResponder \<Rightarrow> ResponderAction \<Rightarrow> bool" where
  "action_in_order r (ResponderAction.ReEnqueueMissingItems ids) \<longleftrightarrow>
     missing_items r ids = [] \<or> right_below (queue r) (missing_items r ids)"
| "action_in_order r (ResponderAction.TxMined idn n) \<longleftrightarrow>
     (contains (queue r) idn \<longrightarrow> nonce (hd (queueItems (queue r))) = n)"
| "action_in_order r _ \<longleftrightarrow> True"

definition actions_in_order :: "BigNumberCodec \<Rightarrow> Env \<Rightarrow> MultiResponder \<Rightarrow> ResponderAction list \<Rightarrow> bool" where
  "actions_in_order bn env = calls_ok (\<lambda>r a. responder_applyAction bn env a r) action_in_order"

text \<open>Then re-enqueueing does not throw.\<close>

lemma reEnqueue_returns:
  assumes ok: "responder_ok bn seed F r" and w: "write_ok env" and inj: "inj_on F (dom (transactions r))"
    and ids: "distinct ids" "set ids \<subseteq> dom (transactions r)"
    and ord: "missing_items r ids = [] \<or> right_below (queue r) (missing_items r ids)"
  shows "\<exists>r'. reEnqueueMissingItems bn env r ids = Inr r'"
proof -
  let ?f = "\<lambda>k. the (transactions r k)"
  note q = gq_okD [OF responder_ok_queue [OF ok]]
  have f: "transactions r k = Some (?f k)" if "k \<in> set ids" for k
    using ids(2) that by auto
  then have recs: "map (transactions r) ids = map Some (map ?f ids)" by simp
  have can: "canon (ident (?f k)) = F k" "item_ok (?f k)" if "k \<in> set ids" for k
    using canon_record [OF ok f [OF that]] responder_ok_record(2) [OF ok f [OF that]] by auto
  have run: "reEnqueueMissingItems bn env r ids = (if missing_items r ids = [] then Inr r
      else bind_result (prepend (queue r) (missing_items r ids)) (\<lambda>q. Inr (installed bn env r q)))"
    using recs pending_records [of _ "transactions r" ids "map ?f ids"] w
    by (simp add: reEnqueueMissingItems_def missing_items_def commit_broadcast)
  have "items_ok (missing_items r ids @ queueItems (queue r))"
    using q(2) can(2) by (auto simp: missing_items_def)
  moreover have "idents_distinct (missing_items r ids @ queueItems (queue r))"
  proof -
    have "distinct (map (\<lambda>i. canon (ident i)) (map ?f ids))"
      using ids(1) inj_on_subset [OF inj ids(2)] can(1) by (simp add: distinct_map inj_on_def)
    then have "distinct (map (\<lambda>i. canon (ident i)) (missing_items r ids))"
      unfolding missing_items_def by (rule distinct_map_filter)
    moreover have "canon (ident i) \<notin> queued r" if "i \<in> set (missing_items r ids)" for i
      using that by (simp add: missing_items_def contains_queued)
    then have "(\<lambda>i. canon (ident i)) ` set (missing_items r ids) \<inter> queued r = {}" by blast
    ultimately show ?thesis
      using gq_invD(7) [OF q(1)] by (simp add: idents_distinct_def queued_def)
  qed
  ultimately have "\<exists>q'. prepend (queue r) (missing_items r ids) = Inr q'" if "missing_items r ids \<noteq> []"
    using ord that by (simp add: prepend_Inr_iff [OF q(1)] right_below_def)
  then show ?thesis by (auto simp: run)
qed

lemma apply_actions_append:
  "apply_actions bn env (as @ bs) r = apply_actions bn env bs (apply_actions bn env as r)"
  "actions_in_order bn env r (as @ bs) \<longleftrightarrow>
     actions_in_order bn env r as \<and> actions_in_order bn env (apply_actions bn env as r) bs"
  by (simp_all add: apply_actions_def actions_in_order_def run_ops_append calls_ok_append)

lemma apply_actions_simps [simp]:
  "apply_actions bn env [] r = r" "actions_in_order bn env r []"
  "apply_actions bn env (a # as) r =
     apply_actions bn env as (case responder_applyAction bn env a r of Inl e \<Rightarrow> r | Inr r' \<Rightarrow> r')"
  "actions_in_order bn env r (a # as) \<longleftrightarrow> action_in_order r a \<and>
     actions_in_order bn env (case responder_applyAction bn env a r of Inl e \<Rightarrow> r | Inr r' \<Rightarrow> r') as"
  by (simp_all add: apply_actions_def actions_in_order_def)

section \<open>The states the component reads\<close>

abbreviation mined_state :: "ResponderAnchorState \<Rightarrow> string \<Rightarrow> bool" where
  "mined_state s k \<equiv> hasResponseBeenMined (map_of (state_items s) k)"

text \<open>The states are of responses that are on record, each under its id and with its transaction.\<close>

definition reads_records :: "ident_of_id \<Rightarrow> MultiResponder \<Rightarrow> ResponderAnchorState \<Rightarrow> bool" where
  "reads_records F r s \<longleftrightarrow> distinct (map fst (state_items s)) \<and>
     (\<forall>(k, st)\<in>set (state_items s). state_appointmentId st = k \<and> k \<in> dom (transactions r) \<and>
        canon (state_identifier st) = F k)"

text \<open>While the items of a head \<open>s'\<close> are handled: the responses in \<open>X\<close> are done.\<close>

definition catching_up ::
  "ident_of_id \<Rightarrow> string set \<Rightarrow> ResponderAnchorState \<Rightarrow> ResponderAnchorState \<Rightarrow> string set \<Rightarrow> MultiResponder \<Rightarrow> bool" where
  "catching_up F D s s' X r \<longleftrightarrow> dom (transactions r) \<subseteq> D \<and> queueKey (zStore r) \<notin> D \<and>
     (\<forall>k\<in>dom (transactions r). F k \<in> queued r \<longleftrightarrow> \<not> mined_state s' k \<or> k \<notin> X \<and> \<not> mined_state s k)"

lemma txMined_catches_up:
  assumes ok: "responder_ok bn seed F r" and up: "catching_up F D s s' X r" and D: "inj_on F D" "k \<in> D"
    and mined: "mined_state s' k" and idn: "canon idn = F k"
    and w: "write_ok env" and ord: "action_in_order r (ResponderAction.TxMined idn n)"
  shows "\<exists>r'. txMined bn env r idn n = Inr r' \<and> responder_ok bn seed F r' \<and> catching_up F D s s' (insert k X) r'"
proof -
  from txMined_queued [OF ok w, of idn n] ord obtain r' where
    r': "txMined bn env r idn n = Inr r'" "queued r' = queued r - {F k}" "dom (transactions r') = dom (transactions r)"
    by (auto simp: idn)
  have "F j \<noteq> F k" if "j \<in> dom (transactions r)" "j \<noteq> k" for j
    using that up D by (auto simp: catching_up_def dest: inj_onD)
  moreover have "queueKey (zStore r') = queueKey (zStore r)"
    using responder_step_constants [of bn r "responder_call.TxMined env idn n" r'] r'(1) by simp
  ultimately have "catching_up F D s s' (insert k X) r'"
    using up mined unfolding catching_up_def r'(2,3) by auto
  with r'(1) txMined_ok [OF ok r'(1)] show ?thesis by blast
qed

lemma endResponse_catches_up:
  assumes ok: "responder_ok bn seed F r" and up: "catching_up F D s s' X r" and k: "k \<in> D" "k \<in> X" "mined_state s' k"
    and w: "write_ok env"
  shows "\<exists>r'. endResponse env r k = Inr r' \<and> responder_ok bn seed F r' \<and> catching_up F D s s' X r'"
proof -
  from endResponse_queued [OF w, where r = r and k = k] obtain r' where
    r': "endResponse env r k = Inr r'" "queued r' = queued r" "dom (transactions r') = dom (transactions r) - {k}"
    by blast
  have "k \<notin> item_id ` set (queueItems (queue r))"
  proof
    assume "k \<in> item_id ` set (queueItems (queue r))"
    with queued_ids [OF ok] have "k \<in> dom (transactions r)" "F k \<in> queued r" by blast+
    with up k show False by (auto simp: catching_up_def)
  qed
  moreover have "k \<noteq> queueKey (zStore r)" using up k(1) by (auto simp: catching_up_def)
  ultimately have "responder_call_ok F r (responder_call.EndResponse env k)" by simp
  from responder_step_ok [OF ok this] r'(1) have "responder_ok bn seed F r'" by simp
  moreover have "queueKey (zStore r') = queueKey (zStore r)"
    using responder_step_constants [of bn r "responder_call.EndResponse env k" r'] r'(1) by simp
  ultimately show ?thesis using r' up by (auto simp: catching_up_def)
qed

lemma detect_response_catches_up:
  assumes ok: "responder_ok bn seed F r" and up: "catching_up F D s s' X r" and D: "inj_on F D" "k \<in> D"
    and st: "map_of (state_items s') k = Some st" "state_appointmentId st = k" "canon (state_identifier st) = F k"
    and prev: "mined_state p k \<Longrightarrow> mined_state s k" and w: "write_ok env"
    and ord: "actions_in_order bn env r (detect_response rc p s' k st)"
  shows "responder_ok bn seed F (apply_actions bn env (detect_response rc p s' k st) r) \<and>
    catching_up F D s s' (insert k X) (apply_actions bn env (detect_response rc p s' k st) r)"
proof (cases "mined_state s' k")
  case False
  then have none: "detect_response rc p s' k st = []"
    using st(1) by (auto simp: detect_response_def hasResponseBeenMined_def shouldAppointmentBeRemoved_def Let_def
        split: ResponderAppointmentAnchorState.splits)
  show ?thesis using ok up False unfolding none by (auto simp: catching_up_def)
next
  case True
  define mine where "mine = (if \<not> mined_state p k
    then [ResponderAction.TxMined (state_identifier st) (mined_nonce st), CheckResponderBalance] else [])"
  define ends where "ends = (if \<not> shouldAppointmentBeRemoved rc p (map_of (state_items p) k) \<and>
    shouldAppointmentBeRemoved rc s' (Some st) then [ResponderAction.EndResponse k] else [])"
  have as: "detect_response rc p s' k st = mine @ ends"
    using True st(1,2) by (simp add: detect_response_def mine_def ends_def Let_def)
  let ?r1 = "apply_actions bn env mine r"
  have one: "responder_ok bn seed F ?r1 \<and> catching_up F D s s' (insert k X) ?r1"
  proof (cases "mined_state p k")
    case False
    have "action_in_order r (ResponderAction.TxMined (state_identifier st) (mined_nonce st))"
      using ord False unfolding as apply_actions_append mine_def by simp
    from txMined_catches_up [OF ok up D True st(3) w this] False show ?thesis by (auto simp: mine_def)
  qed (use ok up prev in \<open>auto simp: mine_def catching_up_def\<close>)
  show ?thesis
  proof (cases "ends = []")
    case False
    then have "ends = [ResponderAction.EndResponse k]" by (simp add: ends_def split: if_splits)
    with endResponse_catches_up [OF conjunct1 [OF one] conjunct2 [OF one] D(2) _ True w] show ?thesis
      by (auto simp: as apply_actions_append)
  qed (use one in \<open>simp add: as\<close>)
qed

lemma detect_responses_catch_up:
  assumes w: "write_ok env" and D: "inj_on F D" and dist: "distinct (map fst (state_items s'))"
    and st: "\<And>k st. (k, st) \<in> set (state_items s') \<Longrightarrow> state_appointmentId st = k \<and> k \<in> D \<and> canon (state_identifier st) = F k"
    and prev: "\<And>k. k \<in> D \<Longrightarrow> mined_state p k \<Longrightarrow> mined_state s' k \<Longrightarrow> mined_state s k"
    and ok: "responder_ok bn seed F r" "catching_up F D s s' X r" and its: "set its \<subseteq> set (state_items s')"
    and ord: "actions_in_order bn env r (concat (map (\<lambda>(k, st). detect_response rc p s' k st) its))"
  shows "responder_ok bn seed F (apply_actions bn env (concat (map (\<lambda>(k, st). detect_response rc p s' k st) its)) r) \<and>
    catching_up F D s s' (X \<union> fst ` set its) (apply_actions bn env (concat (map (\<lambda>(k, st). detect_response rc p s' k st) its)) r)"
  using ok its ord
proof (induction its arbitrary: r X)
  case (Cons it its)
  obtain k st where it: "it = (k, st)" by (cases it)
  let ?as = "detect_response rc p s' k st"
  have mem: "(k, st) \<in> set (state_items s')" using Cons.prems(3) it by simp
  note S = st [OF mem]
  have k: "map_of (state_items s') k = Some st" using mem dist by simp
  have ord: "actions_in_order bn env r ?as"
    "actions_in_order bn env (apply_actions bn env ?as r) (concat (map (\<lambda>(k, st). detect_response rc p s' k st) its))"
    using Cons.prems(4) by (simp_all add: it apply_actions_append)
  have one: "responder_ok bn seed F (apply_actions bn env ?as r) \<and> catching_up F D s s' (insert k X) (apply_actions bn env ?as r)"
  proof (cases "mined_state s' k")
    case True
    with S k prev [of k] show ?thesis
      by (intro detect_response_catches_up [OF Cons.prems(1,2) D _ k _ _ _ w ord(1)]) auto
  next
    case False
    then have none: "?as = []"
      using k by (auto simp: detect_response_def hasResponseBeenMined_def shouldAppointmentBeRemoved_def Let_def
          split: ResponderAppointmentAnchorState.splits)
    show ?thesis using Cons.prems(1,2) False unfolding none by (auto simp: catching_up_def)
  qed
  from Cons.IH [OF conjunct1 [OF one] conjunct2 [OF one] _ ord(2)] Cons.prems(3) show ?case
    by (simp add: it apply_actions_append)
qed simp

text \<open>The queue of \<open>r\<close> holds the responses that are not mined in \<open>s\<close>.\<close>

definition queue_matches :: "MultiResponder \<Rightarrow> ResponderAnchorState \<Rightarrow> bool" where
  "queue_matches r s \<longleftrightarrow>
     (\<forall>(k, i)\<in>set (mTransactions (zStore r)). contains (queue r) (ident i) \<longleftrightarrow> \<not> mined_state s k)"

lemma queue_matches_ids:
  assumes "responder_ok bn seed F r"
  shows "queue_matches r s \<longleftrightarrow> (\<forall>k\<in>dom (transactions r). F k \<in> queued r \<longleftrightarrow> \<not> mined_state s k)"
proof -
  have wf: "js_wf (mTransactions (zStore r))" by (rule store_okD(2) [OF responder_ok_store [OF assms]])
  then have "queue_matches r s \<longleftrightarrow>
      (\<forall>k i. transactions r k = Some i \<longrightarrow> (canon (ident i) \<in> queued r \<longleftrightarrow> \<not> mined_state s k))"
    unfolding queue_matches_def contains_queued js_wf_def by auto
  also have "\<dots> \<longleftrightarrow> (\<forall>k i. transactions r k = Some i \<longrightarrow> (F k \<in> queued r \<longleftrightarrow> \<not> mined_state s k))"
    by (intro iff_allI imp_cong refl) (simp only: canon_record [OF assms])
  finally show ?thesis by blast
qed

lemma pending_ids:
  assumes "reads_records F r s'"
  shows "k \<in> set (map state_appointmentId (filter is_Pending (map snd (state_items s')))) \<longleftrightarrow>
    k \<in> fst ` set (state_items s') \<and> \<not> mined_state s' k"
proof -
  have "map_of (state_items s') k' = Some st \<and> state_appointmentId st = k'" if "(k', st) \<in> set (state_items s')" for k' st
    using that assms by (auto simp: reads_records_def)
  then show ?thesis
    by (force simp: hasResponseBeenMined_def image_iff split: option.splits ResponderAppointmentAnchorState.splits)
qed

lemma pending_ids_distinct:
  assumes "reads_records F r s'"
  shows "distinct (map state_appointmentId (filter is_Pending (map snd (state_items s'))))"
    "set (map state_appointmentId (filter is_Pending (map snd (state_items s')))) \<subseteq> dom (transactions r)"
proof -
  have "map state_appointmentId (map snd (state_items s')) = map fst (state_items s')"
    using assms by (auto simp: reads_records_def)
  then have "distinct (map state_appointmentId (map snd (state_items s')))"
    using assms by (simp only: reads_records_def)
  then show "distinct (map state_appointmentId (filter is_Pending (map snd (state_items s'))))"
    by (rule distinct_map_filter)
qed (use assms in \<open>auto simp: reads_records_def\<close>)

lemma reEnqueue_catches_up:
  assumes ok: "responder_ok bn seed F r" and w: "write_ok env" and inj: "inj_on F (dom (transactions r))" and match: "queue_matches r s"
    and kept: "\<And>k. k \<in> dom (transactions r) \<Longrightarrow> mined_state s k \<Longrightarrow> k \<in> K"
    and pend: "\<And>k. k \<in> set pend \<longleftrightarrow> k \<in> K \<and> \<not> mined_state s' k"
    and ids: "distinct pend" "set pend \<subseteq> dom (transactions r)"
    and as: "as = (if length pend > 0 then [ResponderAction.ReEnqueueMissingItems pend] else [])"
      "actions_in_order bn env r as"
  shows "responder_ok bn seed F (apply_actions bn env as r) \<and>
    catching_up F (dom (transactions r)) s s' {} (apply_actions bn env as r)"
proof -
  let ?D = "dom (transactions r)"
  have qk: "queueKey (zStore r) \<notin> ?D" using responder_ok_record(1,3) [OF ok] by (auto simp: req_fits_def)
  have old: "F k \<in> queued r \<longleftrightarrow> \<not> mined_state s k" if "k \<in> ?D" for k
    using match that queue_matches_ids [OF ok] by blast
  show ?thesis
  proof (cases "pend = []")
    case True
    then have "k \<notin> K \<or> mined_state s' k" for k using pend [of k] by auto
    with ok qk old kept show ?thesis by (auto simp: True as(1) catching_up_def)
  next
    case False
    with as have "missing_items r pend = [] \<or> right_below (queue r) (missing_items r pend)" by simp
    from reEnqueue_returns [OF ok w inj ids this] obtain r1 where r1: "reEnqueueMissingItems bn env r pend = Inr r1" ..
    note R = reEnqueueMissingItems_queued [OF ok r1]
    have "F k \<in> F ` set pend \<longleftrightarrow> k \<in> set pend" if "k \<in> ?D" for k
      using R inj_on_image_mem_iff [OF inj that] by blast
    with R old pend kept have "F k \<in> queued r1 \<longleftrightarrow> \<not> mined_state s' k \<or> \<not> mined_state s k" if "k \<in> ?D" for k
      using that by blast
    moreover have "queueKey (zStore r1) = queueKey (zStore r)"
      using responder_step_constants [of bn r "responder_call.ReEnqueueMissingItems env pend" r1] r1 by simp
    ultimately have "catching_up F ?D s s' {} r1" using qk R by (simp add: catching_up_def)
    with reEnqueueMissingItems_ok [OF ok r1] False show ?thesis by (simp add: as(1) r1)
  qed
qed

lemma catching_up_done:
  assumes ok: "responder_ok bn seed F r" and up: "catching_up F D s s' (fst ` set (state_items s')) r"
  shows "dom (transactions r) \<subseteq> D \<and> queue_matches r s'"
proof -
  note U = up [unfolded catching_up_def]
  have keys: "k \<in> fst ` set (state_items s')" if "mined_state s' k" for k
    using that by (force simp: hasResponseBeenMined_def dest: map_of_SomeD split: option.splits)
  have "F k \<in> queued r \<longleftrightarrow> \<not> mined_state s' k" if "k \<in> dom (transactions r)" for k
    using bspec [OF U [THEN conjunct2, THEN conjunct2] that] keys [of k] by blast
  with U show ?thesis unfolding queue_matches_ids [OF ok] by simp
qed

lemma head_keeps_match:
  assumes w: "write_ok env" and ok: "responder_ok bn seed F r" and inj: "inj_on F (dom (transactions r))"
    and match: "queue_matches r s" and reads: "reads_records F r s'"
    and prev: "\<And>k. k \<in> dom (transactions r) \<Longrightarrow> mined_state p k \<Longrightarrow> mined_state s' k \<Longrightarrow> mined_state s k"
    and kept: "\<And>k. k \<in> dom (transactions r) \<Longrightarrow> mined_state s k \<Longrightarrow> k \<in> fst ` set (state_items s')"
    and ord: "actions_in_order bn env r (responder_detectChanges rc p s')"
    and r': "r' = apply_actions bn env (responder_detectChanges rc p s') r"
  shows "responder_ok bn seed F r' \<and> dom (transactions r') \<subseteq> dom (transactions r) \<and> queue_matches r' s'"
proof -
  let ?its = "state_items s'"
  let ?pend = "map state_appointmentId (filter is_Pending (map snd ?its))"
  define re where "re = (if length ?pend > 0 then [ResponderAction.ReEnqueueMissingItems ?pend] else [])"
  let ?rest = "concat (map (\<lambda>(k, st). detect_response rc p s' k st) ?its)"
  have as: "responder_detectChanges rc p s' = re @ ?rest" by (simp only: responder_detectChanges_def re_def Let_def)
  have st: "state_appointmentId st = k \<and> k \<in> dom (transactions r) \<and> canon (state_identifier st) = F k"
    if "(k, st) \<in> set ?its" for k st
    using reads that by (auto simp: reads_records_def)
  have dist: "distinct (map fst ?its)" using reads by (simp add: reads_records_def)
  have ord: "actions_in_order bn env r re" "actions_in_order bn env (apply_actions bn env re r) ?rest"
    using ord unfolding as apply_actions_append by blast+
  note one = reEnqueue_catches_up [OF ok w inj match kept pending_ids [OF reads] pending_ids_distinct [OF reads] re_def ord(1)]
  from detect_responses_catch_up [OF w inj dist st prev conjunct1 [OF one] conjunct2 [OF one] subset_refl ord(2)]
  have "responder_ok bn seed F r'" "catching_up F (dom (transactions r)) s s' (fst ` set ?its) r'"
    by (simp_all only: r' as apply_actions_append Un_empty_left)
  with catching_up_done [OF this] show ?thesis by blast
qed

section \<open>The states the machine computes\<close>

definition carries :: "ident_of_id \<Rightarrow> ResponderAnchorState \<Rightarrow> bool" where
  "carries F s \<longleftrightarrow> (\<forall>(k, st)\<in>set (state_items s). state_appointmentId st = k \<and> canon (state_identifier st) = F k)"

lemma response_reduce_keeps:
  "response_reduce this st b = Some (Inr st') \<Longrightarrow>
     state_appointmentId st' = state_appointmentId st \<and> state_identifier st' = state_identifier st"
  by (cases st) (auto split: option.splits)

lemma response_getInitialState_fits:
  "response_getInitialState this c b = Some (Inr st) \<Longrightarrow>
     state_appointmentId st = r_appointmentId this \<and> state_identifier st = r_identifier this"
  by (auto simp: response_getInitialState_def result_simps split: option.splits)

lemma reduced_state:
  assumes ok: "responder_ok bn seed F r" and q: "carries F q"
    and red: "reduce (responder_reducer (rc\<lparr>component_responder := r\<rparr>) c) q b = Some (Inr s')"
  shows "reads_records F r s'" "fst ` set (state_items s') = dom (transactions r)"
proof -
  let ?ts = "mTransactions (zStore r)"
  have wf: "js_wf ?ts" by (rule store_okD(2) [OF responder_ok_store [OF ok]])
  have id: "item_id i = k" "transactions r k = Some i" if "(k, i) \<in> set ?ts" for k i
    using that wf responder_ok_record(3) [OF ok, of k i] by (auto simp: js_wf_def)
  have keys: "map item_id (map snd ?ts) = map fst ?ts" using id(1) by auto
  define f where "f = (\<lambda>item. bind_run (Some (Inr (response_reducer
      \<lparr>r_identifier = ident item, r_appointmentId = item_id item, r_blockObserved = req_blockObserved (request item),
       r_address = responder_address rc\<rparr> c))) (\<lambda>baseReducer.
     case map_of (state_items q) (item_id item) of
       Some prev \<Rightarrow> reduce baseReducer prev b | None \<Rightarrow> getInitialState baseReducer b))"
  from red have its: "mapped_items (\<lambda>item. item_id item) f (map snd ?ts) [] = Some (Inr (state_items s'))"
    by (auto simp: responder_reducer_def mapped_reducer_def mapped_reduce_def f_def result_simps)
  have dist: "distinct (map (\<lambda>item. item_id item) (map snd ?ts))" using wf keys by (simp only: js_wf_def)
  have fst_its: "map fst (state_items s') = map fst ?ts"
    using mapped_items_keys [OF its dist] keys by (simp only:)
  have "state_appointmentId st = k \<and> canon (state_identifier st) = F k" if "(k, st) \<in> set (state_items s')" for k st
  proof -
    from that have "k \<in> set (map fst (state_items s'))" by force
    then obtain i where i: "(k, i) \<in> set ?ts" unfolding fst_its by auto
    from mapped_items_get [OF its dist, of i] i obtain m where
      m: "f i = Some (Inr m)" "map_of (state_items s') (item_id i) = Some m" by force
    have "map_of (state_items s') k = Some st" using that wf fst_its by (simp add: js_wf_def)
    with m(2) id(1) [OF i] have st: "m = st" by simp
    have F: "canon (ident i) = F k" using canon_record [OF ok id(2) [OF i]] .
    show ?thesis
    proof (cases "map_of (state_items q) k")
      case None
      with m(1) st id(1) [OF i] F response_getInitialState_fits show ?thesis
        by (fastforce simp: f_def response_reducer_def)
    next
      case (Some prev)
      then have "state_appointmentId prev = k \<and> canon (state_identifier prev) = F k"
        using q by (auto simp: carries_def dest: map_of_SomeD)
      with Some m(1) st id(1) [OF i] response_reduce_keeps show ?thesis
        by (fastforce simp: f_def response_reducer_def)
    qed
  qed
  moreover have dom: "fst ` set (state_items s') = dom (transactions r)"
    using fst_its by (metis dom_map_of_conv_image_fst set_map)
  ultimately show "reads_records F r s'" "fst ` set (state_items s') = dom (transactions r)"
    using wf fst_its by (force simp: reads_records_def js_wf_def)+
qed

section \<open>Runs\<close>

text \<open>New responses, and heads.  A head is a block reduced from the state \<open>q\<close> of its parent, and the machine compares
  its state with that of the last head \<open>p\<close> on its own chain, which is not the last head \<open>s\<close> after a
  reorganisation.\<close>

inductive chain_step ::
  "BigNumberCodec \<Rightarrow> ident_of_id \<Rightarrow> Env \<Rightarrow> MultiResponderComponent \<Rightarrow>
   MultiResponder \<times> ResponderAnchorState \<Rightarrow> MultiResponder \<times> ResponderAnchorState \<Rightarrow> bool"
  for bn F env rc where
  response: "responder_call_ok F r (responder_call.StartResponse env' to d g rid sb eb) \<Longrightarrow>
    startResponse bn env' r to d g rid sb eb = Inr r' \<Longrightarrow> \<not> mined_state s rid \<Longrightarrow>
    \<forall>k\<in>dom (transactions r). F k = F rid \<longrightarrow> k = rid \<Longrightarrow> chain_step bn F env rc (r, s) (r', s)"
| head: "carries F q \<Longrightarrow>
    reduce (responder_reducer (rc\<lparr>component_responder := r\<rparr>) (c :: (Block, ResponderAnchorState) BlockCache)) q b = Some (Inr s') \<Longrightarrow>
    \<forall>k\<in>dom (transactions r). mined_state p k \<longrightarrow> mined_state s k \<Longrightarrow>
    actions_in_order bn env r (responder_detectChanges rc p s') \<Longrightarrow>
    chain_step bn F env rc (r, s) (apply_actions bn env (responder_detectChanges rc p s') r, s')"

definition follows :: "BigNumberCodec \<Rightarrow> GasQueue \<Rightarrow> ident_of_id \<Rightarrow> MultiResponder \<times> ResponderAnchorState \<Rightarrow> bool" where
  "follows bn seed F = (\<lambda>(r, s). responder_ok bn seed F r \<and> inj_on F (dom (transactions r)) \<and> queue_matches r s)"

lemma response_follows:
  assumes "follows bn seed F (r, s)" "responder_call_ok F r (responder_call.StartResponse env to d g rid sb eb)"
    "startResponse bn env r to d g rid sb eb = Inr r'" "\<not> mined_state s rid"
    "\<forall>k\<in>dom (transactions r). F k = F rid \<longrightarrow> k = rid"
  shows "follows bn seed F (r', s)"
proof -
  have ok: "responder_ok bn seed F r" "inj_on F (dom (transactions r))" "queue_matches r s"
    using assms(1) by (auto simp: follows_def)
  have ok': "responder_ok bn seed F r'" using responder_step_ok [OF ok(1) assms(2)] assms(3) by simp
  from startResponse_queued [OF ok(1) assms(2,3)] show ?thesis
  proof
    assume "r' = r"
    with assms(1) show ?thesis by simp
  next
    assume r': "queued r' = insert (F rid) (queued r) \<and> dom (transactions r') = insert rid (dom (transactions r))"
    have "inj_on F (insert rid (dom (transactions r)))" using ok(2) assms(5) by (auto simp: inj_on_def)
    then have "inj_on F (dom (transactions r'))" by (simp only: r')
    moreover have "F k \<in> queued r' \<longleftrightarrow> \<not> mined_state s k" if "k \<in> dom (transactions r')" for k
    proof (cases "k = rid")
      case False
      with that r' have "k \<in> dom (transactions r)" by simp
      with False ok(3) assms(5) r' show ?thesis unfolding queue_matches_ids [OF ok(1)] by (metis insert_iff)
    qed (use r' assms(4) in simp)
    then have "queue_matches r' s" unfolding queue_matches_ids [OF ok'] ..
    ultimately show ?thesis using ok' by (simp add: follows_def)
  qed
qed

lemma head_follows:
  fixes c :: "(Block, ResponderAnchorState) BlockCache"
  assumes "write_ok env" "follows bn seed F (r, s)" "carries F q"
    "reduce (responder_reducer (rc\<lparr>component_responder := r\<rparr>) c) q b = Some (Inr s')"
    "\<forall>k\<in>dom (transactions r). mined_state p k \<longrightarrow> mined_state s k"
    "actions_in_order bn env r (responder_detectChanges rc p s')"
  shows "follows bn seed F (apply_actions bn env (responder_detectChanges rc p s') r, s')"
proof -
  have ok: "responder_ok bn seed F r" "inj_on F (dom (transactions r))" "queue_matches r s"
    using assms(2) by (auto simp: follows_def)
  note S = reduced_state [OF ok(1) assms(3,4)]
  from head_keeps_match [OF assms(1) ok S(1) _ _ assms(6) refl] assms(5) S(2)
  show ?thesis using inj_on_subset [OF ok(2)] by (simp add: follows_def)
qed

interpretation chain: step_invariant "chain_step bn F env rc" "\<lambda>x. write_ok env \<and> follows bn seed F x" for bn F env rc seed
proof
  fix x y
  assume x: "write_ok env \<and> follows bn seed F x" and step: "chain_step bn F env rc x y"
  from step show "write_ok env \<and> follows bn seed F y"
  proof cases
    case (response r env' to d g rid sb eb r' s)
    with x response_follows [of bn seed F r s env' to d g rid sb eb r'] show ?thesis by blast
  next
    case (head q r c b s' p s)
    with x head_follows [of env bn seed F r s q rc c b s' p] show ?thesis by blast
  qed
qed

section \<open>The queue follows the chain\<close>

text \<open>C4: The queue holds what the chain has not mined: through any heads, reorganisations included, and any new
  responses in between, a response on record is in the queue exactly when its transaction is not mined on
  the chain of the last head.  This is for a database that takes every write and for heads that behave: mined
  transactions are reported in the order of their nonces, what a reorganisation drops are the
  transactions mined last, whose nonces are right below those of the queue, which has room for them, no
  head returns to a chain that was abandoned, and no two responses have the same transaction.  (C16, C17
  and C18 are about heads that do not.)\<close>

theorem queue_follows_chain:
  assumes "(chain_step bn F env rc)\<^sup>*\<^sup>* (r0, s0) (r, s)" "write_ok env"
    and "responder_ok bn seed F r0" "inj_on F (dom (transactions r0))" "queue_matches r0 s0"
    and "transactions r k = Some i"
  shows "contains (queue r) (ident i) \<longleftrightarrow> \<not> hasResponseBeenMined (map_of (state_items s) k)"
proof -
  have "follows bn seed F (r, s)"
    using chain.reach_inv [OF assms(1), of seed] assms(2-5) by (simp add: follows_def)
  then show ?thesis using map_of_SomeD [OF assms(6)] by (auto simp: follows_def queue_matches_def)
qed

section \<open>A queue whose front was mined without notice\<close>

definition front_nonce :: "MultiResponder \<Rightarrow> int \<Rightarrow> bool" where
  "front_nonce r n \<longleftrightarrow> queueItems (queue r) \<noteq> [] \<and> nonce (hd (queueItems (queue r))) = n"

definition response_queued :: "MultiResponder \<Rightarrow> string \<Rightarrow> bool" where
  "response_queued r k \<longleftrightarrow> (case transactions r k of None \<Rightarrow> False | Some i \<Rightarrow> i \<in> set (queueItems (queue r)))"

text \<open>The calls that come while the nonce \<open>n\<close> stays at the front: the chain reports no queued transaction with that
  nonce, and no reorganisation drops the transactions that were mined last, right below the queue.  Any
  other re-enqueueing, of transactions that are in the queue or do not fit below it, is allowed.\<close>

fun later_call :: "ident_of_id \<Rightarrow> int \<Rightarrow> MultiResponder \<Rightarrow> responder_call \<Rightarrow> bool" where
  "later_call F n r (responder_call.TxMined env idn m) \<longleftrightarrow> (contains (queue r) idn \<longrightarrow> m \<noteq> n)"
| "later_call F n r (responder_call.ReEnqueueMissingItems env ids) \<longleftrightarrow>
     missing_items r ids = [] \<or> \<not> right_below (queue r) (missing_items r ids)"
| "later_call F n r c \<longleftrightarrow> responder_call_ok F r c"

lemma reEnqueue_not_below:
  assumes ok: "responder_ok bn seed F r" and st: "reEnqueueMissingItems bn env r ids = Inr r'"
    and later: "missing_items r ids = [] \<or> \<not> right_below (queue r) (missing_items r ids)"
  shows "r' = r"
proof -
  note q = gq_okD [OF responder_ok_queue [OF ok]]
  obtain records where rec: "map (transactions r) ids = map Some records" and
    out: "let missing = filter (\<lambda>i. \<not> contains (queue r) (ident i)) records in
     if missing = [] then r' = r
     else \<exists>q. prepend (queue r) missing = Inr q \<and> r' = installed bn env r q"
    using st by (rule reEnqueueMissingItems_InrD)
  have "map (\<lambda>k. the (transactions r k)) ids = records"
    using arg_cong [OF rec, of "map the"] by (simp add: comp_def)
  then have out: "if missing_items r ids = [] then r' = r
     else \<exists>q. prepend (queue r) (missing_items r ids) = Inr q \<and> r' = installed bn env r q"
    using out by (simp add: missing_items_def Let_def)
  have "item_ok i" if "i \<in> set (missing_items r ids)" for i
  proof -
    from that have "Some i \<in> set (map (transactions r) ids)"
      unfolding rec using \<open>map _ ids = records\<close> by (auto simp: missing_items_def)
    then show ?thesis using responder_ok_record(2) [OF ok] by auto
  qed
  then have "items_ok (missing_items r ids @ queueItems (queue r))" using q(2) by auto
  from prepend_Inr_iff [OF q(1) this] out later show ?thesis by (auto simp: right_below_def split: if_splits)
qed

lemma reEnqueue_queued:
  assumes "list_all (response_queued r) ids"
  shows "reEnqueueMissingItems bn env r ids = Inr r"
proof -
  let ?f = "\<lambda>k. the (transactions r k)"
  have k: "transactions r k = Some (?f k) \<and> contains (queue r) (ident (?f k))" if "k \<in> set ids" for k
    using assms that by (force simp: list_all_iff response_queued_def contains_iff split: option.splits)
  then have "map (transactions r) ids = map Some (map ?f ids)" by simp
  moreover have "filter (\<lambda>i. \<not> contains (queue r) (ident i)) (map ?f ids) = []"
    using k by (auto simp: filter_empty_conv)
  ultimately show ?thesis
    using pending_records [of _ "transactions r" ids "map ?f ids"] by (simp add: reEnqueueMissingItems_def)
qed

lemma front_nonce_eq:
  assumes "gq_ok q" "queueItems q \<noteq> []"
  shows "nonce (hd (queueItems q)) = emptyNonce q - int (length (queueItems q))"
  using gq_invD(5) [OF gq_okD(1) [OF assms(1)]] assms(2) by (simp add: nonces_to_def hd_conv_nth)

lemma later_call_blocked:
  assumes ok: "responder_ok bn seed F r \<and> front_nonce r n" and c: "later_call F n r c" and st: "responder_step bn r c = Inr r'"
  shows "(responder_ok bn seed F r' \<and> front_nonce r' n) \<and> set (requests (queue r)) \<subseteq> set (requests (queue r'))"
proof -
  from ok have ok1: "responder_ok bn seed F r" and n: "queueItems (queue r) \<noteq> []" "nonce (hd (queueItems (queue r))) = n"
    by (auto simp: front_nonce_def)
  have cok: "responder_call_ok F r c" using c by (cases c) auto
  note ok' = responder_step_ok [OF ok1 cok st]
  have "r' = r \<or> queue r' = queue r \<or> (\<exists>req. 0 \<le> req_idealGasPrice req \<and> add (queue r) req = Inr (queue r'))"
  proof (cases c)
    case (StartResponse env to d g rid sb eb)
    with st have "startResponse bn env r to d g rid sb eb = Inr r'" by simp
    from startResponse_InrD [OF this] c StartResponse show ?thesis by (fastforce simp: estimate_ok_def)
  next
    case (TxMined env idn m)
    with st c n show ?thesis by (cases "contains (queue r) idn") (simp_all add: txMined_eq hd_conv_nth)
  next
    case (ReEnqueueMissingItems env ids)
    with st c reEnqueue_not_below [OF ok1, of env ids r'] show ?thesis by simp
  next
    case (EndResponse env rid)
    with st show ?thesis by (auto simp: endResponse_def result_simps queue_removeResponse)
  qed
  then show ?thesis
  proof (elim disjE exE conjE)
    fix req assume req: "0 \<le> req_idealGasPrice req" "add (queue r) req = Inr (queue r')"
    note D = add_InrD [OF responder_ok_queue [OF ok1] req]
    have "length (queueItems (queue r')) = Suc (length (queueItems (queue r)))" using D(1) by simp
    moreover from this have "queueItems (queue r') \<noteq> []" by auto
    ultimately have "front_nonce r' n"
      using front_nonce_eq [OF D(7)] front_nonce_eq [OF responder_ok_queue [OF ok1] n(1)] n(2) D(2)
      by (auto simp: front_nonce_def)
    with ok' add_requests [OF responder_ok_queue [OF ok1] req] show ?thesis by auto
  qed (use ok ok' in \<open>auto simp: front_nonce_def\<close>)
qed

interpretation blocked: monotone_object "responder_step bn" "\<lambda>r. responder_ok bn seed F r \<and> front_nonce r n" "later_call F n"
  "\<lambda>r r'. set (requests (queue r)) \<subseteq> set (requests (queue r'))" for bn seed F n
proof unfold_locales
  fix r c r'
  assume "responder_ok bn seed F r \<and> front_nonce r n" "later_call F n r c" "responder_step bn r c = Inr r'"
  from later_call_blocked [OF this] show "responder_ok bn seed F r' \<and> front_nonce r' n"
    "set (requests (queue r)) \<subseteq> set (requests (queue r'))" by blast+
qed auto

lemma blocked_forever:
  assumes "responder_ok bn seed F r" "front_nonce r n" "calls_ok (responder_step bn) (later_call F n) r calls"
  shows "front_nonce (run_ops (responder_step bn) r calls) n \<and>
    set (requests (queue r)) \<subseteq> set (requests (queue (run_ops (responder_step bn) r calls)))"
  using blocked.run_inv [of bn seed F r n calls] blocked.run_rel [of bn seed F r n calls] assms by blast

section \<open>Heads with one mined transaction\<close>

text \<open>The items of a head that are pending and in the queue.\<close>

definition waiting :: "MultiResponder \<Rightarrow> (string \<times> ResponderAppointmentAnchorState) list \<Rightarrow> bool" where
  "waiting r its \<longleftrightarrow> list_all (\<lambda>(k, st). is_Pending st \<and> state_appointmentId st = k \<and> response_queued r k) its"

lemma detect_pending: "is_Pending st \<Longrightarrow> detect_response rc p s k st = []"
  by (cases st) (simp_all add: detect_response_def hasResponseBeenMined_def shouldAppointmentBeRemoved_def)

lemma detect_waiting: "waiting r its \<Longrightarrow> concat (map (\<lambda>(k, st). detect_response rc p s k st) its) = []"
  by (auto simp: waiting_def list_all_iff detect_pending)

lemma reEnqueue_waiting:
  assumes "waiting r (filter (\<lambda>(k, st). is_Pending st) its)"
  shows "apply_actions bn env (let ids = map state_appointmentId (filter is_Pending (map snd its)) in
      if length ids > 0 then [ResponderAction.ReEnqueueMissingItems ids] else []) r = r"
proof -
  have "list_all (response_queued r) (map state_appointmentId (filter is_Pending (map snd its)))"
    using assms by (auto simp: waiting_def list_all_iff)
  from reEnqueue_queued [OF this] show ?thesis by (simp add: Let_def)
qed

text \<open>The actions of a head whose pending responses are all in the queue.\<close>

lemma apply_detected:
  assumes "waiting r (filter (\<lambda>(k, st). is_Pending st) (state_items s'))"
  shows "apply_actions bn env (responder_detectChanges rc p s') r =
    apply_actions bn env (concat (map (\<lambda>(k, st). detect_response rc p s' k st) (state_items s'))) r"
  unfolding responder_detectChanges_def Let_def apply_actions_append
  using reEnqueue_waiting [OF assms, of bn env] by (simp only: Let_def)

lemma waiting_append [simp]: "waiting r (xs @ ys) \<longleftrightarrow> waiting r xs \<and> waiting r ys"
  by (simp add: waiting_def)

lemma waiting_filter: "waiting r xs \<Longrightarrow> filter (\<lambda>(k, st). is_Pending st) xs = xs"
  by (auto simp: waiting_def list_all_iff filter_id_conv)

lemma front_blocked: "queueItems (queue r) = i # others \<Longrightarrow> front_nonce r (nonce i)"
  by (simp add: front_nonce_def)

text \<open>A response whose transaction was mined in the block of the head.\<close>

definition just_mined :: "ResponderAnchorState \<Rightarrow> GasQueueItem \<Rightarrow> string \<times> ResponderAppointmentAnchorState" where
  "just_mined s i = (item_id i, Mined (item_id i) (ident i) (Some (blockNumber (rest s))) (nonce i))"

lemma detect_just_mined:
  assumes "\<not> mined_state p (item_id i)" "0 \<le> confirmationsRequired rc"
  shows "detect_response rc p s (item_id i) (snd (just_mined s i)) =
    [ResponderAction.TxMined (ident i) (nonce i), CheckResponderBalance]"
  using assms by (simp add: detect_response_def just_mined_def hasResponseBeenMined_def shouldAppointmentBeRemoved_def Let_def)

lemma mined_filter:
  "waiting r xs \<Longrightarrow> waiting r ys \<Longrightarrow> filter (\<lambda>(k, st). is_Pending st) (xs @ just_mined s i # ys) = xs @ ys"
  by (simp add: waiting_filter just_mined_def)

lemma txMined_behind:
  assumes "queueItems (queue r) = i # others" "n \<noteq> nonce i"
  shows "txMined bn env r idn n = Inr r"
  using assms by (simp add: txMined_eq)

lemma apply_just_mined:
  assumes ok: "responder_ok bn seed F r" "write_ok env" "0 \<le> confirmationsRequired rc" and q: "queueItems (queue r) = i # others"
    and its: "state_items s = xs @ just_mined s i # ys" "waiting r (xs @ ys)" and p: "\<not> mined_state p (item_id i)"
  shows "apply_actions bn env (responder_detectChanges rc p s) r = installed bn env r ((queue r)\<lparr>queueItems := others\<rparr>)"
proof -
  have W: "waiting r xs" "waiting r ys" using its(2) by simp_all
  have pend: "waiting r (filter (\<lambda>(k, st). is_Pending st) (state_items s))"
    using its(2) unfolding its(1) mined_filter [OF W] .
  have "detect_response rc p s (fst (just_mined s i)) (snd (just_mined s i)) =
      [ResponderAction.TxMined (ident i) (nonce i), CheckResponderBalance]"
    using detect_just_mined [OF p ok(3)] by (simp add: just_mined_def)
  then have "concat (map (\<lambda>(k, st). detect_response rc p s k st) (state_items s)) =
      [ResponderAction.TxMined (ident i) (nonce i), CheckResponderBalance]"
    by (simp add: its(1) detect_waiting [OF W(1)] detect_waiting [OF W(2)] split_beta)
  then show ?thesis unfolding apply_detected [OF pend] by (simp add: txMined_front [OF ok(1,2) q])
qed

lemma detect_all_waiting:
  assumes "waiting r (state_items s)" "state_items s \<noteq> []"
  shows "responder_detectChanges rc p s = [ResponderAction.ReEnqueueMissingItems (map fst (state_items s))]"
proof -
  have "filter is_Pending (map snd (state_items s)) = map snd (state_items s)"
    "map state_appointmentId (map snd (state_items s)) = map fst (state_items s)"
    using assms(1) by (auto simp: waiting_def list_all_iff filter_id_conv)
  then show ?thesis
    unfolding responder_detectChanges_def Let_def detect_waiting [OF assms(1)] using assms(2) by simp
qed

text \<open>A sibling of the head in which the front of the queue was mined puts it back.\<close>

lemma sibling_restores:
  assumes ok: "responder_ok bn seed F r" "write_ok env" and q: "queueItems (queue r) = i # others"
    and s: "waiting r (state_items s)" "distinct (map fst (state_items s))" "item_id i \<in> fst ` set (state_items s)"
    and r1: "r1 = installed bn env r ((queue r)\<lparr>queueItems := others\<rparr>)"
  obtains r2 where "apply_actions bn env (responder_detectChanges rc p s) r1 = r2" "queue r2 = queue r"
    "transactions r2 = transactions r" "responder_ok bn seed F r2"
proof -
  let ?ids = "map fst (state_items s)"
  have r1': "r1 = run_ops (responder_step bn) r (mined_calls env (take 1 (queueItems (queue r))))"
    using txMined_front [OF ok q] by (simp add: q r1)
  have "k \<in> item_id ` set (queueItems (queue r))" if "k \<in> set ?ids" for k
  proof -
    from that s(1) have "response_queued r k" by (auto simp: waiting_def list_all_iff)
    then obtain j where "transactions r k = Some j" "j \<in> set (queueItems (queue r))"
      by (auto simp: response_queued_def split: option.splits)
    with responder_ok_record(3) [OF ok(1) this(1)] show ?thesis by auto
  qed
  then obtain r2 where r2: "reEnqueueMissingItems bn env r1 ?ids = Inr r2" "queue r2 = queue r" "transactions r2 = transactions r"
    using reorg_restores [OF ok r1' s(2)] s(3) by (auto simp: q)
  have "state_items s \<noteq> []" using s(3) by auto
  then have "apply_actions bn env (responder_detectChanges rc p s) r1 = r2"
    by (simp add: detect_all_waiting [OF s(1)] r2(1))
  moreover have "responder_ok bn seed F r1" unfolding r1 using txMined_ok [OF ok(1) txMined_front [OF ok q]] .
  then have "responder_ok bn seed F r2" by (rule reEnqueueMissingItems_ok [OF _ r2(1)])
  ultimately show thesis using that r2 by blast
qed




section \<open>Instances\<close>

definition ex_chain_component :: MultiResponderComponent where
  "ex_chain_component = \<lparr>component_responder = ex_running, responder_address = ''0x1'', confirmationsRequired = 100\<rparr>"

definition ex_sent :: "string \<Rightarrow> int \<Rightarrow> int \<Rightarrow> TransactionStub" where
  "ex_sent d h n = \<lparr>tx_blockNumber = Some h, tx_nonce = n, tx_to = Some ''0x'', tx_from = ''0x1'', tx_chainId = 1,
                    tx_data = d, tx_value = 0, tx_gasLimit = 100\<rparr>"

abbreviation ex_wait :: "string \<Rightarrow> string \<times> ResponderAppointmentAnchorState" where
  "ex_wait d \<equiv> (d, Pending d (ex_id d))"

abbreviation ex_done :: "string \<Rightarrow> int \<Rightarrow> int \<Rightarrow> string \<times> ResponderAppointmentAnchorState" where
  "ex_done d h n \<equiv> (d, Mined d (ex_id d) (Some h) n)"

abbreviation ex_states :: "(string \<times> ResponderAppointmentAnchorState) list \<Rightarrow> int \<Rightarrow> ResponderAnchorState" where
  "ex_states its n \<equiv> \<lparr>state_items = its, rest = \<lparr>blockNumber = n\<rparr>\<rparr>"

lemma ex_F_inj: "inj_on ex_F A"
  by (auto simp: inj_on_def ex_F_def)

lemma ex_carries: "carries ex_F (ex_states [ex_wait ''a'', ex_wait ''b''] n)"
  by (simp add: carries_def canon_def ex_F_def toLowerCase_def lower_char_def)

text \<open>One of two responses is mined; then a sibling of that block drops it.\<close>

abbreviation ex_act :: "ResponderAnchorState \<Rightarrow> ResponderAnchorState \<Rightarrow> MultiResponder \<Rightarrow> MultiResponder" where
  "ex_act p s \<equiv> apply_actions unary_codec (ex_env 0) (responder_detectChanges ex_chain_component p s)"

abbreviation ex_parent :: ResponderAnchorState where
  "ex_parent \<equiv> ex_states [ex_wait ''a'', ex_wait ''b''] 5"

abbreviation ex_with_a :: ResponderAnchorState where
  "ex_with_a \<equiv> ex_states [ex_done ''a'' 6 5, ex_wait ''b''] 6"

abbreviation ex_sibling :: ResponderAnchorState where
  "ex_sibling \<equiv> ex_states [ex_wait ''a'', ex_wait ''b''] 6"

lemma ex_mined_head:
  "reduce (responder_reducer (ex_chain_component\<lparr>component_responder := ex_running\<rparr>)
       (empty_cache 10 :: (Block, ResponderAnchorState) BlockCache))
     ex_parent (ex_full_block ''h'' 6 ''p'' [] [ex_sent ''a'' 6 5]) = Some (Inr ex_with_a)"
  "actions_in_order unary_codec (ex_env 0) ex_running (responder_detectChanges ex_chain_component ex_parent ex_with_a)"
  "transactions (ex_act ex_parent ex_with_a ex_running) ''a'' = Some (ex_pending ''a'' 30 5)"
  "queue_matches ex_running ex_parent"
  by code_simp+

lemma ex_dropped_head:
  "reduce (responder_reducer (ex_chain_component\<lparr>component_responder := ex_act ex_parent ex_with_a ex_running\<rparr>)
       (empty_cache 10 :: (Block, ResponderAnchorState) BlockCache))
     ex_parent (ex_full_block ''i'' 6 ''p'' [] []) = Some (Inr ex_sibling)"
  "actions_in_order unary_codec (ex_env 0) (ex_act ex_parent ex_with_a ex_running)
     (responder_detectChanges ex_chain_component ex_parent ex_sibling)"
  "transactions (ex_act ex_parent ex_sibling (ex_act ex_parent ex_with_a ex_running)) ''a'' = Some (ex_pending ''a'' 30 5)"
  by code_simp+

theorem queue_follows_chain_witness:
  "\<exists>r s r' s'. (chain_step unary_codec ex_F (ex_env 0) ex_chain_component)\<^sup>*\<^sup>* (ex_running, ex_parent) (r, s) \<and>
     transactions r ''a'' = Some (ex_pending ''a'' 30 5) \<and> \<not> contains (queue r) (ex_id ''a'') \<and>
     (chain_step unary_codec ex_F (ex_env 0) ex_chain_component)\<^sup>*\<^sup>* (r, s) (r', s') \<and> contains (queue r') (ex_id ''a'')"
proof -
  let ?r = "ex_act ex_parent ex_with_a ex_running"
  let ?r' = "ex_act ex_parent ex_sibling ?r"
  have one: "chain_step unary_codec ex_F (ex_env 0) ex_chain_component (ex_running, ex_parent) (?r, ex_with_a)"
    by (rule chain_step.head [OF ex_carries ex_mined_head(1) _ ex_mined_head(2)]) simp
  have two: "chain_step unary_codec ex_F (ex_env 0) ex_chain_component (?r, ex_with_a) (?r', ex_sibling)"
    by (rule chain_step.head [OF ex_carries ex_dropped_head(1) _ ex_dropped_head(2)]) (simp add: hasResponseBeenMined_def)
  from one have run: "(chain_step unary_codec ex_F (ex_env 0) ex_chain_component)\<^sup>*\<^sup>* (ex_running, ex_parent) (?r, ex_with_a)" ..
  from two have run': "(chain_step unary_codec ex_F (ex_env 0) ex_chain_component)\<^sup>*\<^sup>* (?r, ex_with_a) (?r', ex_sibling)" ..
  have w: "write_ok (ex_env 0)" by (simp add: ex_env_def)
  note Q = queue_follows_chain [OF _ w ex_running_ok ex_F_inj ex_mined_head(4)]
  have "\<not> contains (queue ?r) (ex_id ''a'')" using Q [OF run ex_mined_head(3)] by (simp add: hasResponseBeenMined_def)
  moreover have "contains (queue ?r') (ex_id ''a'')"
    using Q [OF rtranclp_trans [OF run run'] ex_dropped_head(3)] by (simp add: hasResponseBeenMined_def)
  ultimately show ?thesis using run run' ex_mined_head(3) by blast
qed

lemma static_calls_later:
  assumes "\<forall>c\<in>set cs. static_call F (chainId r) (queueKey (zStore r)) c \<and>
    (case c of responder_call.TxMined env idn m \<Rightarrow> m \<noteq> n | _ \<Rightarrow> True)"
  shows "calls_ok (responder_step bn) (later_call F n) r cs"
  using assms
proof (induction cs arbitrary: r)
  case (Cons c cs)
  have "later_call F n r c" using Cons.prems by (cases c) auto
  moreover have "calls_ok (responder_step bn) (later_call F n) r cs" using Cons by simp
  moreover have "calls_ok (responder_step bn) (later_call F n) r' cs" if "responder_step bn r c = Inr r'" for r'
    using Cons responder_step_constants [OF that] by simp
  ultimately show ?case by (cases "responder_step bn r c") auto
qed simp

text \<open>The cheaper response came first and is mined behind the other one.\<close>

definition ex_outbid :: MultiResponder where
  "ex_outbid = run_ops (responder_step unary_codec) ex_responder [ex_start ''b'' 20, ex_start ''a'' 30]"

lemma ex_outbid_ok: "responder_ok unary_codec ex_seed ex_F ex_outbid"
  unfolding ex_outbid_def
  by (rule resp.run_inv [OF ex_responder_ok forward_calls_ok], rule static_calls_forward)
    (simp add: ex_start_static del: static_call.simps)

abbreviation ex_both :: ResponderAnchorState where
  "ex_both \<equiv> ex_states [ex_done ''b'' 6 6, ex_done ''a'' 6 5] 6"

lemma ex_outbid_block:
  "queueItems (queue ex_outbid) = [ex_pending ''a'' 30 5, ex_pending ''b'' 20 6]"
  "reduce (responder_reducer (ex_chain_component\<lparr>component_responder := ex_outbid\<rparr>)
       (empty_cache 10 :: (Block, ResponderAnchorState) BlockCache))
     (ex_states [ex_wait ''b'', ex_wait ''a''] 5) (ex_full_block ''h'' 6 ''p'' [] [ex_sent ''a'' 6 5, ex_sent ''b'' 6 6]) =
   Some (Inr ex_both)"
  by code_simp+

abbreviation ex_later :: "responder_call list" where
  "ex_later \<equiv> [ex_start ''c'' 50, responder_call.TxMined (ex_env 0) (ex_id ''c'') 7]"

lemma ex_later_ok:
  assumes "chainId r = 1" "queueKey (zStore r) = ''0x1:queue''" "n \<noteq> 7"
  shows "calls_ok (responder_step bn) (later_call ex_F n) r ex_later"
  by (rule static_calls_later) (use assms in \<open>simp add: estimate_ok_def ex_env_def ex_F_def toLowerCase_def lower_char_def\<close>)



end
