(* ===== verification/Locks.thy ===== *)
theory Locks
  imports Prelude
begin

text \<open>
  The locks of src/src/utils/lock.ts: a FIFO lock, the manager that keeps one lock per key while it is
  taken, and the calls of \<open>withLock\<close> that compete for them.

  A pending promise of \<open>acquire\<close> is represented by the number of the \<open>withLock\<close> call that awaits it;
  resolving it lets that call go on.  The plain object \<open>locks\<close> is an association list; its keys are the
  addresses of responders, none of which is the name of a property of \<open>Object.prototype\<close>.
\<close>

section \<open>A lock\<close>

record Lock =
  waiters :: "nat list"
  mLocked :: bool

definition new_Lock :: Lock where
  "new_Lock = \<lparr>waiters = [], mLocked = False\<rparr>"

text \<open>\<open>acquire\<close> returns whether the promise is resolved at once.\<close>

definition acquire_lock :: "Lock \<Rightarrow> nat \<Rightarrow> Lock \<times> bool" where
  "acquire_lock this c =
     (if \<not> mLocked this then (this\<lparr>mLocked := True\<rparr>, True)
      else (this\<lparr>waiters := waiters this @ [c]\<rparr>, False))"

text \<open>\<open>release\<close> returns the call whose promise it resolves.\<close>

definition release_lock :: "Lock \<Rightarrow> (Lock \<times> nat option) result" where
  "release_lock this =
     (if \<not> mLocked this then Inl (ApplicationError ''Tried to release a Lock that was not locked'')
      else case waiters this of
        c # rest \<Rightarrow> Inr (this\<lparr>waiters := rest\<rparr>, Some c)
      | [] \<Rightarrow> Inr (this\<lparr>mLocked := False\<rparr>, None))"

section \<open>The lock manager\<close>

type_synonym LockManager = "Lock js_map"

definition acquire :: "LockManager \<Rightarrow> string \<Rightarrow> nat \<Rightarrow> LockManager \<times> bool" where
  "acquire locks key c =
     (let locks' = (if map_of locks key = None then AList.update key new_Lock locks else locks) in
      case acquire_lock (the (map_of locks' key)) c of
        (lock, granted) \<Rightarrow> (AList.update key lock locks', granted))"

definition release :: "LockManager \<Rightarrow> string \<Rightarrow> (LockManager \<times> nat option) result" where
  "release locks key =
     (case map_of locks key of
        None \<Rightarrow> Inl (ApplicationError ''There is no lock for key'')
      | Some lock \<Rightarrow>
          bind_result (release_lock lock) (\<lambda>(lock', resolved).
            let locks' = AList.update key lock' locks in
            Inr (if \<not> mLocked lock' then AList.delete key locks' else locks', resolved)))"

section \<open>Calls of withLock\<close>

text \<open>\<open>withLock\<close> acquires the lock, runs its function when the promise is resolved, and releases the lock
  when the function has returned or thrown.  \<open>inside\<close> are the calls whose function is running; the
  logs say in which order the calls asked for a lock, were granted it and left.\<close>

record LockSystem =
  manager :: LockManager
  inside :: "(string \<times> nat) list"
  requested :: "(string \<times> nat) list"
  granted :: "(string \<times> nat) list"
  finished :: "(string \<times> nat) list"

definition idle :: LockSystem where
  "idle = \<lparr>manager = [], inside = [], requested = [], granted = [], finished = []\<rparr>"

definition enter :: "LockSystem \<Rightarrow> string \<Rightarrow> nat \<Rightarrow> LockSystem" where
  "enter s key c =
     (case acquire (manager s) key c of
        (locks, True) \<Rightarrow> s\<lparr>manager := locks, inside := (key, c) # inside s,
                           requested := requested s @ [(key, c)], granted := granted s @ [(key, c)]\<rparr>
      | (locks, False) \<Rightarrow> s\<lparr>manager := locks, requested := requested s @ [(key, c)]\<rparr>)"

definition leave :: "LockSystem \<Rightarrow> string \<Rightarrow> nat \<Rightarrow> LockSystem result" where
  "leave s key c =
     bind_result (release (manager s) key) (\<lambda>(locks, resolved).
       case resolved of
         None \<Rightarrow> Inr (s\<lparr>manager := locks, inside := remove1 (key, c) (inside s),
                         finished := finished s @ [(key, c)]\<rparr>)
       | Some w \<Rightarrow> Inr (s\<lparr>manager := locks, inside := (key, w) # remove1 (key, c) (inside s),
                         granted := granted s @ [(key, w)], finished := finished s @ [(key, c)]\<rparr>))"

inductive lock_step :: "LockSystem \<Rightarrow> LockSystem \<Rightarrow> bool" where
  call: "(key, c) \<notin> set (requested s) \<Longrightarrow> lock_step s (enter s key c)"
| return: "(key, c) \<in> set (inside s) \<Longrightarrow> leave s key c = Inr s' \<Longrightarrow> lock_step s s'"

inductive_cases lock_stepE: "lock_step s t"

section \<open>The invariant\<close>

text \<open>The calls of a key, in the order of a log.\<close>

definition of_key :: "string \<Rightarrow> (string \<times> nat) list \<Rightarrow> nat list" where
  "of_key k l = map snd (filter (\<lambda>e. fst e = k) l)"

lemma of_key_simps [simp]:
  "of_key k [] = []" "of_key k (a @ b) = of_key k a @ of_key k b"
  "of_key k ((k', c) # l) = (if k' = k then c # of_key k l else of_key k l)"
  by (auto simp: of_key_def)

lemma of_key_remove1: "of_key k (remove1 (k', c) l) = (if k' = k then remove1 c (of_key k l) else of_key k l)"
proof (induction l)
  case (Cons a l)
  obtain k'' c'' where "a = (k'', c'')" by fastforce
  with Cons show ?case by (cases "k'' = k"; cases "k' = k"; simp)
qed simp

lemma in_of_key: "c \<in> set (of_key k l) \<longleftrightarrow> (k, c) \<in> set l"
  by (force simp: of_key_def)

text \<open>The lock of a key exists while a call of the key is inside, and then exactly one is.  The calls
  finish in the order they were granted the lock and are granted it in the order they asked.\<close>

definition waiting :: "LockSystem \<Rightarrow> string \<Rightarrow> nat list" where
  "waiting s k = (case map_of (manager s) k of None \<Rightarrow> [] | Some lock \<Rightarrow> waiters lock)"

definition lock_inv :: "LockSystem \<Rightarrow> bool" where
  "lock_inv s \<longleftrightarrow> (\<forall>k.
     of_key k (granted s) = of_key k (finished s) @ of_key k (inside s) \<and>
     of_key k (requested s) = of_key k (granted s) @ waiting s k \<and>
     (map_of (manager s) k = None \<longrightarrow> of_key k (inside s) = []) \<and>
     (\<forall>lock. map_of (manager s) k = Some lock \<longrightarrow>
        mLocked lock \<and> length (of_key k (inside s)) = 1))"

lemma lock_inv_idle: "lock_inv idle"
  by (simp add: lock_inv_def idle_def waiting_def)

lemma lock_invD:
  assumes "lock_inv s"
  shows "of_key k (granted s) = of_key k (finished s) @ of_key k (inside s)"
    "of_key k (requested s) = of_key k (granted s) @ waiting s k"
    "map_of (manager s) k = None \<Longrightarrow> of_key k (inside s) = []"
    "map_of (manager s) k = Some lock \<Longrightarrow> mLocked lock"
    "map_of (manager s) k = Some lock \<Longrightarrow> \<exists>c. of_key k (inside s) = [c]"
  using assms unfolding lock_inv_def by (simp_all add: length_Suc_conv)

lemma enter_inv:
  assumes inv: "lock_inv s" shows "lock_inv (enter s key c)"
proof (cases "map_of (manager s) key")
  case None
  have e: "enter s key c = s\<lparr>manager := AList.update key \<lparr>waiters = [], mLocked = True\<rparr> (AList.update key new_Lock (manager s)),
      inside := (key, c) # inside s, requested := requested s @ [(key, c)], granted := granted s @ [(key, c)]\<rparr>"
    using None by (simp add: enter_def acquire_def acquire_lock_def new_Lock_def)
  have "waiting s key = []" "of_key key (inside s) = []"
    using None lock_invD(3) [OF inv] by (auto simp: waiting_def)
  with inv show ?thesis unfolding e lock_inv_def by (auto simp: waiting_def)
next
  case (Some lock)
  then have e: "enter s key c = s\<lparr>manager := AList.update key (lock\<lparr>waiters := waiters lock @ [c]\<rparr>) (manager s),
      requested := requested s @ [(key, c)]\<rparr>"
    using lock_invD(4) [OF inv] by (simp add: enter_def acquire_def acquire_lock_def)
  from inv Some show ?thesis unfolding e lock_inv_def by (auto simp: waiting_def)
qed

text \<open>A call that is inside can always leave: the first waiter, if any, goes in.\<close>

lemma leave_eq:
  assumes inv: "lock_inv s" and c: "(key, c) \<in> set (inside s)"
  obtains (last) locks where "waiting s key = []"
      "leave s key c = Inr (s\<lparr>manager := locks, inside := remove1 (key, c) (inside s),
         finished := finished s @ [(key, c)]\<rparr>)"
      "map_of locks = (map_of (manager s))(key := None)"
  | (handover) w ws locks lock where "waiting s key = w # ws"
      "leave s key c = Inr (s\<lparr>manager := locks, inside := (key, w) # remove1 (key, c) (inside s),
         granted := granted s @ [(key, w)], finished := finished s @ [(key, c)]\<rparr>)"
      "map_of locks = (map_of (manager s))(key \<mapsto> lock)" "waiters lock = ws" "mLocked lock"
proof -
  from c have "of_key key (inside s) \<noteq> []" by (metis in_of_key empty_iff empty_set)
  then obtain l where l: "map_of (manager s) key = Some l" using lock_invD(3) [OF inv] by blast
  with lock_invD(4) [OF inv] have locked: "mLocked l" by blast
  show thesis
  proof (cases "waiters l")
    case Nil
    with l locked show thesis
      by (intro last) (auto simp: waiting_def leave_def release_def release_lock_def Let_def)
  next
    case (Cons w ws)
    with l locked show thesis
      by (intro handover [of w ws _ "l\<lparr>waiters := ws\<rparr>"]) (auto simp: waiting_def leave_def release_def release_lock_def Let_def)
  qed
qed

lemma leave_inv:
  assumes inv: "lock_inv s" and c: "(key, c) \<in> set (inside s)" and st: "leave s key c = Inr s'"
  shows "lock_inv s'"
proof -
  obtain l where "map_of (manager s) key = Some l"
    using lock_invD(3) [OF inv, of key] c by (metis empty_iff empty_set in_of_key not_Some_eq)
  with lock_invD(5) [OF inv] c have one: "of_key key (inside s) = [c]"
    by (metis in_of_key list.set_intros(1) empty_iff empty_set set_ConsD)
  from inv c show ?thesis
  proof (cases rule: leave_eq)
    case (last locks)
    then have "s' = s\<lparr>manager := locks, inside := remove1 (key, c) (inside s), finished := finished s @ [(key, c)]\<rparr>"
      using st by simp
    with last inv one show ?thesis
      unfolding lock_inv_def by (auto simp: waiting_def of_key_remove1)
  next
    case (handover w ws locks lock)
    then have "s' = s\<lparr>manager := locks, inside := (key, w) # remove1 (key, c) (inside s),
        granted := granted s @ [(key, w)], finished := finished s @ [(key, c)]\<rparr>"
      using st by simp
    with handover inv one show ?thesis
      unfolding lock_inv_def by (auto simp: waiting_def of_key_remove1)
  qed
qed

interpretation locking: step_invariant lock_step lock_inv
  by unfold_locales (auto elim!: lock_stepE intro: enter_inv leave_inv)

section \<open>Properties\<close>

lemma reach_lock_inv: "lock_step\<^sup>*\<^sup>* idle s \<Longrightarrow> lock_inv s"
  by (rule locking.reach_inv [OF _ lock_inv_idle])

lemma at_most_one_inside:
  assumes "lock_inv s" shows "length (of_key k (inside s)) \<le> 1"
  using lock_invD(3,5) [OF assms, of k] by (cases "map_of (manager s) k") fastforce+

text \<open>A run: the second of three calls for one key waits and is let in by the first one's return.\<close>

definition ex_locks :: LockSystem where
  "ex_locks = enter (enter (enter idle ''k'' 1) ''k'' 2) ''k'' 3"

lemma ex_locks_reached: "lock_step\<^sup>*\<^sup>* idle ex_locks"
proof -
  have "lock_step idle (enter idle ''k'' 1)" by (rule lock_step.call) (simp add: idle_def)
  moreover have "lock_step (enter idle ''k'' 1) (enter (enter idle ''k'' 1) ''k'' 2)"
    by (rule lock_step.call) (simp add: enter_def acquire_def acquire_lock_def new_Lock_def idle_def)
  moreover have "lock_step (enter (enter idle ''k'' 1) ''k'' 2) ex_locks"
    unfolding ex_locks_def
    by (rule lock_step.call) (simp add: enter_def acquire_def acquire_lock_def new_Lock_def idle_def)
  ultimately show ?thesis by (meson converse_rtranclp_into_rtranclp rtranclp.rtrancl_refl)
qed

lemma ex_locks_eq:
  "ex_locks = \<lparr>manager = [(''k'', \<lparr>waiters = [2, 3], mLocked = True\<rparr>)], inside = [(''k'', 1)],
     requested = [(''k'', 1), (''k'', 2), (''k'', 3)], granted = [(''k'', 1)], finished = []\<rparr>"
  by (simp add: ex_locks_def enter_def acquire_def acquire_lock_def new_Lock_def idle_def)

text \<open>C20: Mutual exclusion: whatever calls of \<open>withLock\<close> compete, at most one of a key runs its function
  at a time, and a key has a lock in the manager exactly while one does.\<close>

theorem lock_mutual_exclusion:
  assumes "lock_step\<^sup>*\<^sup>* idle s"
  shows "length (of_key k (inside s)) \<le> 1 \<and>
    (map_of (manager s) k = None \<longleftrightarrow> of_key k (inside s) = [])"
  using at_most_one_inside [OF reach_lock_inv [OF assms]] lock_invD(3,5) [OF reach_lock_inv [OF assms], of k]
  by (cases "map_of (manager s) k") auto

theorem lock_mutual_exclusion_witness:
  "length (of_key ''k'' (inside ex_locks)) \<le> 1 \<and> of_key ''k'' (inside ex_locks) \<noteq> []"
  using lock_mutual_exclusion [OF ex_locks_reached, of "''k''"] by (simp add: ex_locks_eq)

text \<open>C21: The lock is fair and makes progress: the calls of a key are let in in the order they asked, and
  after \<open>n\<close> of them have returned the first \<open>n + 1\<close> have been let in.\<close>

theorem lock_fifo_progress:
  assumes "lock_step\<^sup>*\<^sup>* idle s"
  shows "of_key k (granted s) = take (Suc (length (of_key k (finished s)))) (of_key k (requested s)) \<and>
    of_key k (finished s) = take (length (of_key k (finished s))) (of_key k (requested s))"
proof -
  note inv = reach_lock_inv [OF assms]
  note D = lock_invD [OF inv, of k]
  show ?thesis
  proof (cases "map_of (manager s) k")
    case None
    with D show ?thesis by (simp add: waiting_def)
  next
    case (Some lock)
    from D(5) [OF Some] D(1,2) show ?thesis by auto
  qed
qed

theorem lock_fifo_progress_witness:
  "of_key ''k'' (granted ex_locks) = take 1 [1, 2, 3]"
  using lock_fifo_progress [OF ex_locks_reached, of "''k''"] by (simp add: ex_locks_eq)

text \<open>The release of \<open>withLock\<close> never throws: a call that is inside can always leave, and then its
  longest waiting successor is inside, if there is one.\<close>

lemma lock_release_succeeds:
  assumes "lock_step\<^sup>*\<^sup>* idle s" "(k, c) \<in> set (inside s)"
  shows "\<exists>s'. leave s k c = Inr s' \<and> lock_step s s' \<and>
    of_key k (inside s') = (case waiting s k of [] \<Rightarrow> [] | w # ws \<Rightarrow> [w])"
proof -
  note inv = reach_lock_inv [OF assms(1)]
  have one: "of_key k (inside s) = [c]"
  proof -
    have "c \<in> set (of_key k (inside s))" using assms(2) by (simp add: in_of_key)
    with at_most_one_inside [OF inv, of k] show ?thesis by (cases "of_key k (inside s)") auto
  qed
  from leave_eq [OF inv assms(2)] obtain s' where s': "leave s k c = Inr s'"
    "of_key k (inside s') = (case waiting s k of [] \<Rightarrow> [] | w # ws \<Rightarrow> [w])"
    using one by (cases rule: leave_eq [OF inv assms(2), case_names last handover]) (auto simp: of_key_remove1)
  with lock_step.return [OF assms(2)] show ?thesis by blast
qed

end
