(* ===== verification/MapOfSets.thy ===== *)
theory MapOfSets
  imports BlockItemStore
begin

text \<open>
  A map whose values are sets (src/src/utils/mapSet.ts), and what it means for an object with a state
  to implement an abstract one: every call gives the same answer, or throws the same error, in both,
  and leaves states that correspond.
\<close>

section \<open>Refinement of objects\<close>

text \<open>A sequence of calls, with what each returned or threw.\<close>

fun run_calls :: "('c \<Rightarrow> ('s, 'r) eff) \<Rightarrow> 'c list \<Rightarrow> 's \<Rightarrow> 'r result list \<times> 's" where
  "run_calls f [] s = ([], s)"
| "run_calls f (c # cs) s =
     (case f c s of (r, s1) \<Rightarrow> case run_calls f cs s1 of (rs, s2) \<Rightarrow> (r # rs, s2))"

fun all_calls :: "('c \<Rightarrow> ('s, 'r) eff) \<Rightarrow> ('s \<Rightarrow> 'c \<Rightarrow> bool) \<Rightarrow> 'c list \<Rightarrow> 's \<Rightarrow> bool" where
  "all_calls f ok [] s \<longleftrightarrow> True"
| "all_calls f ok (c # cs) s \<longleftrightarrow> ok s c \<and> all_calls f ok cs (snd (f c s))"

locale refined_object =
  fixes conc :: "'c \<Rightarrow> ('s, 'r) eff"
    and spec :: "'c \<Rightarrow> ('a, 'r) eff"
    and inv :: "'s \<Rightarrow> bool"
    and call_ok :: "'s \<Rightarrow> 'c \<Rightarrow> bool"
    and abs :: "'s \<Rightarrow> 'a"
  assumes sim_inv: "inv s \<Longrightarrow> call_ok s c \<Longrightarrow> inv (snd (conc c s))"
    and sim: "inv s \<Longrightarrow> call_ok s c \<Longrightarrow> spec c (abs s) = (fst (conc c s), abs (snd (conc c s)))"
begin

lemma run_refines:
  assumes "inv s" "all_calls conc call_ok cs s"
  shows "run_calls spec cs (abs s) = (fst (run_calls conc cs s), abs (snd (run_calls conc cs s)))"
    "inv (snd (run_calls conc cs s))"
  using assms
proof (induction cs arbitrary: s)
  case (Cons c cs)
  { case 1
    with Cons(1) [of "snd (conc c s)"] show ?case by (simp add: sim sim_inv split: prod.split) }
  { case 2
    with Cons(2) [of "snd (conc c s)"] sim_inv [of s c] show ?case by (auto split: prod.splits) }
qed auto

end

section \<open>The map of sets\<close>

text \<open>A \<open>Set\<close> is the list of its members in insertion order.\<close>

type_synonym ('k, 'v) MapOfSets = "('k \<times> 'v list) list"

definition addToSet :: "'k \<Rightarrow> 'v \<Rightarrow> ('k, 'v) MapOfSets \<Rightarrow> ('k, 'v) MapOfSets" where
  "addToSet key item m =
     (case map_of m key of
        None \<Rightarrow> AList.update key [item] m
      | Some values \<Rightarrow> AList.update key (if item \<in> set values then values else values @ [item]) m)"

definition deleteFromSet :: "'k \<Rightarrow> 'v \<Rightarrow> (('k, 'v) MapOfSets, bool) eff" where
  "deleteFromSet key item m =
     (case map_of m key of
        None \<Rightarrow> (Inl (ArgumentError ''No set exists for key, cannot delete item.''), m)
      | Some values \<Rightarrow>
          let values' = removeAll item values in
          (Inr (item \<in> set values),
           if values' = [] then AList.delete key m else AList.update key values' m))"

text \<open>The set of a key; a key without an entry has the empty set.\<close>

definition set_of :: "('k, 'v) MapOfSets \<Rightarrow> 'k \<Rightarrow> 'v set" where
  "set_of m key = (case map_of m key of None \<Rightarrow> {} | Some values \<Rightarrow> set values)"

text \<open>No entry is empty.\<close>

definition sets_ok :: "('k, 'v) MapOfSets \<Rightarrow> bool" where
  "sets_ok m \<longleftrightarrow> (\<forall>key values. map_of m key = Some values \<longrightarrow> values \<noteq> [] \<and> distinct values)"

lemma sets_ok_empty [simp]: "sets_ok []" "set_of [] = (\<lambda>k. {})"
  by (auto simp: sets_ok_def set_of_def)

lemma addToSet_ok: "sets_ok m \<Longrightarrow> sets_ok (addToSet key item m)"
  by (auto simp: sets_ok_def addToSet_def split: option.splits if_splits)

lemma set_of_addToSet: "set_of (addToSet key item m) = (set_of m)(key := insert item (set_of m key))"
  by (auto simp: set_of_def addToSet_def fun_eq_iff split: option.split)

lemma deleteFromSet_ok: "sets_ok m \<Longrightarrow> sets_ok (snd (deleteFromSet key item m))"
  by (auto simp: sets_ok_def deleteFromSet_def Let_def distinct_removeAll split: option.splits if_splits)

lemma set_of_empty_iff: "sets_ok m \<Longrightarrow> set_of m key = {} \<longleftrightarrow> map_of m key = None"
  by (auto simp: sets_ok_def set_of_def split: option.splits)

lemma deleteFromSet_eq:
  assumes "sets_ok m"
  shows "fst (deleteFromSet key item m) =
      (if set_of m key = {} then Inl (ArgumentError ''No set exists for key, cannot delete item.'')
       else Inr (item \<in> set_of m key))"
    "set_of (snd (deleteFromSet key item m)) = (set_of m)(key := set_of m key - {item})"
proof -
  show "fst (deleteFromSet key item m) =
      (if set_of m key = {} then Inl (ArgumentError ''No set exists for key, cannot delete item.'')
       else Inr (item \<in> set_of m key))"
    using set_of_empty_iff [OF assms, of key]
    by (auto simp: deleteFromSet_def set_of_def Let_def split: option.splits)
  have e: "set xs - {item} = {}" if "removeAll item xs = []" for xs
    using that by (metis set_removeAll empty_set)
  show "set_of (snd (deleteFromSet key item m)) = (set_of m)(key := set_of m key - {item})"
    by (auto simp: deleteFromSet_def set_of_def Let_def fun_eq_iff dest: e split: option.split)
qed

datatype ('k, 'v) set_call = AddToSet 'k 'v | DeleteFromSet 'k 'v

fun map_of_sets :: "('k, 'v) set_call \<Rightarrow> (('k, 'v) MapOfSets, bool) eff" where
  "map_of_sets (AddToSet key item) m = (Inr True, addToSet key item m)"
| "map_of_sets (DeleteFromSet key item) m = deleteFromSet key item m"

text \<open>The abstract map of sets.\<close>

fun spec_sets :: "('k, 'v) set_call \<Rightarrow> ('k \<Rightarrow> 'v set, bool) eff" where
  "spec_sets (AddToSet key item) m = (Inr True, m(key := insert item (m key)))"
| "spec_sets (DeleteFromSet key item) m =
     (if m key = {} then Inl (ArgumentError ''No set exists for key, cannot delete item.'') else Inr (item \<in> m key),
      m(key := m key - {item}))"

interpretation map_of_sets: refined_object map_of_sets spec_sets sets_ok "\<lambda>_ _. True" set_of
proof
  fix m :: "('k, 'v) MapOfSets" and c
  assume ok: "sets_ok m"
  show "sets_ok (snd (map_of_sets c m))"
    by (cases c) (simp_all add: ok addToSet_ok deleteFromSet_ok)
  show "spec_sets c (set_of m) = (fst (map_of_sets c m), set_of (snd (map_of_sets c m)))"
    by (cases c) (simp_all add: set_of_addToSet deleteFromSet_eq [OF ok])
qed

end
