(* ===== verification/AppointmentStore.thy ===== *)
theory AppointmentStore
  imports Appointment MapOfSets
begin

text \<open>
  The store of the appointments (src/src/watcher/store.ts): three indexes in memory over what the database
  holds.  The database is a key-value store of appointments in their stored form, whose batch is written
  or not as a whole; the stream a start reads lists its records in some order.

  \<open>addOrUpdateByLocator\<close> works on a locator under its lock, so it is one step.  \<open>removeById\<close> takes the lock only
  after it looked the appointment up and its deletion was awaited: its three parts are definitions of
  their own, \<open>removeById\<close> is a call that nothing interrupts, and \<open>removed_twice\<close> is one that is.  The objects in a \<open>Set\<close> are compared
  by reference: two appointments of a store never have the same id, so their values tell them apart.
\<close>

section \<open>The store\<close>

record AppointmentStore =
  mAppointmentsById :: "Appointment js_map"
  mAppointmentsByLocator :: "Appointment js_map"
  mAppointmentsByCustomerAddress :: "(string, Appointment) MapOfSets"
  appointmentDb :: "IAppointment js_map"

definition new_AppointmentStore :: "IAppointment js_map \<Rightarrow> AppointmentStore" where
  "new_AppointmentStore db =
     \<lparr>mAppointmentsById = [], mAppointmentsByLocator = [], mAppointmentsByCustomerAddress = [],
      appointmentDb = db\<rparr>"

definition index_appointment :: "Appointment \<Rightarrow> AppointmentStore \<Rightarrow> AppointmentStore" where
  "index_appointment appointment s =
     s\<lparr>mAppointmentsById := AList.update (appointment_id appointment) appointment (mAppointmentsById s),
       mAppointmentsByLocator := AList.update (locator appointment) appointment (mAppointmentsByLocator s),
       mAppointmentsByCustomerAddress :=
         addToSet (a_customerAddress appointment) appointment (mAppointmentsByCustomerAddress s)\<rparr>"

text \<open>The start loads every record of the stream.\<close>

fun load_appointments ::
  "BigNumberCodec \<Rightarrow> IAppointment list \<Rightarrow> (AppointmentStore, unit) eff" where
  "load_appointments bn [] s = (Inr (), s)"
| "load_appointments bn (rec # recs) s =
     (case fromIAppointment bn rec of
        Inl e \<Rightarrow> (Inl e, s)
      | Inr appointment \<Rightarrow> load_appointments bn recs (index_appointment appointment s))"

definition startInternal_appointments ::
  "BigNumberCodec \<Rightarrow> IAppointment js_map \<Rightarrow> (AppointmentStore, unit) eff" where
  "startInternal_appointments bn stream s = load_appointments bn (map snd stream) s"

definition on_customers ::
  "((string, Appointment) MapOfSets, bool) eff \<Rightarrow> (AppointmentStore, bool) eff" where
  "on_customers f s =
     (case f (mAppointmentsByCustomerAddress s) of (r, m) \<Rightarrow> (r, s\<lparr>mAppointmentsByCustomerAddress := m\<rparr>))"

definition addOrUpdateByLocator ::
  "BigNumberCodec \<Rightarrow> bool \<Rightarrow> Appointment \<Rightarrow> (AppointmentStore, unit) eff" where
  "addOrUpdateByLocator bn db_ok appointment s =
     (let currentAppointment = map_of (mAppointmentsByLocator s) (locator appointment) in
      if (case currentAppointment of None \<Rightarrow> False | Some current \<Rightarrow> a_nonce appointment \<le> a_nonce current)
      then (Inl (ApplicationError ''Nonce is not larger than current appointment nonce''), s)
      else if \<not> db_ok then (Inl (JsError ''batch write''), s)
      else
        let db = (case currentAppointment of
                    None \<Rightarrow> appointmentDb s | Some current \<Rightarrow> AList.delete (appointment_id current) (appointmentDb s));
            s1 = s\<lparr>appointmentDb := AList.update (appointment_id appointment) (toIAppointment bn appointment) db\<rparr>
        in then_eff
             (case currentAppointment of
                None \<Rightarrow> return_eff True
              | Some current \<Rightarrow> (\<lambda>s2. on_customers (deleteFromSet (a_customerAddress appointment) current)
                    (s2\<lparr>mAppointmentsById := AList.delete (appointment_id current) (mAppointmentsById s2)\<rparr>)))
             (\<lambda>s2. (Inr (), index_appointment appointment s2)) s1)"

text \<open>\<open>removeById\<close> looks the appointment up and asks the database to delete it; when that is done it forgets the id;
  and under the lock of the locator it forgets the rest.  Other calls may run before each part.\<close>

definition remove_lookup :: "string \<Rightarrow> AppointmentStore \<Rightarrow> Appointment option" where
  "remove_lookup appointmentId s = map_of (mAppointmentsById s) appointmentId"

definition remove_deleted :: "string \<Rightarrow> AppointmentStore \<Rightarrow> AppointmentStore" where
  "remove_deleted appointmentId s =
     s\<lparr>appointmentDb := AList.delete appointmentId (appointmentDb s),
       mAppointmentsById := AList.delete appointmentId (mAppointmentsById s)\<rparr>"

definition remove_locked :: "string \<Rightarrow> Appointment \<Rightarrow> (AppointmentStore, bool) eff" where
  "remove_locked appointmentId appointment s1 =
     (let stateLocator = locator appointment in
      case map_of (mAppointmentsByLocator s1) stateLocator of
        None \<Rightarrow> (Inl (ApplicationError ''Missing locator for id.''), s1)
      | Some currentAppointment \<Rightarrow>
          let s2 = (if appointment_id currentAppointment = appointmentId
                    then s1\<lparr>mAppointmentsByLocator := AList.delete stateLocator (mAppointmentsByLocator s1)\<rparr>
                    else s1)
          in then_eff (on_customers (deleteFromSet (a_customerAddress appointment) appointment))
               (return_eff True) s2)"

definition removeById :: "bool \<Rightarrow> string \<Rightarrow> (AppointmentStore, bool) eff" where
  "removeById db_ok appointmentId s =
     (case remove_lookup appointmentId s of
        None \<Rightarrow> (Inr False, s)
      | Some appointment \<Rightarrow>
          if \<not> db_ok then (Inl (JsError ''del''), s)
          else remove_locked appointmentId appointment (remove_deleted appointmentId s))"

lemmas removal_defs = remove_lookup_def remove_deleted_def remove_locked_def

definition getExpiredSince :: "int \<Rightarrow> AppointmentStore \<Rightarrow> Appointment list" where
  "getExpiredSince expiryBlock s =
     filter (\<lambda>appointment. a_endBlock appointment < expiryBlock) (map snd (mAppointmentsById s))"

definition getAll_appointments :: "AppointmentStore \<Rightarrow> Appointment list" where
  "getAll_appointments s = getExpiredSince max_safe_integer s"

section \<open>The indexes agree\<close>

text \<open>A customer address holds no bar: the address of an appointment that was validated is a hex string.\<close>

abbreviation clean :: "Appointment \<Rightarrow> bool" where
  "clean a \<equiv> CHR ''|'' \<notin> set (a_customerAddress a)"

definition indexes_ok :: "AppointmentStore \<Rightarrow> bool" where
  "indexes_ok s \<longleftrightarrow>
     js_wf (mAppointmentsById s) \<and>
     (\<forall>i a. map_of (mAppointmentsById s) i = Some a \<longrightarrow>
        appointment_id a = i \<and> clean a \<and> map_of (mAppointmentsByLocator s) (locator a) = Some a) \<and>
     (\<forall>l a. map_of (mAppointmentsByLocator s) l = Some a \<longrightarrow>
        locator a = l \<and> map_of (mAppointmentsById s) (appointment_id a) = Some a) \<and>
     sets_ok (mAppointmentsByCustomerAddress s) \<and>
     (\<forall>x. set_of (mAppointmentsByCustomerAddress s) x =
        {a. map_of (mAppointmentsById s) (appointment_id a) = Some a \<and> a_customerAddress a = x})"

lemma indexes_okD:
  assumes "indexes_ok s"
  shows "js_wf (mAppointmentsById s)"
    "map_of (mAppointmentsById s) i = Some a \<Longrightarrow> appointment_id a = i"
    "map_of (mAppointmentsById s) i = Some a \<Longrightarrow> clean a"
    "map_of (mAppointmentsById s) i = Some a \<Longrightarrow> map_of (mAppointmentsByLocator s) (locator a) = Some a"
    "map_of (mAppointmentsByLocator s) l = Some a \<Longrightarrow> locator a = l"
    "map_of (mAppointmentsByLocator s) l = Some a \<Longrightarrow> map_of (mAppointmentsById s) (appointment_id a) = Some a"
    "sets_ok (mAppointmentsByCustomerAddress s)"
    "set_of (mAppointmentsByCustomerAddress s) x =
       {a. map_of (mAppointmentsById s) (appointment_id a) = Some a \<and> a_customerAddress a = x}"
  using assms unfolding indexes_ok_def by auto

lemma indexes_okI:
  assumes "js_wf (mAppointmentsById s)" "sets_ok (mAppointmentsByCustomerAddress s)"
    "\<And>i a. map_of (mAppointmentsById s) i = Some a \<Longrightarrow>
       appointment_id a = i \<and> clean a \<and> map_of (mAppointmentsByLocator s) (locator a) = Some a"
    "\<And>l a. map_of (mAppointmentsByLocator s) l = Some a \<Longrightarrow>
       locator a = l \<and> map_of (mAppointmentsById s) (appointment_id a) = Some a"
    "\<And>x. set_of (mAppointmentsByCustomerAddress s) x =
       {a. map_of (mAppointmentsById s) (appointment_id a) = Some a \<and> a_customerAddress a = x}"
  shows "indexes_ok s"
  using assms unfolding indexes_ok_def by blast

lemma indexes_ok_cong:
  "mAppointmentsById s' = mAppointmentsById s \<Longrightarrow>
   map_of (mAppointmentsByLocator s') = map_of (mAppointmentsByLocator s) \<Longrightarrow>
   mAppointmentsByCustomerAddress s' = mAppointmentsByCustomerAddress s \<Longrightarrow> indexes_ok s' = indexes_ok s"
  by (simp add: indexes_ok_def)

lemma indexes_ok_new [simp]: "indexes_ok (new_AppointmentStore db)"
  by (simp add: indexes_ok_def new_AppointmentStore_def)

text \<open>Filing an appointment whose locator is free, and taking one out.\<close>

lemma index_ok:
  assumes ok: "indexes_ok s" and free: "map_of (mAppointmentsByLocator s) (locator a) = None" and a: "clean a"
  shows "indexes_ok (index_appointment a s)"
proof -
  note D = indexes_okD [OF ok]
  have new: "map_of (mAppointmentsById s) (appointment_id a) = None"
    using D(2,4) [of "appointment_id a"] free by (cases "map_of (mAppointmentsById s) (appointment_id a)") (auto simp: appointment_id_eq)
  let ?s = "index_appointment a s"
  have other: "locator b \<noteq> locator a" if "map_of (mAppointmentsById s) i = Some b" for i b
    using D(4) [OF that] free by auto
  have other': "appointment_id b \<noteq> appointment_id a" if "map_of (mAppointmentsByLocator s) l = Some b" for l b
    using D(6) [OF that] new by auto
  show ?thesis
  proof (rule indexes_okI)
    show "appointment_id b = i \<and> clean b \<and> map_of (mAppointmentsByLocator ?s) (locator b) = Some b"
      if "map_of (mAppointmentsById ?s) i = Some b" for i b
      using that other [of i b] D(2-4) [of i b] a by (simp add: index_appointment_def split: if_splits)
    show "locator b = l \<and> map_of (mAppointmentsById ?s) (appointment_id b) = Some b"
      if "map_of (mAppointmentsByLocator ?s) l = Some b" for l b
      using that other' [of l b] D(5,6) [of l b] by (simp add: index_appointment_def split: if_splits)
    show "set_of (mAppointmentsByCustomerAddress ?s) x =
        {b. map_of (mAppointmentsById ?s) (appointment_id b) = Some b \<and> a_customerAddress b = x}" for x
      using new by (auto simp: index_appointment_def set_of_addToSet D(8))
  qed (use D(1,7) in \<open>simp_all add: index_appointment_def addToSet_ok\<close>)
qed

definition unindex :: "Appointment \<Rightarrow> AppointmentStore \<Rightarrow> AppointmentStore" where
  "unindex a s =
     s\<lparr>mAppointmentsById := AList.delete (appointment_id a) (mAppointmentsById s),
       mAppointmentsByLocator := AList.delete (locator a) (mAppointmentsByLocator s),
       mAppointmentsByCustomerAddress :=
         snd (deleteFromSet (a_customerAddress a) a (mAppointmentsByCustomerAddress s))\<rparr>"

lemma unindex_ok:
  assumes ok: "indexes_ok s" and a: "map_of (mAppointmentsById s) (appointment_id a) = Some a"
  shows "indexes_ok (unindex a s)"
    "fst (deleteFromSet (a_customerAddress a) a (mAppointmentsByCustomerAddress s)) = Inr True"
proof -
  note D = indexes_okD [OF ok]
  let ?s = "unindex a s"
  have other: "locator b \<noteq> locator a" if "map_of (mAppointmentsById s) i = Some b" "i \<noteq> appointment_id a" for i b
    using D(2,4) [OF that(1)] D(4) [OF a] that(2) by (metis option.inject)
  have other': "appointment_id b \<noteq> appointment_id a" if "map_of (mAppointmentsByLocator s) l = Some b" "l \<noteq> locator a" for l b
    using D(5,6) [OF that(1)] a that(2) by (metis option.inject)
  show "indexes_ok ?s"
  proof (rule indexes_okI)
    show "appointment_id b = i \<and> clean b \<and> map_of (mAppointmentsByLocator ?s) (locator b) = Some b"
      if "map_of (mAppointmentsById ?s) i = Some b" for i b
      using that other [of i b] D(2-4) [of i b] by (simp add: unindex_def split: if_splits)
    show "locator b = l \<and> map_of (mAppointmentsById ?s) (appointment_id b) = Some b"
      if "map_of (mAppointmentsByLocator ?s) l = Some b" for l b
      using that other' [of l b] D(5,6) [of l b] by (simp add: unindex_def split: if_splits)
    show "set_of (mAppointmentsByCustomerAddress ?s) x =
        {b. map_of (mAppointmentsById ?s) (appointment_id b) = Some b \<and> a_customerAddress b = x}" for x
      using a by (auto simp: unindex_def deleteFromSet_eq(2) [OF D(7)] D(8))
  qed (use D(1,7) in \<open>simp_all add: unindex_def deleteFromSet_ok\<close>)
  show "fst (deleteFromSet (a_customerAddress a) a (mAppointmentsByCustomerAddress s)) = Inr True"
    using a by (auto simp: deleteFromSet_eq(1) [OF D(7)] D(8))
qed

section \<open>The abstract store\<close>

text \<open>One appointment per locator; the other indexes are views of it.\<close>

type_synonym appointments = "string \<Rightarrow> Appointment option"

definition abs_store :: "AppointmentStore \<Rightarrow> appointments" where
  "abs_store s = map_of (mAppointmentsByLocator s)"

datatype appointment_call =
    AddOrUpdate bool Appointment
  | RemoveById bool string
  | ExpiredSince int
  | ById string
  | ByLocator string
  | ByCustomer string
  | Restart "IAppointment js_map"

datatype appointment_answer = Done | Removed bool | Found "Appointment set"

definition map_eff :: "('a \<Rightarrow> 'b) \<Rightarrow> ('s, 'a) eff \<Rightarrow> ('s, 'b) eff" where
  "map_eff f m s = (case m s of (r, s') \<Rightarrow> (map_sum id f r, s'))"

fun appointment_store ::
  "BigNumberCodec \<Rightarrow> appointment_call \<Rightarrow> (AppointmentStore, appointment_answer) eff" where
  "appointment_store bn (AddOrUpdate db_ok a) s = map_eff (\<lambda>_. Done) (addOrUpdateByLocator bn db_ok a) s"
| "appointment_store bn (RemoveById db_ok i) s = map_eff Removed (removeById db_ok i) s"
| "appointment_store bn (ExpiredSince expiryBlock) s = (Inr (Found (set (getExpiredSince expiryBlock s))), s)"
| "appointment_store bn (ById i) s = (Inr (Found (set_option (map_of (mAppointmentsById s) i))), s)"
| "appointment_store bn (ByLocator l) s = (Inr (Found (set_option (map_of (mAppointmentsByLocator s) l))), s)"
| "appointment_store bn (ByCustomer x) s = (Inr (Found (set_of (mAppointmentsByCustomerAddress s) x)), s)"
| "appointment_store bn (Restart stream) s =
     map_eff (\<lambda>_. Done) (startInternal_appointments bn stream) (new_AppointmentStore (appointmentDb s))"

fun spec_store :: "appointment_call \<Rightarrow> (appointments, appointment_answer) eff" where
  "spec_store (AddOrUpdate db_ok a) m =
     (if \<exists>current. m (locator a) = Some current \<and> a_nonce a \<le> a_nonce current
      then (Inl (ApplicationError ''Nonce is not larger than current appointment nonce''), m)
      else if \<not> db_ok then (Inl (JsError ''batch write''), m)
      else (Inr Done, m(locator a \<mapsto> a)))"
| "spec_store (RemoveById db_ok i) m =
     (if \<forall>a\<in>ran m. appointment_id a \<noteq> i then (Inr (Removed False), m)
      else if \<not> db_ok then (Inl (JsError ''del''), m)
      else (Inr (Removed True), \<lambda>l. case m l of None \<Rightarrow> None | Some a \<Rightarrow> if appointment_id a = i then None else Some a))"
| "spec_store (ExpiredSince expiryBlock) m = (Inr (Found {a \<in> ran m. a_endBlock a < expiryBlock}), m)"
| "spec_store (ById i) m = (Inr (Found {a \<in> ran m. appointment_id a = i}), m)"
| "spec_store (ByLocator l) m = (Inr (Found (set_option (m l))), m)"
| "spec_store (ByCustomer x) m = (Inr (Found {a \<in> ran m. a_customerAddress a = x}), m)"
| "spec_store (Restart stream) m = (Inr Done, m)"

text \<open>The database holds the stored form of what is indexed.\<close>

definition appointments_ok :: "BigNumberCodec \<Rightarrow> AppointmentStore \<Rightarrow> bool" where
  "appointments_ok bn s \<longleftrightarrow> codec_ok bn \<and> indexes_ok s \<and>
     (\<forall>i. map_of (appointmentDb s) i = map_option (toIAppointment bn) (map_of (mAppointmentsById s) i))"

text \<open>The clients add validated appointments; a restart reads what the database holds.\<close>

fun appointment_call_ok :: "AppointmentStore \<Rightarrow> appointment_call \<Rightarrow> bool" where
  "appointment_call_ok s (AddOrUpdate db_ok a) \<longleftrightarrow> clean a"
| "appointment_call_ok s (Restart stream) \<longleftrightarrow> js_wf stream \<and> map_of stream = map_of (appointmentDb s)"
| "appointment_call_ok s _ \<longleftrightarrow> True"

lemma ran_abs_store:
  assumes "indexes_ok s"
  shows "ran (abs_store s) = set (map snd (mAppointmentsById s))"
    "a \<in> ran (abs_store s) \<longleftrightarrow> map_of (mAppointmentsById s) (appointment_id a) = Some a"
proof -
  note D = indexes_okD [OF assms]
  show iff: "a \<in> ran (abs_store s) \<longleftrightarrow> map_of (mAppointmentsById s) (appointment_id a) = Some a" for a
    using D(4,6) by (auto simp: abs_store_def ran_def)
  have "ran (map_of (mAppointmentsById s)) = set (map snd (mAppointmentsById s))"
    using D(1) by (simp add: js_wf_def ran_distinct)
  moreover have "ran (abs_store s) = ran (map_of (mAppointmentsById s))"
    by (auto simp: iff) (auto simp: ran_def dest: D(2))
  ultimately show "ran (abs_store s) = set (map snd (mAppointmentsById s))" by simp
qed

section \<open>The store implements it\<close>

lemma appointments_okD:
  assumes "appointments_ok bn s"
  shows "codec_ok bn" "indexes_ok s"
    "map_of (appointmentDb s) i = map_option (toIAppointment bn) (map_of (mAppointmentsById s) i)"
  using assms by (auto simp: appointments_ok_def)

lemma indexes_ok_db [simp]: "indexes_ok (s\<lparr>appointmentDb := db\<rparr>) = indexes_ok s"
  by (simp add: indexes_ok_def)

lemma abs_store_simps [simp]:
  "abs_store (s\<lparr>appointmentDb := db\<rparr>) = abs_store s"
  "abs_store (index_appointment a s) = (abs_store s)(locator a \<mapsto> a)"
  "abs_store (unindex a s) = (abs_store s)(locator a := None)"
  "abs_store (new_AppointmentStore db) = Map.empty"
  by (simp_all add: abs_store_def index_appointment_def unindex_def new_AppointmentStore_def)

text \<open>A failing call leaves the store as it is.\<close>

lemma store_failures:
  "map_of (mAppointmentsByLocator s) (locator a) = Some current \<Longrightarrow> a_nonce a \<le> a_nonce current \<Longrightarrow>
     addOrUpdateByLocator bn db_ok a s = (Inl (ApplicationError ''Nonce is not larger than current appointment nonce''), s)"
  "(\<And>current. map_of (mAppointmentsByLocator s) (locator a) = Some current \<Longrightarrow> a_nonce current < a_nonce a) \<Longrightarrow>
     addOrUpdateByLocator bn False a s = (Inl (JsError ''batch write''), s)"
  "map_of (mAppointmentsById s) i = None \<Longrightarrow> removeById db_ok i s = (Inr False, s)"
  "map_of (mAppointmentsById s) i = Some b \<Longrightarrow> removeById False i s = (Inl (JsError ''del''), s)"
  by (auto simp: addOrUpdateByLocator_def removeById_def removal_defs Let_def not_le split: option.splits)

lemma addOrUpdate_ok:
  assumes ok: "appointments_ok bn s" and a: "clean a"
    and newer: "\<And>current. map_of (mAppointmentsByLocator s) (locator a) = Some current \<Longrightarrow> a_nonce current < a_nonce a"
  obtains s' where "addOrUpdateByLocator bn True a s = (Inr (), s')" "appointments_ok bn s'"
    "abs_store s' = (abs_store s)(locator a \<mapsto> a)"
proof (cases "map_of (mAppointmentsByLocator s) (locator a)")
  case None
  let ?s' = "index_appointment a (s\<lparr>appointmentDb := AList.update (appointment_id a) (toIAppointment bn a) (appointmentDb s)\<rparr>)"
  have "addOrUpdateByLocator bn True a s = (Inr (), ?s')"
    by (simp add: addOrUpdateByLocator_def None Let_def)
  moreover have "indexes_ok ?s'"
    using appointments_okD(2) [OF ok] None a by (intro index_ok) simp_all
  then have "appointments_ok bn ?s'"
    using appointments_okD(1,3) [OF ok] by (simp add: appointments_ok_def index_appointment_def)
  ultimately show thesis using that by simp
next
  case (Some current)
  note D = appointments_okD [OF ok]
  have cur: "locator current = locator a" "map_of (mAppointmentsById s) (appointment_id current) = Some current"
    using indexes_okD(5,6) [OF D(2) Some] by auto
  then have "clean current" using indexes_okD(3) [OF D(2)] by blast
  then have addr: "a_customerAddress current = a_customerAddress a" using locator_eq [OF _ a] cur(1) by simp
  let ?db = "AList.update (appointment_id a) (toIAppointment bn a) (AList.delete (appointment_id current) (appointmentDb s))"
  let ?set = "mAppointmentsByCustomerAddress s"
  let ?s2 = "s\<lparr>appointmentDb := ?db, mAppointmentsById := AList.delete (appointment_id current) (mAppointmentsById s),
                mAppointmentsByCustomerAddress := snd (deleteFromSet (a_customerAddress a) current ?set)\<rparr>"
  obtain set' where del: "deleteFromSet (a_customerAddress a) current ?set = (Inr True, set')"
    using unindex_ok(2) [OF D(2) cur(2)] addr by (cases "deleteFromSet (a_customerAddress a) current ?set") auto
  have run: "addOrUpdateByLocator bn True a s = (Inr (), index_appointment a ?s2)"
    using newer [OF Some] by (simp add: addOrUpdateByLocator_def Some Let_def on_customers_def del then_eff_def bind_eff_def)
  have "indexes_ok (index_appointment a (unindex current s))"
    using unindex_ok(1) [OF D(2) cur(2)] a by (intro index_ok) (simp_all add: unindex_def cur(1))
  then have "indexes_ok (index_appointment a ?s2)"
    by (rule indexes_ok_cong [THEN iffD1, rotated 3])
      (simp_all add: index_appointment_def unindex_def addr cur(1))
  then have "appointments_ok bn (index_appointment a ?s2)"
    using D(1,3) by (simp add: appointments_ok_def index_appointment_def)
  with run show thesis using that by (simp add: abs_store_def index_appointment_def)
qed

lemma removeById_ok:
  assumes ok: "appointments_ok bn s" and a: "map_of (mAppointmentsById s) i = Some a"
  obtains s' where "removeById True i s = (Inr True, s')" "appointments_ok bn s'"
    "abs_store s' = (abs_store s)(locator a := None)"
proof -
  note D = appointments_okD [OF ok]
  have i: "i = appointment_id a" "map_of (mAppointmentsByLocator s) (locator a) = Some a"
    using indexes_okD(2,4) [OF D(2) a] by auto
  have a': "map_of (mAppointmentsById s) (appointment_id a) = Some a" using a i(1) by simp
  let ?s' = "(unindex a s)\<lparr>appointmentDb := AList.delete i (appointmentDb s)\<rparr>"
  obtain set' where del: "deleteFromSet (a_customerAddress a) a (mAppointmentsByCustomerAddress s) = (Inr True, set')"
    using unindex_ok(2) [OF D(2) a'] by (cases "deleteFromSet (a_customerAddress a) a (mAppointmentsByCustomerAddress s)") auto
  have "removeById True i s = (Inr True, ?s')"
    by (simp add: removeById_def removal_defs a' i Let_def on_customers_def del then_eff_def bind_eff_def unindex_def)
  moreover have "appointments_ok bn ?s'"
    using unindex_ok(1) [OF D(2) a'] D(1,3) i(1) by (simp add: appointments_ok_def) (simp add: unindex_def)
  ultimately show thesis using that by simp
qed

text \<open>Two calls for one appointment that both looked it up before either deletion was done: the first removes it,
  the second throws.\<close>

lemma removed_twice:
  assumes ok: "appointments_ok bn s" and a: "remove_lookup i s = Some a"
  obtains s1 where "remove_locked i a (remove_deleted i s) = (Inr True, s1)" "appointments_ok bn s1"
    "remove_locked i a (remove_deleted i s1) = (Inl (ApplicationError ''Missing locator for id.''), remove_deleted i s1)"
proof -
  from a have "map_of (mAppointmentsById s) i = Some a" by (simp add: remove_lookup_def)
  from removeById_ok [OF ok this] obtain s1 where
    s1: "removeById True i s = (Inr True, s1)" "appointments_ok bn s1" "abs_store s1 = (abs_store s)(locator a := None)" by blast
  from s1(1) a have "remove_locked i a (remove_deleted i s) = (Inr True, s1)" by (simp add: removeById_def)
  moreover have "map_of (mAppointmentsByLocator s1) (locator a) = None"
    using fun_cong [OF s1(3), of "locator a"] by (simp add: abs_store_def)
  then have "remove_locked i a (remove_deleted i s1) = (Inl (ApplicationError ''Missing locator for id.''), remove_deleted i s1)"
    by (simp add: remove_locked_def remove_deleted_def)
  ultimately show thesis using s1(2) that by blast
qed

text \<open>What the queries see.\<close>

lemma views_eq:
  assumes "indexes_ok s"
  shows "set (getExpiredSince e s) = {a \<in> ran (abs_store s). a_endBlock a < e}"
    "set_option (map_of (mAppointmentsById s) i) = {a \<in> ran (abs_store s). appointment_id a = i}"
    "set_option (map_of (mAppointmentsByLocator s) l) = set_option (abs_store s l)"
    "set_of (mAppointmentsByCustomerAddress s) x = {a \<in> ran (abs_store s). a_customerAddress a = x}"
proof -
  note D = indexes_okD [OF assms]
  show "set (getExpiredSince e s) = {a \<in> ran (abs_store s). a_endBlock a < e}"
    unfolding ran_abs_store(1) [OF assms] by (auto simp: getExpiredSince_def)
  show "set_option (map_of (mAppointmentsById s) i) = {a \<in> ran (abs_store s). appointment_id a = i}"
    using D(2) [of i] by (auto simp: ran_abs_store(2) [OF assms])
  show "set_of (mAppointmentsByCustomerAddress s) x = {a \<in> ran (abs_store s). a_customerAddress a = x}"
    by (simp add: ran_abs_store(2) [OF assms] D(8))
qed (simp add: abs_store_def)

text \<open>The index of the locators determines the index of the ids.\<close>

lemma byId_abs:
  "indexes_ok s \<Longrightarrow> map_of (mAppointmentsById s) i = Some a \<longleftrightarrow> abs_store s (locator a) = Some a \<and> appointment_id a = i"
  unfolding abs_store_def by (metis indexes_okD(2,4,6))

lemma byId_same:
  assumes "indexes_ok s" "indexes_ok s'" "abs_store s' = abs_store s"
  shows "map_of (mAppointmentsById s') = map_of (mAppointmentsById s)"
proof
  have "map_of (mAppointmentsById s') i = Some a \<longleftrightarrow> map_of (mAppointmentsById s) i = Some a" for i a
    by (simp add: byId_abs [OF assms(1)] byId_abs [OF assms(2)] assms(3))
  then show "map_of (mAppointmentsById s') i = map_of (mAppointmentsById s) i" for i by (metis not_None_eq)
qed

lemma load_appointments_ok:
  assumes "codec_ok bn" "indexes_ok s" "distinct (map locator as)"
    "\<And>a. a \<in> set as \<Longrightarrow> clean a \<and> abs_store s (locator a) = None"
  shows "\<exists>s'. load_appointments bn (map (toIAppointment bn) as) s = (Inr (), s') \<and> indexes_ok s' \<and>
    appointmentDb s' = appointmentDb s \<and>
    (\<forall>l a. abs_store s' l = Some a \<longleftrightarrow> abs_store s l = Some a \<or> a \<in> set as \<and> locator a = l)"
  using assms(2-4)
proof (induction as arbitrary: s)
  case (Cons a as)
  let ?s = "index_appointment a s"
  have "indexes_ok ?s"
    using Cons.prems(1,3) by (intro index_ok) (auto simp: abs_store_def)
  moreover have "clean b \<and> abs_store ?s (locator b) = None" if "b \<in> set as" for b
  proof -
    have "locator b \<noteq> locator a" using Cons.prems(2) that by (metis distinct.simps(2) image_eqI list.simps(9) set_map)
    with Cons.prems(3) [of b] that show ?thesis by simp
  qed
  moreover have "distinct (map locator as)" using Cons.prems(2) by simp
  ultimately obtain s' where
    s': "load_appointments bn (map (toIAppointment bn) as) ?s = (Inr (), s')" "indexes_ok s'"
      "appointmentDb s' = appointmentDb ?s"
      "\<And>l b. abs_store s' l = Some b \<longleftrightarrow> abs_store ?s l = Some b \<or> b \<in> set as \<and> locator b = l"
    using Cons.IH by blast
  have "abs_store s' l = Some b \<longleftrightarrow> abs_store s l = Some b \<or> b \<in> set (a # as) \<and> locator b = l" for l b
    unfolding s'(4) using Cons.prems(3) [of a] by auto
  moreover have "appointmentDb s' = appointmentDb s" using s'(3) by (simp add: index_appointment_def)
  ultimately show ?case
    using s'(1,2) by (intro exI [of _ s']) (simp add: appointment_roundtrips(1) [OF assms(1)])
qed simp

text \<open>The stream of a start lists the records of the appointments of the store.\<close>

lemma stream_of_store:
  assumes ok: "appointments_ok bn s" and st: "js_wf stream" "map_of stream = map_of (appointmentDb s)"
  obtains as where "map snd stream = map (toIAppointment bn) as" "distinct (map locator as)"
    "\<And>b. b \<in> set as \<longleftrightarrow> abs_store s (locator b) = Some b"
proof -
  note D = appointments_okD [OF ok]
  let ?a = "\<lambda>x. the (map_of (mAppointmentsById s) (fst x))"
  have rec: "map_of (mAppointmentsById s) i = Some (?a (i, r)) \<and> r = toIAppointment bn (?a (i, r))" if "(i, r) \<in> set stream" for i r
  proof -
    have "map_of (appointmentDb s) i = Some r" using st that by (simp add: js_wf_def flip: st(2))
    with D(3) [of i] show ?thesis by (cases "map_of (mAppointmentsById s) i") auto
  qed
  have R: "map_of (mAppointmentsById s) (fst z) = Some (?a z)" if "z \<in> set stream" for z
    using rec [of "fst z" "snd z"] that by simp
  have "inj_on (\<lambda>x. locator (?a x)) (set stream)"
  proof (rule inj_onI)
    fix x y assume xy: "x \<in> set stream" "y \<in> set stream" "locator (?a x) = locator (?a y)"
    have "?a x = ?a y"
      using indexes_okD(4) [OF D(2) R [OF xy(1)]] indexes_okD(4) [OF D(2) R [OF xy(2)]] xy(3) by (metis option.inject)
    then have "fst x = fst y"
      using indexes_okD(2) [OF D(2) R [OF xy(1)]] indexes_okD(2) [OF D(2) R [OF xy(2)]] by metis
    moreover have "inj_on fst (set stream)" using st(1) by (simp add: js_wf_def distinct_map)
    ultimately show "x = y" using xy(1,2) by (simp add: inj_on_def)
  qed
  then have "distinct (map locator (map ?a stream))"
    using st(1) by (simp add: js_wf_def distinct_map comp_def)
  moreover have "map snd stream = map (toIAppointment bn) (map ?a stream)" using rec by auto
  moreover have "b \<in> set (map ?a stream) \<longleftrightarrow> abs_store s (locator b) = Some b" for b
  proof
    assume "b \<in> set (map ?a stream)"
    then obtain z where "z \<in> set stream" "b = ?a z" by auto
    with R [of z] indexes_okD(4) [OF D(2)] show "abs_store s (locator b) = Some b" by (auto simp: abs_store_def)
  next
    assume b: "abs_store s (locator b) = Some b"
    then have N: "map_of (mAppointmentsById s) (appointment_id b) = Some b"
      using indexes_okD(5,6) [OF D(2)] by (auto simp: abs_store_def)
    then have "map_of stream (appointment_id b) = Some (toIAppointment bn b)" using D(3) st(2) by simp
    then have "(appointment_id b, toIAppointment bn b) \<in> set stream" by (rule map_of_SomeD)
    then have "?a (appointment_id b, toIAppointment bn b) \<in> set (map ?a stream)" unfolding set_map by (rule imageI)
    then show "b \<in> set (map ?a stream)" using N by simp
  qed
  ultimately show thesis using that by blast
qed

lemma restart_ok:
  assumes ok: "appointments_ok bn s" and st: "js_wf stream" "map_of stream = map_of (appointmentDb s)"
  obtains s' where "startInternal_appointments bn stream (new_AppointmentStore (appointmentDb s)) = (Inr (), s')"
    "appointments_ok bn s'" "abs_store s' = abs_store s"
proof -
  note D = appointments_okD [OF ok]
  obtain as where as: "map snd stream = map (toIAppointment bn) as" "distinct (map locator as)"
    "\<And>b. b \<in> set as \<longleftrightarrow> abs_store s (locator b) = Some b" using assms by (rule stream_of_store) blast
  have in_store: "abs_store s l = Some b \<longleftrightarrow> b \<in> set as \<and> locator b = l" for l b
    using as(3) [of b] indexes_okD(5) [OF D(2), of l b] by (auto simp: abs_store_def)
  have "clean b \<and> abs_store (new_AppointmentStore (appointmentDb s)) (locator b) = None" if "b \<in> set as" for b
    using that as(3) indexes_okD(3) [OF D(2) indexes_okD(6) [OF D(2)]] by (auto simp: abs_store_def new_AppointmentStore_def)
  then obtain s' where
    s': "startInternal_appointments bn stream (new_AppointmentStore (appointmentDb s)) = (Inr (), s')" "indexes_ok s'"
      "appointmentDb s' = appointmentDb s"
      "\<And>l b. abs_store s' l = Some b \<longleftrightarrow> b \<in> set as \<and> locator b = l"
    using load_appointments_ok [OF D(1) indexes_ok_new as(2), of "appointmentDb s"]
    by (auto simp: startInternal_appointments_def as(1)) (auto simp: new_AppointmentStore_def)
  have eq: "abs_store s' = abs_store s"
  proof
    show "abs_store s' l = abs_store s l" for l using s'(4) [of l] in_store [of l] by (metis not_None_eq)
  qed
  have "appointments_ok bn s'"
    using D(1,3) s'(2,3) byId_same [OF D(2) s'(2) eq] by (simp add: appointments_ok_def)
  with s'(1) eq show thesis using that by blast
qed

lemma addOrUpdate_sim:
  assumes ok: "appointments_ok bn s" and c: "appointment_call_ok s (AddOrUpdate db_ok a)"
  shows "appointments_ok bn (snd (appointment_store bn (AddOrUpdate db_ok a) s)) \<and>
    spec_store (AddOrUpdate db_ok a) (abs_store s) =
      (fst (appointment_store bn (AddOrUpdate db_ok a) s), abs_store (snd (appointment_store bn (AddOrUpdate db_ok a) s)))"
proof (cases "\<exists>current. map_of (mAppointmentsByLocator s) (locator a) = Some current \<and> a_nonce a \<le> a_nonce current")
  case True
  with ok show ?thesis by (auto simp: map_eff_def store_failures(1) abs_store_def)
next
  case False
  then have newer: "\<And>current. map_of (mAppointmentsByLocator s) (locator a) = Some current \<Longrightarrow> a_nonce current < a_nonce a"
    by force
  show ?thesis
  proof (cases db_ok)
    case True
    obtain s' where "addOrUpdateByLocator bn True a s = (Inr (), s')" "appointments_ok bn s'"
      "abs_store s' = (abs_store s)(locator a \<mapsto> a)"
      by (rule addOrUpdate_ok [OF ok _ newer]) (use c in auto)
    with True False show ?thesis by (auto simp: map_eff_def abs_store_def)
  next
    case no_db: False
    with ok False store_failures(2) [OF newer] show ?thesis by (auto simp: map_eff_def abs_store_def)
  qed
qed

text \<open>The appointments without the one of an id are those without the one of its locator.\<close>

lemma abs_store_without:
  assumes ok: "indexes_ok s" and a: "map_of (mAppointmentsById s) i = Some a"
  shows "(\<lambda>l. case abs_store s l of None \<Rightarrow> None | Some b \<Rightarrow> if appointment_id b = i then None else Some b) =
    (abs_store s)(locator a := None)"
proof
  fix l
  note N = indexes_okD(2,4) [OF ok a]
  show "(case abs_store s l of None \<Rightarrow> None | Some b \<Rightarrow> if appointment_id b = i then None else Some b) =
      ((abs_store s)(locator a := None)) l"
  proof (cases "abs_store s l")
    case l: (Some b)
    then have "locator b = l" "appointment_id b = i \<longrightarrow> b = a"
      using indexes_okD(5,6) [OF ok, of l b] a by (auto simp: abs_store_def)
    moreover have "l = locator a \<Longrightarrow> b = a" using l N(2) by (simp add: abs_store_def)
    ultimately have "appointment_id b = i \<longleftrightarrow> l = locator a" using N(1) by metis
    with l show ?thesis by simp
  qed simp
qed

lemma removeById_sim:
  assumes ok: "appointments_ok bn s"
  shows "appointments_ok bn (snd (appointment_store bn (RemoveById db_ok i) s)) \<and>
    spec_store (RemoveById db_ok i) (abs_store s) =
      (fst (appointment_store bn (RemoveById db_ok i) s), abs_store (snd (appointment_store bn (RemoveById db_ok i) s)))"
proof -
  note D = appointments_okD [OF ok]
  have ran: "(\<forall>a\<in>ran (abs_store s). appointment_id a \<noteq> i) \<longleftrightarrow> map_of (mAppointmentsById s) i = None"
    using ran_abs_store(2) [OF D(2)] indexes_okD(2) [OF D(2), of i] by (cases "map_of (mAppointmentsById s) i") auto
  show ?thesis
  proof (cases "map_of (mAppointmentsById s) i")
    case None
    with ok ran show ?thesis by (simp add: map_eff_def store_failures(3))
  next
    case (Some a)
    show ?thesis
    proof (cases db_ok)
      case False
      with ok ran Some show ?thesis by (simp add: map_eff_def store_failures(4))
    next
      case True
      obtain s' where "removeById True i s = (Inr True, s')" "appointments_ok bn s'"
        "abs_store s' = (abs_store s)(locator a := None)" by (rule removeById_ok [OF ok Some])
      with True ran Some abs_store_without [OF D(2) Some] show ?thesis by (simp add: map_eff_def)
    qed
  qed
qed

lemma appointment_store_sim:
  assumes ok: "appointments_ok bn s" and c: "appointment_call_ok s c"
  shows "appointments_ok bn (snd (appointment_store bn c s)) \<and>
    spec_store c (abs_store s) = (fst (appointment_store bn c s), abs_store (snd (appointment_store bn c s)))"
proof (cases c)
  case (AddOrUpdate db_ok a)
  with addOrUpdate_sim [OF ok, of db_ok a] c show ?thesis by (simp only:)
next
  case (RemoveById db_ok i)
  with removeById_sim [OF ok, of db_ok i] show ?thesis by (simp only:)
next
  case (Restart stream)
  obtain s' where "startInternal_appointments bn stream (new_AppointmentStore (appointmentDb s)) = (Inr (), s')"
    "appointments_ok bn s'" "abs_store s' = abs_store s"
    by (rule restart_ok [OF ok, of stream]) (use c Restart in auto)
  with Restart show ?thesis by (simp add: map_eff_def)
qed (use ok in \<open>simp_all add: views_eq appointments_okD(2)\<close>)

interpretation appointments: refined_object "appointment_store bn" spec_store "appointments_ok bn" appointment_call_ok abs_store
  for bn
  by unfold_locales (use appointment_store_sim in auto)

section \<open>Properties\<close>

lemma appointments_ok_new: "codec_ok bn \<Longrightarrow> appointments_ok bn (new_AppointmentStore [])"
  by (simp add: appointments_ok_def) (simp add: new_AppointmentStore_def)

text \<open>C28: The store implements a map with one appointment per locator: through any calls, one after the other, with failed writes
  and restarts on the database, every call answers, or throws, what the abstract map does, where an
  appointment is replaced only by one with a larger nonce, an id names at most one appointment, and the
  indexes by id and by customer are views of the map.\<close>

theorem appointment_store_refines:
  assumes "appointments_ok bn s" "all_calls (appointment_store bn) appointment_call_ok cs s"
  shows "run_calls spec_store cs (abs_store s) =
    (fst (run_calls (appointment_store bn) cs s), abs_store (snd (run_calls (appointment_store bn) cs s)))"
  by (rule appointments.run_refines(1) [OF assms])

definition ex_appointment :: "int \<Rightarrow> Appointment" where
  "ex_appointment n =
     \<lparr>a_contractAddress = ''0xc'', a_customerAddress = ''0xa'', a_startBlock = 10, a_endBlock = 200,
      a_challengePeriod = 100, a_customerChosenId = ''0x1'', a_nonce = n, a_data = ''0x'', a_refund = 0,
      a_gasLimit = 100000, a_mode = 1, a_eventAddress = ''0xe'', a_topics = [], a_preCondition = ''0x'',
      a_postCondition = ''0x'', a_paymentHash = ''0xf'', a_customerSig = ''0xs''\<rparr>"

text \<open>A replacement, a refused replacement, and a removal by the id of the replaced appointment.\<close>

definition ex_store_calls :: "appointment_call list" where
  "ex_store_calls =
     [AddOrUpdate True (ex_appointment 0), AddOrUpdate True (ex_appointment 1),
      AddOrUpdate True (ex_appointment 1), RemoveById True (appointment_id (ex_appointment 0)),
      ByCustomer ''0xa'', RemoveById True (appointment_id (ex_appointment 1))]"

theorem appointment_store_refines_witness:
  "fst (run_calls (appointment_store unary_codec) ex_store_calls (new_AppointmentStore [])) =
     [Inr Done, Inr Done, Inl (ApplicationError ''Nonce is not larger than current appointment nonce''),
      Inr (Removed False), Inr (Found {ex_appointment 1}), Inr (Removed True)]"
proof -
  have "\<not> (CHR ''|'' \<in> set (a_customerAddress (ex_appointment n)))" "a_nonce (ex_appointment n) = n"
    "locator (ex_appointment n) = ''0xa|0x1''" "a_customerAddress (ex_appointment n) = ''0xa''" for n
    by (simp_all add: ex_appointment_def locator_def)
  note ex = this
  have "all_calls (appointment_store unary_codec) appointment_call_ok ex_store_calls (new_AppointmentStore [])"
    by (simp add: ex_store_calls_def ex)
  note R = appointment_store_refines [OF appointments_ok_new [OF unary_codec_ok] this]
  have "fst (run_calls spec_store ex_store_calls Map.empty) =
     [Inr Done, Inr Done, Inl (ApplicationError ''Nonce is not larger than current appointment nonce''),
      Inr (Removed False), Inr (Found {ex_appointment 1}), Inr (Removed True)]"
    by (auto simp: ex_store_calls_def ex appointment_id_eq)
  with R show ?thesis by simp
qed

end
