(* ===== verification/Tower.thy ===== *)
theory Tower
  imports AppointmentStore MultiResponder
begin

text \<open>
  The tower (src/src/tower.ts): a request is parsed and validated, a relay appointment is handed to the
  responder at once, any other is put into the store the watcher reads, and the customer gets it back
  signed.

  The wallet that signs is an argument; the environment of the call says what the estimator, the databases
  and the node answer.
\<close>

section \<open>Adding an appointment\<close>

record PisaTower =
  tower_store :: AppointmentStore
  multiResponder :: MultiResponder

record TowerConfig =
  ethers :: Ethers
  bignumber :: BigNumberCodec
  signMessage :: "string \<Rightarrow> string result"
  wallet_address :: string
  pisaContractAddress :: string

text \<open>The values for which \<open>!obj\<close> holds.\<close>

fun falsy :: "json \<Rightarrow> bool" where
  "falsy JNull \<longleftrightarrow> True"
| "falsy (JBool b) \<longleftrightarrow> \<not> b"
| "falsy (JNumber n) \<longleftrightarrow> n = 0"
| "falsy (JString s) \<longleftrightarrow> s = []"
| "falsy _ \<longleftrightarrow> False"

definition lift_result :: "'a result \<Rightarrow> ('s, 'a) eff" where
  "lift_result r s = (r, s)"

definition add_to_responder ::
  "TowerConfig \<Rightarrow> Env \<Rightarrow> Appointment \<Rightarrow> (PisaTower, unit) eff" where
  "add_to_responder cfg env appointment this =
     (case bind_result (encodeForResponse (ethers cfg) appointment) (\<lambda>responseData.
             startResponse (bignumber cfg) env (multiResponder this) (pisaContractAddress cfg) responseData
               (a_gasLimit appointment + PisaGasAllowance) (appointment_id appointment) (a_startBlock appointment)
               (a_startBlock appointment + a_challengePeriod appointment)) of
        Inl e \<Rightarrow> (Inl e, this)
      | Inr responder \<Rightarrow> (Inr (), this\<lparr>multiResponder := responder\<rparr>))"

definition add_to_store ::
  "TowerConfig \<Rightarrow> bool \<Rightarrow> Appointment \<Rightarrow> (PisaTower, unit) eff" where
  "add_to_store cfg db_ok appointment this =
     (if (case map_of (mAppointmentsByLocator (tower_store this)) (locator appointment) of
            None \<Rightarrow> True | Some currentAppointment \<Rightarrow> a_nonce appointment > a_nonce currentAppointment)
      then (case addOrUpdateByLocator (bignumber cfg) db_ok appointment (tower_store this) of
              (r, store) \<Rightarrow> (r, this\<lparr>tower_store := store\<rparr>))
      else (Inl (PublicDataValidationError ''Appointment already exists and nonce too low.''), this))"

definition addAppointment ::
  "TowerConfig \<Rightarrow> ('b IBlockStub_scheme, 's) BlockCache \<Rightarrow> Env \<Rightarrow> bool \<Rightarrow> json \<Rightarrow> (PisaTower, SignedAppointment) eff" where
  "addAppointment cfg blockCache env db_ok obj =
     (if falsy obj then throw_eff (PublicDataValidationError ''Json request body empty.'')
      else
        bind_eff (lift_result (parse (bignumber cfg) obj)) (\<lambda>appointment.
        bind_eff (lift_result (validate (ethers cfg) blockCache (pisaContractAddress cfg) appointment)) (\<lambda>_.
        bind_eff (if a_mode appointment = Relay then add_to_responder cfg env appointment
                  else add_to_store cfg db_ok appointment) (\<lambda>_.
        bind_eff (lift_result (
            bind_result (encodeForSig (ethers cfg) appointment (pisaContractAddress cfg)) (\<lambda>encoded.
            bind_result (arrayify (ethers cfg) (keccak256 (ethers cfg) encoded)) (signMessage cfg)))) (\<lambda>sig.
          return_eff \<lparr>signed_appointment = appointment, signerAddress = wallet_address cfg, signature = sig\<rparr>)))))"

lemma bind_eff_InrD:
  "bind_eff m f s = (Inr y, s') \<longleftrightarrow> (\<exists>x s1. m s = (Inr x, s1) \<and> f x s1 = (Inr y, s'))"
  by (auto simp: bind_eff_def split: prod.splits sum.splits)

lemma lift_result_iff [simp]: "lift_result r s = (Inr x, s') \<longleftrightarrow> r = Inr x \<and> s' = s"
  by (auto simp: lift_result_def)

section \<open>Accepted appointments\<close>

text \<open>The signer of a message is an address, and so the customer of a validated appointment has no bar.\<close>

definition signers_clean :: "Ethers \<Rightarrow> bool" where
  "signers_clean eth \<longleftrightarrow> (\<forall>h sig signer. verifyMessage eth h sig = Inr signer \<longrightarrow> CHR ''|'' \<notin> set signer)"

lemma lower_bar: "lower_char c = CHR ''|'' \<longleftrightarrow> c = CHR ''|''"
proof -
  have bar: "(of_char CHR ''|'' :: nat) = 124" "lower_char CHR ''|'' = CHR ''|''" by code_simp+
  show ?thesis
  proof (cases "65 \<le> (of_char c :: nat) \<and> (of_char c :: nat) \<le> 90")
    case True
    then have "(of_char (lower_char c) :: nat) \<le> 122" by (simp add: lower_char_def Let_def)
    with True bar(1) have "lower_char c \<noteq> CHR ''|''" "c \<noteq> CHR ''|''" by fastforce+
    then show ?thesis by blast
  next
    case False
    then have "lower_char c = c" by (auto simp: lower_char_def Let_def)
    then show ?thesis by simp
  qed
qed

lemma validated_clean:
  assumes "validate eth c pisa a = Inr ()" "signers_clean eth"
  shows "clean a"
proof -
  from assms obtain signer where s: "toLowerCase signer = toLowerCase (a_customerAddress a)" "CHR ''|'' \<notin> set signer"
    unfolding validate_iff signers_clean_def by blast
  have bar: "CHR ''|'' \<in> set (toLowerCase x) \<longleftrightarrow> CHR ''|'' \<in> set x" for x
    unfolding toLowerCase_def set_map image_iff using lower_bar by metis
  show ?thesis using bar [of signer] bar [of "a_customerAddress a"] s by metis
qed

lemma parse_well_typed:
  assumes "parse bn obj = Inr a"
  shows "well_typed a"
proof -
  note P = parse_InrD [OF assms]
  from P(1) obtain members where obj: "obj = JObject members" by (cases obj) auto
  note S = schema_int [OF P(1) [unfolded obj]]
  have props: "map_of schema_properties ''startBlock'' = Some (integer_in 0 max_safe_integer)"
    "map_of schema_properties ''endBlock'' = Some (integer_in 0 max_safe_integer)"
    "map_of schema_properties ''nonce'' = Some (integer_in 0 max_safe_integer)"
    "map_of schema_properties ''challengePeriod'' = Some (integer_in 100 60000)"
    "map_of schema_properties ''gasLimit'' = Some (integer_in 0 2000000)"
    "map_of schema_properties ''mode'' = Some (integer_in 0 1)"
    by (simp_all add: schema_properties_def)
  note S' = S [OF map_of_SomeD]
  have a: "a_refund a = 0" "a_startBlock a = int_prop members ''startBlock''" "a_endBlock a = int_prop members ''endBlock''"
    "a_nonce a = int_prop members ''nonce''" "a_challengePeriod a = int_prop members ''challengePeriod''"
    "a_gasLimit a = int_prop members ''gasLimit''" "a_mode a = int_prop members ''mode''" "a_topics a = topics_prop members"
    using P(2,3) by (auto simp: fromIAppointmentRequest_def as_request_def obj Let_def)
  have "int_prop members ''mode'' = 0 \<or> int_prop members ''mode'' = 1"
    using S' [OF props(6) props(6)] by arith
  then show ?thesis
    using schema_topics [OF P(1) [unfolded obj]] S' [OF props(1) props(1)] S' [OF props(2) props(2)] S' [OF props(3) props(3)]
      S' [OF props(4) props(4)] S' [OF props(5) props(5)]
    by (auto simp: well_typed_def a Relay_def EventTriggered_def)
qed

section \<open>Properties\<close>

text \<open>A request, and a cache whose head is at height 5.\<close>

definition ex_request :: "int \<Rightarrow> string \<Rightarrow> json list \<Rightarrow> json" where
  "ex_request m eventAddress' topics = JObject
     [(''challengePeriod'', JNumber 100), (''contractAddress'', JString ''0xc''), (''customerAddress'', JString ''0xa''),
      (''customerSig'', JString ''0xa''), (''data'', JString ''0x''), (''endBlock'', JNumber 200),
      (''eventAddress'', JString eventAddress'), (''gasLimit'', JNumber 100000), (''id'', JString ''0x1''),
      (''nonce'', JNumber 1), (''mode'', JNumber m), (''paymentHash'', JString ''on-the-house''),
      (''preCondition'', JString ''0x''), (''postCondition'', JString ''0x''), (''refund'', JString ''+''),
      (''startBlock'', JNumber 5), (''topics'', JArray topics)]"

definition ex_head :: "(unit IBlockStub_ext, unit) BlockCache" where
  "ex_head = (let b = \<lparr>block_hash = ''g'', number = 5, parentHash = ''x''\<rparr>;
       s = snd (block_set 5 ''g'' b ((new_BlockItemStore [])\<lparr>mBatch := Some []\<rparr>))
     in (new_BlockCache 10 s)\<lparr>headHash := Some ''g''\<rparr>)"

definition ex_config :: TowerConfig where
  "ex_config = \<lparr>ethers = ex_ethers, bignumber = unary_codec, signMessage = Inr, wallet_address = ''0xw'',
                pisaContractAddress = ''0xp''\<rparr>"

definition ex_empty_env :: Env where
  "ex_empty_env = \<lparr>estimate = (\<lambda>endBlock. Inr 1), write_ok = True, accepts = (\<lambda>tx. True), balance = Inr 0, balanceThreshold = 0\<rparr>"

definition ex_tower :: "int \<Rightarrow> PisaTower" where
  "ex_tower depth =
     \<lparr>tower_store = new_AppointmentStore [],
      multiResponder = \<lparr>chainId = 1, zStore = new_ResponderStore [] ''0xw'' (ex_seed\<lparr>maxQueueDepth := depth\<rparr>), sent = []\<rparr>\<rparr>"

text \<open>C29: What the tower accepts is well typed and valid: an appointment that comes back signed is the parsed
  request, within the bounds of the schema, between 100 and 60000 blocks long, with its customer's
  signature.  If it waits for an event it is now the appointment of its locator, in place of one with a
  smaller nonce only, and the responder is untouched; if it is a relay the store is untouched.\<close>

theorem accepted_appointment:
  assumes "appointments_ok (bignumber cfg) (tower_store t)" "signers_clean (ethers cfg)"
    "addAppointment cfg c env db_ok obj t = (Inr signed, t')" "signed_appointment signed = a"
  shows "parse (bignumber cfg) obj = Inr a \<and> well_typed a \<and>
    a_startBlock a + 100 \<le> a_endBlock a \<and> a_endBlock a \<le> a_startBlock a + 60000 \<and>
    (\<exists>e h signer. encodeForSig (ethers cfg) a (pisaContractAddress cfg) = Inr e \<and>
       arrayify (ethers cfg) (keccak256 (ethers cfg) e) = Inr h \<and>
       verifyMessage (ethers cfg) h (a_customerSig a) = Inr signer \<and> toLowerCase signer = toLowerCase (a_customerAddress a)) \<and>
    appointments_ok (bignumber cfg) (tower_store t') \<and>
    (if a_mode a = Relay then tower_store t' = tower_store t
     else multiResponder t' = multiResponder t \<and>
       abs_store (tower_store t') = (abs_store (tower_store t))(locator a \<mapsto> a) \<and>
       (\<forall>b. abs_store (tower_store t) (locator a) = Some b \<longrightarrow> a_nonce b < a_nonce a))"
proof -
  from assms(3) have run: "parse (bignumber cfg) obj = Inr a"
    "validate (ethers cfg) c (pisaContractAddress cfg) a = Inr ()"
    "(if a_mode a = Relay then add_to_responder cfg env a else add_to_store cfg db_ok a) t = (Inr (), t')"
    using assms(4) by (auto simp: addAppointment_def bind_eff_InrD split: if_splits)
  have "appointments_ok (bignumber cfg) (tower_store t') \<and>
    (if a_mode a = Relay then tower_store t' = tower_store t
     else multiResponder t' = multiResponder t \<and>
       abs_store (tower_store t') = (abs_store (tower_store t))(locator a \<mapsto> a) \<and>
       (\<forall>b. abs_store (tower_store t) (locator a) = Some b \<longrightarrow> a_nonce b < a_nonce a))"
  proof (cases "a_mode a = Relay")
    case True
    with run(3) assms(1) show ?thesis by (auto simp: add_to_responder_def split: sum.splits)
  next
    case False
    have newer: "a_nonce b < a_nonce a" if "map_of (mAppointmentsByLocator (tower_store t)) (locator a) = Some b" for b
      using run(3) False that by (auto simp: add_to_store_def split: if_splits)
    have store: "(case addOrUpdateByLocator (bignumber cfg) db_ok a (tower_store t) of
        (r, store) \<Rightarrow> (r, t\<lparr>tower_store := store\<rparr>)) = (Inr (), t')"
      using run(3) False by (auto simp: add_to_store_def split: if_splits)
    moreover have db_ok
    proof (rule ccontr)
      assume "\<not> db_ok"
      with store store_failures(2) [OF newer] show False by auto
    qed
    moreover obtain s' where "addOrUpdateByLocator (bignumber cfg) True a (tower_store t) = (Inr (), s')"
      "appointments_ok (bignumber cfg) s'" "abs_store s' = (abs_store (tower_store t))(locator a \<mapsto> a)"
      by (rule addOrUpdate_ok [OF assms(1) validated_clean [OF run(2) assms(2)] newer])
    ultimately show ?thesis using newer False by (auto simp: abs_store_def)
  qed
  moreover note parse_well_typed [OF run(1)] run(2) [unfolded validate_iff]
  ultimately show ?thesis using run(1) by blast
qed

theorem accepted_appointment_witness:
  "\<exists>signed t'. addAppointment ex_config ex_head ex_empty_env True (ex_request 1 ''0xe'' [JNull]) (ex_tower 13) = (Inr signed, t') \<and>
     abs_store (tower_store t') ''0xa|0x1'' = Some (signed_appointment signed) \<and> well_typed (signed_appointment signed)"
proof -
  let ?run = "addAppointment ex_config ex_head ex_empty_env True (ex_request 1 ''0xe'' [JNull]) (ex_tower 13)"
  have "case ?run of (Inr signed, t') \<Rightarrow> a_mode (signed_appointment signed) = 1 \<and> locator (signed_appointment signed) = ''0xa|0x1''
      | _ \<Rightarrow> False" by code_simp
  then obtain signed t' where run: "?run = (Inr signed, t')" "a_mode (signed_appointment signed) = 1"
    "locator (signed_appointment signed) = ''0xa|0x1''" by (auto split: prod.splits sum.splits)
  have "appointments_ok (bignumber ex_config) (tower_store (ex_tower 13))" "signers_clean (ethers ex_config)"
    by (simp_all add: ex_config_def ex_tower_def appointments_ok_new unary_codec_ok signers_clean_def ex_ethers_def split: if_splits)
  from accepted_appointment [OF this run(1) refl] run(2,3) have
    "abs_store (tower_store t') ''0xa|0x1'' = Some (signed_appointment signed) \<and> well_typed (signed_appointment signed)"
    by (simp add: Relay_def)
  with run(1) show ?thesis by blast
qed

text \<open>A relay appointment is signed even when nothing was done for it: with the queue of the responder full,
  the tower returns its signature and leaves responder and store as they were, so the transaction will
  never be sent.\<close>

lemma relay_receipt_without_response:
  assumes "\<not> falsy obj" "parse (bignumber cfg) obj = Inr a" "validate (ethers cfg) c (pisaContractAddress cfg) a = Inr ()"
    "a_mode a = Relay" "encodeForResponse (ethers cfg) a = Inr d" "\<And>h. \<exists>sig. signMessage cfg h = Inr sig"
    "depthReached (queue (multiResponder t))"
  shows "\<exists>signed. addAppointment cfg c env db_ok obj t = (Inr signed, t) \<and> signed_appointment signed = a"
proof -
  from assms(3) obtain e h where sig: "encodeForSig (ethers cfg) a (pisaContractAddress cfg) = Inr e"
    "arrayify (ethers cfg) (keccak256 (ethers cfg) e) = Inr h" unfolding validate_iff by blast
  from assms(6) obtain s where s: "signMessage cfg h = Inr s" by blast
  have "add_to_responder cfg env a t = (Inr (), t)"
    using assms(7) by (simp add: add_to_responder_def assms(5) startResponse_eq)
  then show ?thesis
    using assms(1-4) sig s by (simp add: addAppointment_def bind_eff_def lift_result_def)
qed

end
