(* ===== verification/Watcher.thy ===== *)
theory Watcher
  imports EventLogs AppointmentStore BlockchainMachine MultiResponder
begin

text \<open>
  The watcher (src/src/watcher/watcher.ts): for every appointment of the store it watches the chain for the
  event of the appointment, and asks the responder to respond once the event is deep enough.

  \<open>appointmentsById.get(id)!\<close> is \<open>undefined\<close> when the appointment has left the store since its state was
  computed; reading its \<open>endBlock\<close>, which every turn of the loop does, then throws.
\<close>

section \<open>The state of an appointment\<close>

datatype WatcherAppointmentAnchorState = Watching | Observed int

type_synonym WatcherAnchorState = "(WatcherAppointmentAnchorState, BlockNumberState) MappedState"

definition event_getInitialState ::
  "('b Logs_scheme, 's) BlockCache \<Rightarrow> EventFilter \<Rightarrow> int \<Rightarrow> 'b Logs_scheme \<Rightarrow>
   WatcherAppointmentAnchorState run" where
  "event_getInitialState blockCache filter' fromBlock block =
     bind_run (findAncestor blockCache (block_hash block)
                 (\<lambda>ancestor. hasLogMatchingEventFilter ancestor filter') fromBlock)
       (\<lambda>eventAncestor. Some (Inr (case eventAncestor of
            None \<Rightarrow> Watching
          | Some ancestor \<Rightarrow> Observed (number ancestor))))"

definition event_reduce ::
  "EventFilter \<Rightarrow> WatcherAppointmentAnchorState \<Rightarrow> 'b Logs_scheme \<Rightarrow> WatcherAppointmentAnchorState run" where
  "event_reduce filter' prevState block =
     (if prevState = Watching
      then bind_run (Some (hasLogMatchingEventFilter block filter'))
             (\<lambda>found. Some (Inr (if found then Observed (number block) else prevState)))
      else Some (Inr prevState))"

definition EventFilterStateReducer ::
  "('b Logs_scheme, 's) BlockCache \<Rightarrow> EventFilter \<Rightarrow> int \<Rightarrow>
   (WatcherAppointmentAnchorState, 'b Logs_scheme) StateReducer result" where
  "EventFilterStateReducer blockCache filter' fromBlock =
     (if filter_topics filter' = None then Inl (ApplicationError ''topics should be defined'')
      else Inr \<lparr>getInitialState = event_getInitialState blockCache filter' fromBlock,
                reduce = event_reduce filter'\<rparr>)"

section \<open>The watcher\<close>

datatype WatcherAction =
    StartResponse Appointment int
  | RemoveAppointment string

record Watcher =
  watcher_store :: AppointmentStore
  confirmationsBeforeResponse :: int
  confirmationsBeforeRemoval :: int

definition new_Watcher :: "AppointmentStore \<Rightarrow> int \<Rightarrow> int \<Rightarrow> Watcher result" where
  "new_Watcher store beforeResponse beforeRemoval =
     (if beforeResponse > beforeRemoval
      then Inl (ArgumentError ''confirmationsBeforeResponse must be less than or equal to confirmationsBeforeRemoval.'')
      else Inr \<lparr>watcher_store = store, confirmationsBeforeResponse = beforeResponse,
                confirmationsBeforeRemoval = beforeRemoval\<rparr>)"

definition watcher_reducer ::
  "Watcher \<Rightarrow> ('b Logs_scheme, 's) BlockCache \<Rightarrow> (WatcherAnchorState, 'b Logs_scheme) StateReducer" where
  "watcher_reducer this blockCache =
     mapped_reducer
       \<lparr>getItems = getAll_appointments (watcher_store this),
        getBaseReducer = (\<lambda>appointment. EventFilterStateReducer blockCache (eventFilter appointment) (a_startBlock appointment)),
        idSelector = appointment_id,
        whole_reducer = BlockNumberReducer\<rparr>"

definition shouldHaveStartedResponder ::
  "Watcher \<Rightarrow> WatcherAnchorState \<Rightarrow> WatcherAppointmentAnchorState option \<Rightarrow> bool" where
  "shouldHaveStartedResponder this state appointmentState =
     (case appointmentState of
        Some (Observed blockObserved) \<Rightarrow>
          blockNumber (rest state) - blockObserved + 1 \<ge> confirmationsBeforeResponse this
      | _ \<Rightarrow> False)"

definition shouldRemoveObservedAppointment ::
  "Watcher \<Rightarrow> WatcherAnchorState \<Rightarrow> WatcherAppointmentAnchorState option \<Rightarrow> bool" where
  "shouldRemoveObservedAppointment this state appointmentState =
     (case appointmentState of
        Some (Observed blockObserved) \<Rightarrow>
          blockNumber (rest state) - blockObserved + 1 \<ge> confirmationsBeforeRemoval this
      | _ \<Rightarrow> False)"

definition shouldRemoveExpiredAppointment ::
  "Watcher \<Rightarrow> WatcherAnchorState \<Rightarrow> WatcherAppointmentAnchorState option \<Rightarrow> int \<Rightarrow> bool" where
  "shouldRemoveExpiredAppointment this state appointmentState endBlock' \<longleftrightarrow>
     appointmentState = Some Watching \<and> blockNumber (rest state) - endBlock' > confirmationsBeforeRemoval this"

text \<open>One turn of the loop of \<open>detectChanges\<close>.\<close>

definition detect_appointment ::
  "Watcher \<Rightarrow> WatcherAnchorState \<Rightarrow> WatcherAnchorState \<Rightarrow> string \<Rightarrow> WatcherAppointmentAnchorState \<Rightarrow>
   WatcherAction list result" where
  "detect_appointment this prevState state appointmentId appointmentState =
     (let prev = map_of (state_items prevState) appointmentId in
      case map_of (mAppointmentsById (watcher_store this)) appointmentId of
        None \<Rightarrow> Inl (JsTypeError ''Cannot read property endBlock of undefined'')
      | Some appointment \<Rightarrow> Inr
          ((if \<not> shouldHaveStartedResponder this prevState prev \<and>
               shouldHaveStartedResponder this state (Some appointmentState)
            then [StartResponse appointment
                    (case appointmentState of Observed blockObserved \<Rightarrow> blockObserved | Watching \<Rightarrow> 0)]
            else []) @
           (if \<not> shouldRemoveObservedAppointment this prevState prev \<and>
               shouldRemoveObservedAppointment this state (Some appointmentState)
            then [RemoveAppointment appointmentId] else []) @
           (if \<not> shouldRemoveExpiredAppointment this prevState prev (a_endBlock appointment) \<and>
               shouldRemoveExpiredAppointment this state (Some appointmentState) (a_endBlock appointment)
            then [RemoveAppointment appointmentId] else [])))"

definition watcher_detectChanges ::
  "Watcher \<Rightarrow> WatcherAnchorState \<Rightarrow> WatcherAnchorState \<Rightarrow> WatcherAction list result" where
  "watcher_detectChanges this prevState state =
     bind_result (map_result (\<lambda>(appointmentId, appointmentState).
         detect_appointment this prevState state appointmentId appointmentState) (state_items state))
       (\<lambda>actions. Inr (concat actions))"

definition watcher_component ::
  "Watcher \<Rightarrow> ('b Logs_scheme, WatcherAnchorState, WatcherAction) Component" where
  "watcher_component this =
     \<lparr>component_name = ''watcher'', reducer = watcher_reducer this,
      detectChanges = watcher_detectChanges this\<rparr>"

text \<open>Applying an action asks the responder or changes the store.\<close>

definition watcher_applyAction ::
  "BigNumberCodec \<Rightarrow> Ethers \<Rightarrow> Env \<Rightarrow> bool \<Rightarrow> string \<Rightarrow> WatcherAction \<Rightarrow>
   MultiResponder \<times> AppointmentStore \<Rightarrow> unit result \<times> MultiResponder \<times> AppointmentStore" where
  "watcher_applyAction bn eth env db_ok pisaContractAddress action' = (\<lambda>(responder, store).
     case action' of
       StartResponse appointment blockObserved \<Rightarrow>
         (case bind_result (encodeForResponse eth appointment) (\<lambda>responseData.
                 startResponse bn env responder pisaContractAddress responseData
                   (a_gasLimit appointment + PisaGasAllowance) (appointment_id appointment) blockObserved
                   (blockObserved + a_challengePeriod appointment)) of
            Inl e \<Rightarrow> (Inl e, responder, store)
          | Inr responder' \<Rightarrow> (Inr (), responder', store))
     | RemoveAppointment appointmentId \<Rightarrow>
         (case removeById db_ok appointmentId store of (r, store') \<Rightarrow> (map_sum id (\<lambda>_. ()) r, responder, store')))"

end
