(* ===== verification/GasPriceEstimator.thy ===== *)
theory GasPriceEstimator
  imports Complex_Main Watcher
begin

text \<open>
  The gas price estimator (src/src/responder/gasPriceEstimator.ts): the price for a deadline, from an
  exponential curve through the current price and the maximum.

  The numbers of the curve are floating-point numbers: here they are reals, and the functions of
  \<open>Math\<close>, which the language lets an engine approximate, and the rounding of a product and of a
  quotient are the record \<open>JsMath\<close>.  \<open>exact_math\<close> is the one without rounding.
\<close>

section \<open>Floating-point arithmetic\<close>

record JsMath =
  math_log :: "real \<Rightarrow> real"
  pow_E :: "real \<Rightarrow> real"
  fround :: "real \<Rightarrow> real"
  to_double :: "real \<Rightarrow> real"

definition exact_math :: JsMath where
  "exact_math = \<lparr>math_log = ln, pow_E = exp, fround = id, to_double = id\<rparr>"

definition math_round :: "real \<Rightarrow> int" where
  "math_round x = \<lfloor>x + 1 / 2\<rfloor>"

section \<open>The exponential curve\<close>

record ExponentialCurve =
  curve_k :: real
  curve_a :: real

definition new_ExponentialCurve :: "JsMath \<Rightarrow> int \<Rightarrow> int \<Rightarrow> int \<Rightarrow> int \<Rightarrow> ExponentialCurve result" where
  "new_ExponentialCurve M x1 y1 x2 y2 =
     (if y1 = 0 \<or> y2 = 0 then Inl (ArgumentError ''Y values cannot equal zero.'')
      else if y1 < 0 \<and> y2 > 0 \<or> y1 > 0 \<and> y2 < 0
      then Inl (ArgumentError ''Y values most all be positive or all be negative.'')
      else if x1 = x2 then Inl (ArgumentError ''x1 cannot equal x2 for exponential curve.'')
      else
        let k = to_double M (math_log M (to_double M (of_int y1 / of_int y2)) / of_int (x1 - x2))
        in Inr \<lparr>curve_k = k,
                curve_a = to_double M (of_int y1 * pow_E M (- to_double M (k * of_int x1)))\<rparr>)"

definition getY :: "JsMath \<Rightarrow> ExponentialCurve \<Rightarrow> int \<Rightarrow> real" where
  "getY M this x =
     fround M (to_double M (curve_a this * pow_E M (to_double M (curve_k this * of_int x))))"

section \<open>The gas curve\<close>

definition MAX_GAS_PRICE :: int where "MAX_GAS_PRICE = 300000000000"
definition MAX_BLOCKS :: int where "MAX_BLOCKS = 20"
definition MEDIAN_BLOCKS :: int where "MEDIAN_BLOCKS = 50"
definition AVERAGE_TO_MINE :: int where "AVERAGE_TO_MINE = 5"

text \<open>The price the curve is drawn through: not 0 and not above the maximum.\<close>

definition maxedGasPrice :: "int \<Rightarrow> int" where
  "maxedGasPrice currentGasPrice =
     (let price = (if currentGasPrice = 0 then 1 else currentGasPrice) in
      if price > MAX_GAS_PRICE then MAX_GAS_PRICE else price)"

text \<open>A number of remaining blocks that is 0 counts as not given.\<close>

definition new_ExponentialGasCurve :: "JsMath \<Rightarrow> int \<Rightarrow> int option \<Rightarrow> ExponentialCurve result" where
  "new_ExponentialGasCurve M currentGasPrice currentGasPriceBlocksRemaining =
     (if currentGasPrice < 0 then Inl (ArgumentError ''Gas price cannot be less than zero.'')
      else
        let x2 = (case currentGasPriceBlocksRemaining of
                    None \<Rightarrow> MEDIAN_BLOCKS + AVERAGE_TO_MINE
                  | Some n \<Rightarrow> if n = 0 then MEDIAN_BLOCKS + AVERAGE_TO_MINE else n)
        in new_ExponentialCurve M MAX_BLOCKS MAX_GAS_PRICE x2 (maxedGasPrice currentGasPrice))"

definition getGasPrice :: "JsMath \<Rightarrow> ExponentialCurve \<Rightarrow> int \<Rightarrow> int result" where
  "getGasPrice M curve blocksUntilDeadline =
     (if blocksUntilDeadline < 0 then Inl (ArgumentError ''blocksUntilDeadline cannot be less than zero.'')
      else if blocksUntilDeadline \<le> MAX_BLOCKS then Inr MAX_GAS_PRICE
      else Inr (math_round (getY M curve blocksUntilDeadline)))"

section \<open>The estimate\<close>

text \<open>\<open>price\<close> is what the provider returns or throws.\<close>

definition estimate_gas ::
  "JsMath \<Rightarrow> int result \<Rightarrow> ('b IBlockStub_scheme, 's) BlockCache \<Rightarrow> int \<Rightarrow> int result" where
  "estimate_gas M price blockCache deadline =
     bind_result price (\<lambda>currentPrice.
     bind_result (head blockCache) (\<lambda>currentHead.
       let timeLeft = deadline - number currentHead in
       bind_result (new_ExponentialGasCurve M currentPrice (Some timeLeft)) (\<lambda>curve.
         getGasPrice M curve (max timeLeft 0))))"

section \<open>What it returns\<close>

lemma maxedGasPrice_bounds: "0 \<le> p \<Longrightarrow> 0 < maxedGasPrice p \<and> maxedGasPrice p \<le> MAX_GAS_PRICE"
  by (auto simp: maxedGasPrice_def MAX_GAS_PRICE_def Let_def)

text \<open>Without rounding the curve passes through its second point.\<close>

lemma exact_curve:
  assumes "new_ExponentialCurve exact_math x1 y1 x2 y2 = Inr curve" "0 < y1" "0 < y2"
  shows "getY exact_math curve x2 = of_int y2"
proof -
  let ?k = "ln (of_int y1 / of_int y2) / of_int (x1 - x2) :: real"
  have ne: "x1 \<noteq> x2" and curve: "curve = \<lparr>curve_k = ?k, curve_a = of_int y1 * exp (- (?k * of_int x1))\<rparr>"
    using assms by (auto simp: new_ExponentialCurve_def exact_math_def Let_def split: if_splits)
  have "- (k * of_int x1) + k * of_int x2 = - (k * of_int (x1 - x2))" for k :: real by (simp add: algebra_simps)
  then have "- (?k * of_int x1) + ?k * of_int x2 = - (?k * of_int (x1 - x2))" .
  also have "\<dots> = - ln (of_int y1 / of_int y2)" using ne by simp
  finally have "exp (- (?k * of_int x1)) * exp (?k * of_int x2) = exp (- ln (of_int y1 / of_int y2 :: real))"
    by (simp add: exp_add [symmetric])
  also have "\<dots> = of_int y2 / of_int y1" using assms(2,3) by (simp add: exp_minus)
  finally show ?thesis
    using assms(2) by (simp add: getY_def curve exact_math_def mult.assoc)
qed

lemma new_gas_curve:
  assumes "0 \<le> p"
  shows "new_ExponentialGasCurve M p (Some n) =
    (if n = MAX_BLOCKS then Inl (ArgumentError ''x1 cannot equal x2 for exponential curve.'')
     else new_ExponentialCurve M MAX_BLOCKS MAX_GAS_PRICE (if n = 0 then 55 else n) (maxedGasPrice p))"
  using assms maxedGasPrice_bounds [OF assms]
  by (auto simp: new_ExponentialGasCurve_def new_ExponentialCurve_def Let_def MAX_GAS_PRICE_def MAX_BLOCKS_def
      MEDIAN_BLOCKS_def AVERAGE_TO_MINE_def)

lemma curve_exists:
  assumes "0 \<le> p" "n \<noteq> MAX_BLOCKS"
  obtains curve where "new_ExponentialGasCurve M p (Some n) = Inr curve"
    "new_ExponentialCurve M MAX_BLOCKS MAX_GAS_PRICE (if n = 0 then 55 else n) (maxedGasPrice p) = Inr curve"
  using assms maxedGasPrice_bounds [OF assms(1)] that
  by (cases "n = 0") (auto simp: new_gas_curve new_ExponentialCurve_def Let_def MAX_GAS_PRICE_def MAX_BLOCKS_def)

text \<open>C39: The estimate on every branch: an error of the provider and a cache without a head are passed on; a
  deadline exactly 20 blocks ahead throws, because the curve would have two points at one height; a
  nearer or past deadline gets the maximum of 300 gwei; a later one gets, up to the rounding of
  floating-point arithmetic, the current price of the provider, at least 1 wei and at most the maximum,
  however far away it is.\<close>

theorem estimate_outcome:
  assumes "price = Inr p \<Longrightarrow> 0 \<le> p"
  shows "(\<forall>e. price = Inl e \<longrightarrow> estimate_gas M price c deadline = Inl e) \<and>
    (\<forall>e. price = Inr p \<and> head c = Inl e \<longrightarrow> estimate_gas M price c deadline = Inl e) \<and>
    (\<forall>h. price = Inr p \<and> head c = Inr h \<longrightarrow>
       (if deadline - number h = 20
        then estimate_gas M price c deadline = Inl (ArgumentError ''x1 cannot equal x2 for exponential curve.'')
        else if deadline - number h < 20 then estimate_gas M price c deadline = Inr 300000000000
        else \<exists>y. estimate_gas M price c deadline = Inr y \<and> (M = exact_math \<longrightarrow> y = min (max p 1) 300000000000)))"
proof (intro conjI allI impI)
  fix h assume h: "price = Inr p \<and> head c = Inr h"
  let ?n = "deadline - number h"
  have p: "0 \<le> p" using assms h by simp
  show "if ?n = 20 then estimate_gas M price c deadline = Inl (ArgumentError ''x1 cannot equal x2 for exponential curve.'')
    else if ?n < 20 then estimate_gas M price c deadline = Inr 300000000000
    else \<exists>y. estimate_gas M price c deadline = Inr y \<and> (M = exact_math \<longrightarrow> y = min (max p 1) 300000000000)"
  proof (cases "?n = MAX_BLOCKS")
    case True
    with h p show ?thesis by (simp add: estimate_gas_def new_gas_curve MAX_BLOCKS_def)
  next
    case False
    obtain curve where curve: "new_ExponentialGasCurve M p (Some ?n) = Inr curve"
      "new_ExponentialCurve M MAX_BLOCKS MAX_GAS_PRICE (if ?n = 0 then 55 else ?n) (maxedGasPrice p) = Inr curve"
      by (rule curve_exists [OF p False])
    then have est: "estimate_gas M price c deadline = getGasPrice M curve (max ?n 0)"
      using h by (simp add: estimate_gas_def)
    have "math_round (getY M curve ?n) = min (max p 1) 300000000000" if "M = exact_math" "20 < ?n"
    proof -
      have "getY M curve ?n = of_int (maxedGasPrice p)"
        using exact_curve [of MAX_BLOCKS MAX_GAS_PRICE ?n "maxedGasPrice p" curve] curve(2) that maxedGasPrice_bounds [OF p]
        by (simp add: MAX_GAS_PRICE_def)
      then show ?thesis
        using p by (simp add: math_round_def maxedGasPrice_def MAX_GAS_PRICE_def Let_def min_def max_def)
    qed
    with False show ?thesis
      unfolding est by (auto simp: getGasPrice_def MAX_GAS_PRICE_def MAX_BLOCKS_def max_def)
  qed
qed (simp_all add: estimate_gas_def)

definition ex_headed :: "(unit IBlockStub_scheme, nat) BlockCache" where
  "ex_headed = (new_BlockCache 3 (new_BlockItemStore [])) \<lparr>headHash := Some ''h'', blockStore :=
     \<lparr>itemsByHeight = [(Some 5, [memKey ''h'' KEY_BLOCK])],
      items = [(memKey ''h'' KEY_BLOCK, BlockItem \<lparr>block_hash = ''h'', number = 5, parentHash = ''p''\<rparr>)],
      mBatch = None, blockDb = []\<rparr>\<rparr>"

theorem estimate_outcome_witness:
  "estimate_gas exact_math (Inr 0) ex_headed 70 = Inr 1 \<and> estimate_gas exact_math (Inr 7) ex_headed 25 =
     Inl (ArgumentError ''x1 cannot equal x2 for exponential curve.'') \<and>
   estimate_gas exact_math (Inr 7) ex_headed 3 = Inr 300000000000"
proof -
  have head: "head ex_headed = Inr \<lparr>block_hash = ''h'', number = 5, parentHash = ''p''\<rparr>" by code_simp
  show ?thesis
    using estimate_outcome [of "Inr 0" 0 exact_math ex_headed 70] estimate_outcome [of "Inr 7" 7 exact_math ex_headed 25]
      estimate_outcome [of "Inr 7" 7 exact_math ex_headed 3] head by auto
qed

section \<open>Responses that are lost\<close>

text \<open>When the estimator throws, \<open>startResponse\<close> logs and returns, and the action counts as applied: the machine
  removes it.\<close>

lemma unestimated_response:
  assumes "estimate env deadline = Inl e" "\<And>k m. e \<noteq> GasQueueError k m"
  shows "startResponse bn env r dest respData gas rid startB deadline = Inr r"
  using assms by (cases e) (auto simp: startResponse_eq)

text \<open>A response whose deadline is exactly 20 blocks above the head when it is to be started.\<close>

lemma deadline_at_20_blocks_lost:
  assumes "estimate env = estimate_gas M (Inr p) c" "0 \<le> p" "head c = Inr h"
    and "blockObserved + a_challengePeriod a = number h + 20" "encodeForResponse eth a = Inr d"
  shows "watcher_applyAction bn eth env db_ok pisa (StartResponse a blockObserved) (r, s) = (Inr (), r, s)"
proof -
  have "blockObserved + a_challengePeriod a - number h = MAX_BLOCKS" using assms(4) by (simp add: MAX_BLOCKS_def)
  then have "estimate env (blockObserved + a_challengePeriod a) =
      Inl (ArgumentError ''x1 cannot equal x2 for exponential curve.'')"
    using assms(1-3) by (simp add: estimate_gas_def new_gas_curve)
  from unestimated_response [OF this] show ?thesis by (simp add: watcher_applyAction_def assms(5))
qed

end
