(* ===== verification/MachineRuns.thy ===== *)
theory MachineRuns
  imports BlockchainMachine
begin

text \<open>
  The actions of the machine over its whole life: heads that store and run actions, actions that end
  in any way, failed writes, and crashes.
\<close>

section \<open>The steps\<close>

text \<open>\<open>uuid\<close> makes ids that were not used before.\<close>

definition fresh_ids :: "head_env \<Rightarrow> ('b, 's, 'a) machine_state \<Rightarrow> bool" where
  "fresh_ids env m \<longleftrightarrow>
     (\<forall>name. inj (fst (env name)) \<and> (\<forall>i a. (name, a) \<in> set (stored m) \<longrightarrow> fst (env name) i \<noteq> action_id a))"

inductive machine_step ::
  "('a \<Rightarrow> 'a) \<Rightarrow> ('b IBlockStub_scheme, 's, 'a) Component list \<Rightarrow>
   ('b IBlockStub_scheme, 's, 'a) machine_state \<Rightarrow> ('b IBlockStub_scheme, 's, 'a) machine_state \<Rightarrow> bool"
  for reread comps where
  head: "fresh_ids env m \<Longrightarrow> processNewHead env comps h m = (r, m') \<Longrightarrow> machine_step reread comps m m'"
| blocks: "machine_step reread comps m (m\<lparr>cache := c\<rparr>)"
| finish: "(name, a) \<in> set (running m) \<Longrightarrow> machine_step reread comps m (finish_action apply_ok db_ok name a m)"
| restart: "js_wf stream \<Longrightarrow> map_of stream = map_of (actionDb (action_store m)) \<Longrightarrow>
    machine_step reread comps m (restart_machine reread comps c stream m)"

inductive_cases machine_stepE: "machine_step reread comps m m'"

definition initial_machine ::
  "('b, 's) BlockCache \<Rightarrow> ('b, 's, 'a) machine_state" where
  "initial_machine c =
     \<lparr>cache = c, action_store = new_ActionStore [], running = [], stored = [], applied = []\<rparr>"

section \<open>The invariant\<close>

definition names_ok :: "('b, 's, 'a) Component list \<Rightarrow> bool" where
  "names_ok comps \<longleftrightarrow> distinct (map component_name comps) \<and> (\<forall>component\<in>set comps. colon_free (component_name component))"

text \<open>The database has an action of a component under an id.\<close>

abbreviation db_holds :: "('b, 's, 'a) machine_state \<Rightarrow> string \<Rightarrow> 'a ActionAndId \<Rightarrow> bool" where
  "db_holds m name a \<equiv> map_of (actionDb (action_store m)) (action_key name (action_id a)) = Some (action a)"

text \<open>An action was applied, as it was stored or as it was read back after a restart.\<close>

definition was_applied :: "('a \<Rightarrow> 'a) \<Rightarrow> ('b, 's, 'a) machine_state \<Rightarrow> string \<Rightarrow> 'a ActionAndId \<Rightarrow> bool" where
  "was_applied reread m name a \<longleftrightarrow>
     (\<exists>b. (name, b) \<in> set (applied m) \<and> action_id b = action_id a \<and> same_action reread (action a) (action b))"

lemma was_applied_id [simp]: "was_applied id m name a \<longleftrightarrow> (name, a) \<in> set (applied m)"
proof
  assume "was_applied id m name a"
  then obtain b where "(name, b) \<in> set (applied m)" "action_id b = action_id a" "action b = action a"
    by (auto simp: was_applied_def)
  moreover from this(2,3) have "b = a" by (cases a; cases b) simp
  ultimately show "(name, a) \<in> set (applied m)" by simp
qed (auto simp: was_applied_def)

text \<open>What runs is in the store, what is in the database was stored, and what was stored is still there or was
  applied.\<close>

definition actions_inv :: "('a \<Rightarrow> 'a) \<Rightarrow> ('b, 's, 'a) machine_state \<Rightarrow> bool" where
  "actions_inv reread m \<longleftrightarrow>
     actions_ok reread (action_store m) \<and> distinct (running m) \<and>
     (\<forall>name a. (name, a) \<in> set (running m) \<longrightarrow> a \<in> set (getActions (action_store m) name)) \<and>
     (\<forall>name a. colon_free name \<longrightarrow> db_holds m name a \<longrightarrow> (name, a) \<in> set (stored m)) \<and>
     (\<forall>name a. (name, a) \<in> set (stored m) \<longrightarrow> colon_free name \<and> (db_holds m name a \<or> was_applied reread m name a))"

lemma actions_invD:
  assumes "actions_inv reread m"
  shows "actions_ok reread (action_store m)" "distinct (running m)"
    "(name, a) \<in> set (running m) \<Longrightarrow> a \<in> set (getActions (action_store m) name)"
    "colon_free name \<Longrightarrow> db_holds m name a \<Longrightarrow> (name, a) \<in> set (stored m)"
    "(name, a) \<in> set (stored m) \<Longrightarrow> db_holds m name a \<or> was_applied reread m name a"
    "(name, a) \<in> set (stored m) \<Longrightarrow> colon_free name"
  using assms unfolding actions_inv_def by auto

lemma in_memory_stored:
  assumes "actions_inv reread m" "a \<in> set (getActions (action_store m) name)"
  obtains b where "(name, b) \<in> set (stored m)" "db_holds m name b" "action_id b = action_id a" "same_action reread (action b) (action a)"
proof -
  note D = actions_invD [OF assms(1)]
  from actions_okD(3) [OF D(1) assms(2)] obtain v where
    v: "map_of (actionDb (action_store m)) (action_key name (action_id a)) = Some v" "same_action reread v (action a)" by blast
  with D(4) [OF in_memory_colon_free [OF D(1) assms(2)], of "\<lparr>action_id = action_id a, action = v\<rparr>"] show thesis
    by (intro that [of "\<lparr>action_id = action_id a, action = v\<rparr>"]) simp_all
qed

lemma actions_inv_cache [simp]: "actions_inv reread (m\<lparr>cache := c\<rparr>) = actions_inv reread m"
  by (simp add: actions_inv_def was_applied_def)

lemma actions_inv_initial: "actions_inv reread (initial_machine c)"
  by (simp add: actions_inv_def initial_machine_def actions_ok_new) (simp add: new_ActionStore_def getActions_def)

section \<open>Heads\<close>

text \<open>\<open>fresh_for\<close>: the ids made for a component are new.\<close>

definition fresh_for :: "head_env \<Rightarrow> string \<Rightarrow> ('b, 's, 'a) machine_state \<Rightarrow> bool" where
  "fresh_for env name m \<longleftrightarrow>
     inj (fst (env name)) \<and> (\<forall>i a. (name, a) \<in> set (stored m) \<longrightarrow> fst (env name) i \<noteq> action_id a)"

lemma fresh_call_ok:
  assumes "actions_inv reread m" "colon_free name" "fresh_for env name m"
  shows "action_call_ok (action_store m) (Store (map (fst (env name)) [0..<length newActions]) True name newActions)"
proof -
  have "fst (env name) i \<notin> action_ids (action_store m) name" for i
  proof
    assume "fst (env name) i \<in> action_ids (action_store m) name"
    then obtain a where a: "a \<in> set (getActions (action_store m) name)" "fst (env name) i = action_id a" by (auto simp: action_ids_def)
    from in_memory_stored [OF assms(1) a(1)] obtain b where "(name, b) \<in> set (stored m)" "action_id b = action_id a" by blast
    with assms(3) a(2) show False unfolding fresh_for_def by metis
  qed
  then show ?thesis using assms(2,3) by (auto simp: distinct_map fresh_for_def intro: inj_on_subset)
qed

lemma store_and_run_inv:
  assumes inv: "actions_inv reread m" and name: "colon_free name" and fresh: "fresh_for env name m"
    and run: "store_and_run env name newActions m = (r, m')"
  shows "actions_inv reread m'" "\<And>n. n \<noteq> name \<Longrightarrow> fresh_for env n m \<Longrightarrow> fresh_for env n m'"
proof -
  note D = actions_invD [OF inv]
  let ?ids = "map (fst (env name)) [0..<length newActions]"
  have "actions_inv reread m' \<and> (\<forall>n. n \<noteq> name \<longrightarrow> fresh_for env n m \<longrightarrow> fresh_for env n m')"
  proof (cases "newActions = [] \<or> \<not> snd (env name)")
    case True
    then have "m' = m" using run by (auto simp: store_and_run_def action_failures split: if_splits)
    with inv show ?thesis by simp
  next
    case False
    obtain as s' where
      s': "storeActions ?ids True name newActions (action_store m) = (Inr as, s')" "actions_ok reread s'"
        "map action_id as = ?ids" "map action as = newActions"
        "\<And>n. getActions s' n = (if n = name then getActions (action_store m) name @ as else getActions (action_store m) n)"
        "\<And>k v. map_of (actionDb s') k = Some v \<longleftrightarrow>
           (\<exists>a\<in>set as. k = action_key name (action_id a) \<and> v = action a) \<or> map_of (actionDb (action_store m)) k = Some v"
      by (rule storeActions_ok [OF D(1) fresh_call_ok [OF inv name fresh, of newActions]]) (rule that)
    have m': "m' = m\<lparr>action_store := s', stored := stored m @ map (Pair name) as, running := running m @ map (Pair name) as\<rparr>"
      using run False s'(1) by (auto simp: store_and_run_def runActionsForComponent_def)
    have "distinct (map action_id (getActions (action_store m) name @ as))"
      using actions_okD(1) [OF s'(2), of name] by (simp only: s'(5) if_True refl)
    then have "distinct (getActions (action_store m) name @ as)"
      by (rule distinct_map [THEN iffD1, THEN conjunct1])
    then have "distinct (running m @ map (Pair name) as)"
      using D(2,3) by (auto simp: distinct_map inj_on_def)
    moreover have "a \<in> set as" if "b \<in> set as" "action_id b = action_id a" "action b = action a" for a b :: "'a ActionAndId"
      using that action_eta [of a] action_eta [of b] by metis
    ultimately have "actions_inv reread m'"
      using D(1,3-6) s'(2) name unfolding actions_inv_def m' was_applied_def
      by (auto simp: s'(5,6))
    moreover have "fresh_for env n m'" if "n \<noteq> name" "fresh_for env n m" for n
      using that by (auto simp: fresh_for_def m')
    ultimately show ?thesis by blast
  qed
  then show "actions_inv reread m'" "\<And>n. n \<noteq> name \<Longrightarrow> fresh_for env n m \<Longrightarrow> fresh_for env n m'" by auto
qed

text \<open>What the loop does for one component: it may store and run actions, and it may write the emitted state.\<close>

lemma head_loop_cases:
  assumes run: "head_loop env (component # comps) h m = (r, m')"
  obtains m1 m2 where
    "m1 = m \<or> (\<exists>newActions r1. store_and_run env (component_name component) newActions m = (r1, m1))"
    "\<exists>c. m2 = m1\<lparr>cache := c\<rparr>" "m' = m1 \<or> m' = m2 \<or> head_loop env comps h m2 = (r, m')"
proof (cases "anchorState_get (blockStore (cache m)) (component_name component) (block_hash h)")
  case None
  with run have "m' = m" by simp
  then show ?thesis by (intro that [of m m]) (auto intro: exI [of _ "cache m"])
next
  case (Some state)
  let ?n = "component_name component"
  let ?first = "case prevEmittedAnchorState_get (blockStore (cache m)) ?n (block_hash h) of
      None \<Rightarrow> return_eff ()
    | Some prevEmittedState \<Rightarrow>
        (case detectChanges component prevEmittedState state of
           Inl e \<Rightarrow> throw_eff e | Inr newActions \<Rightarrow> store_and_run env ?n newActions)"
  obtain r1 m1 where f: "?first m = (r1, m1)" by fastforce
  then have m1: "m1 = m \<or> (\<exists>newActions r1. store_and_run env ?n newActions m = (r1, m1))"
    by (auto split: option.splits sum.splits)
  obtain r2 m2 where p: "on_cache (on_store (prevEmittedAnchorState_set ?n (number h) (block_hash h) state)) m1 = (r2, m2)"
    by fastforce
  then have m2: "\<exists>c. m2 = m1\<lparr>cache := c\<rparr>" by (auto simp: on_cache_def split: prod.splits)
  have "m' = m1 \<or> m' = m2 \<or> head_loop env comps h m2 = (r, m')"
    using run Some f p by (cases r1; cases r2) (auto simp: then_eff_def bind_eff_def)
  with m1 m2 show ?thesis by (rule that)
qed

text \<open>What storing and running actions and writing to the cache keep, a head keeps.\<close>

lemma head_loop_preserves:
  assumes keeps: "\<And>m m' name newActions r. actions_inv reread m \<Longrightarrow> P m \<Longrightarrow> colon_free name \<Longrightarrow> fresh_for env name m \<Longrightarrow>
      store_and_run env name newActions m = (r, m') \<Longrightarrow> P m'"
    and cache: "\<And>m c. P m \<Longrightarrow> P (m\<lparr>cache := c\<rparr>)"
    and "actions_inv reread m" "P m" "names_ok comps"
      "\<And>component. component \<in> set comps \<Longrightarrow> fresh_for env (component_name component) m"
    and "head_loop env comps h m = (r, m')"
  shows "actions_inv reread m' \<and> P m'"
  using assms(3-)
proof (induction comps arbitrary: m)
  case (Cons component comps)
  let ?n = "component_name component"
  have n: "colon_free ?n" "?n \<notin> component_name ` set comps" "names_ok comps" "fresh_for env ?n m"
    using Cons.prems(3,4) by (auto simp: names_ok_def)
  obtain m1 m2 where m1: "m1 = m \<or> (\<exists>newActions r1. store_and_run env ?n newActions m = (r1, m1))"
    and m2: "\<exists>c. m2 = m1\<lparr>cache := c\<rparr>" and rest: "m' = m1 \<or> m' = m2 \<or> head_loop env comps h m2 = (r, m')"
    by (rule head_loop_cases [OF Cons.prems(5)])
  have inv1: "actions_inv reread m1 \<and> (\<forall>n. n \<noteq> ?n \<longrightarrow> fresh_for env n m \<longrightarrow> fresh_for env n m1)"
    using m1 Cons.prems(1) store_and_run_inv [OF Cons.prems(1) n(1,4)] by blast
  have P1: "P m1" using m1 Cons.prems(2) keeps [OF Cons.prems(1,2) n(1,4)] by blast
  from inv1 P1 m2 cache have inv2: "actions_inv reread m2" "P m2" by auto
  have "fresh_for env (component_name component') m2" if "component' \<in> set comps" for component'
  proof -
    have "component_name component' \<noteq> ?n" using n(2) imageI [OF that, of component_name] by auto
    with inv1 Cons.prems(4) [of component'] that have "fresh_for env (component_name component') m1" by simp
    then show ?thesis using m2 by (auto simp: fresh_for_def)
  qed
  with rest inv1 P1 inv2 n(3) Cons.IH show ?case by blast
qed simp

lemma head_loop_inv:
  assumes "actions_inv reread m" "names_ok comps" "\<And>component. component \<in> set comps \<Longrightarrow> fresh_for env (component_name component) m"
    "head_loop env comps h m = (r, m')"
  shows "actions_inv reread m'"
  using head_loop_preserves [where P = "\<lambda>m. True", OF _ _ assms(1) _ assms(2-4)] by simp

section \<open>Actions that end, and crashes\<close>

lemma finish_action_inv:
  assumes inv: "actions_inv reread m" and a: "(name, a) \<in> set (running m)"
  shows "actions_inv reread (finish_action apply_ok db_ok name a m)"
proof -
  note D = actions_invD [OF inv]
  have st: "a \<in> set (getActions (action_store m) name)" using D(3) a by blast
  let ?m' = "finish_action apply_ok db_ok name a m"
  show ?thesis
  proof (cases "apply_ok \<and> db_ok")
    case False
    then have "action_store ?m' = action_store m" "running ?m' = remove1 (name, a) (running m)" "stored ?m' = stored m"
      "set (applied m) \<subseteq> set (applied ?m')"
      by (auto simp: finish_action_def Let_def action_failures)
    then show ?thesis
      using D unfolding actions_inv_def was_applied_def by (auto dest: notin_set_remove1) blast
  next
    case True
    from removeAction_ok [OF D(1) st] obtain s' where
      s': "removeAction True name a (action_store m) = (Inr (), s')" "actions_ok reread s'"
        "\<And>n. getActions s' n = (if n = name then removeAll a (getActions (action_store m) name) else getActions (action_store m) n)"
        "map_of (actionDb s') = (map_of (actionDb (action_store m)))(action_key name (action_id a) := None)"
      by blast
    have m': "?m' = m\<lparr>running := remove1 (name, a) (running m), applied := applied m @ [(name, a)], action_store := s'\<rparr>"
      using True s'(1) by (simp add: finish_action_def)
    note colon = in_memory_colon_free [OF D(1) st]
    have "db_holds ?m' n b \<or> was_applied reread ?m' n b" if b: "(n, b) \<in> set (stored m)" for n b
    proof (cases "db_holds m n b \<and> action_key n (action_id b) = action_key name (action_id a)")
      case True
      with actions_okD(3) [OF D(1) st] have "same_action reread (action b) (action a)" by auto
      moreover have "n = name \<and> action_id b = action_id a" using True colon D(6) [OF b] by simp
      ultimately have "was_applied reread ?m' n b" by (auto simp: was_applied_def m')
      then show ?thesis ..
    next
      case False
      with D(5) [OF b] show ?thesis by (auto simp: was_applied_def m' s'(4))
    qed
    with D s'(2) show ?thesis unfolding actions_inv_def by (auto simp: m' s'(3,4) split: if_splits)
  qed
qed

lemma startInternal_machine_eq:
  "startInternal_machine comps m =
     m\<lparr>running := running m @ concat (map (\<lambda>component. map (Pair (component_name component))
                                  (getActions (action_store m) (component_name component))) comps)\<rparr>"
  unfolding startInternal_machine_def
  by (induction comps arbitrary: m) (simp_all add: runActionsForComponent_def)

lemma restart_machine_inv:
  assumes inv: "actions_inv reread m" and n: "names_ok comps"
    and stream: "js_wf stream" "map_of stream = map_of (actionDb (action_store m))"
  shows "actions_inv reread (restart_machine reread comps c stream m)"
    "set (running (restart_machine reread comps c stream m)) =
       {(name, a\<lparr>action := reread (action a)\<rparr>) | name a. name \<in> component_name ` set comps \<and> db_holds m name a}"
    "stored (restart_machine reread comps c stream m) = stored m" "applied (restart_machine reread comps c stream m) = applied m"
    "actionDb (action_store (restart_machine reread comps c stream m)) = actionDb (action_store m)"
proof -
  note D = actions_invD [OF inv]
  note L = load_ok [OF D(1) stream]
  let ?s = "startInternal_actions reread stream (new_ActionStore (actionDb (action_store m)))"
  let ?run = "concat (map (\<lambda>component. map (Pair (component_name component)) (getActions ?s (component_name component))) comps)"
  have eq: "restart_machine reread comps c stream m = m\<lparr>cache := c, running := ?run, action_store := ?s\<rparr>"
    by (simp add: restart_machine_def startInternal_machine_eq)
  have "distinct ?run"
    using n
  proof (induction comps)
    case (Cons component comps)
    then have "distinct (concat (map (\<lambda>component. map (Pair (component_name component)) (getActions ?s (component_name component))) comps))"
      by (simp add: names_ok_def)
    moreover have "distinct (getActions ?s (component_name component))"
      using actions_okD(1) [OF L(1)] by (simp add: distinct_map)
    ultimately show ?case
      using Cons.prems by (auto simp: names_ok_def distinct_map inj_on_def)
  qed simp
  then show "actions_inv reread (restart_machine reread comps c stream m)"
    using D L(1) unfolding actions_inv_def was_applied_def by (auto simp: eq L(2))
  have cf: "colon_free name" if "name \<in> component_name ` set comps" for name using n that by (auto simp: names_ok_def)
  have get: "a \<in> set (getActions ?s name) \<longleftrightarrow> (\<exists>b. a = b\<lparr>action := reread (action b)\<rparr> \<and> db_holds m name b)"
    if "colon_free name" for name a
  proof
    assume "a \<in> set (getActions ?s name)"
    then obtain v where "map_of (actionDb (action_store m)) (action_key name (action_id a)) = Some v" "action a = reread v"
      unfolding L(3) by blast
    then show "\<exists>b. a = b\<lparr>action := reread (action b)\<rparr> \<and> db_holds m name b" by (intro exI [of _ "a\<lparr>action := v\<rparr>"]) simp
  qed (auto simp: L(3) that)
  show "set (running (restart_machine reread comps c stream m)) =
       {(name, a\<lparr>action := reread (action a)\<rparr>) | name a. name \<in> component_name ` set comps \<and> db_holds m name a}"
  proof -
    have "set ?run = {(name, a). name \<in> component_name ` set comps \<and> a \<in> set (getActions ?s name)}" by auto
    also have "\<dots> = {(name, a\<lparr>action := reread (action a)\<rparr>) | name a. name \<in> component_name ` set comps \<and> db_holds m name a}"
      using get [OF cf] by blast
    finally show ?thesis by (simp add: eq)
  qed
  show "stored (restart_machine reread comps c stream m) = stored m" "applied (restart_machine reread comps c stream m) = applied m"
    "actionDb (action_store (restart_machine reread comps c stream m)) = actionDb (action_store m)"
    by (simp_all add: eq L(2))
qed

definition machine_inv :: "('a \<Rightarrow> 'a) \<Rightarrow> ('b, 's, 'a) Component list \<Rightarrow> ('b, 's, 'a) machine_state \<Rightarrow> bool" where
  "machine_inv reread comps m \<longleftrightarrow> names_ok comps \<and> actions_inv reread m"

interpretation machine_run: step_invariant "machine_step reread comps" "machine_inv reread comps" for reread comps
proof
  fix m m'
  assume inv: "machine_inv reread comps m" and step: "machine_step reread comps m m'"
  then have D: "names_ok comps" "actions_inv reread m" by (auto simp: machine_inv_def)
  from step have "actions_inv reread m'"
  proof (cases rule: machine_step.cases)
    case (head env h r)
    show ?thesis
      by (rule head_loop_inv [OF D(2,1), of env h r m'])
        (use head in \<open>simp_all add: processNewHead_def fresh_ids_def fresh_for_def\<close>)
  next
    case (blocks c)
    with D(2) show ?thesis by simp
  next
    case (finish name a apply_ok db_ok)
    with D(2) show ?thesis by (simp add: finish_action_inv)
  next
    case (restart stream c)
    with restart_machine_inv(1) [OF D(2,1)] show ?thesis by simp
  qed
  with D(1) show "machine_inv reread comps m'" by (simp add: machine_inv_def)
qed

lemma reach_actions_inv:
  assumes "names_ok comps" "(machine_step reread comps)\<^sup>*\<^sup>* (initial_machine c) m"
  shows "actions_inv reread m"
  using machine_run.reach_inv [OF assms(2)] assms(1) actions_inv_initial by (auto simp: machine_inv_def)

text \<open>C23: No action is lost: through any number of heads, failed writes, actions that fail and crashes,
  every action that was stored is still in the database or was applied, whatever runs is in the
  database, and a restart runs exactly the actions of the components that the database holds.  The database
  holds JSON: a restart runs what \<open>reread\<close> gives back of the stored actions, so what runs or was applied may
  be such a copy; where \<open>reread\<close> is the identity it is the action itself.\<close>

theorem actions_at_least_once:
  assumes "names_ok comps" "(machine_step reread comps)\<^sup>*\<^sup>* (initial_machine c) m"
    and "js_wf stream" "map_of stream = map_of (actionDb (action_store m))"
  defines "in_db \<equiv> \<lambda>name a. map_of (actionDb (action_store m)) (action_key name (action_id a)) = Some (action a)"
    and "copy \<equiv> \<lambda>a. a\<lparr>action := reread (action a)\<rparr>"
  shows "(\<forall>(name, a)\<in>set (stored m). (name, a) \<in> set (applied m) \<or> (name, copy a) \<in> set (applied m) \<or> in_db name a) \<and>
    (\<forall>(name, a)\<in>set (running m). in_db name a \<or> (\<exists>b. a = copy b \<and> in_db name b)) \<and>
    set (running (restart_machine reread comps c' stream m)) = {(name, copy a) | name a. name \<in> component_name ` set comps \<and> in_db name a}"
proof -
  note inv = reach_actions_inv [OF assms(1,2)]
  note D = actions_invD [OF inv]
  have split: "b = a \<or> b = copy a" if "action_id b = action_id a" "same_action reread (action a) (action b)" for a b
    using that by (cases a; cases b) (auto simp: copy_def same_action_def)
  have "(name, a) \<in> set (applied m) \<or> (name, copy a) \<in> set (applied m) \<or> in_db name a" if "(name, a) \<in> set (stored m)" for name a
    using D(5) [OF that] split unfolding in_db_def was_applied_def by blast
  moreover have "in_db name a \<or> (\<exists>b. a = copy b \<and> in_db name b)" if "(name, a) \<in> set (running m)" for name a
  proof -
    from in_memory_stored [OF inv D(3) [OF that]] obtain b where
      "in_db name b" "action_id b = action_id a" "same_action reread (action b) (action a)" unfolding in_db_def by blast
    with split [of a b] show ?thesis by auto
  qed
  ultimately show ?thesis
    unfolding restart_machine_inv(2) [OF inv assms(1,3,4)] by (auto simp: in_db_def copy_def)
qed

text \<open>Where nothing is lost in JSON, the action itself.\<close>

lemma actions_at_least_once_id:
  assumes "names_ok comps" "(machine_step id comps)\<^sup>*\<^sup>* (initial_machine c) m"
  shows "(name, a) \<in> set (stored m) \<Longrightarrow> (name, a) \<in> set (applied m) \<or> db_holds m name a"
    "(name, a) \<in> set (running m) \<Longrightarrow> db_holds m name a"
proof -
  note inv = reach_actions_inv [OF assms]
  show "(name, a) \<in> set (applied m) \<or> db_holds m name a" if "(name, a) \<in> set (stored m)"
    using actions_invD(5) [OF inv that] by auto
  show "db_holds m name a" if "(name, a) \<in> set (running m)"
    by (rule in_memory_stored [OF inv actions_invD(3) [OF inv that]]) simp
qed

text \<open>A component that wants an action whenever its state changes, and a cache with a head.\<close>

definition ex_component :: "(unit IBlockStub_scheme, nat, nat) Component" where
  "ex_component =
     \<lparr>component_name = ''n'',
      reducer = \<lambda>c. \<lparr>getInitialState = \<lambda>b. Some (Inr 0), reduce = \<lambda>s b. Some (Inr (s + 1))\<rparr>,
      detectChanges = \<lambda>p s. Inr (if p = s then [] else [s])\<rparr>"

definition ex_copy :: "nat \<Rightarrow> nat" where
  "ex_copy n = 10 * n"

definition ex_head :: "unit IBlockStub_scheme" where
  "ex_head = \<lparr>block_hash = ''h'', number = 5, parentHash = ''p'', \<dots> = ()\<rparr>"

definition ex_cache :: "(unit IBlockStub_scheme, nat) BlockCache" where
  "ex_cache = (new_BlockCache 3 (new_BlockItemStore [])) \<lparr>blockStore :=
     \<lparr>itemsByHeight = [(Some 5, [memKey ''h'' (''n:'' @ KEY_STATE), memKey ''h'' (''n:'' @ KEY_PREV_EMITTED_STATE)])],
      items = [(memKey ''h'' (''n:'' @ KEY_STATE), StateItem 1), (memKey ''h'' (''n:'' @ KEY_PREV_EMITTED_STATE), StateItem 0)],
      mBatch = Some [], blockDb = []\<rparr>\<rparr>"

definition ex_env :: head_env where
  "ex_env name = (\<lambda>i. replicate i CHR ''x'', True)"

lemma ex_store:
  "storeActions [[]] True ''n'' [Suc 0] \<lparr>actions = [], actionDb = []\<rparr> =
     (Inr [\<lparr>action_id = [], action = Suc 0\<rparr>],
      \<lparr>actions = [(''n'', [\<lparr>action_id = [], action = Suc 0\<rparr>])], actionDb = [(''n:'', Suc 0)]\<rparr>)"
  by (simp add: storeActions_def add_actions_def action_key_def Let_def)

lemma head_loop_single:
  assumes "anchorState_get (blockStore (cache m)) (component_name component) (block_hash h) = Some state"
    "prevEmittedAnchorState_get (blockStore (cache m)) (component_name component) (block_hash h) = Some prev"
    "detectChanges component prev state = Inr newActions"
    "store_and_run env (component_name component) newActions m = (Inr (), m1)"
  shows "stored (snd (head_loop env [component] h m)) = stored m1 \<and>
    action_store (snd (head_loop env [component] h m)) = action_store m1"
  using assms by (auto simp: then_eff_def bind_eff_def on_cache_def split: prod.splits sum.splits)

lemma ex_head_run:
  "stored (snd (processNewHead ex_env [ex_component] ex_head (initial_machine ex_cache))) =
     [(''n'', \<lparr>action_id = [], action = 1\<rparr>)] \<and>
   actionDb (action_store (snd (processNewHead ex_env [ex_component] ex_head (initial_machine ex_cache)))) =
     [(''n:'', 1)]"
proof -
  let ?m = "initial_machine ex_cache :: (unit IBlockStub_scheme, nat, nat) machine_state"
  have "anchorState_get (blockStore (cache ?m)) ''n'' ''h'' = Some 1"
    "prevEmittedAnchorState_get (blockStore (cache ?m)) ''n'' ''h'' = Some 0"
    by (simp_all add: initial_machine_def ex_cache_def anchorState_get_def prevEmittedAnchorState_get_def getItem_def
        memKey_def KEY_STATE_def KEY_PREV_EMITTED_STATE_def)
  moreover obtain m1 where m1: "store_and_run ex_env ''n'' [1] ?m = (Inr (), m1)"
    "stored m1 = [(''n'', \<lparr>action_id = [], action = 1\<rparr>)]" "actionDb (action_store m1) = [(''n:'', 1)]"
    by (simp add: store_and_run_def ex_env_def initial_machine_def new_ActionStore_def ex_store
        runActionsForComponent_def)
  ultimately show ?thesis
    using head_loop_single [of ?m ex_component ex_head 1 0 "[1]" ex_env m1]
    by (simp add: processNewHead_def ex_component_def ex_head_def)
qed

lemma ex_head_step:
  "\<exists>m. machine_step ex_copy [ex_component] (initial_machine ex_cache) m \<and> stored m = [(''n'', \<lparr>action_id = [], action = 1\<rparr>)] \<and>
     actionDb (action_store m) = [(''n:'', 1)]"
proof -
  obtain r m where m: "processNewHead ex_env [ex_component] ex_head (initial_machine ex_cache) = (r, m)" by fastforce
  have "fresh_ids ex_env (initial_machine ex_cache)"
    by (auto simp: fresh_ids_def ex_env_def initial_machine_def inj_def)
  from machine_step.head [OF this m] have "machine_step ex_copy [ex_component] (initial_machine ex_cache) m" .
  moreover have "stored m = [(''n'', \<lparr>action_id = [], action = 1\<rparr>)] \<and> actionDb (action_store m) = [(''n:'', 1)]"
    using m ex_head_run by (metis snd_conv)
  ultimately show ?thesis by blast
qed

theorem actions_at_least_once_witness:
  "\<exists>m. (machine_step ex_copy [ex_component])\<^sup>*\<^sup>* (initial_machine ex_cache) m \<and>
     stored m = [(''n'', \<lparr>action_id = [], action = 1\<rparr>)] \<and>
     set (running (restart_machine ex_copy [ex_component] ex_cache [(''n:'', 1)] m)) = {(''n'', \<lparr>action_id = [], action = 10\<rparr>)}"
proof -
  from ex_head_step obtain m where m: "machine_step ex_copy [ex_component] (initial_machine ex_cache) m"
    "stored m = [(''n'', \<lparr>action_id = [], action = 1\<rparr>)]" "actionDb (action_store m) = [(''n:'', 1)]" by blast
  then have reach: "(machine_step ex_copy [ex_component])\<^sup>*\<^sup>* (initial_machine ex_cache) m" by auto
  have "names_ok [ex_component]" by (simp add: names_ok_def ex_component_def colon_free_def)
  from actions_at_least_once [OF this reach, of "[(''n:'', 1)]" ex_cache] m(3)
  have "set (running (restart_machine ex_copy [ex_component] ex_cache [(''n:'', 1)] m)) =
      {(name, a\<lparr>action := ex_copy (action a)\<rparr>) | name a. name = ''n'' \<and> map_of [(''n:'', 1)] (action_key name (action_id a)) = Some (action a)}"
    by (simp add: js_wf_def ex_component_def)
  also have "\<dots> = {(''n'', \<lparr>action_id = [], action = 10\<rparr>)}"
  proof -
    have "map_of [(''n:'', 1 :: nat)] (action_key ''n'' (action_id a)) = Some (action a) \<longleftrightarrow> a = \<lparr>action_id = [], action = 1\<rparr>"
      for a :: "nat ActionAndId"
      by (cases a) (auto simp: action_key_def)
    then show ?thesis by (auto simp: ex_copy_def)
  qed
  finally show ?thesis using reach m(2) by blast
qed

end
