(* ===== verification/MachineProps.thy ===== *)
theory MachineProps
  imports MachineRuns BlockCacheProps
begin

text \<open>
  The anchor states the machine computes: for a new block, the state of every component is the reduced
  state of its parent, and nothing else changes.
\<close>

section \<open>Keys\<close>

lemma memKey_inj:
  assumes "colon_free h" "colon_free h'"
  shows "memKey h k = memKey h' k' \<longleftrightarrow> h = h' \<and> k = k'"
proof
  assume eq: "memKey h k = memKey h' k'"
  then have "h = h'"
    using takeWhile_colon [OF assms(1), of k] takeWhile_colon [OF assms(2), of k'] by (simp add: memKey_def)
  with eq show "h = h' \<and> k = k'" by (simp add: memKey_def)
qed simp

lemma state_keys_differ [simp]:
  "n @ CHR '':'' # KEY_STATE \<noteq> n' @ CHR '':'' # KEY_PREV_EMITTED_STATE"
  "n' @ CHR '':'' # KEY_PREV_EMITTED_STATE \<noteq> n @ CHR '':'' # KEY_STATE"
proof -
  have "rev (n @ CHR '':'' # KEY_STATE) ! 4 \<noteq> rev (n' @ CHR '':'' # KEY_PREV_EMITTED_STATE) ! 4"
    by (simp add: KEY_STATE_def KEY_PREV_EMITTED_STATE_def)
  then show "n @ CHR '':'' # KEY_STATE \<noteq> n' @ CHR '':'' # KEY_PREV_EMITTED_STATE"
    "n' @ CHR '':'' # KEY_PREV_EMITTED_STATE \<noteq> n @ CHR '':'' # KEY_STATE" by metis+
qed

lemma state_item_other [simp]:
  "memKey h (n @ CHR '':'' # KEY_STATE) \<noteq> memKey h' KEY_BLOCK" "memKey h (n @ CHR '':'' # KEY_STATE) \<noteq> memKey h' KEY_ATTACHED"
  "memKey h (n @ CHR '':'' # KEY_STATE) \<noteq> memKey h' (n' @ CHR '':'' # KEY_PREV_EMITTED_STATE)"
  "memKey h (n @ CHR '':'' # KEY_PREV_EMITTED_STATE) \<noteq> memKey h' KEY_BLOCK"
  "memKey h (n @ CHR '':'' # KEY_PREV_EMITTED_STATE) \<noteq> memKey h' KEY_ATTACHED"
  using memKey_state_other [OF state_key(1) [of n], of h' h] memKey_state_other [OF state_key(2) [of n], of h' h]
    state_keys_differ(1) [of "h @ CHR '':'' # n" "h' @ CHR '':'' # n'"] by (auto simp: memKey_def)

section \<open>What a component reads\<close>

text \<open>Reducers read the blocks of the cache, not the anchor states in it.\<close>

definition reads_blocks :: "'b naming \<Rightarrow> ('b IBlockStub_scheme, 's, 'a) Component \<Rightarrow> bool" where
  "reads_blocks B component \<longleftrightarrow>
     (\<forall>c c' h. rep_ok B c \<longrightarrow> rep_ok B c' \<longrightarrow> (\<forall>x. att c' x = att c x) \<longrightarrow> att c h = Some True \<longrightarrow>
        getInitialState (reducer component c') (B h) = getInitialState (reducer component c) (B h) \<and>
        (\<forall>s. reduce (reducer component c') s (B h) = reduce (reducer component c) s (B h)))"

abbreviation anchor :: "('b, 's) BlockCache \<Rightarrow> string \<Rightarrow> string \<Rightarrow> 's option" where
  "anchor c n h \<equiv> anchorState_get (blockStore c) n h"

abbreviation emitted_anchor :: "('b, 's) BlockCache \<Rightarrow> string \<Rightarrow> string \<Rightarrow> 's option" where
  "emitted_anchor c n h \<equiv> prevEmittedAnchorState_get (blockStore c) n h"

lemma anchor_items:
  "anchorState_get s n h =
     (case map_of (items s) (memKey h (n @ '':'' @ KEY_STATE)) of Some (StateItem x) \<Rightarrow> Some x | _ \<Rightarrow> None)"
  "prevEmittedAnchorState_get s n h =
     (case map_of (items s) (memKey h (n @ '':'' @ KEY_PREV_EMITTED_STATE)) of Some (StateItem x) \<Rightarrow> Some x | _ \<Rightarrow> None)"
  by (simp_all add: anchorState_get_def prevEmittedAnchorState_get_def getItem_def)

text \<open>\<open>state_for\<close> is the same in caches with the same blocks and the same states of the component.\<close>

lemma state_for_same:
  assumes "reads_blocks B component" "rep_ok B c" "rep_ok B c'" "\<And>x. att c' x = att c x"
    "names B b" "att c (block_hash b) = Some True"
    "\<And>h. real B h \<Longrightarrow> anchor c' (component_name component) h = anchor c (component_name component) h"
    "\<And>h. real B h \<Longrightarrow> emitted_anchor c' (component_name component) h = emitted_anchor c (component_name component) h"
  shows "state_for component b c' = state_for component b c"
proof -
  note R = assms(1) [unfolded reads_blocks_def, rule_format, OF assms(2,3,4)]
  have b: "B (block_hash b) = b" using assms(5) by (simp add: names_def)
  show ?thesis
  proof (cases "att c (parentHash b) = Some True")
    case True
    then have p: "real B (parentHash b)" "block_hash (B (parentHash b)) = parentHash b"
      using rep_okD(3) [OF assms(2)] by (auto simp: real_def)
    have "getBlock c (parentHash b) = Inr (B (parentHash b))" "getBlock c' (parentHash b) = Inr (B (parentHash b))"
      using True by (simp_all add: getBlock_rep [OF assms(2)] getBlock_rep [OF assms(3)] assms(4))
    with True R [OF True] R [OF assms(6)] b show ?thesis
      by (cases "anchor c (component_name component) (parentHash b)")
        (simp_all add: state_for_def hasBlock_rep [OF assms(2)] hasBlock_rep [OF assms(3)] assms(4) assms(7,8) [OF p(1)] p(2))
  next
    case False
    with R [OF assms(6)] b show ?thesis
      by (simp add: state_for_def hasBlock_rep [OF assms(2)] hasBlock_rep [OF assms(3)] assms(4))
  qed
qed

section \<open>New blocks\<close>

text \<open>A component's turn writes its two states of the block and nothing else.\<close>

lemma new_state_writes:
  assumes "rep_ok B c" "names B b" "att c (block_hash b) = Some True" "reducer_returns B component"
  obtains s p c1 where "state_for component b c = Some (Inr (s, p))" "new_state b component c = Some (Inr (), c1)"
    "rep_ok B c1" "\<And>h. att c1 h = att c h"
    "\<And>n h. colon_free h \<Longrightarrow> anchor c1 n h =
       (if n = component_name component \<and> h = block_hash b then Some s else anchor c n h)"
    "\<And>n h. colon_free h \<Longrightarrow> emitted_anchor c1 n h =
       (if n = component_name component \<and> h = block_hash b \<and> p \<noteq> None then p else emitted_anchor c n h)"
proof -
  let ?n = "component_name component"
  have h: "colon_free (block_hash b)" using assms(2) by (simp add: names_def)
  from state_for_returns [OF assms] obtain s p where sp: "state_for component b c = Some (Inr (s, p))" by blast
  from new_state_keeps [OF assms] sp obtain s' where
    s': "new_state b component c = Some (Inr (), c\<lparr>blockStore := s'\<rparr>)" "rep_ok B (c\<lparr>blockStore := s'\<rparr>)"
      "\<forall>h. attached_get s' h = att c h"
      "map_of (items s') = (case p of None \<Rightarrow> (\<lambda>m. m)
           | Some q \<Rightarrow> (\<lambda>m. m(memKey (block_hash b) (?n @ '':'' @ KEY_PREV_EMITTED_STATE) \<mapsto> StateItem q)))
         ((cache_items c)(memKey (block_hash b) (?n @ '':'' @ KEY_STATE) \<mapsto> StateItem s))"
    by blast
  note keys = memKey_inj [OF _ h]
  have "anchor (c\<lparr>blockStore := s'\<rparr>) n x = (if n = ?n \<and> x = block_hash b then Some s else anchor c n x)"
    if "colon_free x" for n x
    by (cases p) (auto simp: anchor_items s'(4) keys [OF that])
  moreover have "emitted_anchor (c\<lparr>blockStore := s'\<rparr>) n x =
      (if n = ?n \<and> x = block_hash b \<and> p \<noteq> None then p else emitted_anchor c n x)" if "colon_free x" for n x
    by (cases p) (auto simp: anchor_items s'(4) keys [OF that])
  ultimately show thesis
    using sp s'(1-3) by (intro that [of s p "c\<lparr>blockStore := s'\<rparr>"]) auto
qed

lemma processNewBlock_states:
  assumes "components_return comps B" "\<forall>component\<in>set comps. reads_blocks B component"
    "distinct (map component_name comps)" "rep_ok B c" "names B b" "att c (block_hash b) = Some True"
  shows "\<exists>c'. processNewBlock comps b c = Some (Inr (), c') \<and> rep_ok B c' \<and> (\<forall>h. att c' h = att c h) \<and>
    (\<forall>n h. colon_free h \<longrightarrow> n \<notin> component_name ` set comps \<or> h \<noteq> block_hash b \<longrightarrow>
       anchor c' n h = anchor c n h \<and> emitted_anchor c' n h = emitted_anchor c n h) \<and>
    (\<forall>component\<in>set comps. \<exists>s p. state_for component b c = Some (Inr (s, p)) \<and>
       anchor c' (component_name component) (block_hash b) = Some s \<and>
       emitted_anchor c' (component_name component) (block_hash b) =
         (if p \<noteq> None then p else emitted_anchor c (component_name component) (block_hash b)))"
  using assms unfolding processNewBlock_def
proof (induction comps arbitrary: c)
  case (Cons component comps)
  let ?n = "component_name component" and ?h = "block_hash b"
  have h: "colon_free ?h" using Cons.prems(5) by (simp add: names_def)
  have prem: "reducer_returns B component" "components_return comps B" "distinct (map component_name comps)"
    "?n \<notin> component_name ` set comps" "\<forall>component\<in>set comps. reads_blocks B component"
    using Cons.prems(1-3) by (auto simp: components_return_def)
  from new_state_writes [OF Cons.prems(4-6) prem(1)] obtain s p c1 where
    c1: "state_for component b c = Some (Inr (s, p))" "new_state b component c = Some (Inr (), c1)"
      "rep_ok B c1" "\<And>h. att c1 h = att c h"
      "\<And>n h. colon_free h \<Longrightarrow> anchor c1 n h = (if n = ?n \<and> h = ?h then Some s else anchor c n h)"
      "\<And>n h. colon_free h \<Longrightarrow> emitted_anchor c1 n h = (if n = ?n \<and> h = ?h \<and> p \<noteq> None then p else emitted_anchor c n h)"
    by blast
  from Cons.IH [OF prem(2,5,3) c1(3) Cons.prems(5)] c1(4) Cons.prems(6) obtain c' where
    c': "for_each_prog (new_state b) comps c1 = Some (Inr (), c')" "rep_ok B c'" "\<And>h. att c' h = att c1 h"
      "\<And>n h. colon_free h \<Longrightarrow> n \<notin> component_name ` set comps \<or> h \<noteq> ?h \<Longrightarrow>
         anchor c' n h = anchor c1 n h \<and> emitted_anchor c' n h = emitted_anchor c1 n h"
      "\<And>component. component \<in> set comps \<Longrightarrow> \<exists>s p. state_for component b c1 = Some (Inr (s, p)) \<and>
         anchor c' (component_name component) ?h = Some s \<and>
         emitted_anchor c' (component_name component) ?h =
           (if p \<noteq> None then p else emitted_anchor c1 (component_name component) ?h)"
    by auto
  have "anchor c' n x = anchor c n x \<and> emitted_anchor c' n x = emitted_anchor c n x"
    if "colon_free x" "n \<notin> component_name ` set (component # comps) \<or> x \<noteq> ?h" for n x
    using that c'(4) [OF that(1), of n] c1(5,6) [OF that(1), of n] by auto
  moreover have "\<exists>s p. state_for other b c = Some (Inr (s, p)) \<and>
       anchor c' (component_name other) ?h = Some s \<and>
       emitted_anchor c' (component_name other) ?h = (if p \<noteq> None then p else emitted_anchor c (component_name other) ?h)"
    if "other \<in> set (component # comps)" for other
  proof (cases "other = component")
    case True
    with c1(1) c'(4) [OF h, of ?n] prem(4) c1(5,6) [OF h, of ?n] show ?thesis by simp
  next
    case False
    with that have o: "other \<in> set comps" by simp
    then have n: "component_name other \<noteq> ?n" using prem(4) by (metis imageI)
    have st: "state_for other b c1 = state_for other b c"
    proof (rule state_for_same)
      show "reads_blocks B other" using prem(5) o by blast
    qed (use Cons.prems(4-6) c1 n in \<open>auto simp: real_def\<close>)
    have "emitted_anchor c1 (component_name other) ?h = emitted_anchor c (component_name other) ?h"
      using c1(6) [OF h, of "component_name other"] n by simp
    then show ?thesis using c'(5) [OF o] unfolding st by presburger
  qed
  ultimately show ?case
    using c1(2,4) c'(1-3) by (intro exI [of _ c']) auto
qed auto

text \<open>What the state of a component for a block is made of.\<close>

lemma state_for_cases:
  assumes "rep_ok B c" "state_for component b c = Some (Inr (s, p))"
  shows "if att c (parentHash b) = Some True then
          (\<exists>prev. (case anchor c (component_name component) (parentHash b) of
                     Some x \<Rightarrow> prev = x
                   | None \<Rightarrow> getInitialState (reducer component c) (B (parentHash b)) = Some (Inr prev)) \<and>
                  reduce (reducer component c) prev b = Some (Inr s)) \<and>
          p = emitted_anchor c (component_name component) (parentHash b)
        else getInitialState (reducer component c) b = Some (Inr s)"
proof (cases "att c (parentHash b) = Some True")
  case True
  then have "getBlock c (parentHash b) = Inr (B (parentHash b))" "block_hash (B (parentHash b)) = parentHash b"
    using getBlock_rep [OF assms(1)] rep_okD(3) [OF assms(1)] by (auto simp: real_def)
  with True assms(2) show ?thesis
    by (cases "anchor c (component_name component) (parentHash b)")
      (auto simp: state_for_def hasBlock_rep [OF assms(1)] Let_def result_simps)
next
  case False
  with assms(2) show ?thesis by (auto simp: state_for_def hasBlock_rep [OF assms(1)] result_simps)
qed

lemma state_for_orphan:
  assumes "rep_ok B c" "state_for component b c = Some (Inr (s, p))" "att c (parentHash b) \<noteq> Some True"
  shows "p = None"
  using assms by (auto simp: state_for_def hasBlock_rep [OF assms(1)] result_simps)

end
