(* ===== verification/WatcherProps.thy ===== *)
theory WatcherProps
  imports Watcher MachineProps
begin

text \<open>
  The watcher on the machine: when its reducers return, what an event does to the state of an appointment,
  how often a response is started, and how one appointment can stop the processing of blocks.
\<close>

section \<open>The reducers return\<close>

text \<open>The topics of an appointment without \<open>null\<close>, and the blocks of the chain do not trip its filter.\<close>

abbreviation topics_of :: "Appointment \<Rightarrow> string list" where
  "topics_of a \<equiv> map the (a_topics a)"

definition watchable :: "('b Logs_scheme \<Rightarrow> bool) \<Rightarrow> Appointment \<Rightarrow> bool" where
  "watchable on_chain a \<longleftrightarrow> a_eventAddress a \<noteq> [] \<and> None \<notin> set (a_topics a) \<and>
     (\<forall>b. on_chain b \<longrightarrow> logs_fit (a_eventAddress a) (topics_of a) b)"

definition event_in :: "Appointment \<Rightarrow> 'b Logs_scheme \<Rightarrow> bool" where
  "event_in a b \<longleftrightarrow> (\<exists>log\<in>set (logs b). is_event (a_eventAddress a) (topics_of a) log)"

lemma hasLog_event:
  assumes "watchable on_chain a" "on_chain b"
  shows "hasLogMatchingEventFilter b (eventFilter a) = Inr (event_in a b)"
proof -
  have "map Some (topics_of a) = a_topics a"
  proof -
    have all: "map Some (map the ts) = ts" if "None \<notin> set ts" for ts :: "string option list"
      using that by (induction ts) auto
    show ?thesis by (rule all) (use assms(1) in \<open>simp add: watchable_def\<close>)
  qed
  then show ?thesis
    using assms hasLog_returns [of "eventFilter a" "a_eventAddress a" "topics_of a" b]
    by (simp add: watchable_def eventFilter_def event_in_def)
qed

lemma EventFilterStateReducer_eq [simp]:
  "EventFilterStateReducer c (eventFilter a) from =
     Inr \<lparr>getInitialState = event_getInitialState c (eventFilter a) from, reduce = event_reduce (eventFilter a)\<rparr>"
  by (simp add: EventFilterStateReducer_def) (simp add: eventFilter_def)

fun event_state :: "'b Logs_scheme option \<Rightarrow> WatcherAppointmentAnchorState" where
  "event_state (Some b) = Observed (number b)"
| "event_state None = Watching"

lemma find_result_eq: "(\<And>b. b \<in> set bs \<Longrightarrow> P b = Inr (Q b)) \<Longrightarrow> find_result P bs = Inr (find Q bs)"
  by (induction bs) auto

lemma event_getInitialState_path:
  assumes "rep_ok B c" "ancestry_path B c (h # hs)"
    "\<And>x. x \<in> set (h # hs) \<Longrightarrow> hasLogMatchingEventFilter (B x) f = Inr (ev (B x))"
  shows "event_getInitialState c f from (B h) =
    Some (Inr (event_state (find ev (takeWhile (\<lambda>b. from \<le> number b) (map B (h # hs))))))"
proof -
  have h: "block_hash (B h) = h" using ancestry_path_real [OF assms(1,2)] by (simp add: real_def)
  have "find_result (\<lambda>b. hasLogMatchingEventFilter b f) (takeWhile (\<lambda>b. from \<le> number b) (map B (h # hs))) =
      Inr (find ev (takeWhile (\<lambda>b. from \<le> number b) (map B (h # hs))))"
  proof (rule find_result_eq)
    show "hasLogMatchingEventFilter b f = Inr (ev b)" if "b \<in> set (takeWhile (\<lambda>b. from \<le> number b) (map B (h # hs)))" for b
    proof -
      have "b \<in> set (map B (h # hs))" using that by (rule set_takeWhileD [THEN conjunct1])
      then show ?thesis by (metis assms(3) imageE set_map)
    qed
  qed
  then show ?thesis
    unfolding event_getInitialState_def h findAncestor_path [OF assms(1,2)]
    by (cases "find ev (takeWhile (\<lambda>b. from \<le> number b) (map B (h # hs)))") simp_all
qed

lemma event_reduce_eq:
  "hasLogMatchingEventFilter b f = Inr e \<Longrightarrow>
   event_reduce f s b = Some (Inr (if s = Watching \<and> e then Observed (number b) else s))"
  by (simp add: event_reduce_def)

lemma watched_events:
  assumes "\<And>a. a \<in> set (getAll_appointments (watcher_store w)) \<Longrightarrow> watchable (\<lambda>b. \<exists>h. real B h \<and> b = B h) a"
    "rep_ok B c" "ancestry_path B c (h # hs)" "a \<in> set (getAll_appointments (watcher_store w))" "x \<in> set (h # hs)"
  shows "hasLogMatchingEventFilter (B x) (eventFilter a) = Inr (event_in a (B x))"
  using hasLog_event [OF assms(1) [OF assms(4)]] ancestry_path_real [OF assms(2,3,5)] by blast

lemma watcher_reducer_returns:
  fixes B :: "'b Logs_ext TransactionHashes_ext naming"
  assumes "links B" "\<And>a. a \<in> set (getAll_appointments (watcher_store w)) \<Longrightarrow> watchable (\<lambda>b. \<exists>h. real B h \<and> b = B h) a"
    "rep_ok B c" "att c h = Some True"
  shows "\<exists>s. getInitialState (watcher_reducer w c) (B h) = Some (Inr s)"
    "\<exists>s'. reduce (watcher_reducer w c) s (B h) = Some (Inr s')"
proof -
  obtain hs where path: "ancestry_path B c (h # hs)" using ancestry_path_exists [OF assms(3,1), of h] assms(4) by auto
  note ev = watched_events [OF assms(2,3) path]
  have base: "(\<exists>m. event_getInitialState c (eventFilter a) from (B h) = Some (Inr m)) \<and>
      (\<forall>s. \<exists>m. event_reduce (eventFilter a) s (B h) = Some (Inr m))"
    if "a \<in> set (getAll_appointments (watcher_store w))" for a "from"
    using event_getInitialState_path [OF assms(3) path ev [OF _ that]] event_reduce_eq [OF ev [OF _ that, of h]] by auto
  show "\<exists>s. getInitialState (watcher_reducer w c) (B h) = Some (Inr s)"
    "\<exists>s'. reduce (watcher_reducer w c) s (B h) = Some (Inr s')"
    unfolding watcher_reducer_def mapped_reducer_def StateReducer.simps
    by (intro mapped_returns; simp add: base BlockNumberReducer_def)+
qed

lemma watcher_component_returns:
  fixes B :: "'b Logs_ext TransactionHashes_ext naming"
  assumes "links B" "\<And>a. a \<in> set (getAll_appointments (watcher_store w)) \<Longrightarrow> watchable (\<lambda>b. \<exists>h. real B h \<and> b = B h) a"
  shows "reducer_returns B (watcher_component w)"
  by (simp add: reducer_returns_def watcher_component_def watcher_reducer_returns [OF assms])

section \<open>A filter that trips\<close>

lemma mapped_items_throws:
  assumes "\<And>obj. obj \<in> set objs \<Longrightarrow> \<exists>r. f obj = Some r" "obj \<in> set objs" "f obj = Some (Inl e)"
  shows "\<exists>e'. mapped_items key f objs acc = Some (Inl e')"
  using assms(1,2)
proof (induction objs arbitrary: acc)
  case (Cons x xs)
  from Cons.prems(1) [of x] obtain r where r: "f x = Some r" by auto
  show ?case
  proof (cases r)
    case (Inr m)
    with r Cons.prems(2) assms(3) have "obj \<in> set xs" by auto
    with Cons.IH [of "AList.update (key x) m acc"] Cons.prems(1) r Inr show ?thesis by auto
  qed (use r in simp)
qed simp

lemma event_getInitialState_ends:
  assumes "rep_ok B c" "links B" "att c h \<noteq> None"
  shows "\<exists>r. event_getInitialState c f from (B h) = Some r"
proof -
  obtain hs where path: "ancestry_path B c (h # hs)" using ancestry_path_exists [OF assms] by blast
  have "block_hash (B h) = h" using rep_okD(3) [OF assms(1,3)] by (simp add: real_def)
  then show ?thesis
    by (cases "find_result (\<lambda>b. hasLogMatchingEventFilter b f) (takeWhile (\<lambda>b. from \<le> number b) (map B (h # hs)))")
      (simp_all add: event_getInitialState_def findAncestor_path [OF assms(1) path])
qed

text \<open>A watched appointment whose filter throws on a block makes the reducer of the watcher throw.\<close>

lemma watcher_reduce_throws:
  assumes rep: "rep_ok B c" "links B" "att c h \<noteq> None"
    and a: "a \<in> set (getAll_appointments (watcher_store w))" "map_of (state_items s) (appointment_id a) = Some Watching"
    and e: "hasLogMatchingEventFilter (B h) (eventFilter a) = Inl e"
  shows "\<exists>e'. reduce (watcher_reducer w c) s (B h) = Some (Inl e')"
proof -
  let ?f = "\<lambda>obj. bind_run (Some (EventFilterStateReducer c (eventFilter obj) (a_startBlock obj))) (\<lambda>base.
      case map_of (state_items s) (appointment_id obj) of
        Some prev \<Rightarrow> reduce base prev (B h) | None \<Rightarrow> getInitialState base (B h))"
  have "\<exists>r. ?f obj = Some r" for obj
    using event_getInitialState_ends [OF rep, of "eventFilter obj" "a_startBlock obj"]
    by (cases "hasLogMatchingEventFilter (B h) (eventFilter obj)")
      (auto simp: event_reduce_def split: option.split)
  moreover have "?f a = Some (Inl e)" by (simp add: a(2) event_reduce_def e)
  ultimately obtain e' where "mapped_items appointment_id ?f (getAll_appointments (watcher_store w)) [] = Some (Inl e')"
    using mapped_items_throws [of "getAll_appointments (watcher_store w)" ?f a e appointment_id "[]"] a(1) by blast
  then show ?thesis by (simp add: watcher_reducer_def mapped_reducer_def mapped_reduce_def)
qed

text \<open>The machine computes the state of a new block from the stored state of its parent.\<close>

lemma new_state_throws:
  assumes rep: "rep_ok B c" and b: "att c (parentHash b) = Some True"
    and prev: "anchor c (component_name component) (parentHash b) = Some s"
    and e: "reduce (reducer component c) s b = Some (Inl e)"
  shows "processNewBlock (component # comps) b c = Some (Inl e, c)"
proof -
  have "real B (parentHash b)" using rep_okD(3) [OF rep, of "parentHash b"] b by simp
  then have "getBlock c (parentHash b) = Inr (B (parentHash b))" "block_hash (B (parentHash b)) = parentHash b"
    using b getBlock_rep [OF rep] by (auto simp: real_def)
  then have "state_for component b c = Some (Inl e)"
    using b prev e by (simp add: state_for_def hasBlock_rep [OF rep] Let_def)
  then show ?thesis
    by (simp add: processNewBlock_def new_state_def bind_prog_def then_prog_def)
qed

text \<open>The state in which \<open>addBlock\<close> emits a block with an attached parent; what the listener throws, it throws.\<close>

lemma addBlock_throws:
  assumes core: "core B c" and b: "names B b" "lo c \<le> number b" "att c (block_hash b) = None" "att c (parentHash b) = Some True"
  shows "\<exists>c1. rep_ok B c1 \<and> att c1 (block_hash b) = Some True \<and> att c1 (parentHash b) = Some True \<and>
    (\<forall>n h. colon_free h \<longrightarrow> anchor c1 n h = anchor c n h) \<and>
    (\<forall>listener e c2. listener b c1 = Some (Inl e, c2) \<longrightarrow> addBlock listener b c = Some (Inl e, c2))"
proof -
  let ?h = "block_hash b"
  note D = coreD [OF core]
  from put_block_rep [OF D(1) b(1), of True] obtain s0 s1 where
    s: "on_store (block_set (number b) ?h b) c = (Inr (), c\<lparr>blockStore := s0\<rparr>)"
      "on_store (attached_set (number b) ?h True) (c\<lparr>blockStore := s0\<rparr>) = (Inr (), c\<lparr>blockStore := s1\<rparr>)"
      "rep_ok B (c\<lparr>blockStore := s1\<rparr>)" "att (c\<lparr>blockStore := s1\<rparr>) = (att c)(?h \<mapsto> True)"
      "map_of (items s1) = (cache_items c)(memKey ?h KEY_BLOCK \<mapsto> BlockItem b, memKey ?h KEY_ATTACHED \<mapsto> AttachedItem True)"
    by metis
  let ?c1 = "c\<lparr>blockStore := s1, emitted := emitted c @ [b]\<rparr>"
  have "anchor ?c1 n h = anchor c n h" for n h
    using memKey_state_other [OF state_key(1) [of n], of ?h h, THEN not_sym] by (simp add: anchor_items s(5))
  moreover have "addBlock listener b c = Some (Inl e, c2)" if "listener b ?c1 = Some (Inl e, c2)" for listener e c2
    using that b s(1,2) D(3,8)
    by (auto simp: addBlock_def Let_def canAttachBlock_core [OF core] then_prog_def bind_prog_def lift_eff_def emit_def)
  moreover have "att ?c1 ?h = Some True" "att ?c1 (parentHash b) = Some True"
    using fun_cong [OF s(4), of ?h] fun_cong [OF s(4), of "parentHash b"] b(4) by auto
  ultimately show ?thesis using s(3) by (intro exI [of _ ?c1]) auto
qed

text \<open>C30: One appointment can stop the tower from following the chain.  A filter with a \<open>null\<close> topic, or one whose
  contract emits a log with fewer topics, makes the matching throw on such a log; then adding the block
  throws, for as long as the appointment is watched and whatever other appointments and components there
  are.  Validation accepts such an appointment.\<close>

theorem tripping_log_blocks_the_chain:
  assumes "cache_inv B c" "\<not> mIsEmpty c" "links B"
    and "names B b" "lo c \<le> number b" "att c (block_hash b) = None" "att c (parentHash b) = Some True"
    and "anchor c ''watcher'' (parentHash b) = Some prev"
    and "a \<in> set (getAll_appointments (watcher_store w))" "map_of (state_items prev) (appointment_id a) = Some Watching"
    and "a_eventAddress a \<noteq> []" "logs b = before @ log # after"
    and "\<And>l. l \<in> set before \<Longrightarrow> toLowerCase (log_address l) \<noteq> toLowerCase (a_eventAddress a)"
    and "toLowerCase (log_address log) = toLowerCase (a_eventAddress a)" "trips (log_topics log) (a_topics a)"
  shows "\<exists>e c'. addBlock (processNewBlock (watcher_component w # comps)) b c = Some (Inl e, c')"
proof -
  have core: "core B c" using assms(1,2) by (simp add: cache_inv_def)
  obtain c1 where c1: "rep_ok B c1" "att c1 (block_hash b) = Some True" "att c1 (parentHash b) = Some True"
    "\<And>n h. colon_free h \<Longrightarrow> anchor c1 n h = anchor c n h"
    "\<And>listener e c2. listener b c1 = Some (Inl e, c2) \<Longrightarrow> addBlock listener b c = Some (Inl e, c2)"
    using addBlock_throws [OF core assms(4-7)] by blast
  have b: "B (block_hash b) = b" using assms(4) by (simp add: names_def)
  obtain m where m: "hasLogMatchingEventFilter b (eventFilter a) = Inl (JsTypeError m)"
    using hasLog_throws [of "eventFilter a" "a_eventAddress a" "a_topics a" b before log after] assms(11-15)
    by (auto simp: eventFilter_def)
  obtain e where "reduce (watcher_reducer w c1) prev b = Some (Inl e)"
    using watcher_reduce_throws [OF c1(1) assms(3) _ assms(9,10), of "block_hash b"] c1(2) m b by auto
  moreover have "real B (parentHash b)" using rep_okD(3) [OF c1(1), of "parentHash b"] c1(3) by simp
  then have "anchor c1 ''watcher'' (parentHash b) = Some prev" using c1(4) assms(8) by (simp add: real_def)
  ultimately have "processNewBlock (watcher_component w # comps) b c1 = Some (Inl e, c1)"
    by (intro new_state_throws [OF c1(1,3)]) (simp_all add: watcher_component_def)
  from c1(5) [of "processNewBlock (watcher_component w # comps)", OF this] show ?thesis by blast
qed

text \<open>An appointment with a \<open>null\<close> topic, a library that accepts everything, and a block with a log of the event.\<close>

definition ex_topic :: string where
  "ex_topic = ''0x'' @ replicate 64 (CHR ''1'')"

definition ex_wildcard :: Appointment where
  "ex_wildcard =
     \<lparr>a_contractAddress = ''0xc'', a_customerAddress = ''0xa'', a_startBlock = 5, a_endBlock = 200,
      a_challengePeriod = 100, a_customerChosenId = ''0x1'', a_nonce = 1, a_data = ''0x'', a_refund = 0,
      a_gasLimit = 100000, a_mode = 1, a_eventAddress = ''0xe'', a_topics = [Some ex_topic, None],
      a_preCondition = ''0x'', a_postCondition = ''0x'', a_paymentHash = ''on-the-house'', a_customerSig = ''0xa''\<rparr>"

definition ex_watcher :: Watcher where
  "ex_watcher = \<lparr>watcher_store = index_appointment ex_wildcard (new_AppointmentStore []),
                 confirmationsBeforeResponse = 4, confirmationsBeforeRemoval = 20\<rparr>"

definition ex_tripping :: "string \<Rightarrow> Block" where
  "ex_tripping h =
     (if h = ''a'' then ex_full_block ''a'' 6 ''g'' [\<lparr>log_address = ''0xe'', log_topics = [ex_topic, ''0x2'']\<rparr>] []
      else ex_full_block ''g'' 5 ''x'' [] [])"

lemma core_store:
  assumes "core B c" "rep_ok B (c\<lparr>blockStore := s\<rparr>)" "\<And>h. attached_get s h = att c h"
  shows "core B (c\<lparr>blockStore := s\<rparr>)" "bounded B c \<Longrightarrow> bounded B (c\<lparr>blockStore := s\<rparr>)"
  using assms by (simp_all add: core_def emission_ok_def bounded_def)

theorem tripping_log_blocks_the_chain_witness:
  "\<exists>c. validate ex_ethers c ''0xp'' ex_wildcard = Inr () \<and>
     (\<exists>e c'. addBlock (processNewBlock [watcher_component ex_watcher]) (ex_tripping ''a'') c = Some (Inl e, c'))"
proof -
  have g: "block_hash (ex_tripping ''g'') = ''g''" "number (ex_tripping ''g'') = 5" "names ex_tripping (ex_tripping ''g'')"
    "block_hash (ex_tripping ''a'') = ''a''" "number (ex_tripping ''a'') = 6" "parentHash (ex_tripping ''a'') = ''g''"
    "names ex_tripping (ex_tripping ''a'')" "logs (ex_tripping ''a'') = [] @ \<lparr>log_address = ''0xe'', log_topics = [ex_topic, ''0x2'']\<rparr> # []"
    by (simp_all add: names_def ex_tripping_def ex_full_block_def colon_free_def)
  let ?run = "add_blocks (processNewBlock ([] :: (Block, WatcherAnchorState, WatcherAction) Component list)) (map ex_tripping [''g'']) (empty_cache 10)"
  obtain c0 where c0: "?run = Some (Inr (), c0)" "run_inv ex_tripping (map ex_tripping [''g'']) c0"
    by (rule run_from_empty [OF no_components_return [of ex_tripping], of 10 "map ex_tripping [''g'']"]) (simp_all add: g(2,3))
  have "map_option (\<lambda>(r, c). (att c ''g'', att c ''a'', lo c)) ?run = Some (Some True, None, 5)" by code_simp
  with c0(1) have v: "att c0 ''g'' = Some True" "att c0 ''a'' = None" "lo c0 = 5" by auto
  have core0: "core ex_tripping c0" "bounded ex_tripping c0" using reached_core [OF c0(2)] by auto
  let ?state = "\<lparr>state_items = [(appointment_id ex_wildcard, Watching)], rest = \<lparr>blockNumber = 5\<rparr>\<rparr> :: WatcherAnchorState"
  have "real ex_tripping ''g''" using g(1) by (simp add: real_def colon_free_def)
  from put_state_rep [OF coreD(1) [OF core0(1)] this state_key(1) [of "''watcher''"], of ?state] obtain s' where
    s': "rep_ok ex_tripping (c0\<lparr>blockStore := s'\<rparr>)" "\<And>h'. attached_get s' h' = att c0 h'"
      "map_of (items s') = (cache_items c0)(memKey ''g'' (''watcher'' @ '':'' @ KEY_STATE) \<mapsto> StateItem ?state)" by metis
  let ?c = "c0\<lparr>blockStore := s', headHash := Some ''g''\<rparr>"
  have "core ex_tripping (c0\<lparr>blockStore := s'\<rparr>)" "bounded ex_tripping (c0\<lparr>blockStore := s'\<rparr>)"
    using core_store [OF core0(1) s'(1,2)] core0(2) by auto
  then have inv: "cache_inv ex_tripping ?c" "\<not> mIsEmpty ?c"
    by (auto simp: cache_inv_def core_def bounded_def emission_ok_def)
  have head: "head ?c = Inr (ex_tripping ''g'')"
    using getBlock_rep [OF s'(1), of "''g''"] v(1) s'(2) by (simp add: head_def getBlock_def)
  have lower: "toLowerCase ''0xa'' = ''0xa''" "toLowerCase ''on-the-house'' = ''on-the-house''" by code_simp+
  have "validate ex_ethers ?c ''0xp'' ex_wildcard = Inr ()"
    unfolding validate_iff head
    by (simp add: g(2) ex_wildcard_def ex_ethers_def FreeHash_def lower encodeForSig_def orderForEncoding_def
        encodeTopicsForPisa_def Relay_def EventTriggered_def topic_ok_def ex_topic_def)
  moreover have "\<exists>e c'. addBlock (processNewBlock [watcher_component ex_watcher]) (ex_tripping ''a'') ?c = Some (Inl e, c')"
  proof (rule tripping_log_blocks_the_chain [OF inv])
    show "links ex_tripping" by (auto simp: links_def real_def ex_tripping_def ex_full_block_def split: if_splits)
    show "anchor ?c ''watcher'' (parentHash (ex_tripping ''a'')) = Some ?state" by (simp add: g(6) anchor_items s'(3))
    show "map_of (state_items ?state) (appointment_id ex_wildcard) = Some Watching" by simp
    show "ex_wildcard \<in> set (getAll_appointments (watcher_store ex_watcher))"
      by (simp add: ex_watcher_def getAll_appointments_def getExpiredSince_def index_appointment_def new_AppointmentStore_def)
        (simp add: ex_wildcard_def max_safe_integer_def)
    show "logs (ex_tripping ''a'') = [] @ \<lparr>log_address = ''0xe'', log_topics = [ex_topic, ''0x2'']\<rparr> # []" by (rule g(8))
  qed (simp_all add: g v s'(2) ex_wildcard_def topic_eq_def)
  ultimately show ?thesis by blast
qed

end
