(* ===== verification/WatcherRuns.thy ===== *)
theory WatcherRuns
  imports WatcherProps
begin

text \<open>
  The watcher over a run of heads: the state of an appointment only moves from watching to observed, so
  the conditions \<open>detectChanges\<close> compares become true once and stay true.
\<close>

section \<open>Heads\<close>

fun ascending :: "int \<Rightarrow> 'b IBlockStub_scheme list \<Rightarrow> bool" where
  "ascending n [] \<longleftrightarrow> True"
| "ascending n (b # bs) \<longleftrightarrow> n < number b \<and> ascending (number b) bs"

text \<open>The next head is some blocks higher on the same chain, and its state was reduced along them.\<close>

definition head_step :: "'b Logs_scheme itself \<Rightarrow> Watcher \<Rightarrow> WatcherAnchorState \<Rightarrow> WatcherAnchorState \<Rightarrow> bool" where
  "head_step ty w s s' \<longleftrightarrow>
     (\<exists>(c :: ('b Logs_scheme, WatcherAnchorState) BlockCache) bs. bs \<noteq> [] \<and> ascending (blockNumber (rest s)) bs \<and>
        reduce_chain (watcher_reducer w c) s bs = Some (Inr s'))"

lemma head_stepI:
  fixes c :: "('b Logs_scheme, WatcherAnchorState) BlockCache"
  shows "reduce_chain (watcher_reducer w c) s bs = Some (Inr s') \<Longrightarrow> bs \<noteq> [] \<Longrightarrow>
    ascending (blockNumber (rest s)) bs \<Longrightarrow> head_step TYPE('b Logs_scheme) w s s'"
  unfolding head_step_def by blast

text \<open>The actions of a run of heads, from the state of the last emitted one.\<close>

fun watch_heads :: "Watcher \<Rightarrow> WatcherAnchorState \<Rightarrow> WatcherAnchorState list \<Rightarrow> WatcherAction list result" where
  "watch_heads w s [] = Inr []"
| "watch_heads w s (s' # ss) =
     bind_result (watcher_detectChanges w s s') (\<lambda>as.
     bind_result (watch_heads w s' ss) (\<lambda>later. Inr (as @ later)))"

section \<open>One block\<close>

abbreviation watched :: "Watcher \<Rightarrow> Appointment list" where
  "watched w \<equiv> getAll_appointments (watcher_store w)"

abbreviation item :: "WatcherAnchorState \<Rightarrow> Appointment \<Rightarrow> WatcherAppointmentAnchorState option" where
  "item s a \<equiv> map_of (state_items s) (appointment_id a)"

lemma watched_store:
  assumes "indexes_ok (watcher_store w)"
  shows "a \<in> set (watched w) \<Longrightarrow> map_of (mAppointmentsById (watcher_store w)) (appointment_id a) = Some a"
    "distinct (map appointment_id (watched w))"
proof -
  let ?m = "mAppointmentsById (watcher_store w)"
  note D = indexes_okD [OF assms]
  have id: "appointment_id a = i" if "(i, a) \<in> set ?m" for i a
    using D(1,2) that by (simp add: js_wf_def)
  show "map_of ?m (appointment_id a) = Some a" if "a \<in> set (watched w)"
  proof -
    from that obtain i where i: "(i, a) \<in> set ?m" by (auto simp: getAll_appointments_def getExpiredSince_def)
    with D(1) id [OF i] show ?thesis by (simp add: js_wf_def)
  qed
  have "map appointment_id (map snd ?m) = map fst ?m" using id by auto
  then have "distinct (map appointment_id (map snd ?m))" using D(1) by (simp only: js_wf_def)
  then show "distinct (map appointment_id (watched w))"
    unfolding getAll_appointments_def getExpiredSince_def by (rule distinct_map_filter)
qed

text \<open>How the state of an appointment moves when the chain grows from height \<open>n\<close> to \<open>n'\<close>.\<close>

definition moves :: "int \<Rightarrow> int \<Rightarrow> WatcherAppointmentAnchorState \<Rightarrow> WatcherAppointmentAnchorState \<Rightarrow> bool" where
  "moves n n' st st' \<longleftrightarrow> st' = st \<or> st = Watching \<and> (\<exists>k. st' = Observed k \<and> n < k \<and> k \<le> n')"

lemma moves_trans: "moves n m s t \<Longrightarrow> moves m k t u \<Longrightarrow> n \<le> m \<Longrightarrow> m \<le> k \<Longrightarrow> moves n k s u"
  by (auto simp: moves_def)

lemma reduce_watcher:
  assumes red: "reduce (watcher_reducer w c) s b = Some (Inr s')" and dist: "distinct (map appointment_id (watched w))"
    and up: "blockNumber (rest s) < number b"
  shows "blockNumber (rest s') = number b" "map fst (state_items s') = map appointment_id (watched w)"
    "a \<in> set (watched w) \<Longrightarrow> item s a = Some st \<Longrightarrow>
       \<exists>st'. item s' a = Some st' \<and> moves (blockNumber (rest s)) (number b) st st'"
proof -
  let ?f = "\<lambda>obj. bind_run (Some (EventFilterStateReducer c (eventFilter obj) (a_startBlock obj))) (\<lambda>base.
      case map_of (state_items s) (appointment_id obj) of
        Some prev \<Rightarrow> reduce base prev b | None \<Rightarrow> getInitialState base b)"
  have its: "mapped_items appointment_id ?f (watched w) [] = Some (Inr (state_items s'))" "rest s' = \<lparr>blockNumber = number b\<rparr>"
    using red by (auto simp: watcher_reducer_def mapped_reducer_def mapped_reduce_def result_simps BlockNumberReducer_def)
  from its(2) show "blockNumber (rest s') = number b" by simp
  show "map fst (state_items s') = map appointment_id (watched w)" by (rule mapped_items_keys [OF its(1) dist])
  assume a: "a \<in> set (watched w)" "item s a = Some st"
  obtain st' where st': "?f a = Some (Inr st')" "item s' a = Some st'"
    using mapped_items_get [OF its(1) dist a(1)] by blast
  then have "event_reduce (eventFilter a) st b = Some (Inr st')" by (simp add: a(2))
  then have "moves (blockNumber (rest s)) (number b) st st'"
    using up by (cases "hasLogMatchingEventFilter b (eventFilter a)") (auto simp: event_reduce_def moves_def split: if_splits)
  with st'(2) show "\<exists>st'. item s' a = Some st' \<and> moves (blockNumber (rest s)) (number b) st st'" by blast
qed

lemma reduce_chain_watcher:
  assumes "reduce_chain (watcher_reducer w c) s bs = Some (Inr s')" "bs \<noteq> []" "ascending (blockNumber (rest s)) bs"
    "distinct (map appointment_id (watched w))"
  shows "blockNumber (rest s) < blockNumber (rest s') \<and> map fst (state_items s') = map appointment_id (watched w) \<and>
    (\<forall>a\<in>set (watched w). \<forall>st. item s a = Some st \<longrightarrow>
       (\<exists>st'. item s' a = Some st' \<and> moves (blockNumber (rest s)) (blockNumber (rest s')) st st'))"
  using assms(1-3)
proof (induction bs arbitrary: s)
  case (Cons b bs)
  from Cons.prems(1) obtain s1 where s1: "reduce (watcher_reducer w c) s b = Some (Inr s1)"
    "reduce_chain (watcher_reducer w c) s1 bs = Some (Inr s')" by (auto simp: result_simps)
  have up: "blockNumber (rest s) < number b" "ascending (number b) bs" using Cons.prems(3) by auto
  note R = reduce_watcher [OF s1(1) assms(4) up(1)]
  show ?case
  proof (cases "bs = []")
    case True
    with s1(2) R up(1) show ?thesis by auto
  next
    case False
    with Cons.IH [OF s1(2)] up R(1) have IH: "number b < blockNumber (rest s')"
      "map fst (state_items s') = map appointment_id (watched w)"
      "\<And>a st. a \<in> set (watched w) \<Longrightarrow> item s1 a = Some st \<Longrightarrow>
         \<exists>st'. item s' a = Some st' \<and> moves (number b) (blockNumber (rest s')) st st'" by auto
    have "\<exists>st'. item s' a = Some st' \<and> moves (blockNumber (rest s)) (blockNumber (rest s')) st st'"
      if "a \<in> set (watched w)" "item s a = Some st" for a st
      using R(3) [OF that] IH(1) IH(3) [OF that(1)] up(1) by (force intro: moves_trans)
    with IH(1,2) up(1) show ?thesis by auto
  qed
qed simp

section \<open>Starting the response\<close>

abbreviation started_response :: "Watcher \<Rightarrow> WatcherAnchorState \<Rightarrow> Appointment \<Rightarrow> bool" where
  "started_response w s a \<equiv> shouldHaveStartedResponder w s (item s a)"

definition responses :: "Appointment \<Rightarrow> WatcherAction list \<Rightarrow> int list" where
  "responses a as = concat (map (\<lambda>x. case x of StartResponse a' k \<Rightarrow> if a' = a then [k] else [] | _ \<Rightarrow> []) as)"

lemma responses_append [simp]: "responses a (xs @ ys) = responses a xs @ responses a ys"
  by (simp add: responses_def)

lemma responses_simps [simp]:
  "responses a [] = []" "responses a (RemoveAppointment i # as) = responses a as"
  "responses a (StartResponse a' k # as) = (if a' = a then k # responses a as else responses a as)"
  by (simp_all add: responses_def)

lemma detect_appointment_responses:
  assumes "map_of (mAppointmentsById (watcher_store w)) i = Some a'" "appointment_id a' = i"
  shows "\<exists>as. detect_appointment w s s' i st = Inr as \<and>
    responses a as = (if a' = a \<and> \<not> shouldHaveStartedResponder w s (map_of (state_items s) i) \<and>
                         shouldHaveStartedResponder w s' (Some st)
                      then [case st of Observed k \<Rightarrow> k | Watching \<Rightarrow> 0] else [])"
  using assms by (simp add: detect_appointment_def Let_def)

lemma detect_items_responses:
  assumes ok: "indexes_ok (watcher_store w)" and its: "map fst its = map appointment_id xs" "set xs \<subseteq> set (watched w)"
    "distinct (map appointment_id xs)" and a: "a \<in> set (watched w)"
  shows "\<exists>ass. map_result (\<lambda>(i, st). detect_appointment w s s' i st) its = Inr ass \<and>
    responses a (concat ass) =
      (case map_of its (appointment_id a) of
         Some st \<Rightarrow> if \<not> started_response w s a \<and> shouldHaveStartedResponder w s' (Some st)
                    then [case st of Observed k \<Rightarrow> k | Watching \<Rightarrow> 0] else []
       | None \<Rightarrow> [])"
  using its
proof (induction its arbitrary: xs)
  case (Cons it its)
  obtain i st where it: "it = (i, st)" by (cases it)
  obtain x xs' where xs: "xs = x # xs'" "appointment_id x = i" "map fst its = map appointment_id xs'"
    using Cons.prems(1) it by (cases xs) auto
  note W = watched_store(1) [OF ok]
  have x: "x \<in> set (watched w)" using Cons.prems(2) xs(1) by simp
  have same: "x = a \<longleftrightarrow> i = appointment_id a" using W [OF x] W [OF a] xs(2) by (metis option.inject)
  obtain as where as: "detect_appointment w s s' i st = Inr as"
    "responses a as = (if x = a \<and> \<not> shouldHaveStartedResponder w s (map_of (state_items s) i) \<and>
                         shouldHaveStartedResponder w s' (Some st)
                      then [case st of Observed k \<Rightarrow> k | Watching \<Rightarrow> 0] else [])"
    using detect_appointment_responses [of w i x] W [OF x] xs(2) by blast
  have sub: "set xs' \<subseteq> set (watched w)" "distinct (map appointment_id xs')" using Cons.prems(2,3) xs(1) by auto
  obtain ass where ass: "map_result (\<lambda>(i, st). detect_appointment w s s' i st) its = Inr ass"
    "responses a (concat ass) =
      (case map_of its (appointment_id a) of
         Some st \<Rightarrow> if \<not> started_response w s a \<and> shouldHaveStartedResponder w s' (Some st)
                    then [case st of Observed k \<Rightarrow> k | Watching \<Rightarrow> 0] else []
       | None \<Rightarrow> [])"
    using Cons.IH [OF xs(3) sub] by blast
  have "i \<notin> set (map fst its)" using Cons.prems(3) xs by simp
  then have "map_of its i = None" by (simp add: map_of_eq_None_iff)
  with as ass same show ?case by (cases "i = appointment_id a") (simp_all add: it)
qed simp

text \<open>When every state is of an appointment that is still there, nothing is thrown.\<close>

lemma detect_watched:
  assumes ok: "indexes_ok (watcher_store w)" and keys: "distinct (map fst (state_items s'))"
      "fst ` set (state_items s') \<subseteq> appointment_id ` set (watched w)"
    and a: "a \<in> set (watched w)" "item s' a = Some st"
  shows "\<exists>as. watcher_detectChanges w s s' = Inr as \<and>
    responses a as = (if \<not> started_response w s a \<and> started_response w s' a
                      then [case st of Observed k \<Rightarrow> k | Watching \<Rightarrow> 0] else [])"
proof -
  let ?xs = "map (inv_into (set (watched w)) appointment_id) (map fst (state_items s'))"
  have id: "map appointment_id ?xs = map fst (state_items s')"
    using keys(2) by (auto simp: comp_def intro!: f_inv_into_f)
  have sub: "set ?xs \<subseteq> set (watched w)"
    using keys(2) by (auto intro!: inv_into_into)
  obtain ass where "map_result (\<lambda>(i, st). detect_appointment w s s' i st) (state_items s') = Inr ass"
    "responses a (concat ass) =
      (case item s' a of
         Some st \<Rightarrow> if \<not> started_response w s a \<and> shouldHaveStartedResponder w s' (Some st)
                    then [case st of Observed k \<Rightarrow> k | Watching \<Rightarrow> 0] else []
       | None \<Rightarrow> [])"
    using detect_items_responses [OF ok id [symmetric] sub _ a(1)] keys(1) by (auto simp: id simp del: map_map)
  with a(2) show ?thesis by (intro exI [of _ "concat ass"]) (simp add: watcher_detectChanges_def)
qed

lemma head_step_responses:
  fixes ty :: "'b Logs_scheme itself"
  assumes ok: "indexes_ok (watcher_store w)" and step: "head_step ty w s s'" and a: "a \<in> set (watched w)"
  shows "\<exists>as st'. watcher_detectChanges w s s' = Inr as \<and> item s' a = Some st' \<and>
    responses a as = (if \<not> started_response w s a \<and> started_response w s' a
                      then [case st' of Observed k \<Rightarrow> k | Watching \<Rightarrow> 0] else []) \<and>
    (\<forall>st. item s a = Some st \<longrightarrow> moves (blockNumber (rest s)) (blockNumber (rest s')) st st') \<and>
    blockNumber (rest s) < blockNumber (rest s')"
proof -
  note W = watched_store [OF ok]
  from step obtain c :: "('b Logs_scheme, WatcherAnchorState) BlockCache" and bs where
    bs: "bs \<noteq> []" "ascending (blockNumber (rest s)) bs" "reduce_chain (watcher_reducer w c) s bs = Some (Inr s')"
    unfolding head_step_def by blast
  note R = reduce_chain_watcher [OF bs(3,1,2) W(2)]
  have keys: "map fst (state_items s') = map appointment_id (watched w)" using R by blast
  then have "appointment_id a \<in> fst ` set (state_items s')" using a by (metis image_eqI set_map)
  then obtain st' where st': "item s' a = Some st'" using weak_map_of_SomeI by fastforce
  obtain ass where ass: "map_result (\<lambda>(i, st). detect_appointment w s s' i st) (state_items s') = Inr ass"
    "responses a (concat ass) =
      (case map_of (state_items s') (appointment_id a) of
         Some st \<Rightarrow> if \<not> started_response w s a \<and> shouldHaveStartedResponder w s' (Some st)
                    then [case st of Observed k \<Rightarrow> k | Watching \<Rightarrow> 0] else []
       | None \<Rightarrow> [])"
    using detect_items_responses [OF ok keys subset_refl W(2) a] by blast
  have "watcher_detectChanges w s s' = Inr (concat ass)" using ass(1) by (simp add: watcher_detectChanges_def)
  moreover have "\<forall>st. item s a = Some st \<longrightarrow> moves (blockNumber (rest s)) (blockNumber (rest s')) st st'"
    using R a st' by (metis option.inject)
  ultimately show ?thesis using ass(2) st' R by (intro exI [of _ "concat ass"] exI [of _ st']) simp
qed

lemma started_response_stays:
  assumes "moves n n' st st'" "n = blockNumber (rest s)" "n' = blockNumber (rest s')" "n \<le> n'"
    "shouldHaveStartedResponder w s (Some st)"
  shows "shouldHaveStartedResponder w s' (Some st')" "st' = st"
  using assms by (auto simp: shouldHaveStartedResponder_def moves_def split: WatcherAppointmentAnchorState.splits)

section \<open>Properties\<close>

fun observed_block :: "WatcherAppointmentAnchorState \<Rightarrow> int" where
  "observed_block (Observed k) = k"
| "observed_block Watching = 0"

lemma observed_block_case: "(case st of Observed k \<Rightarrow> k | Watching \<Rightarrow> 0) = observed_block st"
  by (cases st) auto

lemma watch_heads_run:
  fixes ty :: "'b Logs_scheme itself"
  assumes ok: "indexes_ok (watcher_store w)" and a: "a \<in> set (watched w)"
    and "successively (head_step ty w) (s # ss)" "item s a = Some st"
  shows "\<exists>as st'. watch_heads w s ss = Inr as \<and> item (last (s # ss)) a = Some st' \<and>
    moves (blockNumber (rest s)) (blockNumber (rest (last (s # ss)))) st st' \<and>
    blockNumber (rest s) \<le> blockNumber (rest (last (s # ss))) \<and>
    responses a as = (if \<not> started_response w s a \<and> started_response w (last (s # ss)) a then [observed_block st'] else [])"
  using assms(3,4)
proof (induction ss arbitrary: s st)
  case Nil
  then show ?case by (auto simp: moves_def)
next
  case (Cons s1 ss)
  let ?n = "\<lambda>s. blockNumber (rest s)" and ?l = "last (s1 # ss)"
  have steps: "head_step ty w s s1" "successively (head_step ty w) (s1 # ss)" using Cons.prems(1) by auto
  from head_step_responses [OF ok steps(1) a] Cons.prems(2) obtain as1 st1 where
    one: "watcher_detectChanges w s s1 = Inr as1" "item s1 a = Some st1" "moves (?n s) (?n s1) st st1" "?n s < ?n s1"
      "responses a as1 = (if \<not> started_response w s a \<and> started_response w s1 a then [observed_block st1] else [])"
    unfolding observed_block_case by blast
  from Cons.IH [OF steps(2) one(2)] obtain as2 st' where
    more: "watch_heads w s1 ss = Inr as2" "item ?l a = Some st'" "moves (?n s1) (?n ?l) st1 st'" "?n s1 \<le> ?n ?l"
      "responses a as2 = (if \<not> started_response w s1 a \<and> started_response w ?l a then [observed_block st'] else [])"
    by blast
  have up1: "started_response w s1 a" if "started_response w s a"
    using started_response_stays(1) [OF one(3) refl refl less_imp_le [OF one(4)]] that Cons.prems(2) one(2) by simp
  have up2: "started_response w ?l a \<and> st' = st1" if "started_response w s1 a"
    using started_response_stays [OF more(3) refl refl more(4)] that one(2) more(2) by simp
  have "moves (?n s) (?n ?l) st st'" using moves_trans [OF one(3) more(3)] one(4) more(4) by simp
  moreover have "watch_heads w s (s1 # ss) = Inr (as1 @ as2)" by (simp add: one(1) more(1))
  moreover have "responses a (as1 @ as2) =
      (if \<not> started_response w s a \<and> started_response w ?l a then [observed_block st'] else [])"
    using up1 up2 by (auto simp: one(5) more(5))
  ultimately show ?case using more(2,4) one(4) by (intro exI [of _ "as1 @ as2"] exI [of _ st']) simp
qed

text \<open>C31: The watcher starts a response once: over any run of heads on one chain, \<open>detectChanges\<close> never throws and
  asks for the response to an appointment exactly when the event has become deep enough during the run,
  one time, with the block in which it was observed; an event that was deep enough before, or is not yet,
  starts nothing.  The store keeps its appointments during the run.\<close>

theorem response_started_once:
  fixes ty :: "'b Logs_scheme itself"
  assumes "indexes_ok (watcher_store w)" "a \<in> set (getAll_appointments (watcher_store w))"
    "successively (head_step ty w) (s # ss)" "map_of (state_items s) (appointment_id a) = Some st"
  shows "\<exists>as st'. watch_heads w s ss = Inr as \<and>
    map_of (state_items (last (s # ss))) (appointment_id a) = Some st' \<and>
    responses a as =
      (if \<not> shouldHaveStartedResponder w s (Some st) \<and> shouldHaveStartedResponder w (last (s # ss)) (Some st')
       then [observed_block st'] else [])"
  using watch_heads_run [OF assms] assms(4) by fastforce

text \<open>An event at height 6 is answered at height 9, once.\<close>

definition ex_watched :: Appointment where
  "ex_watched = ex_wildcard\<lparr>a_topics := [Some ex_topic]\<rparr>"

definition ex_run_watcher :: Watcher where
  "ex_run_watcher = ex_watcher\<lparr>watcher_store := index_appointment ex_watched (new_AppointmentStore [])\<rparr>"

definition ex_state :: "int \<Rightarrow> WatcherAppointmentAnchorState \<Rightarrow> WatcherAnchorState" where
  "ex_state n st = \<lparr>state_items = [(appointment_id ex_watched, st)], rest = \<lparr>blockNumber = n\<rparr>\<rparr>"

definition ex_quiet :: "int \<Rightarrow> Log list \<Rightarrow> Block" where
  "ex_quiet n ls = ex_full_block ''h'' n ''p'' ls []"

lemma ex_reduce:
  "reduce_chain (watcher_reducer ex_run_watcher (empty_cache 10 :: (Block, WatcherAnchorState) BlockCache)) (ex_state 5 Watching)
     [ex_quiet 6 [\<lparr>log_address = ''0xe'', log_topics = [ex_topic]\<rparr>], ex_quiet 7 []] = Some (Inr (ex_state 7 (Observed 6)))"
  "reduce_chain (watcher_reducer ex_run_watcher (empty_cache 10 :: (Block, WatcherAnchorState) BlockCache)) (ex_state 7 (Observed 6))
     [ex_quiet 8 [], ex_quiet 9 []] = Some (Inr (ex_state 9 (Observed 6)))"
  "reduce_chain (watcher_reducer ex_run_watcher (empty_cache 10 :: (Block, WatcherAnchorState) BlockCache)) (ex_state 9 (Observed 6))
     [ex_quiet 10 []] = Some (Inr (ex_state 10 (Observed 6)))"
  by code_simp+

lemma ex_run_watcher_store:
  "indexes_ok (watcher_store ex_run_watcher)" "ex_watched \<in> set (getAll_appointments (watcher_store ex_run_watcher))"
proof -
  have "map_of (mAppointmentsByLocator (new_AppointmentStore [])) l = None" for l by (simp add: new_AppointmentStore_def)
  from index_ok [OF indexes_ok_new this] show "indexes_ok (watcher_store ex_run_watcher)"
    by (simp add: ex_run_watcher_def ex_watched_def ex_wildcard_def)
  show "ex_watched \<in> set (getAll_appointments (watcher_store ex_run_watcher))"
    by (simp add: ex_run_watcher_def getAll_appointments_def getExpiredSince_def index_appointment_def new_AppointmentStore_def)
      (simp add: ex_watched_def ex_wildcard_def max_safe_integer_def)
qed

theorem response_started_once_witness:
  "\<exists>as. watch_heads ex_run_watcher (ex_state 5 Watching)
          [ex_state 7 (Observed 6), ex_state 9 (Observed 6), ex_state 10 (Observed 6)] = Inr as \<and> responses ex_watched as = [6]"
proof -
  have "indexes_ok (watcher_store ex_run_watcher)" "ex_watched \<in> set (getAll_appointments (watcher_store ex_run_watcher))"
    by (rule ex_run_watcher_store)+
  moreover have "successively (head_step TYPE(Block) ex_run_watcher)
      [ex_state 5 Watching, ex_state 7 (Observed 6), ex_state 9 (Observed 6), ex_state 10 (Observed 6)]"
    unfolding successively.simps
    by (intro conjI TrueI head_stepI [OF ex_reduce(1)] head_stepI [OF ex_reduce(2)] head_stepI [OF ex_reduce(3)];
        simp add: ex_state_def ex_quiet_def ex_full_block_def)
  moreover have "map_of (state_items (ex_state 5 Watching)) (appointment_id ex_watched) = Some Watching"
    by (simp add: ex_state_def)
  ultimately show ?thesis
    by (rule response_started_once [THEN exE]) (auto simp: ex_state_def shouldHaveStartedResponder_def ex_run_watcher_def ex_watcher_def)
qed

end
