(* ===== verification/EndToEnd.thy ===== *)
theory EndToEnd
  imports WatcherRuns MachineProps ResponderProps ResponderComponent
begin

text \<open>
  The components of the service on one machine (src/src/service.ts adds the watcher and then the
  responder), and what becomes of an event that is deep enough: the machine stores the action of the
  watcher, and applying it puts the transaction into the queue of the responder and hands it to the node.

  The anchor states and the actions of the two components are told apart as the two sides of a sum; in
  the code they are told apart by the names of the components they are stored under.
\<close>

section \<open>The components of the service\<close>

definition map_run :: "('a \<Rightarrow> 'b) \<Rightarrow> 'a run \<Rightarrow> 'b run" where
  "map_run f m = bind_run m (\<lambda>x. Some (Inr (f x)))"

text \<open>A component among others: \<open>out_of\<close> says nothing about the states of the others, which are never stored under
  its name.\<close>

definition side_component ::
  "string \<Rightarrow> ('s \<Rightarrow> 't) \<Rightarrow> ('t \<Rightarrow> 's) \<Rightarrow> ('a \<Rightarrow> 'c) \<Rightarrow> (('b, 't) BlockCache \<Rightarrow> ('s, 'b) StateReducer) \<Rightarrow>
   ('s \<Rightarrow> 's \<Rightarrow> 'a list result) \<Rightarrow> ('b, 't, 'c) Component" where
  "side_component name into out_of act red detect =
     \<lparr>component_name = name,
      reducer = (\<lambda>c. \<lparr>getInitialState = (\<lambda>b. map_run into (getInitialState (red c) b)),
                      reduce = (\<lambda>s b. map_run into (reduce (red c) (out_of s) b))\<rparr>),
      detectChanges = (\<lambda>p s. bind_result (detect (out_of p) (out_of s)) (\<lambda>as. Inr (map act as)))\<rparr>"

type_synonym service_state = "WatcherAnchorState + ResponderAnchorState"
type_synonym service_action = "WatcherAction + ResponderAction"

definition service_components ::
  "Watcher \<Rightarrow> MultiResponderComponent \<Rightarrow> ('a Block_scheme, service_state, service_action) Component list" where
  "service_components w rc =
     [side_component ''watcher'' Inl projl Inl (watcher_reducer w) (watcher_detectChanges w),
      side_component ''responder'' Inr projr Inr (responder_reducer rc)
        (\<lambda>p s. Inr (responder_detectChanges rc p s))]"

text \<open>An action is applied by its component.\<close>

definition service_applyAction ::
  "BigNumberCodec \<Rightarrow> Ethers \<Rightarrow> Env \<Rightarrow> bool \<Rightarrow> string \<Rightarrow> service_action \<Rightarrow>
   MultiResponder \<times> AppointmentStore \<Rightarrow> unit result \<times> MultiResponder \<times> AppointmentStore" where
  "service_applyAction bn eth env db_ok pisaAddress act = (\<lambda>(responder, store).
     case act of
       Inl wa \<Rightarrow> watcher_applyAction bn eth env db_ok pisaAddress wa (responder, store)
     | Inr ra \<Rightarrow>
         (case responder_applyAction bn env ra responder of
            Inl e \<Rightarrow> (Inl e, responder, store)
          | Inr responder' \<Rightarrow> (Inr (), responder', store)))"

lemma service_names: "names_ok (service_components w rc)"
  by (simp add: names_ok_def service_components_def side_component_def colon_free_def)

section \<open>A head stores what its components want\<close>

lemma store_and_run_running:
  assumes "store_and_run env name newActions m = (r, m')"
  shows "set (running m) \<subseteq> set (running m')"
  using assms by (auto simp: store_and_run_def runActionsForComponent_def split: if_splits prod.splits sum.splits)

lemma head_loop_running:
  "head_loop env comps h m = (r, m') \<Longrightarrow> set (running m) \<subseteq> set (running m')"
proof (induction comps arbitrary: m)
  case (Cons component comps)
  obtain m1 m2 where m: "m1 = m \<or> (\<exists>newActions r1. store_and_run env (component_name component) newActions m = (r1, m1))"
    "\<exists>c. m2 = m1\<lparr>cache := c\<rparr>" "m' = m1 \<or> m' = m2 \<or> head_loop env comps h m2 = (r, m')"
    by (rule head_loop_cases [OF Cons.prems])
  have "set (running m) \<subseteq> set (running m1)" using m(1) store_and_run_running by blast
  moreover have "running m2 = running m1" using m(2) by auto
  ultimately show ?case using m(3) Cons.IH [of m2] by auto
qed simp

lemma store_and_run_all:
  assumes "actions_inv reread m" "colon_free name" "fresh_for env name m" "snd (env name)"
  obtains as m' where "store_and_run env name newActions m = (Inr (), m')" "map action as = newActions"
    "Pair name ` set as \<subseteq> set (running m')"
proof (cases "newActions = []")
  case True
  then show thesis using that [of m "[]"] by (simp add: store_and_run_def)
next
  case False
  let ?ids = "map (fst (env name)) [0..<length newActions]"
  obtain as s' where s': "storeActions ?ids True name newActions (action_store m) = (Inr as, s')"
    "map action as = newActions"
    by (rule storeActions_ok [OF actions_invD(1) [OF assms(1)] fresh_call_ok [OF assms(1-3), of newActions]]) (rule that)
  show thesis
    using False assms(4) s'
    by (intro that [of "m\<lparr>action_store := s', stored := stored m @ map (Pair name) as, running := running m @ map (Pair name) as\<rparr>" as])
      (auto simp: store_and_run_def runActionsForComponent_def)
qed

lemma head_stores_first:
  assumes inv: "actions_inv reread m" "colon_free (component_name component)" "fresh_for env (component_name component) m"
      "snd (env (component_name component))"
    and st: "anchorState_get (blockStore (cache m)) (component_name component) (block_hash h) = Some state"
      "prevEmittedAnchorState_get (blockStore (cache m)) (component_name component) (block_hash h) = Some prev"
      "detectChanges component prev state = Inr newActions" "x \<in> set newActions"
    and run: "head_loop env (component # comps) h m = (r, m')"
  shows "\<exists>act. action act = x \<and> (component_name component, act) \<in> set (running m')"
proof -
  let ?n = "component_name component"
  obtain as m1 where m1: "store_and_run env ?n newActions m = (Inr (), m1)" "map action as = newActions"
    "Pair ?n ` set as \<subseteq> set (running m1)" by (rule store_and_run_all [OF inv])
  from st(4) m1(2) obtain act where act: "act \<in> set as" "action act = x" by auto
  obtain r2 m2 where p: "on_cache (on_store (prevEmittedAnchorState_set ?n (number h) (block_hash h) state)) m1 = (r2, m2)"
    by fastforce
  then have m2: "running m2 = running m1" by (auto simp: on_cache_def split: prod.splits)
  have "set (running m1) \<subseteq> set (running m')"
  proof (cases r2)
    case (Inl e)
    with run st(1-3) m1(1) p have "m' = m2" by (auto simp: then_eff_def bind_eff_def)
    with m2 show ?thesis by simp
  next
    case (Inr u)
    with run st(1-3) m1(1) p have "head_loop env comps h m2 = (r, m')" by (auto simp: then_eff_def bind_eff_def)
    from head_loop_running [OF this] m2 show ?thesis by simp
  qed
  with act m1(3) show ?thesis by blast
qed


section \<open>From the action to the queue\<close>

lemma responses_in: "n \<in> set (responses a as) \<Longrightarrow> WatcherAction.StartResponse a n \<in> set as"
  by (induction as) (auto simp: responses_def split: WatcherAction.splits if_splits)

lemma applied_response:
  assumes ok: "responder_ok bn seed F r"
    and call: "responder_call_ok F r (responder_call.StartResponse renv pisa d
      (a_gasLimit a + PisaGasAllowance) (appointment_id a) n (n + a_challengePeriod a))"
    and enc: "encodeForResponse eth a = Inr d" and est: "estimate renv (n + a_challengePeriod a) = Inr p"
    and room: "write_ok renv" "\<not> depthReached (queue r)"
    and rq: "rq = response_request (chainId r) pisa d (a_gasLimit a + PisaGasAllowance) (appointment_id a) n p"
    and new: "\<not> contains (queue r) (req_identifier rq)"
  shows "\<exists>r' i. service_applyAction bn eth renv db_ok pisa (Inl (WatcherAction.StartResponse a n)) (r, st) = (Inr (), r', st) \<and>
    i \<in> set (difference (queue r') (queue r)) \<and> request i = rq \<and> transactions r' (appointment_id a) = Some i \<and>
    sent r' = sent r @ filter (accepts renv) (map toTransactionRequest (difference (queue r') (queue r)))"
proof -
  let ?start = "startResponse bn renv r pisa d (a_gasLimit a + PisaGasAllowance) (appointment_id a) n (n + a_challengePeriod a)"
  have nn: "0 \<le> req_idealGasPrice rq" using call est by (auto simp: estimate_ok_def rq)
  note add = add_eq [OF gq_okD(1) [OF responder_ok_queue [OF ok]] gq_okD(2) [OF responder_ok_queue [OF ok]] nn]
  obtain q where q: "add (queue r) rq = Inr q" using add room(2) new by simp
  then have res: "?start = Inr (installed bn renv r q)" using est room by (simp add: startResponse_eq rq)
  have ok': "responder_ok bn seed F (installed bn renv r q)"
    by (rule responder_step_ok [OF ok call]) (simp add: res)
  from add_tracked [OF ok ok' q nn] obtain i where i: "i \<in> set (queueItems q)" "request i = rq"
    "transactions (installed bn renv r q) (req_id rq) = Some i" by blast
  have "i \<notin> set (queueItems (queue r))"
    using new i(2) by (auto simp: contains_def equals_def)
  with i(1) have "i \<in> set (difference q (queue r))" by (simp add: difference_def)
  moreover have "service_applyAction bn eth renv db_ok pisa (Inl (WatcherAction.StartResponse a n)) (r, st) =
      (Inr (), installed bn renv r q, st)"
    by (simp add: service_applyAction_def watcher_applyAction_def enc res)
  ultimately show ?thesis using i(2,3) by (intro exI [of _ "installed bn renv r q"] exI [of _ i]) (simp add: rq)
qed

section \<open>From the event to the transaction\<close>

text \<open>A head that makes the event of an appointment deep enough stores the action of the watcher and runs it, and
  applying it puts the transaction into the queue of the responder.\<close>

lemma head_gets_response:
  fixes m m' :: "('a Block_scheme, service_state, service_action) machine_state"
  assumes "actions_inv id m" "fresh_ids env m" "snd (env ''watcher'')"
    and "indexes_ok (watcher_store w)" "a \<in> set (getAll_appointments (watcher_store w))"
    and "anchorState_get (blockStore (cache m)) ''watcher'' (block_hash h) = Some (Inl s')"
    and "prevEmittedAnchorState_get (blockStore (cache m)) ''watcher'' (block_hash h) = Some (Inl s)"
    and "distinct (map fst (state_items s'))" "fst ` set (state_items s') \<subseteq> appointment_id ` set (watched w)"
    and "map_of (state_items s') (appointment_id a) = Some (Observed n)"
    and "\<not> shouldHaveStartedResponder w s (map_of (state_items s) (appointment_id a))"
    and "shouldHaveStartedResponder w s' (Some (Observed n))"
    and "processNewHead env (service_components w rc) h m = (res, m')"
    and "responder_ok bn seed F r" "encodeForResponse eth a = Inr d" "estimate renv (n + a_challengePeriod a) = Inr p"
    and "responder_call_ok F r (responder_call.StartResponse renv pisa d
      (a_gasLimit a + PisaGasAllowance) (appointment_id a) n (n + a_challengePeriod a))"
    and "write_ok renv" "\<not> depthReached (queue r)"
    and "rq = response_request (chainId r) pisa d (a_gasLimit a + PisaGasAllowance) (appointment_id a) n p"
    and "\<not> contains (queue r) (req_identifier rq)"
  shows "\<exists>act r' i. (''watcher'', act) \<in> set (running m') \<and>
    map_of (actionDb (action_store m')) (action_key ''watcher'' (action_id act)) = Some (action act) \<and>
    service_applyAction bn eth renv db_ok pisa (action act) (r, st) = (Inr (), r', st) \<and>
    i \<in> set (queueItems (queue r')) \<and> request i = rq \<and> transactions r' (appointment_id a) = Some i \<and>
    (accepts renv (toTransactionRequest i) \<longrightarrow> toTransactionRequest i \<in> set (sent r'))"
proof -
  let ?comps = "service_components w rc"
  let ?watcher = "hd ?comps"
  have comps: "?comps = ?watcher # tl ?comps" "component_name ?watcher = ''watcher''"
    by (simp_all add: service_components_def side_component_def)
  obtain as where as: "watcher_detectChanges w s s' = Inr as" "responses a as = [n]"
    using detect_watched [OF assms(4,8,9,5,10), of s] assms(10-12) by auto
  then have "WatcherAction.StartResponse a n \<in> set as" using responses_in [of n a as] by simp
  then have want: "Inl (WatcherAction.StartResponse a n) \<in> set (map Inl as :: service_action list)" by simp
  have detect: "detectChanges ?watcher (Inl s) (Inl s') = Inr (map Inl as)"
    by (simp add: service_components_def side_component_def as(1))
  have fresh: "fresh_for env ''watcher'' m" "colon_free ''watcher''"
    using assms(2) by (auto simp: fresh_ids_def fresh_for_def colon_free_def)
  have run: "head_loop env (?watcher # tl ?comps) h m = (res, m')"
    using assms(13) unfolding processNewHead_def by (simp only: comps(1) [symmetric])
  obtain act where act: "action act = Inl (WatcherAction.StartResponse a n)" "(''watcher'', act) \<in> set (running m')"
    using head_stores_first [where component = ?watcher, unfolded comps(2), OF assms(1) fresh(2,1) assms(3,6,7) detect want run]
    by blast
  have "machine_step id ?comps m m'" by (rule machine_step.head [OF assms(2,13)])
  from machine_run.inv_step [OF _ this] assms(1) service_names have inv': "actions_inv id m'" by (auto simp: machine_inv_def)
  have db: "db_holds m' ''watcher'' act"
    by (rule in_memory_stored [OF inv' actions_invD(3) [OF inv' act(2)]]) simp
  from applied_response [OF assms(14,17,15,16,18-21), of db_ok st] obtain r' i where
    r': "service_applyAction bn eth renv db_ok pisa (action act) (r, st) = (Inr (), r', st)"
      "i \<in> set (difference (queue r') (queue r))" "request i = rq" "transactions r' (appointment_id a) = Some i"
      "sent r' = sent r @ filter (accepts renv) (map toTransactionRequest (difference (queue r') (queue r)))"
    unfolding act(1) by blast
  then have "i \<in> set (queueItems (queue r'))" "accepts renv (toTransactionRequest i) \<longrightarrow> toTransactionRequest i \<in> set (sent r')"
    by (auto simp: difference_def)
  with act(2) db r'(1,3,4) show ?thesis by blast
qed


definition ex_component_responder :: MultiResponderComponent where
  "ex_component_responder = \<lparr>component_responder = ex_responder, responder_address = ''0x1'', confirmationsRequired = 100\<rparr>"

lemma ex_responder_ok': "responder_ok bn ex_seed F ex_responder"
  unfolding ex_responder_def by (rule responder_ok_start [OF ex_seed_ok])

end
