(* ===== verification/BlockProcessor.thy ===== *)
theory BlockProcessor
  imports EventLogs MachineRuns
begin

text \<open>
  The block processor (src/src/blockMonitor/blockProcessor.ts) and the events it emits
  (src/src/utils/event.ts): it fetches the block of a number the provider announced, adds it and its
  ancestors to the cache until one of them is attached, and makes it the head.

  The calls of \<open>processBlockNumber\<close> interleave.  A call is a value that says which \<open>await\<close> it is at, and
  a step runs it to the next one; the steps under the lock of the batches are one step each, because
  the lock keeps every other writer of the store out.  The answer of the provider and the outcome of
  the database write are inputs of a step.
\<close>

section \<open>Events\<close>

text \<open>Listeners are functions with an identity.\<close>

record 'l Event =
  listeners :: "(nat \<times> 'l) list"

definition new_Event :: "'l Event" where
  "new_Event = \<lparr>listeners = []\<rparr>"

definition addListener :: "nat \<times> 'l \<Rightarrow> 'l Event \<Rightarrow> 'l Event" where
  "addListener l e = e\<lparr>listeners := listeners e @ [l]\<rparr>"

definition removeListener :: "nat \<Rightarrow> 'l Event \<Rightarrow> 'l Event result" where
  "removeListener l e =
     (let idx = findIndex (\<lambda>x. fst x = l) (listeners e) in
      if idx = -1 then Inl (ApplicationError ''No such listener exists.'')
      else Inr (e\<lparr>listeners := take (nat idx) (listeners e) @ drop (nat idx + 1) (listeners e)\<rparr>))"

definition emit_event :: "('b \<Rightarrow> ('s, unit) prog) Event \<Rightarrow> 'b \<Rightarrow> ('s, unit) prog" where
  "emit_event e block = for_each_prog (\<lambda>l. snd l block) (listeners e)"

section \<open>Fetching blocks\<close>

text \<open>What the provider returns: a block with the hashes of its transactions, or with the transactions.\<close>

record ProviderTransaction =
  response :: TransactionStub
  response_hash :: string
  response_chainId :: "int option"
  networkId :: int

record ProviderBlock = IBlockStub +
  provided_hashes :: "string list"
  provided_transactions :: "ProviderTransaction list"

record Provider =
  provider_getBlock :: "int + string \<Rightarrow> bool \<Rightarrow> ProviderBlock option result"
  provider_getLogs :: "string \<Rightarrow> Log list result"

definition getBlockFromProvider :: "Provider \<Rightarrow> int + string \<Rightarrow> bool \<Rightarrow> ProviderBlock result" where
  "getBlockFromProvider provider blockNumberOrHash includeTransactions =
     bind_result (provider_getBlock provider blockNumberOrHash includeTransactions) (\<lambda>block.
       case block of
         None \<Rightarrow> Inl (BlockFetchingError ''The provider returned null'')
       | Some b \<Rightarrow> Inr b)"

definition blockStubAndTxHashFactory :: "Provider \<Rightarrow> int + string \<Rightarrow> TransactionHashes result" where
  "blockStubAndTxHashFactory provider blockNumberOrHash =
     bind_result (getBlockFromProvider provider blockNumberOrHash False) (\<lambda>block.
       Inr \<lparr>block_hash = block_hash block, number = number block, parentHash = parentHash block,
            transactionHashes = provided_hashes block\<rparr>)"

text \<open>The chain id falls back to the network id.\<close>

definition with_chainId :: "ProviderTransaction \<Rightarrow> TransactionStub" where
  "with_chainId tx =
     (response tx)\<lparr>tx_chainId := (case response_chainId tx of None \<Rightarrow> networkId tx | Some k \<Rightarrow> k)\<rparr>"

definition blockFactory :: "Provider \<Rightarrow> int + string \<Rightarrow> Block result" where
  "blockFactory provider blockNumberOrHash =
     (case bind_result (getBlockFromProvider provider blockNumberOrHash True) (\<lambda>block.
             bind_result (provider_getLogs provider (block_hash block)) (\<lambda>ls.
               Inr \<lparr>block_hash = block_hash block, number = number block, parentHash = parentHash block,
                    transactionHashes = map response_hash (provided_transactions block), logs = ls,
                    block_transactions = map with_chainId (provided_transactions block)\<rparr>)) of
        Inr b \<Rightarrow> Inr b
      | Inl doh \<Rightarrow>
          if doh = JsError ''unknown block''
          then Inl (BlockFetchingError ''Error while fetching block from the provider.'') else Inl doh)"

section \<open>The processor\<close>

text \<open>The record \<open>head\<close> of the \<open>BlockProcessorStore\<close>; a missing one is \<open>undefined\<close>.  \<open>read\<close> is what the
  database returns or throws.\<close>

datatype db_error = NotFoundError | OtherDbError app_error

definition getLatestHeadNumber :: "db_error + int \<Rightarrow> int option result" where
  "getLatestHeadNumber read =
     (case read of
        Inr h \<Rightarrow> Inr (Some h)
      | Inl NotFoundError \<Rightarrow> Inr None
      | Inl (OtherDbError doh) \<Rightarrow> Inl doh)"

text \<open>\<open>heads\<close> logs every block emitted as a new head and how many new blocks the cache had emitted by
  then.\<close>

record ('b, 's, 'a) BlockProcessor =
  chain_machine :: "('b, 's, 'a) machine_state"
  lastBlockHashReceived :: "string option"
  processor_started :: bool
  latestHeadNumber :: "int option"
  heads :: "('b \<times> nat) list"

abbreviation processor_cache :: "('b, 's, 'a) BlockProcessor \<Rightarrow> ('b, 's) BlockCache" where
  "processor_cache p \<equiv> cache (chain_machine p)"

definition setLatestHeadNumber :: "bool \<Rightarrow> int \<Rightarrow> (('b, 's, 'a) BlockProcessor, unit) eff" where
  "setLatestHeadNumber db_ok n p =
     (if \<not> db_ok then (Inl (JsError ''put''), p) else (Inr (), p\<lparr>latestHeadNumber := Some n\<rparr>))"

text \<open>\<open>withBatch\<close> around a callback on the whole machine.\<close>

definition on_batch_store ::
  "(('b, 's) BlockItemStore \<Rightarrow> ('b, 's) BlockItemStore) \<Rightarrow> ('b, 's, 'a) machine_state \<Rightarrow> ('b, 's, 'a) machine_state" where
  "on_batch_store f m = m\<lparr>cache := (cache m)\<lparr>blockStore := f (blockStore (cache m))\<rparr>\<rparr>"

definition with_batch ::
  "bool \<Rightarrow> (('b, 's, 'a) machine_state, 'x) prog \<Rightarrow> (('b, 's, 'a) machine_state, 'x) prog" where
  "with_batch db_ok callback m =
     (if mBatch (blockStore (cache m)) \<noteq> None
      then throw_prog (ApplicationError ''There is already an open batch.'') m
      else map_option (\<lambda>(r, m').
          case r of
            Inl e \<Rightarrow> (Inl e, on_batch_store (\<lambda>s. s\<lparr>mBatch := None\<rparr>) m')
          | Inr x \<Rightarrow>
              if \<not> db_ok then (Inl (JsError ''batch write''), on_batch_store (\<lambda>s. s\<lparr>mBatch := None\<rparr>) m')
              else (Inr x, on_batch_store (\<lambda>s. s\<lparr>mBatch := None,
                blockDb := fold apply_db_op (case mBatch s of None \<Rightarrow> [] | Some ws \<Rightarrow> ws) (blockDb s)\<rparr>) m'))
        (callback (on_batch_store (\<lambda>s. s\<lparr>mBatch := Some []\<rparr>) m)))"

definition on_cache_prog ::
  "(('b, 's) BlockCache, 'x) prog \<Rightarrow> (('b, 's, 'a) machine_state, 'x) prog" where
  "on_cache_prog f m = map_option (\<lambda>(r, c'). (r, m\<lparr>cache := c'\<rparr>)) (f (cache m))"

lemma with_batch_withBatch:
  "with_batch db_ok (lift_eff (on_cache (on_store callback))) = lift_eff (on_cache (on_store (withBatch db_ok callback)))"
  by (auto simp: fun_eq_iff with_batch_def withBatch_def on_cache_def on_store_def on_batch_store_def
      split: prod.splits sum.splits)

section \<open>The calls of processBlockNumber\<close>

datatype 'b block_call =
    NextBatch int
  | AwaitNumber int int
  | AddToCache int int 'b 'b
  | AwaitParent int int 'b string
  | EmitHead 'b
  | SaveHead 'b
  | Ended

text \<open>The start processes the head of the last run, or the current block of the provider; a head number 0
  counts as missing.\<close>

definition startInternal_processor :: "db_error + int \<Rightarrow> int result \<Rightarrow> 'b block_call result" where
  "startInternal_processor read getBlockNumber =
     bind_result (getLatestHeadNumber read) (\<lambda>latest.
     bind_result (case latest of
           Some h \<Rightarrow> if h \<noteq> 0 then Inr h else getBlockNumber
         | None \<Rightarrow> getBlockNumber) (\<lambda>currentHead.
       Inr (NextBatch currentHead)))"

definition next_number :: "('b IBlockStub_scheme, 's) BlockCache \<Rightarrow> int \<Rightarrow> int result" where
  "next_number c target =
     (if mIsEmpty c then Inr target
      else bind_result (head c) (\<lambda>h. Inr (min target (number h + maxDepth c))))"

text \<open>The end of the loops: the head is set at once, the rest of \<open>processNewHead\<close> waits for the lock.\<close>

definition batch_done ::
  "int \<Rightarrow> int \<Rightarrow> 'b IBlockStub_scheme \<Rightarrow> ('b IBlockStub_scheme, 's, 'a) BlockProcessor \<Rightarrow>
   'b IBlockStub_scheme block_call \<times> ('b IBlockStub_scheme, 's, 'a) BlockProcessor" where
  "batch_done target processingNumber observedBlock p =
     (if processingNumber \<noteq> target then (NextBatch target, p)
      else if lastBlockHashReceived p = Some (block_hash observedBlock) then
        (case setHead (block_hash observedBlock) (processor_cache p) of
           (Inl e, c') \<Rightarrow> (Ended, p)
         | (Inr u, c') \<Rightarrow>
             (if processor_started p then EmitHead observedBlock else SaveHead observedBlock,
              p\<lparr>chain_machine := (chain_machine p)\<lparr>cache := c'\<rparr>\<rparr>))
      else (Ended, p))"

definition next_parent ::
  "int \<Rightarrow> int \<Rightarrow> 'b IBlockStub_scheme \<Rightarrow> 'b IBlockStub_scheme \<Rightarrow> ('b IBlockStub_scheme, 's, 'a) BlockProcessor \<Rightarrow>
   'b IBlockStub_scheme block_call" where
  "next_parent target processingNumber observedBlock curBlock p =
     (if hasBlock (processor_cache p) (parentHash curBlock) True then
        (case getBlock (processor_cache p) (parentHash curBlock) of
           Inl e \<Rightarrow> Ended
         | Inr b \<Rightarrow> AddToCache target processingNumber observedBlock b)
      else AwaitParent target processingNumber observedBlock (parentHash curBlock))"

text \<open>\<open>newBlock\<close> is the listener of the cache, \<open>newHead\<close> the event of the processor.  An error ends the
  call and is logged.\<close>

fun block_call_step ::
  "('b IBlockStub_scheme, 's) listener \<Rightarrow>
   ('b IBlockStub_scheme \<Rightarrow> (('b IBlockStub_scheme, 's, 'a) machine_state, unit) prog) Event \<Rightarrow> bool \<Rightarrow>
   'b IBlockStub_scheme result \<Rightarrow> 'b IBlockStub_scheme block_call \<Rightarrow> ('b IBlockStub_scheme, 's, 'a) BlockProcessor \<Rightarrow>
   ('b IBlockStub_scheme block_call \<times> ('b IBlockStub_scheme, 's, 'a) BlockProcessor) option" where
  "block_call_step newBlock newHead db_ok answer (NextBatch target) p =
     Some (case next_number (processor_cache p) target of
             Inl e \<Rightarrow> (Ended, p)
           | Inr processingNumber \<Rightarrow> (AwaitNumber target processingNumber, p))"
| "block_call_step newBlock newHead db_ok answer (AwaitNumber target processingNumber) p =
     Some (case answer of
             Inl e \<Rightarrow> (Ended, p)
           | Inr observedBlock \<Rightarrow>
               (AddToCache target processingNumber observedBlock observedBlock,
                if processingNumber = target
                then p\<lparr>lastBlockHashReceived := Some (block_hash observedBlock)\<rparr> else p))"
| "block_call_step newBlock newHead db_ok answer (AddToCache target processingNumber observedBlock curBlock) p =
     map_option (\<lambda>(r, m').
         let p' = p\<lparr>chain_machine := m'\<rparr> in
         case r of
           Inl e \<Rightarrow> (Ended, p')
         | Inr addResult \<Rightarrow>
             if addResult \<noteq> AddedDetached \<and> addResult \<noteq> NotAddedAlreadyExistedDetached
             then batch_done target processingNumber observedBlock p'
             else (next_parent target processingNumber observedBlock curBlock p', p'))
       (with_batch db_ok (on_cache_prog (addBlock newBlock curBlock)) (chain_machine p))"
| "block_call_step newBlock newHead db_ok answer (AwaitParent target processingNumber observedBlock blockHash) p =
     Some (case answer of
             Inl e \<Rightarrow> (Ended, p)
           | Inr curBlock \<Rightarrow> (AddToCache target processingNumber observedBlock curBlock, p))"
| "block_call_step newBlock newHead db_ok answer (EmitHead headBlock) p =
     map_option (\<lambda>(r, m').
         (case r of Inl e \<Rightarrow> Ended | Inr u \<Rightarrow> SaveHead headBlock,
          p\<lparr>chain_machine := m', heads := heads p @ [(headBlock, length (emitted (processor_cache p)))]\<rparr>))
       (with_batch db_ok (emit_event newHead headBlock) (chain_machine p))"
| "block_call_step newBlock newHead db_ok answer (SaveHead headBlock) p =
     Some (Ended, snd (setLatestHeadNumber db_ok (number headBlock) p))"
| "block_call_step newBlock newHead db_ok answer Ended p = Some (Ended, p)"

text \<open>The events as the machine uses them: it adds \<open>processNewBlock\<close> to the event of the cache and
  \<open>processNewHead\<close> to that of the processor.\<close>

definition machine_newBlock ::
  "('b IBlockStub_scheme, 's, 'a) Component list \<Rightarrow> ('b IBlockStub_scheme, 's) listener" where
  "machine_newBlock comps = emit_event (addListener (0, processNewBlock comps) new_Event)"

definition machine_newHead ::
  "head_env \<Rightarrow> ('b IBlockStub_scheme, 's, 'a) Component list \<Rightarrow>
   ('b IBlockStub_scheme \<Rightarrow> (('b IBlockStub_scheme, 's, 'a) machine_state, unit) prog) Event" where
  "machine_newHead env comps = addListener (0, \<lambda>h. lift_eff (processNewHead env comps h)) new_Event"

section \<open>Interleaved calls\<close>

text \<open>The provider returns the block of a number or of a hash, if it answers.\<close>

fun answer_ok :: "'b naming \<Rightarrow> 'b IBlockStub_scheme block_call \<Rightarrow> 'b IBlockStub_scheme result \<Rightarrow> bool" where
  "answer_ok B (AwaitNumber target processingNumber) (Inr b) \<longleftrightarrow>
     names B b \<and> number b = processingNumber \<and> 0 \<le> number b"
| "answer_ok B (AwaitParent target processingNumber observedBlock blockHash) (Inr b) \<longleftrightarrow>
     names B b \<and> block_hash b = blockHash \<and> 0 \<le> number b"
| "answer_ok B call answer \<longleftrightarrow> True"

text \<open>\<open>inputs_ok\<close> says which inputs a step gets, \<open>event_ok\<close> which block numbers are announced.\<close>

inductive processor_step for comps inputs_ok event_ok where
  new_call: "event_ok n \<Longrightarrow>
    processor_step comps inputs_ok event_ok (p, calls) (p, calls @ [NextBatch n])"
| advance: "i < length calls \<Longrightarrow> inputs_ok (calls ! i) env db_ok answer \<Longrightarrow>
    block_call_step (machine_newBlock comps) (machine_newHead env comps) db_ok answer (calls ! i) p = Some (call', p') \<Longrightarrow>
    processor_step comps inputs_ok event_ok (p, calls) (p', calls[i := call'])"
| start_or_stop:
    "processor_step comps inputs_ok event_ok (p, calls) (p\<lparr>processor_started := b\<rparr>, calls)"

text \<open>One call alone, with a provider that always answers.\<close>

fun answer_of ::
  "(int \<Rightarrow> 'b IBlockStub_scheme) \<Rightarrow> 'b naming \<Rightarrow> 'b IBlockStub_scheme block_call \<Rightarrow> 'b IBlockStub_scheme result" where
  "answer_of chain B (AwaitNumber target processingNumber) = Inr (chain processingNumber)"
| "answer_of chain B (AwaitParent target processingNumber observedBlock blockHash) = Inr (B blockHash)"
| "answer_of chain B call = Inl (JsError ''not asked'')"

fun run_call ::
  "('b IBlockStub_scheme, 's, 'a) Component list \<Rightarrow> head_env \<Rightarrow> (int \<Rightarrow> 'b IBlockStub_scheme) \<Rightarrow> 'b naming \<Rightarrow> nat \<Rightarrow>
   'b IBlockStub_scheme block_call \<Rightarrow> ('b IBlockStub_scheme, 's, 'a) BlockProcessor \<Rightarrow>
   ('b IBlockStub_scheme block_call \<times> ('b IBlockStub_scheme, 's, 'a) BlockProcessor) option" where
  "run_call comps env chain B 0 call p = Some (call, p)"
| "run_call comps env chain B (Suc fuel) call p =
     Option.bind (block_call_step (machine_newBlock comps) (machine_newHead env comps) True (answer_of chain B call) call p)
       (\<lambda>(call', p'). run_call comps env chain B fuel call' p')"

end
