(* ===== verification/BlockProcessorRuns.thy ===== *)
theory BlockProcessorRuns
  imports BlockProcessor MachineProps
begin

text \<open>
  How a step of the block processor changes the cache: a batch opens and closes around \<open>addBlock\<close> and
  around the new head, and in between the cache is one that blocks were added to.
\<close>

section \<open>The cache between batches\<close>

definition opened :: "('b, 's) BlockCache \<Rightarrow> ('b, 's) BlockCache" where
  "opened c = c\<lparr>blockStore := (blockStore c)\<lparr>mBatch := Some []\<rparr>\<rparr>"

text \<open>No batch is open, and the cache is what adding the blocks \<open>bs\<close> makes of it.\<close>

definition cache_ok :: "'a naming \<Rightarrow> 'a IBlockStub_scheme list \<Rightarrow> ('a IBlockStub_scheme, 's) BlockCache \<Rightarrow> bool" where
  "cache_ok B bs c \<longleftrightarrow> mBatch (blockStore c) = None \<and> run_inv B bs (opened c)"

lemma attached_get_same: "items s' = items s \<Longrightarrow> attached_get s' h = attached_get s h"
  by (simp add: attached_get_items)

lemma rep_ok_same:
  assumes "items s' = items (blockStore c)" "itemsByHeight s' = itemsByHeight (blockStore c)" "batch_open s'" "rep_ok B c"
  shows "rep_ok B (c\<lparr>blockStore := s'\<rparr>)"
  using assms(4) assms(1-3)
  by (simp add: rep_ok_def attached_get_same [of s' "blockStore c"] store_inv_def keys_at_def)

text \<open>Only the blocks in the store matter to what the cache has seen.\<close>

lemma run_inv_same:
  assumes "rep_ok B (c\<lparr>blockStore := s'\<rparr>)" "\<And>h. attached_get s' h = att c h" "run_inv B bs c"
  shows "run_inv B bs (c\<lparr>blockStore := s'\<rparr>)"
proof -
  have "cache_inv B (c\<lparr>blockStore := s'\<rparr>)"
    using assms(1) run_invD(1) [OF assms(3)]
    by (auto simp: cache_inv_def core_def bounded_def emission_ok_def assms(2) split: if_splits)
  with assms(3) show ?thesis
    by (simp add: run_inv_def none_stuck_def assms(2))
qed

lemma cache_ok_close:
  assumes "run_inv B bs c" "items s' = items (blockStore c)" "itemsByHeight s' = itemsByHeight (blockStore c)" "mBatch s' = None"
  shows "cache_ok B bs (c\<lparr>blockStore := s'\<rparr>)"
proof -
  let ?s = "s'\<lparr>mBatch := Some []\<rparr>"
  have "run_inv B bs (c\<lparr>blockStore := ?s\<rparr>)"
    by (rule run_inv_same [OF rep_ok_same [OF _ _ _ run_inv_rep [OF assms(1)]] _ assms(1)])
      (simp_all add: assms(2,3) batch_open_def attached_get_same [of ?s "blockStore c"])
  then show ?thesis using assms(4) by (simp add: cache_ok_def opened_def)
qed

lemma opened_simps [simp]:
  "att (opened c) = att c" "mIsEmpty (opened c) = mIsEmpty c" "headHash (opened c) = headHash c"
  "maxDepth (opened c) = maxDepth c" "mMaxHeight (opened c) = mMaxHeight c" "emitted (opened c) = emitted c"
  "pruneHeight (opened c) = pruneHeight c" "hasBlock (opened c) h d = hasBlock c h d" "getBlock (opened c) h = getBlock c h"
  by (auto simp: opened_def attached_get_items hasBlock_def getBlock_def block_get_def getItem_def)

lemma add_result_opened [simp]: "add_result (opened c) b = add_result c b"
  by (simp add: add_result_def)

lemma cache_okD:
  assumes "cache_ok B bs c"
  shows "mBatch (blockStore c) = None" "run_inv B bs (opened c)" "mIsEmpty c \<longleftrightarrow> bs = []"
    "hasBlock c h d \<longleftrightarrow> att c h = Some True \<or> d \<and> att c h \<noteq> None" "att c h \<noteq> None \<Longrightarrow> getBlock c h = Inr (B h)"
    "att c h \<noteq> None \<Longrightarrow> B h \<in> set bs" "att c h \<noteq> None \<Longrightarrow> real B h"
    "b \<in> set bs \<Longrightarrow> lo c \<le> number b \<Longrightarrow> att c (block_hash b) \<noteq> None"
    "bs \<noteq> [] \<Longrightarrow> lo c = max (number (hd bs)) (mMaxHeight c - maxDepth c)"
    "mMaxHeight c \<in> insert 0 (number ` set bs)" "att c h \<noteq> None \<Longrightarrow> lo c \<le> number (B h)"
    "getBlock c h = Inr b \<Longrightarrow> att c h \<noteq> None \<and> b = B h" "0 \<le> maxDepth c"
    "links B \<Longrightarrow> att c h = Some False \<Longrightarrow> att c (parentHash (B h)) \<noteq> Some True \<and> number (B h) \<noteq> lo c"
proof -
  show ok: "mBatch (blockStore c) = None" "run_inv B bs (opened c)" using assms by (simp_all add: cache_ok_def)
  note D = run_invD [OF ok(2)] and rep = run_inv_rep [OF ok(2)]
  show "mIsEmpty c \<longleftrightarrow> bs = []" using D(2) by simp
  show "hasBlock c h d \<longleftrightarrow> att c h = Some True \<or> d \<and> att c h \<noteq> None" using hasBlock_rep [OF rep] by simp
  show "att c h \<noteq> None \<Longrightarrow> getBlock c h = Inr (B h)" using getBlock_rep [OF rep] by simp
  show "att c h \<noteq> None \<Longrightarrow> B h \<in> set bs" using D(4) by simp
  show "att c h \<noteq> None \<Longrightarrow> real B h" using rep_okD(3) [OF rep] by simp
  show "b \<in> set bs \<Longrightarrow> lo c \<le> number b \<Longrightarrow> att c (block_hash b) \<noteq> None" using D(7) by simp
  show "bs \<noteq> [] \<Longrightarrow> lo c = max (number (hd bs)) (mMaxHeight c - maxDepth c)" using D(9) by simp
  show "mMaxHeight c \<in> insert 0 (number ` set bs)" using D(10) by simp
  show "att c h \<noteq> None \<Longrightarrow> lo c \<le> number (B h)"
    using D(1) coreD(6) [of B "opened c" h] by (auto simp: cache_inv_def split: if_splits)
  have "getBlock (opened c) h = Inr b \<Longrightarrow> att (opened c) h \<noteq> None \<and> b = B h"
    by (auto simp: getBlock_def block_get_rep [OF rep] split: option.splits)
  then show "getBlock c h = Inr b \<Longrightarrow> att c h \<noteq> None \<and> b = B h" by simp
  show "0 \<le> maxDepth c" using D(1) coreD(2) [of B "opened c"] by (auto simp: cache_inv_def split: if_splits)
  show "links B \<Longrightarrow> att c h = Some False \<Longrightarrow> att c (parentHash (B h)) \<noteq> Some True \<and> number (B h) \<noteq> lo c"
    using D(8) by (simp add: none_stuck_def)
qed

lemma cache_ok_emitted:
  assumes "cache_ok B bs c"
  shows "att c h = Some True \<longleftrightarrow> bs \<noteq> [] \<and> real B h \<and> B h \<in> set (emitted c) \<and> lo c \<le> number (B h)"
    "distinct (emitted c)" "\<And>e. e \<in> set (emitted c) \<Longrightarrow> names B e"
proof -
  note inv = run_invD(1,2) [OF cache_okD(2) [OF assms]]
  have "(att c h = Some True \<longleftrightarrow> bs \<noteq> [] \<and> real B h \<and> B h \<in> set (emitted c) \<and> lo c \<le> number (B h)) \<and>
    distinct (emitted c) \<and> (\<forall>e\<in>set (emitted c). names B e)"
  proof (cases "bs = []")
    case True
    with inv show ?thesis by (simp add: cache_inv_def)
  next
    case False
    with inv have "core B (opened c)" by (simp add: cache_inv_def)
    from coreD(7) [OF this] False show ?thesis by (simp add: emission_ok_def)
  qed
  then show "att c h = Some True \<longleftrightarrow> bs \<noteq> [] \<and> real B h \<and> B h \<in> set (emitted c) \<and> lo c \<le> number (B h)"
    "distinct (emitted c)" "\<And>e. e \<in> set (emitted c) \<Longrightarrow> names B e" by auto
qed

lemma cache_ok_head [simp]: "cache_ok B bs (c\<lparr>headHash := h\<rparr>) = cache_ok B bs c"
proof -
  have "run_inv B bs ((opened c)\<lparr>headHash := h\<rparr>) = run_inv B bs (opened c)"
    by (simp add: run_inv_def cache_inv_def core_def bounded_def emission_ok_def none_stuck_def)
  moreover have "opened (c\<lparr>headHash := h\<rparr>) = (opened c)\<lparr>headHash := h\<rparr>" by (simp add: opened_def)
  ultimately show ?thesis by (simp add: cache_ok_def)
qed

section \<open>A batch\<close>

lemma then_prog_return [simp]: "then_prog m (return_prog ()) = m"
  by (auto simp: fun_eq_iff then_prog_def bind_prog_def split: bind_split sum.splits)

lemma machine_events [simp]:
  "machine_newBlock comps = processNewBlock comps"
  "emit_event (machine_newHead env comps) h = lift_eff (processNewHead env comps h)"
  by (simp_all add: fun_eq_iff machine_newBlock_def machine_newHead_def emit_event_def addListener_def new_Event_def)

lemma with_batch_result:
  assumes closed: "mBatch (blockStore (cache m)) = None"
    and run: "callback (m\<lparr>cache := opened (cache m)\<rparr>) = Some (r, m1)" and inv: "run_inv B bs (cache m1)"
  shows "\<exists>m'. with_batch db_ok callback m =
      Some (case r of Inl e \<Rightarrow> Inl e | Inr x \<Rightarrow> if db_ok then Inr x else Inl (JsError ''batch write''), m') \<and>
    cache_ok B bs (cache m') \<and> att (cache m') = att (cache m1) \<and> headHash (cache m') = headHash (cache m1) \<and>
    maxDepth (cache m') = maxDepth (cache m1) \<and> pruneHeight (cache m') = pruneHeight (cache m1) \<and>
    emitted (cache m') = emitted (cache m1)"
proof -
  let ?shut = "\<lambda>s :: ('a IBlockStub_scheme, 'b) BlockItemStore. s\<lparr>mBatch := None\<rparr>"
  let ?commit = "\<lambda>s :: ('a IBlockStub_scheme, 'b) BlockItemStore. s\<lparr>mBatch := None,
    blockDb := fold apply_db_op (case mBatch s of None \<Rightarrow> [] | Some ws \<Rightarrow> ws) (blockDb s)\<rparr>"
  have same: "cache_ok B bs (cache (on_batch_store f m1)) \<and> att (cache (on_batch_store f m1)) = att (cache m1) \<and>
      headHash (cache (on_batch_store f m1)) = headHash (cache m1) \<and> maxDepth (cache (on_batch_store f m1)) = maxDepth (cache m1) \<and>
      pruneHeight (cache (on_batch_store f m1)) = pruneHeight (cache m1) \<and> emitted (cache (on_batch_store f m1)) = emitted (cache m1)"
    if "f = ?shut \<or> f = ?commit" for f
    using that cache_ok_close [OF inv, of "f (blockStore (cache m1))"]
    by (auto simp: on_batch_store_def attached_get_same [of "f (blockStore (cache m1))"] fun_eq_iff attached_get_items)
  have eq: "on_batch_store (\<lambda>s. s\<lparr>mBatch := Some []\<rparr>) m = m\<lparr>cache := opened (cache m)\<rparr>"
    by (simp add: on_batch_store_def opened_def)
  show ?thesis
    using same [of ?shut] same [of ?commit] run closed by (cases r) (auto simp: with_batch_def eq)
qed

lemma add_batch:
  assumes ret: "components_return comps B" and ok: "cache_ok B bs (cache m)" and b: "names B b" "0 \<le> number b"
  shows "\<exists>m'. with_batch db_ok (on_cache_prog (addBlock (processNewBlock comps) b)) m =
      Some (if db_ok then Inr (add_result (cache m) b) else Inl (JsError ''batch write''), m') \<and>
    cache_ok B (bs @ [b]) (cache m') \<and> headHash (cache m') = headHash (cache m) \<and> maxDepth (cache m') = maxDepth (cache m) \<and>
    (case add_result (cache m) b of
       Added \<Rightarrow> \<exists>es. emitted (cache m') = emitted (cache m) @ b # es
     | AddedDetached \<Rightarrow> att (cache m') = (att (cache m))(block_hash b \<mapsto> False) \<and> emitted (cache m') = emitted (cache m) \<and>
         lo (cache m') = lo (cache m)
     | _ \<Rightarrow> att (cache m') = att (cache m) \<and> emitted (cache m') = emitted (cache m) \<and> lo (cache m') = lo (cache m))"
proof -
  note C = cache_okD [OF ok]
  from machine.addBlock_run_inv [OF ret C(2) b] obtain c1 where
    c1: "addBlock (processNewBlock comps) b (opened (cache m)) = Some (Inr (add_result (cache m) b), c1)"
      "run_inv B (bs @ [b]) c1" "headHash c1 = headHash (cache m)" "maxDepth c1 = maxDepth (cache m)"
      "case add_result (cache m) b of
         Added \<Rightarrow> (\<exists>es. emitted c1 = emitted (cache m) @ b # es) \<and> no_detached_at B c1 (number b + 1)
       | AddedDetached \<Rightarrow> att c1 = (att (cache m))(block_hash b \<mapsto> False) \<and> emitted c1 = emitted (cache m) \<and> lo c1 = lo (cache m)
       | _ \<Rightarrow> c1 = opened (cache m)"
    unfolding opened_simps add_result_opened by blast
  have "on_cache_prog (addBlock (processNewBlock comps) b) (m\<lparr>cache := opened (cache m)\<rparr>) =
      Some (Inr (add_result (cache m) b), m\<lparr>cache := c1\<rparr>)"
    by (simp add: on_cache_prog_def c1(1))
  from with_batch_result [where m = m and callback = "on_cache_prog (addBlock (processNewBlock comps) b)",
      OF C(1) this, of B "bs @ [b]" db_ok] c1(2-5) show ?thesis
    by (auto split: BlockAddResult.splits)
qed

section \<open>A new head\<close>

lemma head_loop_cache:
  assumes "head_loop env comps h m = (r, m')" "run_inv B bs (cache m)" "names B h"
  shows "run_inv B bs (cache m') \<and> (\<exists>s. cache m' = (cache m)\<lparr>blockStore := s\<rparr>) \<and> att (cache m') = att (cache m) \<and>
    (\<forall>n x. anchor (cache m') n x = anchor (cache m) n x \<and>
       (emitted_anchor (cache m') n x = emitted_anchor (cache m) n x \<or>
        emitted_anchor (cache m') n x = anchor (cache m) n x \<and> anchor (cache m) n x \<noteq> None))"
  using assms(1,2)
proof (induction comps arbitrary: m)
  case Nil
  then show ?case by (auto intro: exI [of _ "blockStore (cache m)"])
next
  case (Cons component comps)
  let ?n = "component_name component"
  have h: "real B (block_hash h)" "number (B (block_hash h)) = number h" using assms(3) by (auto simp: names_def real_def)
  show ?case
  proof (cases "anchorState_get (blockStore (cache m)) ?n (block_hash h)")
    case None
    with Cons.prems show ?thesis by (auto intro: exI [of _ "blockStore (cache m)"])
  next
    case (Some state)
    let ?first = "case prevEmittedAnchorState_get (blockStore (cache m)) ?n (block_hash h) of
        None \<Rightarrow> return_eff ()
      | Some prevEmittedState \<Rightarrow>
          (case detectChanges component prevEmittedState state of
             Inl e \<Rightarrow> throw_eff e | Inr newActions \<Rightarrow> store_and_run env ?n newActions)"
    obtain r1 m1 where f: "?first m = (r1, m1)" by fastforce
    then have c1: "cache m1 = cache m"
      by (auto simp: store_and_run_def runActionsForComponent_def throw_eff_def split: option.splits sum.splits if_splits prod.splits)
    obtain s2 where p: "on_store (putBlockItem (number h) (block_hash h) (?n @ '':'' @ KEY_PREV_EMITTED_STATE) (StateItem state)) (cache m) =
          (Inr (), (cache m)\<lparr>blockStore := s2\<rparr>)"
      and s2: "rep_ok B ((cache m)\<lparr>blockStore := s2\<rparr>)" "\<And>x. attached_get s2 x = att (cache m) x"
      and items2: "map_of (items s2) = (cache_items (cache m))(memKey (block_hash h) (?n @ '':'' @ KEY_PREV_EMITTED_STATE) \<mapsto> StateItem state)"
      by (rule put_state_rep [OF run_inv_rep [OF Cons.prems(2)] h(1) state_key(2) [of ?n], of state]) (simp only: h(2))
    have same2: "anchorState_get s2 n x = anchor (cache m) n x" for n x
      using state_item_other(3) [of x n "block_hash h" ?n] by (simp add: anchor_items items2)
    have emit2: "prevEmittedAnchorState_get s2 n x = emitted_anchor (cache m) n x \<or>
        prevEmittedAnchorState_get s2 n x = anchor (cache m) n x \<and> anchor (cache m) n x \<noteq> None" for n x
    proof (cases "memKey x (n @ '':'' @ KEY_PREV_EMITTED_STATE) = memKey (block_hash h) (?n @ '':'' @ KEY_PREV_EMITTED_STATE)")
      case True
      then have "memKey x (n @ '':'' @ KEY_STATE) = memKey (block_hash h) (?n @ '':'' @ KEY_STATE)" by (simp add: memKey_def)
      then have "anchor (cache m) n x = Some state" using Some by (simp only: anchor_items)
      with True show ?thesis by (simp add: anchor_items(2) items2)
    qed (simp add: anchor_items(2) items2)
    let ?m2 = "m1\<lparr>cache := (cache m)\<lparr>blockStore := s2\<rparr>\<rparr>"
    have inv2: "run_inv B bs (cache ?m2)" using run_inv_same [OF s2 Cons.prems(2)] by simp
    show ?thesis
    proof (cases r1)
      case (Inl e)
      then have "m' = m1" using Cons.prems(1) Some f by (auto simp: then_eff_def bind_eff_def)
      with c1 Cons.prems(2) show ?thesis by (auto intro: exI [of _ "blockStore (cache m)"])
    next
      case (Inr u)
      then have "head_loop env comps h ?m2 = (r, m')"
        using Cons.prems(1) Some f p
        by (auto simp: then_eff_def bind_eff_def on_cache_def prevEmittedAnchorState_set_def c1)
      from Cons.IH [OF this inv2] show ?thesis using emit2 by (auto simp: fun_eq_iff s2(2) same2) metis+
    qed
  qed
qed

text \<open>Handling a head succeeds when \<open>detectChanges\<close> does and the writes of the actions do.\<close>

definition changes_return :: "head_env \<Rightarrow> ('b, 's, 'a) Component list \<Rightarrow> bool" where
  "changes_return env comps \<longleftrightarrow>
     (\<forall>name. snd (env name)) \<and> (\<forall>component\<in>set comps. \<forall>s s'. \<exists>as. detectChanges component s s' = Inr as)"

lemma head_loop_returns:
  assumes "changes_return env comps" "run_inv B bs (cache m)" "names B h"
  shows "fst (head_loop env comps h m) = Inr ()"
  using assms(1,2)
proof (induction comps arbitrary: m)
  case (Cons component comps)
  let ?n = "component_name component"
  show ?case
  proof (cases "anchorState_get (blockStore (cache m)) ?n (block_hash h)")
    case (Some state)
    let ?first = "case prevEmittedAnchorState_get (blockStore (cache m)) ?n (block_hash h) of
        None \<Rightarrow> return_eff ()
      | Some prevEmittedState \<Rightarrow>
          (case detectChanges component prevEmittedState state of
             Inl e \<Rightarrow> throw_eff e | Inr newActions \<Rightarrow> store_and_run env ?n newActions)"
    from Cons.prems(1) have ok: "snd (env ?n)" "\<And>s s'. \<exists>as. detectChanges component s s' = Inr as"
      by (auto simp: changes_return_def)
    obtain m1 where f: "?first m = (Inr (), m1)" "cache m1 = cache m"
    proof (cases "prevEmittedAnchorState_get (blockStore (cache m)) ?n (block_hash h)")
      case (Some prev)
      obtain as where "detectChanges component prev state = Inr as" using ok(2) by blast
      with Some ok(1) that show thesis
        by (cases "as = []") (auto simp: store_and_run_def storeActions_def runActionsForComponent_def Let_def)
    qed (use that in auto)
    obtain s2 where p: "on_store (putBlockItem (number h) (block_hash h) (?n @ '':'' @ KEY_PREV_EMITTED_STATE) (StateItem state)) (cache m) =
          (Inr (), (cache m)\<lparr>blockStore := s2\<rparr>)"
      and s2: "rep_ok B ((cache m)\<lparr>blockStore := s2\<rparr>)" "\<And>x. attached_get s2 x = att (cache m) x"
      by (rule put_state_rep [OF run_inv_rep [OF Cons.prems(2)] _ state_key(2) [of ?n], of "block_hash h" state])
        (use assms(3) in \<open>auto simp: names_def real_def\<close>)
    let ?m2 = "m1\<lparr>cache := (cache m)\<lparr>blockStore := s2\<rparr>\<rparr>"
    have "run_inv B bs (cache ?m2)" using run_inv_same [OF s2 Cons.prems(2)] by simp
    moreover have "changes_return env comps" using Cons.prems(1) by (simp add: changes_return_def)
    ultimately have "fst (head_loop env comps h ?m2) = Inr ()" by (rule Cons.IH [rotated])
    with Some f p show ?thesis
      by (auto simp: then_eff_def bind_eff_def on_cache_def prevEmittedAnchorState_set_def split: prod.split)
  qed simp
qed simp

lemma head_batch:
  assumes ok: "cache_ok B bs (cache m)" and h: "names B h"
  shows "\<exists>r m'. with_batch db_ok (lift_eff (processNewHead env comps h)) m = Some (r, m') \<and>
    cache_ok B bs (cache m') \<and> att (cache m') = att (cache m) \<and> headHash (cache m') = headHash (cache m) \<and>
    maxDepth (cache m') = maxDepth (cache m) \<and> pruneHeight (cache m') = pruneHeight (cache m) \<and>
    emitted (cache m') = emitted (cache m) \<and>
    (db_ok \<longrightarrow> changes_return env comps \<longrightarrow> r = Inr ())"
proof -
  note C = cache_okD(1,2) [OF ok]
  obtain r1 m1 where run: "processNewHead env comps h (m\<lparr>cache := opened (cache m)\<rparr>) = (r1, m1)" by fastforce
  from head_loop_cache [OF this [unfolded processNewHead_def] _ h, of bs] C(2) have
    inv: "run_inv B bs (cache m1)" and same: "\<exists>s. cache m1 = (opened (cache m))\<lparr>blockStore := s\<rparr>"
      "att (cache m1) = att (cache m)" by auto
  have "r1 = Inr ()" if "changes_return env comps"
    using head_loop_returns [OF that _ h, of bs "m\<lparr>cache := opened (cache m)\<rparr>"] C(2) run by (simp add: processNewHead_def)
  note ret = this
  from run have "lift_eff (processNewHead env comps h) (m\<lparr>cache := opened (cache m)\<rparr>) = Some (r1, m1)" by simp
  from with_batch_result [where m = m and callback = "lift_eff (processNewHead env comps h)", OF C(1) this inv, of db_ok] same ret show ?thesis by (cases r1) auto
qed

end
