(* ===== verification/BlockProcessorProps.thy ===== *)
theory BlockProcessorProps
  imports BlockProcessorRuns
begin

text \<open>
  The properties of the block processor, for any interleaving of its calls: a block is announced as a
  new block before it becomes the head; a call that stands alone makes its block the head; and a gap
  larger than the depth of the cache is never closed.
\<close>

section \<open>Steps\<close>

lemma add_step:
  assumes ret: "components_return comps B" and ok: "cache_ok B bs (processor_cache p)" and b: "names B cur" "0 \<le> number cur"
  obtains p1 where
    "block_call_step (machine_newBlock comps) newHead db_ok answer (AddToCache target processing obs cur) p =
       Some (if \<not> db_ok then (Ended, p1)
             else if add_result (processor_cache p) cur \<notin> {AddedDetached, NotAddedAlreadyExistedDetached}
             then batch_done target processing obs p1 else (next_parent target processing obs cur p1, p1))"
    "p1 = p\<lparr>chain_machine := chain_machine p1\<rparr>" "cache_ok B (bs @ [cur]) (processor_cache p1)"
    "headHash (processor_cache p1) = headHash (processor_cache p)" "maxDepth (processor_cache p1) = maxDepth (processor_cache p)"
    "case add_result (processor_cache p) cur of
       Added \<Rightarrow> \<exists>es. emitted (processor_cache p1) = emitted (processor_cache p) @ cur # es
     | AddedDetached \<Rightarrow> att (processor_cache p1) = (att (processor_cache p))(block_hash cur \<mapsto> False) \<and>
         emitted (processor_cache p1) = emitted (processor_cache p) \<and> lo (processor_cache p1) = lo (processor_cache p)
     | _ \<Rightarrow> att (processor_cache p1) = att (processor_cache p) \<and> emitted (processor_cache p1) = emitted (processor_cache p) \<and>
         lo (processor_cache p1) = lo (processor_cache p)"
proof -
  from add_batch [OF ret ok b, of db_ok] obtain m' where
    m': "with_batch db_ok (on_cache_prog (addBlock (processNewBlock comps) cur)) (chain_machine p) =
        Some (if db_ok then Inr (add_result (processor_cache p) cur) else Inl (JsError ''batch write''), m')"
      "cache_ok B (bs @ [cur]) (cache m')" "headHash (cache m') = headHash (processor_cache p)"
      "maxDepth (cache m') = maxDepth (processor_cache p)"
      "case add_result (processor_cache p) cur of
         Added \<Rightarrow> \<exists>es. emitted (cache m') = emitted (processor_cache p) @ cur # es
       | AddedDetached \<Rightarrow> att (cache m') = (att (processor_cache p))(block_hash cur \<mapsto> False) \<and>
           emitted (cache m') = emitted (processor_cache p) \<and> lo (cache m') = lo (processor_cache p)
       | _ \<Rightarrow> att (cache m') = att (processor_cache p) \<and> emitted (cache m') = emitted (processor_cache p) \<and>
           lo (cache m') = lo (processor_cache p)" by blast
  show thesis
    by (rule that [of "p\<lparr>chain_machine := m'\<rparr>"]) (use m' in \<open>auto simp: Let_def split: BlockAddResult.splits\<close>)
qed

lemma added_emits:
  assumes "case r of
       Added \<Rightarrow> \<exists>es. e' = e @ cur # es
     | AddedDetached \<Rightarrow> P \<and> e' = e \<and> Q
     | _ \<Rightarrow> P' \<and> e' = e \<and> Q"
  shows "\<exists>es. e' = e @ es"
  using assms by (cases r) auto

lemma set_head:
  assumes "cache_ok B bs c" "names B b" "setHead (block_hash b) c = (Inr u, c')"
  shows "c' = c\<lparr>headHash := Some (block_hash b)\<rparr>" "b \<in> set (emitted c)"
proof -
  have "att c (block_hash b) = Some True" "c' = c\<lparr>headHash := Some (block_hash b)\<rparr>"
    using assms(3) by (auto simp: setHead_def cache_okD(4) [OF assms(1)] split: if_splits)
  then show "c' = c\<lparr>headHash := Some (block_hash b)\<rparr>" "b \<in> set (emitted c)"
    using cache_ok_emitted(1) [OF assms(1)] assms(2) by (auto simp: names_def)
qed

lemma batch_done_head:
  assumes "cache_ok B bs (processor_cache p)" "names B obs" "batch_done target processing obs p = (call', p')"
  obtains (no_head) "p' = p" "call' \<in> {NextBatch target, Ended}"
  | (new_head) "p' = p\<lparr>chain_machine := (chain_machine p)\<lparr>cache := (processor_cache p)\<lparr>headHash := Some (block_hash obs)\<rparr>\<rparr>\<rparr>"
      "call' \<in> {EmitHead obs, SaveHead obs}" "obs \<in> set (emitted (processor_cache p))" "processing = target"
proof (cases "processing = target \<and> lastBlockHashReceived p = Some (block_hash obs)")
  case False
  with assms(3) no_head show thesis by (auto simp: batch_done_def split: if_splits)
next
  case True
  show thesis
  proof (cases "fst (setHead (block_hash obs) (processor_cache p))")
    case (Inl e)
    with True assms(3) no_head show thesis by (auto simp: batch_done_def split: prod.splits)
  next
    case (Inr u)
    then obtain c' where c': "setHead (block_hash obs) (processor_cache p) = (Inr u, c')" by (metis prod.collapse)
    from set_head [OF assms(1,2) c'] True assms(3) c' new_head show thesis
      by (auto simp: batch_done_def split: if_splits)
  qed
qed

section \<open>Heads are announced after their blocks\<close>

fun call_ok :: "'b naming \<Rightarrow> ('b IBlockStub_scheme, 's) BlockCache \<Rightarrow> 'b IBlockStub_scheme block_call \<Rightarrow> bool" where
  "call_ok B c (AddToCache target processing obs cur) \<longleftrightarrow> names B obs \<and> names B cur \<and> 0 \<le> number cur"
| "call_ok B c (AwaitParent target processing obs h) \<longleftrightarrow> names B obs"
| "call_ok B c (EmitHead b) \<longleftrightarrow> b \<in> set (emitted c)"
| "call_ok B c (SaveHead b) \<longleftrightarrow> b \<in> set (emitted c)"
| "call_ok B c call \<longleftrightarrow> True"

definition heads_ok :: "int option \<Rightarrow> ('b IBlockStub_scheme, 's, 'a) BlockProcessor \<Rightarrow> bool" where
  "heads_ok saved p \<longleftrightarrow>
     (let blocks = emitted (processor_cache p) in
      (\<forall>(b, k)\<in>set (heads p). k \<le> length blocks \<and> b \<in> set (take k blocks)) \<and>
      headHash (processor_cache p) \<in> insert None ((Some \<circ> block_hash) ` set blocks) \<and>
      latestHeadNumber p \<in> insert saved ((Some \<circ> number) ` set blocks))"

definition processor_inv ::
  "'b naming \<Rightarrow> int option \<Rightarrow> ('b IBlockStub_scheme, 's, 'a) BlockProcessor \<times> 'b IBlockStub_scheme block_call list \<Rightarrow> bool" where
  "processor_inv B saved s \<longleftrightarrow>
     (\<exists>bs. cache_ok B bs (processor_cache (fst s)) \<and> (\<forall>b\<in>set bs. 0 \<le> number b)) \<and>
     heads_ok saved (fst s) \<and> (\<forall>call\<in>set (snd s). call_ok B (processor_cache (fst s)) call)"

lemma call_ok_emits: "call_ok B c call \<Longrightarrow> emitted c' = emitted c @ es \<Longrightarrow> call_ok B c' call"
  by (cases call) auto

lemma heads_ok_emits:
  assumes "heads_ok saved p" "emitted (processor_cache p') = emitted (processor_cache p) @ es"
    "headHash (processor_cache p') = headHash (processor_cache p)" "heads p' = heads p" "latestHeadNumber p' = latestHeadNumber p"
  shows "heads_ok saved p'"
  using assms by (auto simp: heads_ok_def Let_def)

text \<open>The step that adds a block.\<close>

lemma add_call_inv:
  assumes ret: "components_return comps B" and ok: "cache_ok B bs (processor_cache p)" and bs: "\<forall>b\<in>set bs. 0 \<le> number b"
    and hd: "heads_ok saved p" and b: "names B obs" "names B cur" "0 \<le> number cur"
    and step: "block_call_step (machine_newBlock comps) newHead db_ok answer (AddToCache target processing obs cur) p = Some (call', p')"
  shows "(\<exists>bs'. cache_ok B bs' (processor_cache p') \<and> (\<forall>b\<in>set bs'. 0 \<le> number b)) \<and> heads_ok saved p' \<and>
    (\<exists>es. emitted (processor_cache p') = emitted (processor_cache p) @ es) \<and> call_ok B (processor_cache p') call'"
proof -
  obtain p1 where
    p1: "block_call_step (machine_newBlock comps) newHead db_ok answer (AddToCache target processing obs cur) p =
        Some (if \<not> db_ok then (Ended, p1)
              else if add_result (processor_cache p) cur \<notin> {AddedDetached, NotAddedAlreadyExistedDetached}
              then batch_done target processing obs p1 else (next_parent target processing obs cur p1, p1))"
      "p1 = p\<lparr>chain_machine := chain_machine p1\<rparr>" "cache_ok B (bs @ [cur]) (processor_cache p1)"
      "headHash (processor_cache p1) = headHash (processor_cache p)"
      "\<exists>es. emitted (processor_cache p1) = emitted (processor_cache p) @ es"
    by (rule add_step [OF ret ok b(2,3)]) (blast dest: added_emits)
  have p1': "heads p1 = heads p" "latestHeadNumber p1 = latestHeadNumber p" by (subst p1(2), simp)+
  from p1(5) obtain es where es: "emitted (processor_cache p1) = emitted (processor_cache p) @ es" by blast
  have hd1: "heads_ok saved p1" by (rule heads_ok_emits [OF hd es p1(4) p1'])
  have bs1: "\<forall>b\<in>set (bs @ [cur]). 0 \<le> number b" using bs b(3) by auto
  with p1(3) have some: "\<exists>bs'. cache_ok B bs' (processor_cache p1) \<and> (\<forall>b\<in>set bs'. 0 \<le> number b)" by blast
  have next_ok: "call_ok B (processor_cache p1) (next_parent target processing obs cur p1)"
  proof (cases "hasBlock (processor_cache p1) (parentHash cur) True")
    case True
    then have "att (processor_cache p1) (parentHash cur) \<noteq> None" by (auto simp: cache_okD(4) [OF p1(3)])
    note P = cache_okD(5,6,7) [OF p1(3) this]
    with True b(1) bs1 show ?thesis by (auto simp: next_parent_def names_def real_def)
  qed (simp add: next_parent_def b(1))
  show ?thesis
  proof (cases "db_ok \<and> add_result (processor_cache p) cur \<notin> {AddedDetached, NotAddedAlreadyExistedDetached}")
    case False
    then have "p' = p1" "call' \<in> {Ended, next_parent target processing obs cur p1}"
      using step [unfolded p1(1)] by (auto split: if_splits)
    with some hd1 es next_ok show ?thesis by auto
  next
    case True
    then have "batch_done target processing obs p1 = (call', p')" using step [unfolded p1(1)] by simp
    from batch_done_head [OF p1(3) b(1) this] show ?thesis
    proof cases
      case 1
      with some hd1 es show ?thesis by auto
    next
      case 2
      with hd1 have "heads_ok saved p'" by (auto simp: heads_ok_def Let_def)
      with 2 some es show ?thesis by auto
    qed
  qed
qed

text \<open>One step of one call, with any input.\<close>

lemma call_step_inv:
  assumes ret: "components_return comps B" and ok: "cache_ok B bs (processor_cache p)" and bs: "\<forall>b\<in>set bs. 0 \<le> number b"
    and hd: "heads_ok saved p" and call: "call_ok B (processor_cache p) call" and ans: "answer_ok B call answer"
    and step: "block_call_step (machine_newBlock comps) (machine_newHead env comps) db_ok answer call p = Some (call', p')"
  shows "(\<exists>bs'. cache_ok B bs' (processor_cache p') \<and> (\<forall>b\<in>set bs'. 0 \<le> number b)) \<and> heads_ok saved p' \<and>
    (\<exists>es. emitted (processor_cache p') = emitted (processor_cache p) @ es) \<and> call_ok B (processor_cache p') call'"
proof (cases call)
  case (NextBatch target)
  with step ok bs hd show ?thesis by (auto split: sum.splits)
next
  case (AwaitNumber target processing)
  with step ok bs hd ans show ?thesis
    by (cases answer) (auto simp: heads_ok_def)
next
  case (AwaitParent target processing obs h)
  with step ok bs hd ans call show ?thesis by (cases answer) auto
next
  case Ended
  with step ok bs hd show ?thesis by auto
next
  case (SaveHead b)
  moreover from this hd call have "heads_ok saved (p\<lparr>latestHeadNumber := Some (number b)\<rparr>)"
    by (simp add: heads_ok_def Let_def)
  ultimately show ?thesis using step ok bs hd by (cases db_ok) (auto simp: setLatestHeadNumber_def)
next
  case (EmitHead b)
  with call have b: "b \<in> set (emitted (processor_cache p))" by simp
  from head_batch [OF ok cache_ok_emitted(3) [OF ok b], of db_ok env comps] obtain r m' where
    m': "with_batch db_ok (lift_eff (processNewHead env comps b)) (chain_machine p) = Some (r, m')"
      "cache_ok B bs (cache m')" "headHash (cache m') = headHash (processor_cache p)"
      "emitted (cache m') = emitted (processor_cache p)" by blast
  with EmitHead step have "p' = p\<lparr>chain_machine := m', heads := heads p @ [(b, length (emitted (processor_cache p)))]\<rparr>"
    "call' = (case r of Inl e \<Rightarrow> Ended | Inr u \<Rightarrow> SaveHead b)" by auto
  with m' b hd bs show ?thesis by (auto simp: heads_ok_def Let_def split: sum.splits)
next
  case (AddToCache target processing obs cur)
  with call have "names B obs" "names B cur" "0 \<le> number cur" by auto
  from add_call_inv [OF ret ok bs hd this step [unfolded AddToCache]] show ?thesis .
qed

lemma processor_step_inv:
  assumes "components_return comps B" "processor_step comps (\<lambda>call env db_ok answer. answer_ok B call answer) event_ok s s'"
    "processor_inv B saved s"
  shows "processor_inv B saved s'"
  using assms(2,3)
proof (induction rule: processor_step.induct)
  case (new_call n p calls)
  then show ?case by (simp add: processor_inv_def)
next
  case (start_or_stop p calls b)
  then show ?case by (simp add: processor_inv_def heads_ok_def)
next
  case (advance i calls env db_ok answer p call' p')
  then obtain bs where bs: "cache_ok B bs (processor_cache p)" "\<forall>b\<in>set bs. 0 \<le> number b" "heads_ok saved p"
    "\<forall>call\<in>set calls. call_ok B (processor_cache p) call" by (auto simp: processor_inv_def)
  with advance.hyps have "call_ok B (processor_cache p) (calls ! i)" by simp
  from call_step_inv [OF assms(1) bs(1,2,3) this advance.hyps(2,3)] obtain es where
    "\<exists>bs'. cache_ok B bs' (processor_cache p') \<and> (\<forall>b\<in>set bs'. 0 \<le> number b)" "heads_ok saved p'"
    "emitted (processor_cache p') = emitted (processor_cache p) @ es" "call_ok B (processor_cache p') call'" by blast
  moreover have "\<forall>call\<in>set (calls[i := call']). call_ok B (processor_cache p') call"
    using bs(4) calculation(3,4) call_ok_emits set_update_subset_insert by (metis insertE subsetD)
  ultimately show ?case by (simp add: processor_inv_def)
qed

text \<open>The processor before its start, on an empty database but for the number of the last head.\<close>

definition initial_processor :: "int \<Rightarrow> int option \<Rightarrow> ('b, 's, 'a) BlockProcessor" where
  "initial_processor depth saved =
     \<lparr>chain_machine = initial_machine (new_BlockCache depth (new_BlockItemStore [])), lastBlockHashReceived = None,
      processor_started = False, latestHeadNumber = saved, heads = []\<rparr>"

lemma initial_cache_ok: "0 \<le> depth \<Longrightarrow> cache_ok B [] (processor_cache (initial_processor depth saved))"
proof -
  assume "0 \<le> depth"
  with run_inv_empty [of depth B] have "run_inv B [] (opened (new_BlockCache depth (new_BlockItemStore [])))"
    by (simp add: opened_def empty_cache_def new_BlockCache_def)
  then show ?thesis
    by (simp add: cache_ok_def initial_processor_def initial_machine_def) (simp add: new_BlockCache_def new_BlockItemStore_def)
qed

lemma initial_processor_inv: "0 \<le> depth \<Longrightarrow> processor_inv B saved (initial_processor depth saved, [])"
  using initial_cache_ok [of depth B saved]
  by (auto simp: processor_inv_def heads_ok_def initial_processor_def initial_machine_def new_BlockCache_def intro: exI [of _ "[]"])

text \<open>C33: However the calls of the block processor interleave, whatever the provider answers or does not
  answer and whichever database writes fail: every block announced as a new head was announced as a new
  block before, the head of the cache and the saved head number are those of blocks that were announced,
  and no block is announced twice.\<close>

theorem new_head_after_new_block:
  assumes "components_return comps B" "0 \<le> depth"
    "(processor_step comps (\<lambda>call env db_ok answer. answer_ok B call answer) event_ok)\<^sup>*\<^sup>*
       (initial_processor depth saved, []) (p, calls)"
  shows "distinct (emitted (processor_cache p)) \<and>
    (\<forall>(b, k)\<in>set (heads p). b \<in> set (take k (emitted (processor_cache p)))) \<and>
    (case headHash (processor_cache p) of None \<Rightarrow> True | Some h \<Rightarrow> h \<in> block_hash ` set (emitted (processor_cache p))) \<and>
    (case latestHeadNumber p of None \<Rightarrow> saved = None
     | Some n \<Rightarrow> saved = Some n \<or> n \<in> number ` set (emitted (processor_cache p)))"
proof -
  from assms(3) have "processor_inv B saved (p, calls)"
    by (induction rule: rtranclp_induct)
      (auto intro: initial_processor_inv [OF assms(2)] processor_step_inv [OF assms(1)])
  then obtain bs where bs: "cache_ok B bs (processor_cache p)" "heads_ok saved p" by (auto simp: processor_inv_def)
  from bs(2) cache_ok_emitted(2) [OF bs(1)] show ?thesis
    by (auto simp: heads_ok_def Let_def split: option.split)
qed

section \<open>A gap that is never closed\<close>

text \<open>\<open>m\<close> is the height of the head plus the depth of the cache, and the calls are for later blocks.\<close>

fun call_behind :: "'b naming \<Rightarrow> int \<Rightarrow> 'b IBlockStub_scheme block_call \<Rightarrow> bool" where
  "call_behind B m (NextBatch target) \<longleftrightarrow> m < target"
| "call_behind B m (AwaitNumber target processing) \<longleftrightarrow> m < target \<and> processing = m"
| "call_behind B m (AddToCache target processing obs cur) \<longleftrightarrow>
     m < target \<and> processing = m \<and> names B obs \<and> names B cur \<and> 0 \<le> number cur \<and> number cur \<le> m"
| "call_behind B m (AwaitParent target processing obs h) \<longleftrightarrow>
     m < target \<and> processing = m \<and> names B obs \<and> (\<forall>b. names B b \<longrightarrow> block_hash b = h \<longrightarrow> number b \<le> m)"
| "call_behind B m call \<longleftrightarrow> False"

text \<open>The head stays in the cache.\<close>

definition cache_behind :: "'b naming \<Rightarrow> int \<Rightarrow> ('b IBlockStub_scheme, 's) BlockCache \<Rightarrow> bool" where
  "cache_behind B m c \<longleftrightarrow>
     (\<exists>bs. cache_ok B bs c \<and> (\<forall>b\<in>set bs. 0 \<le> number b \<and> number b \<le> m)) \<and>
     (\<exists>h. headHash c = Some h \<and> att c h \<noteq> None \<and> m = number (B h) + maxDepth c)"

definition answered :: "'b naming \<Rightarrow> 'b IBlockStub_scheme block_call \<Rightarrow> head_env \<Rightarrow> bool \<Rightarrow> 'b IBlockStub_scheme result \<Rightarrow> bool" where
  "answered B call env db_ok answer \<longleftrightarrow> db_ok \<and> answer_ok B call answer \<and> (\<exists>b. answer = Inr b)"

lemma parent_lower:
  assumes "links B" "names B cur" "names B b" "block_hash b = parentHash cur"
  shows "number b < number cur"
proof -
  have "real B (block_hash cur)" "B (block_hash cur) = cur" "real B (parentHash cur)" "B (parentHash cur) = b"
    using assms(2-4) by (auto simp: names_def real_def)
  with assms(1) have "number b + 1 = number cur" unfolding links_def by metis
  then show ?thesis by simp
qed

lemma add_behind:
  assumes ret: "components_return comps B" and links: "links B" and cb: "cache_behind B m (processor_cache p)"
    and call: "call_behind B m (AddToCache target processing obs cur)"
  obtains call' p1 where
    "block_call_step (machine_newBlock comps) newHead True answer (AddToCache target processing obs cur) p = Some (call', p1)"
    "p1 = p\<lparr>chain_machine := chain_machine p1\<rparr>" "cache_behind B m (processor_cache p1)" "call_behind B m call'"
    "headHash (processor_cache p1) = headHash (processor_cache p)"
proof -
  from cb obtain bs h where bs: "cache_ok B bs (processor_cache p)" "\<forall>b\<in>set bs. 0 \<le> number b \<and> number b \<le> m"
    and h: "headHash (processor_cache p) = Some h" "att (processor_cache p) h \<noteq> None" "m = number (B h) + maxDepth (processor_cache p)"
    by (auto simp: cache_behind_def)
  from call have b: "m < target" "processing = m" "names B obs" "names B cur" "0 \<le> number cur" "number cur \<le> m" by auto
  obtain p1 where
    p1: "block_call_step (machine_newBlock comps) newHead True answer (AddToCache target processing obs cur) p =
        Some (if add_result (processor_cache p) cur \<notin> {AddedDetached, NotAddedAlreadyExistedDetached}
              then batch_done target processing obs p1 else (next_parent target processing obs cur p1, p1))"
      "p1 = p\<lparr>chain_machine := chain_machine p1\<rparr>" "cache_ok B (bs @ [cur]) (processor_cache p1)"
      "headHash (processor_cache p1) = headHash (processor_cache p)" "maxDepth (processor_cache p1) = maxDepth (processor_cache p)"
    by (rule add_step [OF ret bs(1) b(4,5), of newHead True answer target processing obs]) simp
  note C = cache_okD [OF bs(1)] and C1 = cache_okD [OF p1(3)]
  have mem: "B h \<in> set bs" by (rule C(6) [OF h(2)])
  have low: "lo (processor_cache p1) \<le> number (B h)"
  proof -
    have "mMaxHeight (processor_cache p1) \<le> m" using C1(10) bs(2) b(5,6) by auto
    moreover have "bs \<noteq> []" using mem by auto
    moreover from C(9) [OF this] C(11) [OF h(2)] have "number (hd bs) \<le> number (B h)" by simp
    ultimately show ?thesis using C1(9) h(3) p1(5) by auto
  qed
  have "block_hash (B h) = h" using C(7) [OF h(2)] by (simp add: real_def)
  with C1(8) [OF _ low] mem have "att (processor_cache p1) h \<noteq> None" by simp
  moreover have bs1: "\<forall>b\<in>set (bs @ [cur]). 0 \<le> number b \<and> number b \<le> m" using bs(2) b(5,6) by auto
  then have "\<exists>bs. cache_ok B bs (processor_cache p1) \<and> (\<forall>b\<in>set bs. 0 \<le> number b \<and> number b \<le> m)"
    using p1(3) by blast
  ultimately have behind: "cache_behind B m (processor_cache p1)"
    unfolding cache_behind_def using p1(4,5) h(1,3) by auto
  have parent: "number b' \<le> m" if "names B b'" "block_hash b' = parentHash cur" for b'
    using parent_lower [OF links b(4) that] b(6) by simp
  have "call_behind B m (next_parent target processing obs cur p1)"
  proof (cases "hasBlock (processor_cache p1) (parentHash cur) True")
    case True
    then have "att (processor_cache p1) (parentHash cur) \<noteq> None" by (auto simp: C1(4))
    note P = C1(5,6,7) [OF this]
    with True b bs1 show ?thesis by (auto simp: next_parent_def names_def real_def)
  qed (use b parent in \<open>auto simp: next_parent_def\<close>)
  moreover have "batch_done target processing obs p1 = (NextBatch target, p1)"
    using b(1,2) by (simp add: batch_done_def)
  ultimately show thesis
    using that [of _ p1] p1(1,2,4) behind b(1) by (auto split: if_splits)
qed

lemma behind_step:
  assumes ret: "components_return comps B" and links: "links B" and cb: "cache_behind B m (processor_cache p)"
    and call: "call_behind B m call" and ans: "answered B call env db_ok answer"
    and step: "block_call_step (machine_newBlock comps) (machine_newHead env comps) db_ok answer call p = Some (call', p')"
  shows "cache_behind B m (processor_cache p') \<and> call_behind B m call' \<and>
    headHash (processor_cache p') = headHash (processor_cache p) \<and> heads p' = heads p \<and> latestHeadNumber p' = latestHeadNumber p"
proof (cases call)
  case (AddToCache target processing obs cur)
  have ok: db_ok using ans by (simp add: answered_def)
  obtain call1 p1 where
    p1: "block_call_step (machine_newBlock comps) (machine_newHead env comps) True answer call p = Some (call1, p1)"
      "p1 = p\<lparr>chain_machine := chain_machine p1\<rparr>" "cache_behind B m (processor_cache p1)" "call_behind B m call1"
      "headHash (processor_cache p1) = headHash (processor_cache p)"
    using call unfolding AddToCache by (rule add_behind [OF ret links cb])
  have "heads p1 = heads p" "latestHeadNumber p1 = latestHeadNumber p" by (subst p1(2), simp)+
  with p1 step ok show ?thesis by simp
next
  case (NextBatch target)
  from cb obtain bs h where h: "cache_ok B bs (processor_cache p)" "headHash (processor_cache p) = Some h"
    "att (processor_cache p) h \<noteq> None" "m = number (B h) + maxDepth (processor_cache p)" by (auto simp: cache_behind_def)
  have "\<not> mIsEmpty (processor_cache p)" using cache_okD(3,6) [OF h(1)] h(3) by fastforce
  then have "next_number (processor_cache p) target = Inr (min target m)"
    using cache_okD(5) [OF h(1,3)] h(2,4) by (simp add: next_number_def head_def)
  with NextBatch step cb call show ?thesis by auto
next
  case (AwaitNumber target processing)
  with step cb call ans show ?thesis by (auto simp: answered_def split: if_splits)
next
  case (AwaitParent target processing obs h)
  with step cb call ans show ?thesis by (auto simp: answered_def)
qed (use call in auto)

definition behind_inv ::
  "'b naming \<Rightarrow> int \<Rightarrow> ('b IBlockStub_scheme, 's, 'a) BlockProcessor \<Rightarrow>
   ('b IBlockStub_scheme, 's, 'a) BlockProcessor \<times> 'b IBlockStub_scheme block_call list \<Rightarrow> bool" where
  "behind_inv B m p s \<longleftrightarrow>
     cache_behind B m (processor_cache (fst s)) \<and> snd s \<noteq> [] \<and> (\<forall>call\<in>set (snd s). call_behind B m call) \<and>
     headHash (processor_cache (fst s)) = headHash (processor_cache p) \<and> heads (fst s) = heads p \<and>
     latestHeadNumber (fst s) = latestHeadNumber p"

lemma behind_inv_step:
  assumes "components_return comps B" "links B" "processor_step comps (answered B) (\<lambda>k. m < k) s s'" "behind_inv B m p s"
  shows "behind_inv B m p s'"
  using assms(3,4)
proof (induction rule: processor_step.induct)
  case (advance i calls env db_ok answer p1 call' p2)
  then have "call_behind B m (calls ! i)" by (simp add: behind_inv_def)
  from behind_step [OF assms(1,2) _ this advance.hyps(2,3)] advance.prems
  have step: "cache_behind B m (processor_cache p2) \<and> call_behind B m call' \<and>
    headHash (processor_cache p2) = headHash (processor_cache p) \<and> heads p2 = heads p \<and> latestHeadNumber p2 = latestHeadNumber p"
    by (simp add: behind_inv_def)
  have "set (calls[i := call']) \<subseteq> insert call' (set calls)" by (rule set_update_subset_insert)
  with step advance.prems have "\<forall>call\<in>set (calls[i := call']). call_behind B m call" by (auto simp: behind_inv_def)
  with step advance.hyps(1) show ?case by (auto simp: behind_inv_def)
qed (auto simp: behind_inv_def)

text \<open>C35: The batches of \<open>processBlockNumber\<close> are computed from the head, and the head is set only after the
  last one.  So when a block is announced that is more than \<open>maxDepth\<close> above the head, its call never
  ends, nor does that of any later block, although the provider answers every request and every write
  succeeds: the head, its saved number and the announced heads stay what they were for ever, while
  every call keeps asking.\<close>

theorem long_downtime_never_ends:
  assumes "components_return comps B" "links B" "cache_ok B bs (processor_cache p)"
    "head (processor_cache p) = Inr h" "m = number h + maxDepth (processor_cache p)" "m < n"
    "\<forall>b\<in>set bs. 0 \<le> number b \<and> number b \<le> m"
    "(processor_step comps (answered B) (\<lambda>k. m < k))\<^sup>*\<^sup>* (p, [NextBatch n]) (p', calls)"
  shows "headHash (processor_cache p') = headHash (processor_cache p) \<and> heads p' = heads p \<and>
    latestHeadNumber p' = latestHeadNumber p \<and> calls \<noteq> [] \<and>
    (\<forall>call\<in>set calls. call \<noteq> Ended \<and>
       (\<forall>env answer. block_call_step (machine_newBlock comps) (machine_newHead env comps) True answer call p' \<noteq> None))"
proof -
  obtain x where x: "headHash (processor_cache p) = Some x" "getBlock (processor_cache p) x = Inr h"
    using assms(4) by (auto simp: head_def split: option.splits)
  from x(2) cache_okD(12) [OF assms(3)] have "att (processor_cache p) x \<noteq> None" "h = B x" by blast+
  with x(1) have start: "behind_inv B m p (p, [NextBatch n])" using assms(3,5-7) by (auto simp: behind_inv_def cache_behind_def)
  from assms(8) start have inv: "behind_inv B m p (p', calls)"
    by (induction rule: rtranclp_induct) (auto intro: behind_inv_step [OF assms(1,2)])
  have "call \<noteq> Ended \<and> block_call_step (machine_newBlock comps) (machine_newHead env comps) True answer call p' \<noteq> None"
    if "call \<in> set calls" for call env answer
  proof (cases call)
    case (AddToCache target processing obs cur)
    with inv that have "cache_behind B m (processor_cache p')" "call_behind B m (AddToCache target processing obs cur)"
      by (auto simp: behind_inv_def)
    from add_behind [OF assms(1,2) this, of "machine_newHead env comps" answer] obtain call' p1 where
      "block_call_step (machine_newBlock comps) (machine_newHead env comps) True answer (AddToCache target processing obs cur) p' =
        Some (call', p1)" by blast
    with AddToCache show ?thesis by auto
  qed (use inv that in \<open>auto simp: behind_inv_def\<close>)
  with inv show ?thesis by (auto simp: behind_inv_def)
qed


section \<open>A call alone\<close>

text \<open>The blocks of one chain from height \<open>l\<close> to \<open>n\<close>.\<close>

definition chain_segment :: "'b naming \<Rightarrow> (int \<Rightarrow> 'b IBlockStub_scheme) \<Rightarrow> int \<Rightarrow> int \<Rightarrow> bool" where
  "chain_segment B chain l n \<longleftrightarrow>
     (\<forall>i. l \<le> i \<and> i \<le> n \<longrightarrow> names B (chain i) \<and> number (chain i) = i \<and> 0 \<le> i) \<and>
     (\<forall>i. l < i \<and> i \<le> n \<longrightarrow> parentHash (chain i) = block_hash (chain (i - 1)))"

lemma chain_segmentD:
  assumes "chain_segment B chain l n" "l \<le> i" "i \<le> n"
  shows "names B (chain i)" "number (chain i) = i" "0 \<le> i" "B (block_hash (chain i)) = chain i"
    "l < i \<Longrightarrow> parentHash (chain i) = block_hash (chain (i - 1))"
  using assms by (auto simp: chain_segment_def names_def)

text \<open>What follows an attached block is attached.\<close>

lemma segment_attached:
  assumes ok: "cache_ok B bs c" and links: "links B" and seg: "chain_segment B chain l n" and i: "l \<le> i" "i \<le> n"
    and mem: "\<And>j. i \<le> j \<Longrightarrow> j \<le> n \<Longrightarrow> chain j \<in> set bs" and low: "lo c \<le> n"
    and start: "lo c \<le> i \<Longrightarrow> att c (block_hash (chain i)) = Some True"
  shows "att c (block_hash (chain n)) = Some True"
proof -
  note C = cache_okD [OF ok] and S = chain_segmentD [OF seg]
  let ?k = "max i (lo c)"
  have there: "att c (block_hash (chain j)) \<noteq> None" if "?k \<le> j" "j \<le> n" for j
    using C(8) [OF mem] S(2) [of j] that i by auto
  have loose: "att c (block_hash (chain j)) = Some True"
    if "?k \<le> j" "j \<le> n" "j = lo c \<or> l < j \<and> att c (block_hash (chain (j - 1))) = Some True" for j
  proof (rule ccontr)
    assume "att c (block_hash (chain j)) \<noteq> Some True"
    with there [OF that(1,2)] have "att c (block_hash (chain j)) = Some False" by auto
    from C(14) [OF links this] that S(2,4,5) [of j] i show False by auto
  qed
  have "j \<le> n \<longrightarrow> att c (block_hash (chain j)) = Some True" if "?k \<le> j" for j
    using that
  proof (induction j rule: int_ge_induct)
    case base
    show ?case using start loose [of ?k] i by (auto simp: max_def)
  next
    case (step j)
    then show ?case using loose [of "j + 1"] i by auto
  qed
  from this [of n] show ?thesis using i low by simp
qed

lemma run_call_trans:
  "run_call comps env chain B k call p = Some (call1, p1) \<Longrightarrow> run_call comps env chain B k' call1 p1 = r \<Longrightarrow>
   run_call comps env chain B (k + k') call p = r"
proof (induction k arbitrary: call p)
  case (Suc k)
  then show ?case by (cases "block_call_step (machine_newBlock comps) (machine_newHead env comps) True (answer_of chain B call) call p") auto
qed simp

lemma run_call_step:
  "block_call_step (machine_newBlock comps) (machine_newHead env comps) True (answer_of chain B call) call p = Some (call1, p1) \<Longrightarrow>
   run_call comps env chain B k call1 p1 = r \<Longrightarrow> run_call comps env chain B (Suc k) call p = r"
  by simp

text \<open>The inner loop: a step either attaches a block of the chain and sets the head, or goes on to its
  parent.\<close>

definition walking ::
  "'b naming \<Rightarrow> (int \<Rightarrow> 'b IBlockStub_scheme) \<Rightarrow> int \<Rightarrow> int \<Rightarrow> int \<Rightarrow> 'b IBlockStub_scheme list \<Rightarrow>
   ('b IBlockStub_scheme, 's, 'a) BlockProcessor \<Rightarrow> bool" where
  "walking B chain l n i bs p \<longleftrightarrow>
     cache_ok B bs (processor_cache p) \<and> l \<le> i \<and> i \<le> n \<and>
     (mIsEmpty (processor_cache p) \<or> l \<le> lo (processor_cache p) \<and> lo (processor_cache p) \<le> i) \<and>
     (\<forall>j. i < j \<longrightarrow> j \<le> n \<longrightarrow> chain j \<in> set bs) \<and>
     (\<forall>b\<in>set bs. 0 \<le> number b \<and> number b \<le> n + maxDepth (processor_cache p)) \<and>
     (bs \<noteq> [] \<longrightarrow> number (hd bs) \<le> n) \<and> lastBlockHashReceived p = Some (block_hash (chain n))"

definition head_call :: "'b \<Rightarrow> ('b, 's, 'a) BlockProcessor \<Rightarrow> 'b block_call" where
  "head_call b p = (if processor_started p then EmitHead b else SaveHead b)"

definition head_set ::
  "'b naming \<Rightarrow> 'b IBlockStub_scheme list \<Rightarrow> 'b IBlockStub_scheme \<Rightarrow> ('b IBlockStub_scheme, 's, 'a) BlockProcessor \<Rightarrow>
   ('b IBlockStub_scheme, 's, 'a) BlockProcessor \<Rightarrow> bool" where
  "head_set B bs b p p' \<longleftrightarrow>
     cache_ok B bs (processor_cache p') \<and> att (processor_cache p') (block_hash b) = Some True \<and>
     headHash (processor_cache p') = Some (block_hash b) \<and> heads p' = heads p \<and>
     maxDepth (processor_cache p') = maxDepth (processor_cache p)"

text \<open>The minimum height stays at or below \<open>n\<close>.\<close>

lemma walking_bounds:
  assumes seg: "chain_segment B chain l n" and w: "walking B chain l n i bs p"
    and ok: "cache_ok B (bs @ [chain i]) c" "maxDepth c = maxDepth (processor_cache p)"
  shows "\<forall>b\<in>set (bs @ [chain i]). 0 \<le> number b \<and> number b \<le> n + maxDepth c" "number (hd (bs @ [chain i])) \<le> n" "lo c \<le> n"
proof -
  note S = chain_segmentD [OF seg] and C = cache_okD [OF ok(1)]
  have l: "l \<le> i" "i \<le> n" and bs: "\<forall>b\<in>set bs. 0 \<le> number b \<and> number b \<le> n + maxDepth c" "bs \<noteq> [] \<longrightarrow> number (hd bs) \<le> n"
    using w ok(2) by (auto simp: walking_def)
  show b1: "\<forall>b\<in>set (bs @ [chain i]). 0 \<le> number b \<and> number b \<le> n + maxDepth c"
    using bs(1) S(2,3) [OF l] l C(13) by auto
  show b2: "number (hd (bs @ [chain i])) \<le> n" using bs(2) S(2) [OF l] l by (cases bs) auto
  have "mMaxHeight c \<le> n + maxDepth c" using C(10) b1 S(3) [of n] l C(13) by auto
  with C(9) b2 show "lo c \<le> n" by simp
qed

text \<open>A block that was added or was there is attached, unless it was pruned at once.\<close>

lemma attached_by_add:
  assumes ok: "cache_ok B bs c'" and b: "b \<in> set bs" "names B b" "0 \<le> number b" "lo c' \<le> number b"
    and r: "case add_result c b of
         Added \<Rightarrow> \<exists>es. emitted c' = emitted c @ b # es
       | AddedDetached \<Rightarrow> att c' = (att c)(block_hash b \<mapsto> False) \<and> emitted c' = emitted c \<and> lo c' = lo c
       | _ \<Rightarrow> att c' = att c \<and> emitted c' = emitted c \<and> lo c' = lo c"
      "add_result c b \<in> {Added, NotAddedAlreadyExisted}"
  shows "att c' (block_hash b) = Some True"
proof (cases "add_result c b = Added")
  case True
  with r(1) have "b \<in> set (emitted c')" by auto
  with b show ?thesis by (simp add: cache_ok_emitted(1) [OF ok]) (auto simp: names_def real_def)
next
  case False
  with r have "add_result c b = NotAddedAlreadyExisted" "att c' = att c" by auto
  then show ?thesis by (auto simp: add_result_def split: if_splits)
qed

lemma walk_step:
  assumes ret: "components_return comps B" and links: "links B" and seg: "chain_segment B chain l n"
    and w: "walking B chain l n i bs p"
  obtains (attach) p' where
    "block_call_step (machine_newBlock comps) newHead True answer (AddToCache n n (chain n) (chain i)) p = Some (head_call (chain n) p, p')"
    "head_set B (bs @ [chain i]) (chain n) p p'"
  | (down) p1 where
    "block_call_step (machine_newBlock comps) newHead True answer (AddToCache n n (chain n) (chain i)) p =
       Some (next_parent n n (chain n) (chain i) p1, p1)"
    "walking B chain l n (i - 1) (bs @ [chain i]) p1" "l < i" "processor_started p1 = processor_started p" "heads p1 = heads p"
    "maxDepth (processor_cache p1) = maxDepth (processor_cache p)"
proof -
  let ?c = "processor_cache p" and ?r = "add_result (processor_cache p) (chain i)"
  have ok: "cache_ok B bs ?c" and l: "l \<le> i" "i \<le> n" and low: "mIsEmpty ?c \<or> l \<le> lo ?c \<and> lo ?c \<le> i"
    and up: "\<And>j. i < j \<Longrightarrow> j \<le> n \<Longrightarrow> chain j \<in> set bs"
    using w by (auto simp: walking_def)
  note S = chain_segmentD [OF seg l] and C = cache_okD [OF ok]
  obtain p1 where
    p1: "block_call_step (machine_newBlock comps) newHead True answer (AddToCache n n (chain n) (chain i)) p =
        Some (if ?r \<notin> {AddedDetached, NotAddedAlreadyExistedDetached}
              then batch_done n n (chain n) p1 else (next_parent n n (chain n) (chain i) p1, p1))"
      "p1 = p\<lparr>chain_machine := chain_machine p1\<rparr>" "cache_ok B (bs @ [chain i]) (processor_cache p1)"
      "headHash (processor_cache p1) = headHash ?c" "maxDepth (processor_cache p1) = maxDepth ?c"
      "case ?r of
         Added \<Rightarrow> \<exists>es. emitted (processor_cache p1) = emitted ?c @ chain i # es
       | AddedDetached \<Rightarrow> att (processor_cache p1) = (att ?c)(block_hash (chain i) \<mapsto> False) \<and>
           emitted (processor_cache p1) = emitted ?c \<and> lo (processor_cache p1) = lo ?c
       | _ \<Rightarrow> att (processor_cache p1) = att ?c \<and> emitted (processor_cache p1) = emitted ?c \<and>
           lo (processor_cache p1) = lo ?c"
    by (rule add_step [OF ret ok S(1), of newHead True answer n n "chain n"])
      (use S(2,3) in \<open>simp_all only: not_True_eq_False if_False\<close>)
  note C1 = cache_okD [OF p1(3)] and W = walking_bounds [OF seg w p1(3,5)]
  have same: "lastBlockHashReceived p1 = Some (block_hash (chain n))" "processor_started p1 = processor_started p" "heads p1 = heads p"
    using w by (subst p1(2), simp add: walking_def)+
  have mem: "chain j \<in> set (bs @ [chain i])" if "i \<le> j" "j \<le> n" for j
    using that up [of j] by (cases "j = i") auto
  show thesis
  proof (cases "?r \<in> {Added, NotAddedAlreadyExisted}")
    case True
    have "att (processor_cache p1) (block_hash (chain i)) = Some True" if "lo (processor_cache p1) \<le> i"
      using attached_by_add [OF p1(3) _ S(1) _ _ p1(6) True] that S(2,3) by simp
    from segment_attached [OF p1(3) links seg l mem W(3) this]
    have a: "att (processor_cache p1) (block_hash (chain n)) = Some True" .
    let ?p' = "p1\<lparr>chain_machine := (chain_machine p1)\<lparr>cache := (processor_cache p1)\<lparr>headHash := Some (block_hash (chain n))\<rparr>\<rparr>\<rparr>"
    from a same have "batch_done n n (chain n) p1 = (head_call (chain n) p, ?p')"
      by (simp add: batch_done_def setHead_def C1(4) head_call_def)
    with True p1(1) have "block_call_step (machine_newBlock comps) newHead True answer (AddToCache n n (chain n) (chain i)) p =
      Some (head_call (chain n) p, ?p')" by auto
    moreover have "head_set B (bs @ [chain i]) (chain n) p ?p'" using p1(3,5) a same(3) by (simp add: head_set_def)
    ultimately show thesis by (rule attach)
  next
    case False
    have none: "att ?c h = None" if "mIsEmpty ?c" for h using C(3) C(6) [of h] that by (cases "att ?c h") auto
    from False have r: "?r \<in> {AddedDetached, NotAddedAlreadyExistedDetached}" "\<not> mIsEmpty ?c" "lo ?c \<noteq> i"
      using low S(2,4) C(14) [OF links, of "block_hash (chain i)"] by (auto simp: add_result_def none split: if_splits)
    with p1(6) have lo1: "lo (processor_cache p1) = lo ?c" by (auto split: BlockAddResult.splits)
    have "walking B chain l n (i - 1) (bs @ [chain i]) p1"
      unfolding walking_def using p1(3) W(1,2) same(1) mem l low r(2,3) lo1 by auto
    with r p1(1,5) same low show thesis by (intro down [of p1]) auto
  qed
qed

lemma walk_down:
  assumes ret: "components_return comps B" and links: "links B" and seg: "chain_segment B chain l n"
  shows "walking B chain l n i bs p \<Longrightarrow>
    \<exists>k p' bs'. k \<le> 2 * nat (i - l) + 1 \<and>
      run_call comps env chain B k (AddToCache n n (chain n) (chain i)) p = Some (head_call (chain n) p, p') \<and>
      head_set B bs' (chain n) p p' \<and> set bs' \<subseteq> set bs \<union> chain ` {l..n}"
proof (induction "nat (i - l)" arbitrary: i bs p rule: less_induct)
  case less
  let ?call = "\<lambda>i. AddToCache n n (chain n) (chain i)"
  have l: "l \<le> i" "i \<le> n" using less.prems by (auto simp: walking_def)
  show ?case
  proof (cases rule: walk_step [OF ret links seg less.prems, where newHead = "machine_newHead env comps" and answer = "answer_of chain B (?call i)"])
    case (1 p')
    from run_call_step [OF 1(1), of 0] have "run_call comps env chain B 1 (?call i) p = Some (head_call (chain n) p, p')" by simp
    moreover have "set (bs @ [chain i]) \<subseteq> set bs \<union> chain ` {l..n}" using l by auto
    ultimately show ?thesis using 1(2) by (intro exI [of _ 1] exI [of _ p'] exI [of _ "bs @ [chain i]"]) simp
  next
    case (2 p1)
    let ?next = "next_parent n n (chain n) (chain i) p1" and ?par = "block_hash (chain (i - 1))"
    have par: "parentHash (chain i) = ?par" "B ?par = chain (i - 1)"
      using chain_segmentD(5) [OF seg l 2(3)] chain_segmentD(4) [OF seg, of "i - 1"] 2(3) l(2) by auto
    have "cache_ok B (bs @ [chain i]) (processor_cache p1)" using 2(2) by (simp add: walking_def)
    note C1 = cache_okD [OF this]
    obtain k1 where k1: "k1 \<le> 1" "run_call comps env chain B k1 ?next p1 = Some (?call (i - 1), p1)"
    proof (cases "att (processor_cache p1) ?par = None")
      case True
      then show thesis by (intro that [of 1]) (simp_all add: next_parent_def par C1(4))
    next
      case False
      from C1(5) [OF this] False show thesis by (intro that [of 0]) (auto simp: next_parent_def par C1(4))
    qed
    have "nat (i - 1 - l) < nat (i - l)" using 2(3) by simp
    from less.hyps [OF this 2(2)] obtain k p' bs' where
      k: "k \<le> 2 * nat (i - 1 - l) + 1" "run_call comps env chain B k (?call (i - 1)) p1 = Some (head_call (chain n) p1, p')"
        "head_set B bs' (chain n) p1 p'" "set bs' \<subseteq> set (bs @ [chain i]) \<union> chain ` {l..n}" by blast
    from run_call_step [OF 2(1) run_call_trans [OF k1(2) k(2)]]
    have "run_call comps env chain B (Suc (k1 + k)) (?call i) p = Some (head_call (chain n) p, p')"
      by (simp add: head_call_def 2(4))
    moreover have "head_set B bs' (chain n) p p'" using k(3) 2(5,6) by (simp add: head_set_def)
    moreover have "Suc (k1 + k) \<le> 2 * nat (i - l) + 1" using k(1) k1(1) 2(3) by simp
    moreover have "set bs' \<subseteq> set bs \<union> chain ` {l..n}" using k(4) l by auto
    ultimately show ?thesis by blast
  qed
qed

text \<open>The whole call.\<close>

lemma call_sets_head:
  assumes ret: "components_return comps B" and links: "links B" and seg: "chain_segment B chain l n" and l: "l \<le> n"
    and ok: "cache_ok B bs (processor_cache p)"
    and bs: "\<forall>b\<in>set bs. 0 \<le> number b \<and> number b \<le> n + maxDepth (processor_cache p)"
    and start: "bs = [] \<or> l = lo (processor_cache p) \<and>
      (\<exists>h. head (processor_cache p) = Inr h \<and> n \<le> number h + maxDepth (processor_cache p))"
    and ch: "changes_return env comps"
  obtains fuel p' bs' where "fuel \<le> 2 * nat (n - l) + 5" "run_call comps env chain B fuel (NextBatch n) p = Some (Ended, p')"
    "cache_ok B bs' (processor_cache p')" "set bs' \<subseteq> set bs \<union> chain ` {l..n}"
    "maxDepth (processor_cache p') = maxDepth (processor_cache p)"
    "att (processor_cache p') (block_hash (chain n)) = Some True" "headHash (processor_cache p') = Some (block_hash (chain n))"
    "latestHeadNumber p' = Some n"
    "heads p' = heads p @ (if processor_started p then [(chain n, length (emitted (processor_cache p')))] else [])"
proof -
  note C = cache_okD [OF ok] and S = chain_segmentD [OF seg l order_refl]
  let ?p0 = "p\<lparr>lastBlockHashReceived := Some (block_hash (chain n))\<rparr>"
  have "next_number (processor_cache p) n = Inr n" using start C(3) by (auto simp: next_number_def)
  then have r0: "run_call comps env chain B 2 (NextBatch n) p = Some (AddToCache n n (chain n) (chain n), ?p0)"
    by (simp add: numeral_2_eq_2)
  have "walking B chain l n n bs ?p0"
    using ok l bs start C(3,9) by (auto simp: walking_def)
  from walk_down [OF ret links seg this, of env] obtain k p1 bs' where
    k: "k \<le> 2 * nat (n - l) + 1" "run_call comps env chain B k (AddToCache n n (chain n) (chain n)) ?p0 = Some (head_call (chain n) ?p0, p1)"
      "head_set B bs' (chain n) ?p0 p1" "set bs' \<subseteq> set bs \<union> chain ` {l..n}" by blast
  note r1 = run_call_trans [OF r0 k(2)]
  note H = k(3) [unfolded head_set_def]
  show thesis
  proof (cases "processor_started p")
    case False
    have "run_call comps env chain B 1 (head_call (chain n) ?p0) p1 = Some (Ended, p1\<lparr>latestHeadNumber := Some n\<rparr>)"
      using False S(2) by (simp add: head_call_def setLatestHeadNumber_def)
    from run_call_trans [OF r1 this] show thesis
      by (rule that [rotated]) (use k(1,4) H False in auto)
  next
    case True
    from H have "cache_ok B bs' (processor_cache p1)" by simp
    from head_batch [OF this S(1), of True env comps] ch obtain m' where
      m': "with_batch True (lift_eff (processNewHead env comps (chain n))) (chain_machine p1) = Some (Inr (), m')"
        "cache_ok B bs' (cache m')" "att (cache m') = att (processor_cache p1)" "headHash (cache m') = headHash (processor_cache p1)"
        "maxDepth (cache m') = maxDepth (processor_cache p1)" "emitted (cache m') = emitted (processor_cache p1)" by auto
    have "run_call comps env chain B 2 (head_call (chain n) ?p0) p1 =
        Some (Ended, p1\<lparr>chain_machine := m', heads := heads p1 @ [(chain n, length (emitted (processor_cache p1)))],
                        latestHeadNumber := Some n\<rparr>)"
      using True S(2) m'(1) by (simp add: head_call_def setLatestHeadNumber_def numeral_2_eq_2)
    from run_call_trans [OF r1 this] show thesis
      by (rule that [rotated]) (use k(1,4) H m' True in auto)
  qed
qed

text \<open>C34: When a block is announced that is at most \<open>maxDepth\<close> above the head, or is the first one, and the
  provider answers from one chain, its call ends after at most two steps per height of the window and
  five more: the block is attached, it is the head, its number is saved, and once the processor is
  started it was announced as a new head after all the new blocks.\<close>

theorem announced_block_becomes_head:
  assumes "components_return comps B" "links B" "changes_return env comps" "cache_ok B bs (processor_cache p)"
    "chain_segment B chain l n" "l \<le> n" "\<forall>b\<in>set bs. 0 \<le> number b \<and> number b \<le> n + maxDepth (processor_cache p)"
    "bs = [] \<or> l = lo (processor_cache p) \<and>
      (\<exists>h. head (processor_cache p) = Inr h \<and> n \<le> number h + maxDepth (processor_cache p))"
  shows "\<exists>fuel p'. fuel \<le> 2 * nat (n - l) + 5 \<and>
    run_call comps env chain B fuel (NextBatch n) p = Some (Ended, p') \<and>
    head (processor_cache p') = Inr (chain n) \<and> att (processor_cache p') (block_hash (chain n)) = Some True \<and>
    latestHeadNumber p' = Some n \<and>
    heads p' = heads p @ (if processor_started p then [(chain n, length (emitted (processor_cache p')))] else [])"
proof -
  obtain fuel p' bs' where f: "fuel \<le> 2 * nat (n - l) + 5" "run_call comps env chain B fuel (NextBatch n) p = Some (Ended, p')"
    "cache_ok B bs' (processor_cache p')" "att (processor_cache p') (block_hash (chain n)) = Some True"
    "headHash (processor_cache p') = Some (block_hash (chain n))" "latestHeadNumber p' = Some n"
    "heads p' = heads p @ (if processor_started p then [(chain n, length (emitted (processor_cache p')))] else [])"
    using call_sets_head [OF assms(1,2,5,6,4,7,8,3)] by metis
  have "head (processor_cache p') = Inr (chain n)"
    using f(4,5) cache_okD(5) [OF f(3), of "block_hash (chain n)"] chain_segmentD(4) [OF assms(5,6) order_refl]
    by (simp add: head_def)
  with f show ?thesis by blast
qed

section \<open>Runs of one call, and examples\<close>

text \<open>A call alone is one of the interleavings.\<close>

lemma run_call_steps:
  assumes "run_call comps env chain B k call p = Some (call', p')"
    "\<And>j c1 p1. j < k \<Longrightarrow> run_call comps env chain B j call p = Some (c1, p1) \<Longrightarrow> inputs_ok c1 env True (answer_of chain B c1)"
  shows "(processor_step comps inputs_ok event_ok)\<^sup>*\<^sup>* (p, [call]) (p', [call'])"
  using assms
proof (induction k arbitrary: call p)
  case (Suc k)
  from Suc.prems(1) obtain c1 p1 where
    s: "block_call_step (machine_newBlock comps) (machine_newHead env comps) True (answer_of chain B call) call p = Some (c1, p1)"
      "run_call comps env chain B k c1 p1 = Some (call', p')"
    by (auto simp: Option.bind_eq_Some_conv)
  have "inputs_ok call env True (answer_of chain B call)" using Suc.prems(2) [of 0] by simp
  then have "processor_step comps inputs_ok event_ok (p, [call]) (p1, [c1])"
    using processor_step.advance [of 0 "[call]" inputs_ok env True "answer_of chain B call" comps p c1 p1 event_ok] s(1) by simp
  moreover have "(processor_step comps inputs_ok event_ok)\<^sup>*\<^sup>* (p1, [c1]) (p', [call'])"
    using Suc.IH [OF s(2)] Suc.prems(2) [of "Suc _"] run_call_step [OF s(1)] by blast
  ultimately show ?case by (rule converse_rtranclp_into_rtranclp)
qed simp

definition ex_blocks :: "int \<Rightarrow> TransactionHashes" where
  "ex_blocks i = ex_chain (if i = 5 then ''g'' else if i = 6 then ''a'' else ''b'')"

definition ex_head_env :: head_env where
  "ex_head_env = (\<lambda>name. (\<lambda>i. ''id'', True))"

abbreviation ex_components :: "(TransactionHashes, unit, unit) Component list" where
  "ex_components \<equiv> []"

lemma ex_segment: "5 \<le> l \<Longrightarrow> n \<le> 7 \<Longrightarrow> chain_segment ex_chain ex_blocks l n"
proof -
  assume "5 \<le> l" "n \<le> 7"
  moreover have "names ex_chain (ex_blocks i) \<and> number (ex_blocks i) = i \<and> 0 \<le> i \<and>
      (i \<noteq> 5 \<longrightarrow> parentHash (ex_blocks i) = block_hash (ex_blocks (i - 1)))" if "5 \<le> i" "i \<le> 7" for i
  proof -
    from that consider "i = 5" | "i = 6" | "i = 7" by linarith
    then show ?thesis by cases (simp_all add: ex_blocks_def names_def ex_chain_def ex_block_def colon_free_def)
  qed
  ultimately show ?thesis unfolding chain_segment_def by auto
qed

lemma ex_changes: "changes_return ex_head_env ex_components"
  by (simp add: changes_return_def ex_head_env_def)

text \<open>After the start on block \<open>g\<close> of height 5.\<close>

lemma ex_first_call:
  assumes "0 \<le> depth"
  obtains p bs where
    "\<exists>fuel. run_call ex_components ex_head_env ex_blocks ex_chain fuel (NextBatch 5) (initial_processor depth None) = Some (Ended, p)"
    "cache_ok ex_chain bs (processor_cache p)" "\<forall>b\<in>set bs. number b = 5" "head (processor_cache p) = Inr (ex_chain ''g'')"
    "lo (processor_cache p) = 5" "maxDepth (processor_cache p) = depth" "bs \<noteq> []"
proof -
  have first: "ex_blocks 5 = ex_chain ''g''" "number (ex_chain ''g'') = 5" "block_hash (ex_chain ''g'') = ''g''"
    by (simp_all add: ex_blocks_def ex_chain_def ex_block_def)
  from assms have depth: "maxDepth (processor_cache (initial_processor depth None :: (TransactionHashes, unit, unit) BlockProcessor)) = depth"
    by (simp add: initial_processor_def initial_machine_def new_BlockCache_def)
  show thesis
  proof (rule call_sets_head [OF no_components_return ex_chain_links ex_segment [of 5 5] _ initial_cache_ok [OF assms] _ _ ex_changes])
    fix fuel and p' :: "(TransactionHashes, unit, unit) BlockProcessor" and bs'
    assume r: "run_call ex_components ex_head_env ex_blocks ex_chain fuel (NextBatch 5) (initial_processor depth None) = Some (Ended, p')"
      "cache_ok ex_chain bs' (processor_cache p')" "set bs' \<subseteq> set [] \<union> ex_blocks ` {5..5}"
      "maxDepth (processor_cache p') = maxDepth (processor_cache (initial_processor depth None :: (TransactionHashes, unit, unit) BlockProcessor))"
      "att (processor_cache p') (block_hash (ex_blocks 5)) = Some True" "headHash (processor_cache p') = Some (block_hash (ex_blocks 5))"
    note C = cache_okD [OF r(2)]
    have a: "att (processor_cache p') ''g'' \<noteq> None" using r(5) by (simp add: first)
    have bs: "\<forall>b\<in>set bs'. number b = 5" "bs' \<noteq> []" using r(3) C(6) [OF a] by (auto simp: first)
    have "lo (processor_cache p') = 5"
    proof -
      have "number (hd bs') = 5" "mMaxHeight (processor_cache p') \<le> 5" using bs C(10) by auto
      with C(9) [OF bs(2)] C(13) show ?thesis by simp
    qed
    moreover have "head (processor_cache p') = Inr (ex_chain ''g'')" using C(5) [OF a] r(6) by (simp add: head_def first)
    ultimately show thesis using that [of p' bs'] r(1,2,4) bs depth by auto
  qed auto
qed

theorem announced_block_becomes_head_witness:
  "\<exists>fuel (p :: (TransactionHashes, unit, unit) BlockProcessor) p' fuel'.
     run_call ex_components ex_head_env ex_blocks ex_chain fuel (NextBatch 5) (initial_processor 10 None) = Some (Ended, p) \<and>
     fuel' \<le> 9 \<and> run_call ex_components ex_head_env ex_blocks ex_chain fuel' (NextBatch 7) p = Some (Ended, p') \<and>
     head (processor_cache p') = Inr (ex_chain ''b'') \<and> latestHeadNumber p' = Some 7"
proof -
  obtain p :: "(TransactionHashes, unit, unit) BlockProcessor" and bs where
    p: "\<exists>fuel. run_call ex_components ex_head_env ex_blocks ex_chain fuel (NextBatch 5) (initial_processor 10 None) = Some (Ended, p)"
      "cache_ok ex_chain bs (processor_cache p)" "\<forall>b\<in>set bs. number b = 5" "head (processor_cache p) = Inr (ex_chain ''g'')"
      "lo (processor_cache p) = 5" "maxDepth (processor_cache p) = 10" by (rule ex_first_call [of 10]) auto
  have "number (ex_chain ''g'') = 5" "ex_blocks 7 = ex_chain ''b''" by (simp_all add: ex_chain_def ex_block_def ex_blocks_def)
  with announced_block_becomes_head [OF no_components_return ex_chain_links ex_changes p(2) ex_segment [of 5 7]] p show ?thesis
    by auto
qed

theorem long_downtime_never_ends_witness:
  "\<exists>fuel (p :: (TransactionHashes, unit, unit) BlockProcessor).
     run_call ex_components ex_head_env ex_blocks ex_chain fuel (NextBatch 5) (initial_processor 1 None) = Some (Ended, p) \<and>
     (\<forall>p' calls. (processor_step ex_components (answered ex_chain) (\<lambda>k. 6 < k))\<^sup>*\<^sup>* (p, [NextBatch 7]) (p', calls) \<longrightarrow>
        Ended \<notin> set calls \<and> heads p' = heads p \<and> headHash (processor_cache p') = headHash (processor_cache p))"
proof -
  obtain p :: "(TransactionHashes, unit, unit) BlockProcessor" and bs where
    p: "\<exists>fuel. run_call ex_components ex_head_env ex_blocks ex_chain fuel (NextBatch 5) (initial_processor 1 None) = Some (Ended, p)"
      "cache_ok ex_chain bs (processor_cache p)" "\<forall>b\<in>set bs. number b = 5" "head (processor_cache p) = Inr (ex_chain ''g'')"
      "maxDepth (processor_cache p) = 1" by (rule ex_first_call [of 1]) auto
  have "number (ex_chain ''g'') = 5" by (simp add: ex_chain_def ex_block_def)
  with long_downtime_never_ends [OF no_components_return ex_chain_links p(2,4), of 6 7] p(3,5)
  have "Ended \<notin> set calls \<and> heads p' = heads p \<and> headHash (processor_cache p') = headHash (processor_cache p)"
    if "(processor_step ex_components (answered ex_chain) (\<lambda>k. 6 < k))\<^sup>*\<^sup>* (p, [NextBatch 7]) (p', calls)" for p' calls
    using that by auto
  with p(1) show ?thesis by blast
qed

definition ex_first_run :: "(TransactionHashes block_call \<times> (TransactionHashes, unit, unit) BlockProcessor) option" where
  "ex_first_run = run_call ex_components ex_head_env ex_blocks ex_chain 4 (NextBatch 5) (initial_processor 10 None)"

lemma ex_first_run_eval:
  "map_option (\<lambda>(c, p). (c, emitted (processor_cache p), latestHeadNumber p)) ex_first_run = Some (Ended, [ex_chain ''g''], Some 5)"
  "map (\<lambda>j. case run_call ex_components ex_head_env ex_blocks ex_chain j (NextBatch 5) (initial_processor 10 None) of
       None \<Rightarrow> True
     | Some (c, p) \<Rightarrow> answer_ok ex_chain c (answer_of ex_blocks ex_chain c)) [0, 1, 2, 3] = [True, True, True, True]"
  by code_simp+

theorem new_head_after_new_block_witness:
  "\<exists>p. ex_first_run = Some (Ended, p) \<and> distinct (emitted (processor_cache p)) \<and>
     latestHeadNumber p = Some 5 \<and> 5 \<in> number ` set (emitted (processor_cache p))"
proof -
  from ex_first_run_eval(1) obtain p where p: "ex_first_run = Some (Ended, p)" "latestHeadNumber p = Some 5" by auto
  have ok: "answer_ok ex_chain c1 (answer_of ex_blocks ex_chain c1)"
    if "j < 4" "run_call ex_components ex_head_env ex_blocks ex_chain j (NextBatch 5) (initial_processor 10 None) = Some (c1, p1)" for j c1 p1
  proof -
    from that(1) consider "j = 0" | "j = 1" | "j = 2" | "j = 3" by linarith
    then show ?thesis using that(2) ex_first_run_eval(2) by cases simp_all
  qed
  let ?step = "processor_step ex_components (\<lambda>call env db_ok answer. answer_ok ex_chain call answer) (\<lambda>n. True)"
  let ?p0 = "initial_processor 10 None :: (TransactionHashes, unit, unit) BlockProcessor"
  have "?step (?p0, []) (?p0, [NextBatch 5])"
    by (rule processor_step.new_call [where calls = "[]", simplified]) simp
  moreover have "?step\<^sup>*\<^sup>* (?p0, [NextBatch 5]) (p, [Ended])"
    by (rule run_call_steps [OF p(1) [unfolded ex_first_run_def]]) (rule ok)
  ultimately have "?step\<^sup>*\<^sup>* (?p0, []) (p, [Ended])" by (rule converse_rtranclp_into_rtranclp)
  from new_head_after_new_block [OF no_components_return _ this] p show ?thesis by auto
qed

end
