(* ===== verification/CacheSteps.thy ===== *)
theory CacheSteps
  imports BlockProcessorProps MachineProps
begin

text \<open>
  What the operations of the cache and of the block processor do to the blocks and the anchor states, as a
  sequence of small steps: a block is put aside, a block is attached and its states are computed, a height is
  dropped, or nothing changes that the components see.  An invariant of the anchor states is then shown for
  one small step, and holds of every run.
\<close>

section \<open>The steps\<close>

definition same_states :: "('b, 's) BlockCache \<Rightarrow> ('b, 's) BlockCache \<Rightarrow> bool" where
  "same_states c c' \<longleftrightarrow>
     (\<forall>n h. colon_free h \<longrightarrow> anchor c' n h = anchor c n h \<and> emitted_anchor c' n h = emitted_anchor c n h)"

text \<open>A head makes states the last emitted ones of their blocks.\<close>

definition emits_states :: "('b, 's) BlockCache \<Rightarrow> ('b, 's) BlockCache \<Rightarrow> bool" where
  "emits_states c c' \<longleftrightarrow>
     (\<forall>n h. colon_free h \<longrightarrow> anchor c' n h = anchor c n h \<and>
        (emitted_anchor c' n h = emitted_anchor c n h \<or> emitted_anchor c' n h = anchor c n h \<and> anchor c n h \<noteq> None))"

text \<open>Besides the detached blocks, only the blocks of \<open>new\<close> are attached or put aside.\<close>

inductive cache_step ::
  "('b IBlockStub_scheme, 's, 'a) Component list \<Rightarrow> 'b naming \<Rightarrow> 'b IBlockStub_scheme set \<Rightarrow>
   ('b IBlockStub_scheme, 's) BlockCache \<Rightarrow> ('b IBlockStub_scheme, 's) BlockCache \<Rightarrow> bool"
  for comps B new where
  keep: "att c' = att c \<Longrightarrow> emits_states c c' \<Longrightarrow> emitted c' = emitted c \<Longrightarrow> cache_step comps B new c c'"
| wait: "b \<in> new \<Longrightarrow> names B b \<Longrightarrow> att c (block_hash b) = None \<Longrightarrow> att c' = (att c)(block_hash b \<mapsto> False) \<Longrightarrow>
    same_states c c' \<Longrightarrow> emitted c' = emitted c \<Longrightarrow> cache_step comps B new c c'"
| attach: "b \<in> new \<or> att c (block_hash b) = Some False \<Longrightarrow> names B b \<Longrightarrow> att c (block_hash b) \<noteq> Some True \<Longrightarrow>
    rep_ok B c1 \<Longrightarrow> att c1 = (att c)(block_hash b \<mapsto> True) \<Longrightarrow> same_states c c1 \<Longrightarrow> emitted c1 = emitted c @ [b] \<Longrightarrow>
    processNewBlock comps b c1 = Some (Inr (), c') \<Longrightarrow> cache_step comps B new c c'"
| drop: "att c' = (\<lambda>h. if number (B h) = n then None else att c h) \<Longrightarrow>
    \<forall>m h. colon_free h \<longrightarrow> anchor c' m h = (if number (B h) = n then None else anchor c m h) \<and>
      emitted_anchor c' m h = (if number (B h) = n then None else emitted_anchor c m h) \<Longrightarrow>
    emitted c' = emitted c \<Longrightarrow> cache_step comps B new c c'"

lemma cache_step_mono: "cache_step comps B new c c' \<Longrightarrow> new \<subseteq> new' \<Longrightarrow> cache_step comps B new' c c'"
proof (induction rule: cache_step.induct)
  case (attach b c c1 c')
  then show ?case by (intro cache_step.attach [of b new' c B c1 comps c']) auto
qed (auto intro: cache_step.intros)

lemma cache_steps_mono:
  "(cache_step comps B new)\<^sup>*\<^sup>* c c' \<Longrightarrow> new \<subseteq> new' \<Longrightarrow> (cache_step comps B new')\<^sup>*\<^sup>* c c'"
  by (induction rule: rtranclp_induct) (auto intro: rtranclp.rtrancl_into_rtrancl cache_step_mono)

lemma same_states_refl [simp]: "same_states c c"
  by (simp add: same_states_def)

lemma same_states_emits: "same_states c c' \<Longrightarrow> emits_states c c'"
  by (simp add: same_states_def emits_states_def)

lemma same_states_items: "map_of (items (blockStore c')) = map_of (items (blockStore c)) \<Longrightarrow> same_states c c'"
  by (simp add: same_states_def anchor_items)

lemma keep_items:
  "items (blockStore c') = items (blockStore c) \<Longrightarrow> emitted c' = emitted c \<Longrightarrow> cache_step comps B new c c'"
  by (rule cache_step.keep) (auto simp: attached_get_items fun_eq_iff intro: same_states_items [THEN same_states_emits])

section \<open>Heights and blocks in the store\<close>

lemma delete_height_states:
  assumes "rep_ok B c"
  obtains s' where "deleteItemsAtHeight n (blockStore c) = (Inr (), s')" "rep_ok B (c\<lparr>blockStore := s'\<rparr>)"
    "cache_step comps B new c (c\<lparr>blockStore := s', pruneHeight := p\<rparr>)"
proof -
  obtain s' where s': "deleteItemsAtHeight n (blockStore c) = (Inr (), s')" "rep_ok B (c\<lparr>blockStore := s'\<rparr>)"
    "att (c\<lparr>blockStore := s'\<rparr>) = (\<lambda>h. if number (B h) = n then None else att c h)"
    by (rule delete_height_rep [OF assms])
  obtain s'' where s'': "deleteItemsAtHeight n (blockStore c) = (Inr (), s'')"
    "map_of (items s'') = (\<lambda>k. if number (B (key_hash k)) = n then None else cache_items c k)"
    by (rule deleteItemsAtHeight_open [OF rep_okD(1,2) [OF assms]])
  then have items: "map_of (items s') = (\<lambda>k. if number (B (key_hash k)) = n then None else cache_items c k)"
    using s'(1) by simp
  let ?c = "c\<lparr>blockStore := s', pruneHeight := p\<rparr>"
  have "cache_step comps B new c ?c"
  proof (rule cache_step.drop [where n = n])
    show "att ?c = (\<lambda>h. if number (B h) = n then None else att c h)" using s'(3) by simp
    show "\<forall>m h. colon_free h \<longrightarrow> anchor ?c m h = (if number (B h) = n then None else anchor c m h) \<and>
        emitted_anchor ?c m h = (if number (B h) = n then None else emitted_anchor c m h)"
      by (auto simp: anchor_items items)
  qed simp
  with s'(1,2) show thesis by (rule that)
qed

lemma prune_steps:
  assumes "rep_ok B c"
  shows "fst (prune c) = Inr () \<and> rep_ok B (snd (prune c)) \<and> (cache_step comps B new)\<^sup>*\<^sup>* c (snd (prune c))"
  using assms
proof (induction c rule: prune.induct)
  case (1 c)
  show ?case
  proof (cases "pruneHeight c")
    case None
    with 1(2) show ?thesis by (simp add: prune.simps)
  next
    case (Some p)
    show ?thesis
    proof (cases "less_number (Some p) (minHeight c)")
      case False
      with Some 1(2) show ?thesis by (simp add: prune.simps)
    next
      case True
      obtain s' where s': "deleteItemsAtHeight p (blockStore c) = (Inr (), s')" "rep_ok B (c\<lparr>blockStore := s'\<rparr>)"
        "cache_step comps B new c (c\<lparr>blockStore := s', pruneHeight := Some (p + 1)\<rparr>)"
        by (rule delete_height_states [OF 1(2)])
      let ?c = "c\<lparr>blockStore := s', pruneHeight := Some (p + 1)\<rparr>"
      have "prune c = prune ?c" using Some True s'(1) by (subst prune.simps) simp
      moreover have "rep_ok B ?c" using s'(2) by simp
      ultimately show ?thesis
        using 1(1) [OF Some True s'(1) [symmetric] refl] s'(3) by (auto intro: converse_rtranclp_into_rtranclp)
    qed
  qed
qed

lemma update_steps:
  assumes "rep_ok B c"
  obtains c' where "updateMaxHeightAndPrune n c = (Inr (), c')" "rep_ok B c'" "(cache_step comps B new)\<^sup>*\<^sup>* c c'"
proof (cases "mMaxHeight c < n")
  case False
  then show thesis using assms that [of c] by (simp add: updateMaxHeightAndPrune_def)
next
  case True
  let ?c = "c\<lparr>mMaxHeight := n\<rparr>"
  have "rep_ok B ?c" using assms by simp
  from prune_steps [OF this, of comps new] have
    "fst (prune ?c) = Inr ()" "rep_ok B (snd (prune ?c))" "(cache_step comps B new)\<^sup>*\<^sup>* ?c (snd (prune ?c))" by auto
  moreover have "cache_step comps B new c ?c" by (rule keep_items) simp_all
  ultimately show thesis
    using True by (intro that [of "snd (prune ?c)"])
      (auto simp: updateMaxHeightAndPrune_def prod_eq_iff intro: converse_rtranclp_into_rtranclp)
qed

text \<open>Putting a block, or its flag, changes no anchor state.\<close>

lemma put_block_states:
  assumes "rep_ok B c" "names B b"
  obtains s1 s' where
    "on_store (block_set (number b) (block_hash b) b) c = (Inr (), c\<lparr>blockStore := s1\<rparr>)"
    "on_store (attached_set (number b) (block_hash b) a) (c\<lparr>blockStore := s1\<rparr>) = (Inr (), c\<lparr>blockStore := s'\<rparr>)"
    "rep_ok B (c\<lparr>blockStore := s'\<rparr>)" "att (c\<lparr>blockStore := s'\<rparr>) = (att c)(block_hash b \<mapsto> a)"
    "same_states c (c\<lparr>blockStore := s'\<rparr>)"
proof -
  obtain s1 s' where s: "on_store (block_set (number b) (block_hash b) b) c = (Inr (), c\<lparr>blockStore := s1\<rparr>)"
    "on_store (attached_set (number b) (block_hash b) a) (c\<lparr>blockStore := s1\<rparr>) = (Inr (), c\<lparr>blockStore := s'\<rparr>)"
    "rep_ok B (c\<lparr>blockStore := s'\<rparr>)" "att (c\<lparr>blockStore := s'\<rparr>) = (att c)(block_hash b \<mapsto> a)"
    "map_of (items s') =
       (cache_items c)(memKey (block_hash b) KEY_BLOCK \<mapsto> BlockItem b, memKey (block_hash b) KEY_ATTACHED \<mapsto> AttachedItem a)"
    by (rule put_block_rep [OF assms])
  have "same_states c (c\<lparr>blockStore := s'\<rparr>)" by (simp add: same_states_def anchor_items s(5))
  with s(1-4) show thesis by (rule that)
qed

lemma set_attached_states:
  assumes "rep_ok B c" "att c h \<noteq> None" "number (B h) = n"
  obtains s' where "on_store (attached_set n h a) c = (Inr (), c\<lparr>blockStore := s'\<rparr>)"
    "rep_ok B (c\<lparr>blockStore := s'\<rparr>)" "att (c\<lparr>blockStore := s'\<rparr>) = (att c)(h \<mapsto> a)"
    "same_states c (c\<lparr>blockStore := s'\<rparr>)"
proof -
  obtain s' where s': "on_store (attached_set n h a) c = (Inr (), c\<lparr>blockStore := s'\<rparr>)"
    "rep_ok B (c\<lparr>blockStore := s'\<rparr>)" "att (c\<lparr>blockStore := s'\<rparr>) = (att c)(h \<mapsto> a)"
    by (rule set_attached_rep [OF assms])
  have "number (B (key_hash (memKey h KEY_ATTACHED))) = n" using assms rep_okD(3) [OF assms(1,2)] by (simp add: real_def)
  from putBlockItem_open [where it = "AttachedItem a", OF rep_okD(1,2) [OF assms(1)] this] obtain s'' where
    s'': "putBlockItem n h KEY_ATTACHED (AttachedItem a) (blockStore c) = (Inr (), s'')"
      "map_of (items s'') = (cache_items c)(memKey h KEY_ATTACHED \<mapsto> AttachedItem a)" by metis
  have "s'' = s'"
    using s'(1) s''(1) by (cases c) (simp add: on_store_def attached_set_def)
  have "same_states c (c\<lparr>blockStore := s'\<rparr>)"
    using s''(2) unfolding \<open>s'' = s'\<close> by (simp add: same_states_def anchor_items)
  with s' show thesis by (rule that)
qed

section \<open>Attaching blocks\<close>

lemma emit_step:
  assumes ret: "components_return comps B" and b: "b \<in> new \<or> att c (block_hash b) = Some False" "names B b" "att c (block_hash b) \<noteq> Some True"
    and c1: "rep_ok B c1" "att c1 = (att c)(block_hash b \<mapsto> True)" "same_states c c1" "emitted c1 = emitted c"
  obtains c' where "emit (processNewBlock comps) b c1 = Some (Inr (), c')" "rep_ok B c'" "att c' = att c1"
    "cache_step comps B new c c'"
proof -
  let ?c1 = "c1\<lparr>emitted := emitted c1 @ [b]\<rparr>"
  have rep: "rep_ok B ?c1" "att ?c1 (block_hash b) = Some True" using c1(1,2) by simp_all
  from processNewBlock_keeps [OF ret rep(1) b(2) rep(2)] obtain s' where
    s': "processNewBlock comps b ?c1 = Some (Inr (), ?c1\<lparr>blockStore := s'\<rparr>)" "rep_ok B (?c1\<lparr>blockStore := s'\<rparr>)"
      "\<forall>h. attached_get s' h = att ?c1 h" by blast
  have "cache_step comps B new c (?c1\<lparr>blockStore := s'\<rparr>)"
    by (rule cache_step.attach [OF b rep(1) _ _ _ s'(1)]) (use c1 in \<open>simp_all add: same_states_def fun_eq_iff\<close>)
  moreover have "emit (processNewBlock comps) b c1 = Some (Inr (), ?c1\<lparr>blockStore := s'\<rparr>)" by (simp add: emit_def s'(1))
  moreover have "att (?c1\<lparr>blockStore := s'\<rparr>) = att c1" using s'(3) by (simp add: fun_eq_iff)
  ultimately show thesis using s'(2) by (intro that)
qed

lemma attach_detached_steps:
  assumes ret: "components_return comps B" and rep: "rep_ok B c" and h: "att c h = Some False" "number (B h) = n"
  obtains c' where "attach_detached (processNewBlock comps) n (Some (B h)) c = Some (Inr (), c')" "rep_ok B c'"
    "att c' = (att c)(h \<mapsto> True)" "cache_step comps B new c c'"
proof -
  have real: "block_hash (B h) = h" "names B (B h)" using h(1) rep_okD(3) [OF rep, of h] by (auto simp: real_def names_def)
  obtain s1 where
    s1: "on_store (attached_set n h True) c = (Inr (), c\<lparr>blockStore := s1\<rparr>)" "rep_ok B (c\<lparr>blockStore := s1\<rparr>)"
      "att (c\<lparr>blockStore := s1\<rparr>) = (att c)(h \<mapsto> True)" "same_states c (c\<lparr>blockStore := s1\<rparr>)"
    by (rule set_attached_states [OF rep _ h(2)]) (use h(1) in auto)
  obtain c' where "emit (processNewBlock comps) (B h) (c\<lparr>blockStore := s1\<rparr>) = Some (Inr (), c')" "rep_ok B c'"
    "att c' = att (c\<lparr>blockStore := s1\<rparr>)" "cache_step comps B new c c'"
    by (rule emit_step [OF ret _ real(2) _ s1(2) _ s1(4)]) (use h(1) s1(3) real(1) in \<open>simp_all add: fun_eq_iff\<close>)
  then show thesis using s1(1,3) by (intro that [of c']) (simp_all add: attach_detached_def real(1) fun_eq_iff)
qed

lemma attach_all_steps:
  assumes "components_return comps B" "rep_ok B c" "distinct hs" "\<forall>h\<in>set hs. att c h = Some False \<and> number (B h) = n"
  shows "\<exists>c'. for_each_prog (attach_detached (processNewBlock comps) n) (map (\<lambda>h. Some (B h)) hs) c = Some (Inr (), c') \<and>
    rep_ok B c' \<and> (cache_step comps B new)\<^sup>*\<^sup>* c c'"
  using assms(2-4)
proof (induction hs arbitrary: c)
  case (Cons h hs)
  obtain c1 where
    c1: "attach_detached (processNewBlock comps) n (Some (B h)) c = Some (Inr (), c1)" "rep_ok B c1"
      "att c1 = (att c)(h \<mapsto> True)" "cache_step comps B new c c1"
    by (rule attach_detached_steps [OF assms(1) Cons.prems(1)]) (use Cons.prems(3) in auto)
  have "\<forall>h\<in>set hs. att c1 h = Some False \<and> number (B h) = n" using Cons.prems(2,3) by (auto simp: c1(3))
  from Cons.IH [OF c1(2) _ this] Cons.prems(2) obtain c' where
    "for_each_prog (attach_detached (processNewBlock comps) n) (map (\<lambda>h. Some (B h)) hs) c1 = Some (Inr (), c')"
    "rep_ok B c'" "(cache_step comps B new)\<^sup>*\<^sup>* c1 c'" by auto
  with c1(1,4) show ?case by (auto intro: converse_rtranclp_into_rtranclp)
qed (simp add: return_prog_def)

lemma processDetached_steps:
  assumes ret: "components_return comps B" and "rep_ok B c" "processDetached (processNewBlock comps) n c = Some y"
  shows "fst y = Inr () \<and> rep_ok B (snd y) \<and> (cache_step comps B new)\<^sup>*\<^sup>* c (snd y)"
proof -
  let ?ok = "\<lambda>c y. fst y = Inr () \<and> rep_ok B (snd y) \<and> (cache_step comps B new)\<^sup>*\<^sup>* c (snd y)"
  have "listener = processNewBlock comps \<longrightarrow> rep_ok B c \<longrightarrow> ?ok c y"
    if "processDetached listener n c = Some y" for listener n c y
  proof (rule processDetached.raw_induct [OF _ that, of "\<lambda>listener n c y. listener = processNewBlock comps \<longrightarrow> rep_ok B c \<longrightarrow> ?ok c y"], intro impI)
    fix loop listener n c y
    assume IH: "\<And>listener n c y. loop listener n c = Some y \<Longrightarrow> listener = processNewBlock comps \<longrightarrow> rep_ok B c \<longrightarrow> ?ok c y"
      and body: "(let blocksToAdd = filter (\<lambda>b. snd b \<noteq> Some True) (getBlocksAtHeight (blockStore c) (Some n)) in
          bind_prog (for_each_prog (attach_detached listener n) (map fst blocksToAdd)) (\<lambda>u s.
            if length blocksToAdd > 0 then
              bind_prog (lift_eff (updateMaxHeightAndPrune n)) (\<lambda>u' s'. loop listener (n + 1) s') s
            else return_prog () s) c) = Some y"
      and L: "listener = processNewBlock comps" and rep: "rep_ok B c"
    obtain hs where hs: "distinct hs" "set hs = {h. att c h = Some False \<and> number (B h) = n}"
      "map fst (filter (\<lambda>b. snd b \<noteq> Some True) (getBlocksAtHeight (blockStore c) (Some n))) = map (\<lambda>h. Some (B h)) hs"
      by (rule machine.filter_detached [OF rep])
    from attach_all_steps [OF ret rep hs(1), of n new] hs(2) obtain c1 where
      c1: "for_each_prog (attach_detached listener n) (map (\<lambda>h. Some (B h)) hs) c = Some (Inr (), c1)"
        "rep_ok B c1" "(cache_step comps B new)\<^sup>*\<^sup>* c c1" unfolding L by blast
    obtain c2 where c2: "updateMaxHeightAndPrune n c1 = (Inr (), c2)" "rep_ok B c2" "(cache_step comps B new)\<^sup>*\<^sup>* c1 c2"
      by (rule update_steps [OF c1(2)])
    from body consider "y = (Inr (), c1)" | "loop listener (n + 1) c2 = Some y"
      by (auto simp: Let_def hs(3) c1(1) c2(1) split: if_splits)
    then show "?ok c y"
    proof cases
      case 2
      from IH [OF this] L c1(3) c2(2,3) show ?thesis by (meson rtranclp_trans)
    qed (use c1 in simp)
  qed
  with assms show ?thesis by blast
qed

lemma minHeight_steps:
  assumes ret: "components_return comps B" and "rep_ok B c" "processDetachedBlocksAtMinHeight (processNewBlock comps) c = Some y"
  shows "fst y = Inr () \<and> rep_ok B (snd y) \<and> (cache_step comps B new)\<^sup>*\<^sup>* c (snd y)"
proof -
  let ?ok = "\<lambda>c y. fst y = Inr () \<and> rep_ok B (snd y) \<and> (cache_step comps B new)\<^sup>*\<^sup>* c (snd y)"
  have "listener = processNewBlock comps \<longrightarrow> rep_ok B c \<longrightarrow> ?ok c y"
    if "processDetachedBlocksAtMinHeight listener c = Some y" for listener c y
  proof (rule processDetachedBlocksAtMinHeight.raw_induct
      [OF _ that, of "\<lambda>listener c y. listener = processNewBlock comps \<longrightarrow> rep_ok B c \<longrightarrow> ?ok c y"], intro impI)
    fix loop listener c y
    assume IH: "\<And>listener c y. loop listener c = Some y \<Longrightarrow> listener = processNewBlock comps \<longrightarrow> rep_ok B c \<longrightarrow> ?ok c y"
      and body: "(let prevMinHeight = minHeight c in
          case prevMinHeight of
            None \<Rightarrow> return_prog () c
          | Some m \<Rightarrow>
              bind_prog (processDetached listener m) (\<lambda>u s.
                if less_number prevMinHeight (minHeight s) then loop listener s else return_prog () s) c) = Some y"
      and L: "listener = processNewBlock comps" and rep: "rep_ok B c"
    show "?ok c y"
    proof (cases "minHeight c")
      case None
      with body rep show ?thesis by (auto simp: Let_def)
    next
      case (Some m)
      with body obtain y1 where y1: "processDetached listener m c = Some y1"
        by (auto simp: Let_def bind_prog_def split: bind_splits)
      from processDetached_steps [OF ret rep y1 [unfolded L], of new] obtain c1 where
        c1: "y1 = (Inr (), c1)" "rep_ok B c1" "(cache_step comps B new)\<^sup>*\<^sup>* c c1" by (cases y1) auto
      from body Some y1 c1(1) consider "y = (Inr (), c1)" | "loop listener c1 = Some y"
        by (auto simp: Let_def split: if_splits)
      then show ?thesis
      proof cases
        case 2
        from IH [OF this] L c1(2,3) show ?thesis by (meson rtranclp_trans)
      qed (use c1 in simp)
    qed
  qed
  with assms show ?thesis by blast
qed

section \<open>Adding a block\<close>

lemma addBlock_steps:
  assumes ret: "components_return comps B" and rep: "rep_ok B c" and b: "names B b"
    and run: "addBlock (processNewBlock comps) b c = Some (r, c')"
  shows "(cache_step comps B {b})\<^sup>*\<^sup>* c c'"
proof (cases "att c (block_hash b) = None \<and> \<not> less_number (Some (number b)) (minHeight c)")
  case False
  then have "c' = c" using run by (auto simp: addBlock_def Let_def return_prog_def split: if_splits)
  then show ?thesis by simp
next
  case True
  let ?c1 = "if mIsEmpty c then c\<lparr>pruneHeight := Some (number b), mIsEmpty := False\<rparr> else c"
  have c1: "rep_ok B ?c1" "att ?c1 = att c" "same_states c ?c1" "emitted ?c1 = emitted c"
    using rep by (auto intro: same_states_items)
  obtain s1 s2 where
    s: "on_store (block_set (number b) (block_hash b) b) ?c1 = (Inr (), ?c1\<lparr>blockStore := s1\<rparr>)"
      "on_store (attached_set (number b) (block_hash b) (canAttachBlock ?c1 b)) (?c1\<lparr>blockStore := s1\<rparr>) = (Inr (), ?c1\<lparr>blockStore := s2\<rparr>)"
      "rep_ok B (?c1\<lparr>blockStore := s2\<rparr>)" "att (?c1\<lparr>blockStore := s2\<rparr>) = (att ?c1)(block_hash b \<mapsto> canAttachBlock ?c1 b)"
      "same_states ?c1 (?c1\<lparr>blockStore := s2\<rparr>)"
    by (rule put_block_states [OF c1(1) b])
  let ?c2 = "?c1\<lparr>blockStore := s2\<rparr>"
  have same: "same_states c ?c2" "emitted ?c2 = emitted c" using c1(3,4) s(5) by (simp_all add: same_states_def)
  note att2 = s(4) [unfolded c1(2)]
  show ?thesis
  proof (cases "canAttachBlock ?c1 b")
    case False
    have "c' = ?c2" using run True False s(1,2) by (simp add: addBlock_def Let_def then_prog_def)
    moreover have "cache_step comps B {b} c ?c2"
      by (rule cache_step.wait [OF _ b _ _ same]) (use True False att2 in auto)
    ultimately show ?thesis by auto
  next
    case can: True
    obtain c3 where c3: "emit (processNewBlock comps) b ?c2 = Some (Inr (), c3)" "rep_ok B c3" "cache_step comps B {b} c c3"
      by (rule emit_step [OF ret _ b _ s(3) _ same]) (use True can att2 in auto)
    obtain c4 where c4: "updateMaxHeightAndPrune (number b) c3 = (Inr (), c4)" "rep_ok B c4" "(cache_step comps B {b})\<^sup>*\<^sup>* c3 c4"
      by (rule update_steps [OF c3(2)])
    have rest: "then_prog (processDetached (processNewBlock comps) (number b + 1))
        (then_prog (processDetachedBlocksAtMinHeight (processNewBlock comps)) (return_prog Added)) c4 = Some (r, c')"
      using run True can s(1,2) c3(1) c4(1) by (simp add: addBlock_def Let_def then_prog_def)
    then obtain y where y: "processDetached (processNewBlock comps) (number b + 1) c4 = Some y"
      by (auto simp: then_prog_def bind_prog_def split: bind_splits)
    from processDetached_steps [OF ret c4(2) y, of "{b}"] obtain c5 where
      c5: "y = (Inr (), c5)" "rep_ok B c5" "(cache_step comps B {b})\<^sup>*\<^sup>* c4 c5" by (cases y) auto
    from rest y c5(1) obtain z where z: "processDetachedBlocksAtMinHeight (processNewBlock comps) c5 = Some z"
      by (auto simp: then_prog_def bind_prog_def split: bind_splits)
    from minHeight_steps [OF ret c5(2) z, of "{b}"] have "fst z = Inr ()" "(cache_step comps B {b})\<^sup>*\<^sup>* c5 (snd z)" by auto
    moreover from this(1) rest y c5(1) z have "snd z = c'" by (cases z) (auto simp: then_prog_def)
    ultimately have "(cache_step comps B {b})\<^sup>*\<^sup>* c5 c'" by simp
    with c3(3) c4(3) c5(3) show ?thesis by (meson converse_rtranclp_into_rtranclp rtranclp_trans)
  qed
qed

section \<open>Batches and calls\<close>

text \<open>A batch changes the store only by what runs in it.\<close>

lemma with_batch_items:
  assumes "with_batch db_ok callback m = Some (r, m')" "mBatch (blockStore (cache m)) = None"
  obtains r1 m1 where "callback (m\<lparr>cache := opened (cache m)\<rparr>) = Some (r1, m1)"
    "cache_step comps B new (cache m) (opened (cache m))" "cache_step comps B new (cache m1) (cache m')"
proof -
  have eq: "on_batch_store (\<lambda>s. s\<lparr>mBatch := Some []\<rparr>) m = m\<lparr>cache := opened (cache m)\<rparr>"
    by (simp add: on_batch_store_def opened_def)
  from assms obtain r1 m1 where m1: "callback (m\<lparr>cache := opened (cache m)\<rparr>) = Some (r1, m1)"
    by (auto simp: with_batch_def eq)
  have "cache_step comps B new (cache m) (opened (cache m))" by (rule keep_items) (simp_all add: opened_def)
  moreover have "\<exists>f. m' = on_batch_store f m1 \<and> (\<forall>s. items (f s) = items s)"
    using assms m1 by (cases r1; cases db_ok) (auto simp: with_batch_def eq)
  then have "cache_step comps B new (cache m1) (cache m')"
    by (intro keep_items) (auto simp: on_batch_store_def)
  ultimately show thesis by (rule that [OF m1])
qed

lemma add_call_steps:
  assumes ret: "components_return comps B" and ok: "cache_ok B bs (cache m)" and b: "names B b"
    and run: "with_batch db_ok (on_cache_prog (addBlock (processNewBlock comps) b)) m = Some (r, m')"
  shows "(cache_step comps B {b})\<^sup>*\<^sup>* (cache m) (cache m')"
proof -
  note C = cache_okD(1,2) [OF ok]
  obtain r1 m1 where m1: "on_cache_prog (addBlock (processNewBlock comps) b) (m\<lparr>cache := opened (cache m)\<rparr>) = Some (r1, m1)"
    "cache_step comps B {b} (cache m) (opened (cache m))" "cache_step comps B {b} (cache m1) (cache m')"
    by (rule with_batch_items [OF run C(1)])
  from m1(1) have "addBlock (processNewBlock comps) b (opened (cache m)) = Some (r1, cache m1)"
    by (auto simp: on_cache_prog_def)
  from addBlock_steps [OF ret run_inv_rep [OF C(2)] b this] m1(2,3) show ?thesis
    by (meson converse_rtranclp_into_rtranclp rtranclp.rtrancl_into_rtrancl)
qed

lemma head_call_steps:
  assumes ok: "cache_ok B bs (cache m)" and h: "names B h"
    and run: "with_batch db_ok (lift_eff (processNewHead env comps h)) m = Some (r, m')"
  shows "(cache_step comps B new)\<^sup>*\<^sup>* (cache m) (cache m')"
proof -
  note C = cache_okD(1,2) [OF ok]
  obtain r1 m1 where m1: "lift_eff (processNewHead env comps h) (m\<lparr>cache := opened (cache m)\<rparr>) = Some (r1, m1)"
    "cache_step comps B new (cache m) (opened (cache m))" "cache_step comps B new (cache m1) (cache m')"
    by (rule with_batch_items [OF run C(1)])
  have "cache_step comps B new (opened (cache m)) (cache m1)"
    using head_loop_cache [OF _ _ h, of env comps "m\<lparr>cache := opened (cache m)\<rparr>" r1 m1 bs] m1(1) C(2)
    by (intro cache_step.keep) (auto simp: processNewHead_def emits_states_def)
  with m1(2,3) show ?thesis by (meson converse_rtranclp_into_rtranclp r_into_rtranclp)
qed

fun added_by :: "'b IBlockStub_scheme block_call \<Rightarrow> 'b IBlockStub_scheme set" where
  "added_by (AddToCache target processing obs cur) = {cur}"
| "added_by call = {}"

text \<open>The end of a batch changes at most the head.\<close>

lemma batch_done_step:
  assumes "batch_done target processing obs p = (call', p')"
  shows "cache_step comps B new (processor_cache p) (processor_cache p')"
  by (rule keep_items)
    (use assms in \<open>auto simp: batch_done_def setHead_def split: if_splits prod.splits sum.splits\<close>)

lemma call_cache_steps:
  assumes ret: "components_return comps B" and ok: "cache_ok B bs (processor_cache p)"
    and call: "call_ok B (processor_cache p) call"
    and step: "block_call_step (machine_newBlock comps) (machine_newHead env comps) db_ok answer call p = Some (call', p')"
  shows "(cache_step comps B (added_by call))\<^sup>*\<^sup>* (processor_cache p) (processor_cache p')"
proof (cases call)
  case (AddToCache target processing obs cur)
  with step obtain r m' where
    m': "with_batch db_ok (on_cache_prog (addBlock (processNewBlock comps) cur)) (chain_machine p) = Some (r, m')"
      "(case r of Inl e \<Rightarrow> (Ended, p\<lparr>chain_machine := m'\<rparr>)
        | Inr addResult \<Rightarrow>
            if addResult \<noteq> AddedDetached \<and> addResult \<noteq> NotAddedAlreadyExistedDetached
            then batch_done target processing obs (p\<lparr>chain_machine := m'\<rparr>)
            else (next_parent target processing obs cur (p\<lparr>chain_machine := m'\<rparr>), p\<lparr>chain_machine := m'\<rparr>)) = (call', p')"
    by (auto simp: Let_def)
  have "names B cur" using call AddToCache by simp
  from add_call_steps [OF ret ok this m'(1)] have "(cache_step comps B {cur})\<^sup>*\<^sup>* (processor_cache p) (cache m')" .
  moreover have "cache_step comps B {cur} (cache m') (processor_cache p')"
    using m'(2) batch_done_step [of target processing obs "p\<lparr>chain_machine := m'\<rparr>" call' p' comps B "{cur}"]
    by (auto simp: keep_items split: sum.splits if_splits)
  ultimately show ?thesis using AddToCache by (auto intro: rtranclp.rtrancl_into_rtrancl)
next
  case (EmitHead b)
  with call cache_ok_emitted(3) [OF ok] have "names B b" by simp
  moreover from EmitHead step obtain r m' where
    "with_batch db_ok (lift_eff (processNewHead env comps b)) (chain_machine p) = Some (r, m')" "processor_cache p' = cache m'" by auto
  ultimately show ?thesis using head_call_steps [OF ok] by auto
next
  case (SaveHead b)
  with step have "processor_cache p' = processor_cache p" by (auto simp: setLatestHeadNumber_def split: if_splits)
  then show ?thesis by simp
qed (use step in \<open>auto split: sum.splits\<close>)

end
