(* ===== verification/ChainStates.thy ===== *)
theory ChainStates
  imports CacheSteps
begin

text \<open>
  The anchor states in a run of the block processor: however its calls interleave, the state of an attached
  block is the one its reducer makes of the state of its parent, provided the parent was announced first; and
  the state a block got without its parent is never corrected.
\<close>

section \<open>What a component makes of a state\<close>

text \<open>The components may change from one step to the next, with the appointments and the responses there are.  What is
  asked of each of them: the states it makes of a block are \<open>valid\<close> ones, and a state it makes of a valid one
  \<open>follow\<close>s it.\<close>

definition makes_states ::
  "('b IBlockStub_scheme \<Rightarrow> 's \<Rightarrow> bool) \<Rightarrow> ('s \<Rightarrow> 'b IBlockStub_scheme \<Rightarrow> 's \<Rightarrow> bool) \<Rightarrow>
   ('b IBlockStub_scheme, 's, 'a) Component \<Rightarrow> bool" where
  "makes_states valid follow component \<longleftrightarrow>
     (\<forall>c b s. getInitialState (reducer component c) b = Some (Inr s) \<longrightarrow> valid b s) \<and>
     (\<forall>c a b s s'. valid a s \<longrightarrow> reduce (reducer component c) s b = Some (Inr s') \<longrightarrow> valid b s' \<and> follow s b s')"

lemma makes_statesD:
  assumes "makes_states valid follow component"
  shows "getInitialState (reducer component c) b = Some (Inr s) \<Longrightarrow> valid b s"
    "valid a s \<Longrightarrow> reduce (reducer component c) s b = Some (Inr s') \<Longrightarrow> valid b s'"
    "valid a s \<Longrightarrow> reduce (reducer component c) s b = Some (Inr s') \<Longrightarrow> follow s b s'"
  using assms unfolding makes_states_def by blast+

text \<open>A component that stays the same and whose reducer needs no cache for a valid state: one step depends on the next
  block alone.\<close>

definition cache_free :: "('b IBlockStub_scheme, 's, 'a) Component \<Rightarrow> ('b IBlockStub_scheme \<Rightarrow> 's \<Rightarrow> bool) \<Rightarrow> bool" where
  "cache_free component valid \<longleftrightarrow>
     (\<forall>c b s. getInitialState (reducer component c) b = Some (Inr s) \<longrightarrow> valid b s) \<and>
     (\<forall>c a b s s'. valid a s \<longrightarrow> reduce (reducer component c) s b = Some (Inr s') \<longrightarrow> valid b s') \<and>
     (\<forall>c c' a b s. valid a s \<longrightarrow> reduce (reducer component c') s b = reduce (reducer component c) s b)"

abbreviation reduced :: "('b IBlockStub_scheme, 's, 'a) Component \<Rightarrow> 's \<Rightarrow> 'b IBlockStub_scheme \<Rightarrow> 's \<Rightarrow> bool" where
  "reduced component s b s' \<equiv> \<forall>c. reduce (reducer component c) s b = Some (Inr s')"

lemma cache_free_makes_states: "cache_free component valid \<Longrightarrow> makes_states valid (reduced component) component"
  unfolding cache_free_def makes_states_def by metis

section \<open>Announced before\<close>

definition announced_before :: "('b, 's) BlockCache \<Rightarrow> 'b \<Rightarrow> 'b \<Rightarrow> bool" where
  "announced_before c b b' \<longleftrightarrow> (\<exists>xs ys zs. emitted c = xs @ b # ys @ b' # zs)"

lemma announced_before_in: "announced_before c b b' \<Longrightarrow> b \<in> set (emitted c) \<and> b' \<in> set (emitted c)"
  by (auto simp: announced_before_def)

lemma announced_before_snoc:
  assumes "announced_before c' b b'" "emitted c' = emitted c @ [e]" "distinct (emitted c')" "b' \<noteq> e"
  shows "announced_before c b b'" "b \<noteq> e"
proof -
  obtain xs ys zs where eq: "emitted c @ [e] = xs @ b # ys @ b' # zs"
    using assms(1,2) by (auto simp: announced_before_def)
  with assms(4) obtain zs' where "zs = zs' @ [e]" by (cases zs rule: rev_cases) auto
  with eq show "announced_before c b b'" by (auto simp: announced_before_def)
  then have "b \<in> set (emitted c)" by (auto dest: announced_before_in)
  with assms(2,3) show "b \<noteq> e" by auto
qed

section \<open>The states of the attached blocks\<close>

definition states_follow ::
  "'b naming \<Rightarrow> string \<Rightarrow> ('b IBlockStub_scheme \<Rightarrow> 's \<Rightarrow> bool) \<Rightarrow> ('s \<Rightarrow> 'b IBlockStub_scheme \<Rightarrow> 's \<Rightarrow> bool) \<Rightarrow>
   ('b IBlockStub_scheme, 's) BlockCache \<Rightarrow> bool" where
  "states_follow B n valid follow c \<longleftrightarrow>
     (\<forall>h. att c h = Some True \<longrightarrow> (\<exists>s. anchor c n h = Some s \<and> valid (B h) s \<and>
        (att c (parentHash (B h)) = Some True \<and> announced_before c (B (parentHash (B h))) (B h) \<longrightarrow>
           (\<exists>prev. anchor c n (parentHash (B h)) = Some prev \<and> follow prev (B h) s))))"

text \<open>Every anchor state, also one that a later prune will drop, is valid for its block.\<close>

definition anchors_valid ::
  "'b naming \<Rightarrow> string \<Rightarrow> ('b IBlockStub_scheme \<Rightarrow> 's \<Rightarrow> bool) \<Rightarrow> ('b IBlockStub_scheme, 's) BlockCache \<Rightarrow> bool" where
  "anchors_valid B n valid c \<longleftrightarrow> (\<forall>h s. real B h \<longrightarrow> anchor c n h = Some s \<longrightarrow> valid (B h) s)"

definition reals :: "'b naming \<Rightarrow> ('b IBlockStub_scheme, 's) BlockCache \<Rightarrow> bool" where
  "reals B c \<longleftrightarrow> (\<forall>h. att c h \<noteq> None \<longrightarrow> real B h)"

text \<open>What the machine writes for a block that is attached.\<close>

lemma attach_states:
  assumes comps: "components_return comps B" "\<forall>component\<in>set comps. reads_blocks B component"
      "distinct (map component_name comps)"
    and c1: "names B b" "rep_ok B c1" "att c1 (block_hash b) = Some True" "processNewBlock comps b c1 = Some (Inr (), c')"
  shows "rep_ok B c'" "att c' = att c1" "emitted c' = emitted c1"
    "colon_free h \<Longrightarrow> h \<noteq> block_hash b \<Longrightarrow> anchor c' n h = anchor c1 n h"
    "component \<in> set comps \<Longrightarrow> \<exists>s p. state_for component b c1 = Some (Inr (s, p)) \<and>
       anchor c' (component_name component) (block_hash b) = Some s"
proof -
  from processNewBlock_states [OF comps c1(2,1,3)] c1(4) show "rep_ok B c'" "att c' = att c1"
    "colon_free h \<Longrightarrow> h \<noteq> block_hash b \<Longrightarrow> anchor c' n h = anchor c1 n h"
    "component \<in> set comps \<Longrightarrow> \<exists>s p. state_for component b c1 = Some (Inr (s, p)) \<and>
       anchor c' (component_name component) (block_hash b) = Some s" by fastforce+
  from processNewBlock_keeps [OF comps(1) c1(2,1,3)] c1(4) show "emitted c' = emitted c1" by auto
qed

lemma cache_step_reals: "cache_step comps B new c c' \<Longrightarrow> components_return comps B \<Longrightarrow> reals B c \<Longrightarrow> reals B c'"
proof (induction rule: cache_step.induct)
  case (attach b c c1 c')
  then have "att c1 (block_hash b) = Some True" by simp
  from processNewBlock_keeps [OF \<open>components_return comps B\<close> attach.hyps(4,2) this] attach.hyps(8) have "rep_ok B c'" by auto
  then show ?case by (auto simp: reals_def dest: rep_okD(3))
qed (auto simp: reals_def names_def real_def)

lemma cache_step_emitted: "cache_step comps B new c c' \<Longrightarrow> components_return comps B \<Longrightarrow> \<exists>es. emitted c' = emitted c @ es"
proof (induction rule: cache_step.induct)
  case (attach b c c1 c')
  then have "att c1 (block_hash b) = Some True" by simp
  from processNewBlock_keeps [OF \<open>components_return comps B\<close> attach.hyps(4,2) this] attach.hyps(7,8) show ?case by auto
qed auto

text \<open>One step keeps the states in line, if no block is announced twice.\<close>

lemma states_follow_attach:
  assumes makes: "makes_states valid follow component" and comp: "component \<in> set comps" and links: "links B"
    and n: "component_name component = n"
    and comps: "components_return comps B" "\<forall>component\<in>set comps. reads_blocks B component" "distinct (map component_name comps)"
    and b: "names B b" "att c (block_hash b) \<noteq> Some True" "rep_ok B c1" "att c1 = (att c)(block_hash b \<mapsto> True)"
      "same_states c c1" "emitted c1 = emitted c @ [b]" "processNewBlock comps b c1 = Some (Inr (), c')"
    and dist: "distinct (emitted c')" and inv: "states_follow B n valid follow c"
  shows "states_follow B n valid follow c'"
  unfolding states_follow_def
proof (intro allI impI)
  let ?n = n and ?hb = "block_hash b"
  have Bb: "B ?hb = b" "colon_free ?hb" using b(1) by (auto simp: names_def)
  have "att c1 ?hb = Some True" using b(4) by simp
  note A = attach_states [OF comps b(1,3) this b(7)]
  fix h assume h: "att c' h = Some True"
  have real: "real B x" if "att c' x \<noteq> None" for x using that rep_okD(3) [OF A(1)] by blast
  have em: "emitted c' = emitted c @ [b]" using A(3) b(6) by simp
  have old: "anchor c' ?n x = anchor c ?n x" if "att c' x \<noteq> None" "x \<noteq> ?hb" for x
    using that A(4) [of x ?n] b(5) real [of x] by (simp add: same_states_def real_def)
  let ?p = "parentHash (B h)"
  show "\<exists>s. anchor c' ?n h = Some s \<and> valid (B h) s \<and>
      (att c' ?p = Some True \<and> announced_before c' (B ?p) (B h) \<longrightarrow>
        (\<exists>prev. anchor c' ?n ?p = Some prev \<and> follow prev (B h) s))"
  proof (cases "h = ?hb")
    case False
    then have "att c h = Some True" using h A(2) b(4) by simp
    with inv obtain s where s: "anchor c ?n h = Some s" "valid (B h) s"
      "att c ?p = Some True \<Longrightarrow> announced_before c (B ?p) (B h) \<Longrightarrow>
        \<exists>prev. anchor c ?n ?p = Some prev \<and> follow prev (B h) s"
      unfolding states_follow_def by blast
    have ne: "B h \<noteq> b" using False real [of h] h by (auto simp: real_def)
    have "\<exists>prev. anchor c' ?n ?p = Some prev \<and> follow prev (B h) s"
      if p: "att c' ?p = Some True" "announced_before c' (B ?p) (B h)"
    proof -
      from announced_before_snoc [OF p(2) em dist ne] have "announced_before c (B ?p) (B h)" "B ?p \<noteq> b" by auto
      moreover from this(2) have "?p \<noteq> ?hb" using Bb by auto
      ultimately show ?thesis using s(3) p(1) old [of ?p] A(2) b(4) by simp
    qed
    with s(1,2) old [of h] h False show ?thesis by auto
  next
    case True
    obtain s p where s: "state_for component b c1 = Some (Inr (s, p))" "anchor c' ?n ?hb = Some s" using A(5) [OF comp] n by blast
    note cs = state_for_cases [OF b(3) s(1)]
    have "real B ?hb" using b(1) by (auto simp: names_def real_def)
    then have self: "parentHash b \<noteq> ?hb" if "real B (parentHash b)"
      using links that Bb(1) unfolding links_def by (metis add.right_neutral add_left_cancel zero_neq_one)
    have par: "\<exists>prev. anchor c ?n (parentHash b) = Some prev \<and> anchor c' ?n (parentHash b) = Some prev \<and> valid (B (parentHash b)) prev \<and>
        reduce (reducer component c1) prev b = Some (Inr s)" if att: "att c1 (parentHash b) = Some True"
    proof -
      have p: "real B (parentHash b)" using real [of "parentHash b"] att A(2) by simp
      then have "att c (parentHash b) = Some True" using self att b(4) by simp
      with inv obtain prev where prev: "anchor c ?n (parentHash b) = Some prev" "valid (B (parentHash b)) prev"
        unfolding states_follow_def by blast
      have "colon_free (parentHash b)" using p by (simp add: real_def)
      with prev(1) b(5) have "anchor c1 ?n (parentHash b) = Some prev" by (simp add: same_states_def)
      with cs att have "reduce (reducer component c1) prev b = Some (Inr s)" unfolding n by auto
      moreover have "anchor c' ?n (parentHash b) = Some prev" using old [of "parentHash b"] att A(2) self [OF p] prev(1) by simp
      ultimately show ?thesis using prev by blast
    qed
    have "valid b s"
      using cs par by (cases "att c1 (parentHash b) = Some True") (auto intro: makes_statesD(1,2) [OF makes])
    with s(2) par makes_statesD(3) [OF makes] show ?thesis unfolding True Bb(1) by (metis A(2))
  qed
qed

lemma anchors_valid_attach:
  assumes makes: "makes_states valid follow component" and comp: "component \<in> set comps" "component_name component = n"
    and comps: "components_return comps B" "\<forall>component\<in>set comps. reads_blocks B component" "distinct (map component_name comps)"
    and b: "names B b" "rep_ok B c1" "att c1 (block_hash b) = Some True" "same_states c c1" "processNewBlock comps b c1 = Some (Inr (), c')"
    and inv: "anchors_valid B n valid c"
  shows "anchors_valid B n valid c'"
  unfolding anchors_valid_def
proof (intro allI impI)
  fix h s assume h: "real B h" "anchor c' n h = Some s"
  note A = attach_states [OF comps b(1-3,5)]
  have old: "anchor c1 n x = anchor c n x" if "real B x" for x
    using b(4) that by (simp add: same_states_def real_def)
  show "valid (B h) s"
  proof (cases "h = block_hash b")
    case False
    with h A(4) [of h n] old [of h] inv show ?thesis by (auto simp: anchors_valid_def real_def)
  next
    case True
    then have Bh: "B h = b" using b(1) by (simp add: names_def)
    obtain p where s: "state_for component b c1 = Some (Inr (s, p))" using A(5) [OF comp(1)] comp(2) h(2) True by auto
    note cs = state_for_cases [OF b(2) s]
    show ?thesis
    proof (cases "att c1 (parentHash b) = Some True")
      case False
      with cs makes_statesD(1) [OF makes] show ?thesis by (auto simp: Bh)
    next
      case par: True
      then have p: "real B (parentHash b)" using rep_okD(3) [OF b(2)] by blast
      have init: "valid (B (parentHash b)) x" if "getInitialState (reducer component c1) (B (parentHash b)) = Some (Inr x)" for x
        using makes_statesD(1) [OF makes that] .
      have old_valid: "valid (B (parentHash b)) x" if "anchor c1 n (parentHash b) = Some x" for x
        using that old [OF p] inv p by (simp add: anchors_valid_def)
      from cs par have "\<exists>prev. valid (B (parentHash b)) prev \<and> reduce (reducer component c1) prev b = Some (Inr s)"
        using init old_valid comp(2) by (cases "anchor c1 n (parentHash b)") auto
      with makes_statesD(2) [OF makes] show ?thesis by (auto simp: Bh)
    qed
  qed
qed

text \<open>The invariant of a run, with what is asked of the components.\<close>

definition components_fit ::
  "('b IBlockStub_scheme, 's, 'a) Component list \<Rightarrow> 'b naming \<Rightarrow> string \<Rightarrow> ('b IBlockStub_scheme \<Rightarrow> 's \<Rightarrow> bool) \<Rightarrow>
   ('s \<Rightarrow> 'b IBlockStub_scheme \<Rightarrow> 's \<Rightarrow> bool) \<Rightarrow> bool" where
  "components_fit comps B n valid follow \<longleftrightarrow>
     components_return comps B \<and> (\<forall>component\<in>set comps. reads_blocks B component) \<and>
     distinct (map component_name comps) \<and> links B \<and>
     (\<exists>component\<in>set comps. component_name component = n \<and> makes_states valid follow component)"

definition fit_step ::
  "'b naming \<Rightarrow> string \<Rightarrow> ('b IBlockStub_scheme \<Rightarrow> 's \<Rightarrow> bool) \<Rightarrow> ('s \<Rightarrow> 'b IBlockStub_scheme \<Rightarrow> 's \<Rightarrow> bool) \<Rightarrow> 'a itself \<Rightarrow>
   ('b IBlockStub_scheme, 's) BlockCache \<Rightarrow> ('b IBlockStub_scheme, 's) BlockCache \<Rightarrow> bool" where
  "fit_step B n valid follow ty c c' \<longleftrightarrow>
     (\<exists>(comps :: ('b IBlockStub_scheme, 's, 'a) Component list) new.
        components_fit comps B n valid follow \<and> cache_step comps B new c c')"

lemma fit_steps:
  fixes comps :: "('b IBlockStub_scheme, 's, 'a) Component list"
  assumes "components_fit comps B n valid follow" "(cache_step comps B new)\<^sup>*\<^sup>* c c'"
  shows "(fit_step B n valid follow TYPE('a))\<^sup>*\<^sup>* c c'"
proof -
  have "cache_step comps B new \<le> fit_step B n valid follow TYPE('a)"
    using assms(1) unfolding fit_step_def by blast
  from rtranclp_mono [OF this] assms(2) show ?thesis by blast
qed

definition follows_inv ::
  "'b naming \<Rightarrow> string \<Rightarrow> ('b IBlockStub_scheme \<Rightarrow> 's \<Rightarrow> bool) \<Rightarrow> ('s \<Rightarrow> 'b IBlockStub_scheme \<Rightarrow> 's \<Rightarrow> bool) \<Rightarrow>
   ('b IBlockStub_scheme, 's) BlockCache \<Rightarrow> bool" where
  "follows_inv B n valid follow c \<longleftrightarrow> reals B c \<and> anchors_valid B n valid c \<and>
     (distinct (emitted c) \<longrightarrow> states_follow B n valid follow c)"

lemma anchors_valid_step:
  assumes fit: "components_fit comps B n valid follow" and step: "cache_step comps B new c c'"
    and inv: "anchors_valid B n valid c"
  shows "anchors_valid B n valid c'"
  using step
proof cases
  case (attach b c1)
  from fit obtain component where comps: "components_return comps B" "\<forall>component\<in>set comps. reads_blocks B component"
    "distinct (map component_name comps)" "component \<in> set comps" "component_name component = n" "makes_states valid follow component"
    by (auto simp: components_fit_def)
  from attach have "att c1 (block_hash b) = Some True" by simp
  from anchors_valid_attach [OF comps(6,4,5,1-3) attach(2,4) this attach(6,8) inv] show ?thesis .
next
  case keep
  with inv show ?thesis by (auto simp: anchors_valid_def emits_states_def real_def)
next
  case (wait b)
  with inv show ?thesis by (auto simp: anchors_valid_def same_states_def real_def)
next
  case (drop m)
  with inv show ?thesis by (auto simp: anchors_valid_def real_def split: if_splits)
qed

lemma states_follow_same:
  assumes "states_follow B n valid follow c" "emitted c' = emitted c" "reals B c'"
    and "\<And>h. att c' h = Some True \<Longrightarrow> att c h = Some True"
    and "\<And>h. att c' h = Some True \<Longrightarrow> anchor c' n h = anchor c n h"
  shows "states_follow B n valid follow c'"
  using assms(1) unfolding states_follow_def
  by (simp add: announced_before_def assms(2)) (metis assms(4,5))

interpretation state_run: step_invariant "fit_step B n valid follow TYPE('a)" "follows_inv B n valid follow"
  for B n valid follow
proof
  fix c c' assume inv: "follows_inv B n valid follow c" and fit_step: "fit_step B n valid follow TYPE('a) c c'"
  from fit_step obtain comps :: "('b IBlockStub_scheme, 'c, 'a) Component list" and new where
    fit: "components_fit comps B n valid follow" and step: "cache_step comps B new c c'"
    by (auto simp: fit_step_def)
  from inv have I: "reals B c" "distinct (emitted c) \<Longrightarrow> states_follow B n valid follow c" "anchors_valid B n valid c"
    by (auto simp: follows_inv_def)
  from fit obtain component where comps: "components_return comps B" "\<forall>component\<in>set comps. reads_blocks B component"
    "distinct (map component_name comps)" "links B" "component \<in> set comps" "component_name component = n" "makes_states valid follow component"
    by (auto simp: components_fit_def)
  have real: "reals B c'" by (rule cache_step_reals [OF step comps(1) I(1)])
  then have free: "colon_free h" if "att c' h = Some True" for h using that by (auto simp: reals_def real_def)
  from step have "states_follow B n valid follow c'" if dist: "distinct (emitted c')"
  proof cases
    case keep
    show ?thesis
      by (rule states_follow_same [OF I(2) keep(3) real]) (use keep dist free in \<open>auto simp: emits_states_def\<close>)
  next
    case (wait b)
    show ?thesis
      by (rule states_follow_same [OF I(2) wait(6) real])
        (use wait dist free in \<open>auto simp: same_states_def split: if_splits\<close>)
  next
    case (drop m)
    show ?thesis
      by (rule states_follow_same [OF I(2) drop(3) real]) (use drop dist free in \<open>auto split: if_splits\<close>)
  next
    case (attach b c1)
    then have "att c1 (block_hash b) = Some True" by simp
    note A = attach_states [OF comps(1-3) attach(2,4) this attach(8)]
    have "distinct (emitted c)" using dist A(3) attach(7) by simp
    from states_follow_attach [OF comps(7,5,4,6,1-3) attach(2-8) dist I(2) [OF this]] show ?thesis .
  qed
  with real anchors_valid_step [OF fit step I(3)] show "follows_inv B n valid follow c'"
    by (simp add: follows_inv_def)
qed

lemma initial_follows: "follows_inv B n valid follow (new_BlockCache depth (new_BlockItemStore []))"
  by (simp add: follows_inv_def reals_def states_follow_def anchors_valid_def new_BlockCache_def new_BlockItemStore_def attached_get_items
      anchor_items)

section \<open>Runs of the block processor\<close>

lemma processor_step_cache:
  assumes ret: "components_return comps B" and inv: "processor_inv B saved s"
    and step: "processor_step comps (\<lambda>call env db_ok answer. answer_ok B call answer) event_ok s s'"
  shows "(cache_step comps B UNIV)\<^sup>*\<^sup>* (processor_cache (fst s)) (processor_cache (fst s'))"
  using step inv
proof (cases rule: processor_step.cases)
  case (advance i calls env db_ok answer p call' p')
  with inv obtain bs where "cache_ok B bs (processor_cache p)" "call_ok B (processor_cache p) (calls ! i)"
    by (auto simp: processor_inv_def)
  from call_cache_steps [OF ret this] advance(5) have
    "(cache_step comps B (added_by (calls ! i)))\<^sup>*\<^sup>* (processor_cache p) (processor_cache p')" by blast
  from cache_steps_mono [OF this subset_UNIV] advance(1,2) show ?thesis by simp
qed auto

lemma processor_run_cache:
  assumes ret: "components_return comps B" and inv: "processor_inv B saved s"
    and run: "(processor_step comps (\<lambda>call env db_ok answer. answer_ok B call answer) event_ok)\<^sup>*\<^sup>* s s'"
  shows "processor_inv B saved s' \<and> (cache_step comps B UNIV)\<^sup>*\<^sup>* (processor_cache (fst s)) (processor_cache (fst s'))"
  using run
proof (induction rule: rtranclp_induct)
  case (step s' s'')
  from processor_step_cache [OF ret _ step.hyps(2)] processor_step_inv [OF ret step.hyps(2)] step.IH show ?case
    by (meson rtranclp_trans)
qed (use inv in simp)

text \<open>Blocks from \<open>a\<close> on, each announced after its parent and still in the cache.\<close>

fun announced_chain :: "('b IBlockStub_scheme, 's) BlockCache \<Rightarrow> 'b IBlockStub_scheme \<Rightarrow> 'b IBlockStub_scheme list \<Rightarrow> bool" where
  "announced_chain c a [] \<longleftrightarrow> True"
| "announced_chain c a (b # bs) \<longleftrightarrow>
     att c (block_hash b) = Some True \<and> parentHash b = block_hash a \<and> announced_before c a b \<and> announced_chain c b bs"

lemma announced_chain_in: "announced_chain c a bs \<Longrightarrow> b \<in> set bs \<Longrightarrow> b \<in> set (emitted c)"
  by (induction bs arbitrary: a) (auto dest: announced_before_in)

text \<open>A state for every block of such a chain, each following the one before.\<close>

fun state_chain ::
  "('b IBlockStub_scheme, 's) BlockCache \<Rightarrow> string \<Rightarrow> ('s \<Rightarrow> 'b IBlockStub_scheme \<Rightarrow> 's \<Rightarrow> bool) \<Rightarrow> 's \<Rightarrow> 'b IBlockStub_scheme list \<Rightarrow> 's \<Rightarrow> bool" where
  "state_chain c n follow s [] s' \<longleftrightarrow> s' = s"
| "state_chain c n follow s (b # bs) s' \<longleftrightarrow>
     (\<exists>s1. anchor c n (block_hash b) = Some s1 \<and> follow s b s1 \<and> state_chain c n follow s1 bs s')"

lemma states_follow_chain:
  assumes "states_follow B n valid follow c" "\<And>e. e \<in> set (emitted c) \<Longrightarrow> names B e"
    "names B a" "att c (block_hash a) = Some True" "announced_chain c a bs"
    "anchor c n (block_hash a) = Some s" "valid a s"
  shows "\<exists>s'. anchor c n (block_hash (last (a # bs))) = Some s' \<and> valid (last (a # bs)) s' \<and> state_chain c n follow s bs s'"
  using assms(3-7)
proof (induction bs arbitrary: a s)
  case (Cons b bs)
  have b: "att c (block_hash b) = Some True" "parentHash b = block_hash a" "announced_before c a b" "announced_chain c b bs" "names B b"
    using Cons.prems(3) assms(2) by (auto dest: announced_before_in)
  have B: "B (block_hash b) = b" "B (block_hash a) = a" using b(5) Cons.prems(1) by (simp_all add: names_def)
  from assms(1) b(1) obtain s1 where s1: "anchor c n (block_hash b) = Some s1" "valid b s1"
    "att c (block_hash a) = Some True \<and> announced_before c a b \<longrightarrow>
      (\<exists>prev. anchor c n (block_hash a) = Some prev \<and> follow prev b s1)"
    unfolding states_follow_def by (metis B b(2))
  with Cons.prems(2,4) b(3) have "follow s b s1" by auto
  with Cons.IH [OF b(5,1,4) s1(1,2)] s1(1) show ?case by auto
qed simp

end
