(* ===== verification/ServiceRuns.thy ===== *)
theory ServiceRuns
  imports EndToEnd WatcherProps ResponderComponentProps ChainStates
begin

text \<open>
  The watcher and the responder in a run of the block processor: their reducers return and need the cache
  only for what they have not seen yet, so the anchor states of the service follow the chain; and what
  becomes of a block that is attached before its parent.
\<close>

section \<open>The reducers of the service\<close>

lemma map_run_Inr [simp]: "map_run f m = Some (Inr y) \<longleftrightarrow> (\<exists>x. m = Some (Inr x) \<and> y = f x)"
  by (auto simp: map_run_def result_simps)

lemma side_returns:
  assumes "\<And>c h. rep_ok B c \<Longrightarrow> att c h = Some True \<Longrightarrow> \<exists>s. getInitialState (red c) (B h) = Some (Inr s)"
    "\<And>c h s. rep_ok B c \<Longrightarrow> att c h = Some True \<Longrightarrow> \<exists>s'. reduce (red c) s (B h) = Some (Inr s')"
  shows "reducer_returns B (side_component name into out_of act red detect)"
  by (auto simp: reducer_returns_def side_component_def intro: assms)

text \<open>The appointments the watcher can watch on the chain of \<open>B\<close>.\<close>

definition watches :: "'b Logs_ext TransactionHashes_ext naming \<Rightarrow> Watcher \<Rightarrow> bool" where
  "watches B w \<longleftrightarrow> links B \<and> indexes_ok (watcher_store w) \<and>
     (\<forall>a\<in>set (watched w). watchable (\<lambda>b. \<exists>h. real B h \<and> b = B h) a)"

lemma watchesD:
  assumes "watches B w"
  shows "links B" "distinct (map appointment_id (watched w))"
    "a \<in> set (watched w) \<Longrightarrow> watchable (\<lambda>b. \<exists>h. real B h \<and> b = B h) a"
  using assms watched_store(2) by (auto simp: watches_def)

lemma service_components_return:
  fixes B :: "'b Block_ext Logs_ext TransactionHashes_ext naming"
  assumes "watches B w"
  shows "components_return (service_components w rc) B"
  by (auto simp: components_return_def service_components_def intro!: side_returns
      watcher_reducer_returns [OF watchesD(1,3) [OF assms]] responder_reducer_returns [OF watchesD(1) [OF assms]])

section \<open>Blocks, not states\<close>

text \<open>Two caches with the same blocks have the same ancestries.\<close>

lemma ancestry_path_same: "(\<And>x. att c' x = att c x) \<Longrightarrow> ancestry_path B c' hs = ancestry_path B c hs"
  by (induction hs rule: ancestry_path.induct) auto

lemma mapped_items_cong:
  "(\<And>obj. obj \<in> set objs \<Longrightarrow> f obj = g obj) \<Longrightarrow> mapped_items key f objs acc = mapped_items key g objs acc"
  by (induction objs arbitrary: acc) auto

text \<open>Mapped reducers over the same items whose base reducers agree, agree.\<close>

lemma mapped_same:
  assumes "getItems r' = getItems r" "idSelector r' = idSelector r" "whole_reducer r' = whole_reducer r"
    and "\<And>obj. obj \<in> set (getItems r) \<Longrightarrow> \<exists>base base'. getBaseReducer r obj = Inr base \<and> getBaseReducer r' obj = Inr base' \<and>
      getInitialState base' b = getInitialState base b \<and> (\<forall>s. reduce base' s b = reduce base s b)"
  shows "mapped_getInitialState r' b = mapped_getInitialState r b" "mapped_reduce r' s b = mapped_reduce r s b"
proof -
  have "mapped_items (idSelector r') (\<lambda>obj. bind_run (Some (getBaseReducer r' obj)) (\<lambda>base. getInitialState base b)) (getItems r') [] =
      mapped_items (idSelector r) (\<lambda>obj. bind_run (Some (getBaseReducer r obj)) (\<lambda>base. getInitialState base b)) (getItems r) []"
    unfolding assms(1,2) by (rule mapped_items_cong) (auto dest: assms(4))
  then show "mapped_getInitialState r' b = mapped_getInitialState r b" by (simp add: mapped_getInitialState_def assms(3))
  have "mapped_items (idSelector r') (\<lambda>obj. bind_run (Some (getBaseReducer r' obj)) (\<lambda>base.
          case map_of (state_items s) (idSelector r' obj) of Some prev \<Rightarrow> reduce base prev b | None \<Rightarrow> getInitialState base b)) (getItems r') [] =
      mapped_items (idSelector r) (\<lambda>obj. bind_run (Some (getBaseReducer r obj)) (\<lambda>base.
          case map_of (state_items s) (idSelector r obj) of Some prev \<Rightarrow> reduce base prev b | None \<Rightarrow> getInitialState base b)) (getItems r) []"
    unfolding assms(1,2) by (rule mapped_items_cong) (use assms(4) in \<open>force split: option.split\<close>)
  then show "mapped_reduce r' s b = mapped_reduce r s b" by (simp add: mapped_reduce_def assms(3))
qed

lemma watcher_reads_blocks:
  fixes B :: "'b Block_ext Logs_ext TransactionHashes_ext naming"
  assumes w: "watches B w" and c: "rep_ok B c" "rep_ok B c'" "\<forall>x. att c' x = att c x" "att c h = Some True"
  shows "getInitialState (watcher_reducer w c') (B h) = getInitialState (watcher_reducer w c) (B h)"
    "reduce (watcher_reducer w c') s (B h) = reduce (watcher_reducer w c) s (B h)"
proof -
  obtain hs where path: "ancestry_path B c (h # hs)" using ancestry_path_exists [OF c(1) watchesD(1) [OF w], of h] c(4) by auto
  then have path': "ancestry_path B c' (h # hs)" by (simp only: ancestry_path_same [OF c(3) [rule_format]])
  note ev = watched_events [OF watchesD(3) [OF w] c(1) path]
  have "event_getInitialState c' (eventFilter a) from (B h) = event_getInitialState c (eventFilter a) from (B h)"
    if "a \<in> set (watched w)" for a "from"
    using event_getInitialState_path [OF c(1) path ev [OF _ that]] event_getInitialState_path [OF c(2) path' ev [OF _ that]] by simp
  then show "getInitialState (watcher_reducer w c') (B h) = getInitialState (watcher_reducer w c) (B h)"
    "reduce (watcher_reducer w c') s (B h) = reduce (watcher_reducer w c) s (B h)"
    unfolding watcher_reducer_def mapped_reducer_def StateReducer.simps by (intro mapped_same; simp)+
qed

lemma responder_reads_blocks:
  fixes B :: "'b Block_ext Logs_ext TransactionHashes_ext naming"
  assumes links: "links B" and c: "rep_ok B c" "rep_ok B c'" "\<forall>x. att c' x = att c x" "att c h = Some True"
  shows "getInitialState (responder_reducer rc c') (B h) = getInitialState (responder_reducer rc c) (B h)"
    "reduce (responder_reducer rc c') s (B h) = reduce (responder_reducer rc c) s (B h)"
proof -
  obtain hs where path: "ancestry_path B c (h # hs)" using ancestry_path_exists [OF c(1) links, of h] c(4) by auto
  then have path': "ancestry_path B c' (h # hs)" by (simp only: ancestry_path_same [OF c(3) [rule_format]])
  have "response_getInitialState r c' (B h) = response_getInitialState r c (B h)" for r
    by (simp add: response_getInitialState_path [OF c(1) path] response_getInitialState_path [OF c(2) path'])
  then show "getInitialState (responder_reducer rc c') (B h) = getInitialState (responder_reducer rc c) (B h)"
    "reduce (responder_reducer rc c') s (B h) = reduce (responder_reducer rc c) s (B h)"
    unfolding responder_reducer_def mapped_reducer_def StateReducer.simps by (intro mapped_same; simp add: response_reducer_def)+
qed

lemma side_reads_blocks:
  assumes "\<And>c c' h. rep_ok B c \<Longrightarrow> rep_ok B c' \<Longrightarrow> \<forall>x. att c' x = att c x \<Longrightarrow> att c h = Some True \<Longrightarrow>
      getInitialState (red c') (B h) = getInitialState (red c) (B h)"
    "\<And>c c' h s. rep_ok B c \<Longrightarrow> rep_ok B c' \<Longrightarrow> \<forall>x. att c' x = att c x \<Longrightarrow> att c h = Some True \<Longrightarrow>
      reduce (red c') s (B h) = reduce (red c) s (B h)"
  shows "reads_blocks B (side_component name into out_of act red detect)"
  unfolding reads_blocks_def
proof (intro allI impI, goal_cases)
  case (1 c c' h)
  from assms [OF this] show ?case by (simp add: side_component_def)
qed

lemma service_reads_blocks:
  fixes B :: "'b Block_ext Logs_ext TransactionHashes_ext naming"
  assumes "watches B w"
  shows "\<forall>component\<in>set (service_components w rc). reads_blocks B component"
  by (auto simp: service_components_def
      intro!: side_reads_blocks watcher_reads_blocks [OF assms] responder_reads_blocks [OF watchesD(1) [OF assms]])

section \<open>States that have every item\<close>

definition has_items :: "('o, 'm, 't, 'b) MappedStateReducer \<Rightarrow> ('m, 't) MappedState \<Rightarrow> bool" where
  "has_items r s \<longleftrightarrow> map fst (state_items s) = map (idSelector r) (getItems r)"

lemma mapped_has_items:
  assumes "distinct (map (idSelector r) (getItems r))"
  shows "mapped_getInitialState r b = Some (Inr s) \<Longrightarrow> has_items r s" "mapped_reduce r s0 b = Some (Inr s) \<Longrightarrow> has_items r s"
  using mapped_items_keys [OF _ assms]
  by (auto simp: has_items_def mapped_getInitialState_def mapped_reduce_def result_simps)

text \<open>On such a state reducing needs the base reducers only for one step.\<close>

lemma mapped_reduce_same:
  assumes "getItems r' = getItems r" "idSelector r' = idSelector r" "whole_reducer r' = whole_reducer r" "has_items r s"
    and "\<And>obj. obj \<in> set (getItems r) \<Longrightarrow> \<exists>base base'. getBaseReducer r obj = Inr base \<and> getBaseReducer r' obj = Inr base' \<and>
      (\<forall>s. reduce base' s b = reduce base s b)"
  shows "mapped_reduce r' s b = mapped_reduce r s b"
proof -
  have "map_of (state_items s) (idSelector r obj) \<noteq> None" if "obj \<in> set (getItems r)" for obj
  proof -
    have "idSelector r obj \<in> fst ` set (state_items s)"
      using assms(4) that by (metis has_items_def imageI list.set_map)
    then show ?thesis by (simp add: map_of_eq_None_iff)
  qed
  then have "mapped_items (idSelector r') (\<lambda>obj. bind_run (Some (getBaseReducer r' obj)) (\<lambda>base.
          case map_of (state_items s) (idSelector r' obj) of Some prev \<Rightarrow> reduce base prev b | None \<Rightarrow> getInitialState base b)) (getItems r') [] =
      mapped_items (idSelector r) (\<lambda>obj. bind_run (Some (getBaseReducer r obj)) (\<lambda>base.
          case map_of (state_items s) (idSelector r obj) of Some prev \<Rightarrow> reduce base prev b | None \<Rightarrow> getInitialState base b)) (getItems r) []"
    unfolding assms(1,2) by (intro mapped_items_cong) (use assms(5) in \<open>force split: option.split\<close>)
  then show ?thesis by (simp add: mapped_reduce_def assms(3))
qed

text \<open>The states of one side that are made for a block: a state for every item, and its number.\<close>

definition side_valid ::
  "(('m, BlockNumberState) MappedState \<Rightarrow> 'u) \<Rightarrow> string list \<Rightarrow> 'b IBlockStub_scheme \<Rightarrow> 'u \<Rightarrow> bool" where
  "side_valid into ids b s \<longleftrightarrow> (\<exists>m. s = into m \<and> map fst (state_items m) = ids \<and> blockNumber (rest m) = number b)"

lemma mapped_number:
  assumes "whole_reducer r = BlockNumberReducer"
  shows "mapped_getInitialState r b = Some (Inr s) \<Longrightarrow> blockNumber (rest s) = number b"
    "mapped_reduce r s0 b = Some (Inr s) \<Longrightarrow> blockNumber (rest s) = number b"
  using assms by (auto simp: mapped_getInitialState_def mapped_reduce_def result_simps BlockNumberReducer_def)

lemma side_cache_free:
  assumes red: "\<And>c. red c = mapped_reducer (r c)" and r: "\<And>c. getItems (r c) = objs" "\<And>c. idSelector (r c) = key" "\<And>c. whole_reducer (r c) = BlockNumberReducer"
    and dist: "distinct (map key objs)" and inv: "\<And>m. out_of (into m) = m"
    and base: "\<And>c c' obj b. obj \<in> set objs \<Longrightarrow> \<exists>base base'. getBaseReducer (r c) obj = Inr base \<and> getBaseReducer (r c') obj = Inr base' \<and>
      (\<forall>s. reduce base' s b = reduce base s b)"
  shows "cache_free (side_component name into out_of act red detect) (side_valid into (map key objs))"
proof -
  have valid: "side_valid into (map key objs) b (into m) \<longleftrightarrow> has_items (r c) m \<and> blockNumber (rest m) = number b" for m c b
  proof -
    have "into m = into m' \<longleftrightarrow> m = m'" for m' using inv by metis
    then show ?thesis by (auto simp: side_valid_def has_items_def r)
  qed
  have dist': "distinct (map (idSelector (r c)) (getItems (r c)))" for c using dist by (simp add: r)
  note H = mapped_has_items [OF dist'] and N = mapped_number [OF r(3)]
  have same: "mapped_reduce (r c') m b = mapped_reduce (r c) m b" if "has_items (r c) m" for c c' m b
    by (rule mapped_reduce_same [OF _ _ _ that]) (use base in \<open>simp_all add: r\<close>)
  show ?thesis
    unfolding cache_free_def
  proof (intro conjI allI impI)
    show "side_valid into (map key objs) b s"
      if "getInitialState (reducer (side_component name into out_of act red detect) c) b = Some (Inr s)" for c b s
      using that H(1) N(1) by (auto simp: side_component_def red mapped_reducer_def valid [of _ _ c])
    show "side_valid into (map key objs) b s'"
      if "reduce (reducer (side_component name into out_of act red detect) c) s b = Some (Inr s')" for c b s s'
      using that H(2) N(2) by (auto simp: side_component_def red mapped_reducer_def valid [of _ _ c])
    show "reduce (reducer (side_component name into out_of act red detect) c') s b =
        reduce (reducer (side_component name into out_of act red detect) c) s b"
      if v: "side_valid into (map key objs) a s" for c c' a b s
    proof -
      from v obtain m where m: "s = into m" by (auto simp: side_valid_def)
      with v have "has_items (r c) m" by (simp add: valid [of _ _ c])
      from same [OF this, of c' b] show ?thesis by (simp add: side_component_def red mapped_reducer_def m inv)
    qed
  qed
qed

definition response_ids :: "MultiResponderComponent \<Rightarrow> string list" where
  "response_ids rc = map (\<lambda>item. req_id (request item)) (map snd (mTransactions (zStore (component_responder rc))))"

text \<open>Which states of the service are stored under the name of a component.\<close>

definition service_valid ::
  "Watcher \<Rightarrow> MultiResponderComponent \<Rightarrow> string \<Rightarrow> 'b IBlockStub_scheme \<Rightarrow> service_state \<Rightarrow> bool" where
  "service_valid w rc name =
     (if name = ''watcher'' then side_valid Inl (map appointment_id (watched w)) else side_valid Inr (response_ids rc))"

lemma service_cache_free:
  assumes "distinct (map appointment_id (watched w))" "distinct (response_ids rc)"
    "component \<in> set (service_components w rc)"
  shows "cache_free component (service_valid w rc (component_name component))"
proof -
  have watcher: "cache_free (side_component ''watcher'' Inl projl Inl (watcher_reducer w) (watcher_detectChanges w))
      (side_valid Inl (map appointment_id (watched w)))"
    by (rule side_cache_free [where r = "\<lambda>c. \<lparr>getItems = watched w,
        getBaseReducer = (\<lambda>a. EventFilterStateReducer c (eventFilter a) (a_startBlock a)),
        idSelector = appointment_id, whole_reducer = BlockNumberReducer\<rparr>"])
      (use assms(1) in \<open>simp_all add: watcher_reducer_def\<close>)
  have responder: "cache_free (side_component ''responder'' Inr projr Inr (responder_reducer rc) (\<lambda>p s. Inr (responder_detectChanges rc p s)))
      (side_valid Inr (response_ids rc))"
    unfolding response_ids_def
    by (rule side_cache_free [where r = "\<lambda>c. \<lparr>getItems = map snd (mTransactions (zStore (component_responder rc))),
        getBaseReducer = (\<lambda>item. Inr (response_reducer
           \<lparr>r_identifier = req_identifier (request item), r_appointmentId = req_id (request item),
            r_blockObserved = req_blockObserved (request item), r_address = responder_address rc\<rparr> c)),
        idSelector = (\<lambda>item. req_id (request item)), whole_reducer = BlockNumberReducer\<rparr>"])
      (use assms(2) in \<open>simp_all add: responder_reducer_def response_ids_def response_reducer_def\<close>)
  from assms(3) show ?thesis
    using watcher responder by (auto simp: service_components_def service_valid_def side_component_def)
qed

lemma service_fit:
  fixes B :: "'b Block_ext Logs_ext TransactionHashes_ext naming"
  assumes "watches B w" "distinct (response_ids rc)" "component \<in> set (service_components w rc)"
  shows "components_fit (service_components w rc) B (component_name component) (service_valid w rc (component_name component)) (reduced component)"
proof -
  have "distinct (map component_name (service_components w rc))"
    by (simp add: service_components_def side_component_def)
  with service_components_return [OF assms(1)] service_reads_blocks [OF assms(1)] watchesD(1) [OF assms(1)]
    cache_free_makes_states [OF service_cache_free [OF watchesD(2) [OF assms(1)] assms(2,3)]] assms(3)
  show ?thesis unfolding components_fit_def by blast
qed

section \<open>The states of a run\<close>

abbreviation service_run_step where
  "service_run_step w rc B event_ok \<equiv>
     processor_step (service_components w rc) (\<lambda>call env db_ok answer. answer_ok B call answer) event_ok"

lemma service_run_inv:
  fixes B :: "'b Block_ext Logs_ext TransactionHashes_ext naming"
  assumes "watches B w" "0 \<le> depth" "(service_run_step w rc B event_ok)\<^sup>*\<^sup>* (initial_processor depth saved, []) (p, calls)"
  shows "processor_inv B saved (p, calls)"
    "(cache_step (service_components w rc) B UNIV)\<^sup>*\<^sup>* (new_BlockCache depth (new_BlockItemStore [])) (processor_cache p)"
  using processor_run_cache [OF service_components_return [OF assms(1)] initial_processor_inv [OF assms(2)] assms(3)]
  by (auto simp: initial_processor_def initial_machine_def)

lemma reduced_chain:
  "state_chain c n (reduced component) s bs s' \<Longrightarrow> reduce_chain (reducer component c') s bs = Some (Inr s')"
  by (induction bs arbitrary: s) auto

lemma service_states_follow:
  fixes B :: "'b Block_ext Logs_ext TransactionHashes_ext naming"
  assumes "watches B w" "distinct (response_ids rc)" "component \<in> set (service_components w rc)" "0 \<le> depth"
    and "(service_run_step w rc B event_ok)\<^sup>*\<^sup>* (initial_processor depth saved, []) (p, calls)"
    and "att (processor_cache p) h = Some True"
  shows "\<exists>s. anchor (processor_cache p) (component_name component) h = Some s \<and>
    (\<forall>bs. announced_chain (processor_cache p) (B h) bs \<longrightarrow>
       (\<exists>s'. anchor (processor_cache p) (component_name component) (block_hash (last (B h # bs))) = Some s' \<and>
          (\<forall>c. reduce_chain (reducer component c) s bs = Some (Inr s'))))"
proof -
  let ?valid = "service_valid w rc (component_name component)"
  note R = service_run_inv [OF assms(1,4,5)]
  from R(1) obtain bs0 where ok: "cache_ok B bs0 (processor_cache p)" by (auto simp: processor_inv_def)
  let ?follow = "reduced component"
  have "follows_inv B (component_name component) ?valid ?follow (processor_cache p)"
    by (rule state_run.reach_inv [OF fit_steps [OF service_fit [OF assms(1-3)] R(2)] initial_follows])
  then have inv: "states_follow B (component_name component) ?valid ?follow (processor_cache p)"
    using cache_ok_emitted(2) [OF ok] by (simp add: follows_inv_def)
  then obtain s where s: "anchor (processor_cache p) (component_name component) h = Some s" "?valid (B h) s"
    using assms(6) unfolding states_follow_def by blast
  have h: "names B (B h)" "block_hash (B h) = h" using cache_okD(7) [OF ok, of h] assms(6) by (auto simp: names_def real_def)
  have "\<exists>s'. anchor (processor_cache p) (component_name component) (block_hash (last (B h # bs))) = Some s' \<and>
      (\<forall>c. reduce_chain (reducer component c) s bs = Some (Inr s'))"
    if "announced_chain (processor_cache p) (B h) bs" for bs
    using states_follow_chain [OF inv cache_ok_emitted(3) [OF ok] h(1) _ that _ s(2), unfolded h(2), OF _ assms(6) s(1)] reduced_chain
    by fast
  with s(1) show ?thesis by blast
qed

section \<open>Appointments and responses that change\<close>

text \<open>In the service the appointments and the responses change from one step to the next.  \<open>keys\<close> are items that stay,
  whose reducers need no cache: the states of a mapped reducer have them, and follow them.\<close>

definition items_valid :: "(('m, BlockNumberState) MappedState \<Rightarrow> 'u) \<Rightarrow> string set \<Rightarrow> 'b IBlockStub_scheme \<Rightarrow> 'u \<Rightarrow> bool" where
  "items_valid into keys b s \<longleftrightarrow> (\<exists>m. s = into m \<and> distinct (map fst (state_items m)) \<and>
     keys \<subseteq> fst ` set (state_items m) \<and> blockNumber (rest m) = number b)"

definition items_follow ::
  "(('m, BlockNumberState) MappedState \<Rightarrow> 'u) \<Rightarrow> 'k set \<Rightarrow> ('k \<Rightarrow> string) \<Rightarrow> ('k \<Rightarrow> 'm \<Rightarrow> 'b IBlockStub_scheme \<Rightarrow> 'm run) \<Rightarrow>
   'u \<Rightarrow> 'b IBlockStub_scheme \<Rightarrow> 'u \<Rightarrow> bool" where
  "items_follow into K key step s b s' \<longleftrightarrow> (\<exists>m m'. s = into m \<and> s' = into m' \<and>
     (\<forall>k\<in>K. \<exists>st st'. map_of (state_items m) (key k) = Some st \<and> map_of (state_items m') (key k) = Some st' \<and>
        step k st b = Some (Inr st')))"

lemma side_makes_states:
  fixes red :: "('b IBlockStub_scheme, 'u) BlockCache \<Rightarrow> (('m, BlockNumberState) MappedState, 'b IBlockStub_scheme) StateReducer"
  assumes red: "\<And>c. red c = mapped_reducer (r c)" and whole: "\<And>c. whole_reducer (r c) = BlockNumberReducer"
    and dist: "\<And>c. distinct (map (idSelector (r c)) (getItems (r c)))" and inv: "\<And>m. out_of (into m) = m"
    and K: "\<And>c k. k \<in> K \<Longrightarrow> \<exists>obj\<in>set (getItems (r c)). idSelector (r c) obj = key k \<and>
      (\<exists>base. getBaseReducer (r c) obj = Inr base \<and> reduce base = step k)"
  shows "makes_states (items_valid into (key ` K)) (items_follow into K key step) (side_component name into out_of act red detect)"
  unfolding makes_states_def
proof (intro conjI allI impI)
  have keys: "key ` K \<subseteq> fst ` set its" if "map fst its = map (idSelector (r c)) (getItems (r c))"
    for its :: "(string \<times> 'm) list" and c
  proof -
    have "fst ` set its = idSelector (r c) ` set (getItems (r c))" using that by (metis set_map)
    then show ?thesis using K by (metis image_eqI image_subsetI)
  qed
  have valid: "items_valid into (key ` K) b (into m)"
    if "has_items (r c) m" "blockNumber (rest m) = number b" for b :: "'b IBlockStub_scheme" and c m
    using that dist [of c] keys [OF that(1) [unfolded has_items_def]] unfolding items_valid_def has_items_def by auto
  show "items_valid into (key ` K) b s"
    if "getInitialState (reducer (side_component name into out_of act red detect) c) b = Some (Inr s)" for c b s
  proof -
    from that obtain m where m: "mapped_getInitialState (r c) b = Some (Inr m)" "s = into m"
      by (auto simp: side_component_def red mapped_reducer_def)
    show ?thesis
      unfolding m(2) by (rule valid [OF mapped_has_items(1) [OF dist m(1)] mapped_number(1) [OF whole m(1)]])
  qed
  fix c a b s s'
  assume v: "items_valid into (key ` K) a s" and "reduce (reducer (side_component name into out_of act red detect) c) s b = Some (Inr s')"
  then obtain m m' where m: "s = into m" "mapped_reduce (r c) m b = Some (Inr m')" "s' = into m'"
    "key ` K \<subseteq> fst ` set (state_items m)"
    using inv by (auto simp: side_component_def red mapped_reducer_def items_valid_def)
  show "items_valid into (key ` K) b s'"
    unfolding m(3) by (rule valid [OF mapped_has_items(2) [OF dist m(2)] mapped_number(2) [OF whole m(2)]])
  have "\<exists>st st'. map_of (state_items m) (key k) = Some st \<and> map_of (state_items m') (key k) = Some st' \<and> step k st b = Some (Inr st')"
    if k: "k \<in> K" for k
  proof -
    from K [OF k, of c] obtain obj base where obj: "obj \<in> set (getItems (r c))" "idSelector (r c) obj = key k"
      "getBaseReducer (r c) obj = Inr base" "reduce base = step k" by blast
    from m(2) have its: "mapped_items (idSelector (r c)) (\<lambda>obj. bind_run (Some (getBaseReducer (r c) obj)) (\<lambda>base.
        case map_of (state_items m) (idSelector (r c) obj) of Some prev \<Rightarrow> reduce base prev b | None \<Rightarrow> getInitialState base b))
      (getItems (r c)) [] = Some (Inr (state_items m'))"
      by (auto simp: mapped_reduce_def result_simps)
    from k m(4) obtain st where "map_of (state_items m) (key k) = Some st"
      by (metis image_subset_iff map_of_eq_None_iff not_None_eq)
    with mapped_items_get [OF its dist obj(1)] obj show ?thesis by auto
  qed
  with m(1,3) show "items_follow into K key step s b s'" unfolding items_follow_def by blast
qed

text \<open>The responses on record, as their reducers see them.\<close>

definition response_of :: "MultiResponderComponent \<Rightarrow> GasQueueItem \<Rightarrow> ResponderAppointmentReducer" where
  "response_of rc it =
     \<lparr>r_identifier = req_identifier (request it), r_appointmentId = req_id (request it),
      r_blockObserved = req_blockObserved (request it), r_address = responder_address rc\<rparr>"

definition on_record :: "MultiResponderComponent \<Rightarrow> ResponderAppointmentReducer set" where
  "on_record rc = response_of rc ` set (map snd (mTransactions (zStore (component_responder rc))))"

abbreviation watcher_follows :: "Appointment set \<Rightarrow> service_state \<Rightarrow> 'b Logs_scheme \<Rightarrow> service_state \<Rightarrow> bool" where
  "watcher_follows A \<equiv> items_follow Inl A appointment_id (\<lambda>a. event_reduce (eventFilter a))"

abbreviation responder_follows :: "ResponderAppointmentReducer set \<Rightarrow> service_state \<Rightarrow> 'b Block_scheme \<Rightarrow> service_state \<Rightarrow> bool" where
  "responder_follows R \<equiv> items_follow Inr R r_appointmentId response_reduce"

lemma service_fits:
  fixes B :: "'b Block_ext Logs_ext TransactionHashes_ext naming"
  assumes "watches B w" "distinct (response_ids rc)" "A \<subseteq> set (watched w)" "R \<subseteq> on_record rc"
  shows "components_fit (service_components w rc) B ''watcher'' (items_valid Inl (appointment_id ` A)) (watcher_follows A)"
    "components_fit (service_components w rc) B ''responder'' (items_valid Inr (r_appointmentId ` R)) (responder_follows R)"
proof -
  have "distinct (map component_name (service_components w rc))"
    by (simp add: service_components_def side_component_def)
  note fit = service_components_return [OF assms(1), of rc] service_reads_blocks [OF assms(1), of rc] this watchesD(1) [OF assms(1)]

  have "makes_states (items_valid Inl (appointment_id ` A)) (watcher_follows A)
      (side_component ''watcher'' Inl projl Inl (watcher_reducer w) (watcher_detectChanges w) :: ('b Block_scheme, service_state, service_action) Component)"
    by (rule side_makes_states [where r = "\<lambda>c. \<lparr>getItems = watched w,
        getBaseReducer = (\<lambda>a. EventFilterStateReducer c (eventFilter a) (a_startBlock a)),
        idSelector = appointment_id, whole_reducer = BlockNumberReducer\<rparr>"])
      (use watchesD(2) [OF assms(1)] assms(3) in \<open>auto simp: watcher_reducer_def\<close>)
  then show "components_fit (service_components w rc) B ''watcher'' (items_valid Inl (appointment_id ` A)) (watcher_follows A)"
    unfolding components_fit_def using fit by (auto simp: service_components_def side_component_def)
  have found: "\<exists>it\<in>set (map snd (mTransactions (zStore (component_responder rc)))). response_of rc it = k" if "k \<in> R" for k
    using assms(4) that unfolding on_record_def by auto
  have "makes_states (items_valid Inr (r_appointmentId ` R)) (responder_follows R)
      (side_component ''responder'' Inr projr Inr (responder_reducer rc) (\<lambda>p s. Inr (responder_detectChanges rc p s)) ::
        ('b Block_scheme, service_state, service_action) Component)"
    by (rule side_makes_states [where r = "\<lambda>c. \<lparr>getItems = map snd (mTransactions (zStore (component_responder rc))),
        getBaseReducer = (\<lambda>item. Inr (response_reducer (response_of rc item) c)),
        idSelector = (\<lambda>item. req_id (request item)), whole_reducer = BlockNumberReducer\<rparr>"])
      (use assms(2) in \<open>auto simp: responder_reducer_def response_ids_def response_of_def response_reducer_def
         dest!: found\<close>)
  then show "components_fit (service_components w rc) B ''responder'' (items_valid Inr (r_appointmentId ` R)) (responder_follows R)"
    unfolding components_fit_def using fit by (auto simp: service_components_def side_component_def)
qed

section \<open>Runs of the service\<close>

text \<open>A step of the processor, with the appointments and the responses there are at that moment, which may be others at
  every step, and with ids that \<open>uuid\<close> did not make before; or the end of an action.  \<open>ok\<close> tells which appointments
  and responses are there at each step.\<close>

inductive service_process for ok B event_ok where
  blocks: "watches B w \<Longrightarrow> distinct (response_ids rc) \<Longrightarrow> ok w rc \<Longrightarrow>
    processor_step (service_components w rc)
      (\<lambda>call env db_ok answer. answer_ok B call answer \<and> fresh_ids env (chain_machine p)) event_ok (p, calls) s' \<Longrightarrow>
    service_process ok B event_ok (p, calls) s'"
| action_end: "(name, a) \<in> set (running (chain_machine p)) \<Longrightarrow>
    service_process ok B event_ok (p, calls)
      (p\<lparr>chain_machine := finish_action apply_ok db_ok name a (chain_machine p)\<rparr>, calls)"

lemma processor_step_weaken:
  assumes "processor_step comps I event_ok s s'" "\<And>call env db_ok answer. I call env db_ok answer \<Longrightarrow> J call env db_ok answer"
  shows "processor_step comps J event_ok s s'"
  using assms(1) by cases (auto intro: processor_step.intros assms(2))

lemma finish_action_cache [simp]: "cache (finish_action apply_ok db_ok name a m) = cache m"
  by (simp add: finish_action_def Let_def)

lemma service_step_cache:
  fixes B :: "'b Block_ext Logs_ext TransactionHashes_ext naming"
  assumes step: "service_process ok B event_ok s t" and inv: "processor_inv B saved s"
    and here: "\<And>w rc. ok w rc \<Longrightarrow> A \<subseteq> set (watched w)" "\<And>w rc. ok w rc \<Longrightarrow> R \<subseteq> on_record rc"
  shows "processor_inv B saved t"
    "(fit_step B ''watcher'' (items_valid Inl (appointment_id ` A)) (watcher_follows A) TYPE(service_action))\<^sup>*\<^sup>*
       (processor_cache (fst s)) (processor_cache (fst t))"
    "(fit_step B ''responder'' (items_valid Inr (r_appointmentId ` R)) (responder_follows R) TYPE(service_action))\<^sup>*\<^sup>*
       (processor_cache (fst s)) (processor_cache (fst t))"
proof -
  have "processor_inv B saved t \<and>
    (fit_step B ''watcher'' (items_valid Inl (appointment_id ` A)) (watcher_follows A) TYPE(service_action))\<^sup>*\<^sup>*
       (processor_cache (fst s)) (processor_cache (fst t)) \<and>
    (fit_step B ''responder'' (items_valid Inr (r_appointmentId ` R)) (responder_follows R) TYPE(service_action))\<^sup>*\<^sup>*
       (processor_cache (fst s)) (processor_cache (fst t))"
    using step
  proof cases
    case (blocks w rc p calls)
    have weak: "service_run_step w rc B event_ok (p, calls) t" by (rule processor_step_weaken [OF blocks(5)]) simp
    note ret = service_components_return [OF blocks(2), of rc]
    have proc: "processor_inv B saved t" by (rule processor_step_inv [OF ret weak]) (use inv blocks(1) in simp)
    have steps: "(cache_step (service_components w rc) B UNIV)\<^sup>*\<^sup>* (processor_cache p) (processor_cache (fst t))"
      using processor_step_cache [OF ret _ weak] inv blocks(1) by simp
    note fits = service_fits [OF blocks(2,3) here [OF blocks(4)]]
    from proc fit_steps [OF fits(1) steps] fit_steps [OF fits(2) steps] show ?thesis by (simp add: blocks(1))
  next
    case action_end
    with inv show ?thesis by (simp add: processor_inv_def heads_ok_def)
  qed
  then show "processor_inv B saved t"
    "(fit_step B ''watcher'' (items_valid Inl (appointment_id ` A)) (watcher_follows A) TYPE(service_action))\<^sup>*\<^sup>*
       (processor_cache (fst s)) (processor_cache (fst t))"
    "(fit_step B ''responder'' (items_valid Inr (r_appointmentId ` R)) (responder_follows R) TYPE(service_action))\<^sup>*\<^sup>*
       (processor_cache (fst s)) (processor_cache (fst t))" by simp_all
qed

text \<open>The invariant of such a run.\<close>

definition chain_inv ::
  "Appointment set \<Rightarrow> ResponderAppointmentReducer set \<Rightarrow> 'b Block_ext Logs_ext TransactionHashes_ext naming \<Rightarrow> int option \<Rightarrow>
   ('b Block_scheme, service_state, service_action) BlockProcessor \<times> 'b Block_scheme block_call list \<Rightarrow> bool" where
  "chain_inv A R B saved s \<longleftrightarrow> processor_inv B saved s \<and>
     follows_inv B ''watcher'' (items_valid Inl (appointment_id ` A)) (watcher_follows A) (processor_cache (fst s)) \<and>
     follows_inv B ''responder'' (items_valid Inr (r_appointmentId ` R)) (responder_follows R) (processor_cache (fst s))"

lemma chain_inv_step:
  assumes "service_process ok B event_ok s t" "chain_inv A R B saved s"
    and "\<And>w rc. ok w rc \<Longrightarrow> A \<subseteq> set (watched w)" "\<And>w rc. ok w rc \<Longrightarrow> R \<subseteq> on_record rc"
  shows "chain_inv A R B saved t"
proof -
  note S = service_step_cache [OF assms(1) _ assms(3,4), of saved]
  from assms(2) show ?thesis
    using S(1) state_run.reach_inv [OF S(2)] state_run.reach_inv [OF S(3)] by (simp add: chain_inv_def)
qed

interpretation chain_run: step_invariant
  "service_process (\<lambda>w rc. A \<subseteq> set (watched w) \<and> R \<subseteq> on_record rc \<and> ok w rc) B event_ok" "chain_inv A R B saved"
  for A R ok B event_ok saved
  by unfold_locales (erule chain_inv_step, auto)

lemma initial_chain_inv: "0 \<le> depth \<Longrightarrow> chain_inv A R B saved (initial_processor depth saved, [])"
  unfolding chain_inv_def by (intro conjI initial_processor_inv) (simp_all add: initial_processor_def initial_machine_def initial_follows)

text \<open>The state of one item along a chain.\<close>

lemma item_chain:
  assumes inv: "\<And>m m'. into m = into m' \<Longrightarrow> m = m'" and k: "k \<in> K" "\<And>st b. reduce base st b = step k st b"
  shows "state_chain c n (items_follow into K key step) (into m) bs s' \<Longrightarrow> map_of (state_items m) (key k) = Some st \<Longrightarrow>
    \<exists>m' st'. s' = into m' \<and> map_of (state_items m') (key k) = Some st' \<and> reduce_chain base st bs = Some (Inr st')"
proof (induction bs arbitrary: m st)
  case (Cons b bs)
  from Cons.prems(1) obtain s1 where s1: "items_follow into K key step (into m) b s1"
    "state_chain c n (items_follow into K key step) s1 bs s'" by auto
  from s1(1) k(1) Cons.prems(2) obtain m1 st1 where m1: "s1 = into m1" "map_of (state_items m1) (key k) = Some st1"
    "step k st b = Some (Inr st1)"
    unfolding items_follow_def by (metis inv option.inject)
  from Cons.IH [OF s1(2) [unfolded m1(1)] m1(2)] m1(3) show ?case by (simp add: k(2))
qed auto

lemma side_follows_chain:
  fixes base :: "'k \<Rightarrow> ('m, 'b IBlockStub_scheme) StateReducer"
  assumes follow: "states_follow B n (items_valid into (key ` K)) (items_follow into K key step) c"
    and ok: "cache_ok B bs0 c" and h: "att c h = Some True"
    and inj: "\<And>m m'. into m = into m' \<Longrightarrow> m = m'" and base: "\<And>k st b. reduce (base k) st b = step k st b"
  shows "\<exists>m. anchor c n h = Some (into m) \<and> blockNumber (rest m) = number (B h) \<and>
    (\<forall>bs. announced_chain c (B h) bs \<longrightarrow> (\<exists>m'. anchor c n (block_hash (last (B h # bs))) = Some (into m') \<and>
       (\<forall>k\<in>K. \<exists>st st'. map_of (state_items m) (key k) = Some st \<and> map_of (state_items m') (key k) = Some st' \<and>
          reduce_chain (base k) st bs = Some (Inr st'))))"
proof -
  have names: "names B (B h)" "block_hash (B h) = h" using cache_okD(7) [OF ok, of h] h by (auto simp: names_def real_def)
  from follow h obtain x where x: "anchor c n h = Some x" "items_valid into (key ` K) (B h) x"
    unfolding states_follow_def by blast
  then obtain m where m: "x = into m" "key ` K \<subseteq> fst ` set (state_items m)" "blockNumber (rest m) = number (B h)"
    by (auto simp: items_valid_def)
  have "\<exists>m'. anchor c n (block_hash (last (B h # bs))) = Some (into m') \<and>
      (\<forall>k\<in>K. \<exists>st st'. map_of (state_items m) (key k) = Some st \<and> map_of (state_items m') (key k) = Some st' \<and>
          reduce_chain (base k) st bs = Some (Inr st'))"
    if bs: "announced_chain c (B h) bs" for bs
  proof -
    obtain x' where x': "anchor c n (block_hash (last (B h # bs))) = Some x'"
      "items_valid into (key ` K) (last (B h # bs)) x'" "state_chain c n (items_follow into K key step) x bs x'"
      using states_follow_chain [OF follow cache_ok_emitted(3) [OF ok] names(1) _ bs, unfolded names(2), OF _ h x] by auto
    obtain m' where m': "x' = into m'" using x'(2) by (auto simp: items_valid_def)
    have "\<exists>st st'. map_of (state_items m) (key k) = Some st \<and> map_of (state_items m') (key k) = Some st' \<and>
        reduce_chain (base k) st bs = Some (Inr st')" if k: "k \<in> K" for k
    proof -
      obtain u where "map_of (state_items m) (key k) = Some u"
        using m(2) k by (metis image_subset_iff map_of_eq_None_iff not_None_eq)
      with item_chain [OF inj k base x'(3) [unfolded m(1)]] m' inj show ?thesis by metis
    qed
    with x'(1) show ?thesis unfolding m' by blast
  qed
  with x(1) m(1,3) show ?thesis by blast
qed

text \<open>C2: The states of the appointments and of the responses follow the chain.  However the calls of the block processor
  interleave, whatever the provider and the writes of the database do, and while appointments and responses come
  and go: at every moment an attached block has a state of the watcher and a state of the responder, with its
  number.  Take any appointments and responses that are there at every step of the run.  Both states have an
  entry for each of them; and along blocks announced each after its parent, from any attached block, the entry
  at the last block is what the reducer of that appointment or response makes of the entry at the first, one
  block after the other.  Asked of the run, by \<open>service_process\<close>: at every step the appointments
  are watchable on the blocks of the chain, so that no log makes a filter throw (C30 is what happens otherwise), ids of
  appointments and of responses are distinct, ids of actions are new, the depth of the cache is not negative, and
  the run starts with an empty database; a restart is no step of it.\<close>

theorem anchor_states_follow_chain:
  fixes B :: "'b Block_ext Logs_ext TransactionHashes_ext naming" and c :: "('b Block_scheme, service_state) BlockCache"
  assumes "0 \<le> depth"
    and "(service_process (\<lambda>w rc. A \<subseteq> set (watched w) \<and> R \<subseteq> on_record rc \<and> ok w rc) B event_ok)\<^sup>*\<^sup>*
      (initial_processor depth saved, []) (p, calls)"
    and "att (processor_cache p) h = Some True"
  shows "\<exists>s t. anchor (processor_cache p) ''watcher'' h = Some (Inl s) \<and> blockNumber (rest s) = number (B h) \<and>
    anchor (processor_cache p) ''responder'' h = Some (Inr t) \<and> blockNumber (rest t) = number (B h) \<and>
    (\<forall>bs. announced_chain (processor_cache p) (B h) bs \<longrightarrow>
      (\<exists>s' t'. anchor (processor_cache p) ''watcher'' (block_hash (last (B h # bs))) = Some (Inl s') \<and>
         anchor (processor_cache p) ''responder'' (block_hash (last (B h # bs))) = Some (Inr t') \<and>
         (\<forall>a\<in>A. \<exists>base st st'. EventFilterStateReducer c (eventFilter a) (a_startBlock a) = Inr base \<and>
            item s a = Some st \<and> item s' a = Some st' \<and> reduce_chain base st bs = Some (Inr st')) \<and>
         (\<forall>r\<in>R. \<exists>st st'. map_of (state_items t) (r_appointmentId r) = Some st \<and>
            map_of (state_items t') (r_appointmentId r) = Some st' \<and> reduce_chain (response_reducer r c) st bs = Some (Inr st'))))"
proof -
  have inv: "chain_inv A R B saved (p, calls)"
    by (rule chain_run.reach_inv [OF assms(2) initial_chain_inv [OF assms(1)]])
  then obtain bs0 where ok: "cache_ok B bs0 (processor_cache p)" by (auto simp: chain_inv_def processor_inv_def)
  have follow: "states_follow B ''watcher'' (items_valid Inl (appointment_id ` A)) (watcher_follows A) (processor_cache p)"
    "states_follow B ''responder'' (items_valid Inr (r_appointmentId ` R)) (responder_follows R) (processor_cache p)"
    using inv cache_ok_emitted(2) [OF ok] by (auto simp: chain_inv_def follows_inv_def)
  let ?base = "\<lambda>a. \<lparr>getInitialState = event_getInitialState c (eventFilter a) (a_startBlock a), reduce = event_reduce (eventFilter a)\<rparr>"
  obtain s where s: "anchor (processor_cache p) ''watcher'' h = Some (Inl s)" "blockNumber (rest s) = number (B h)"
    "\<forall>bs. announced_chain (processor_cache p) (B h) bs \<longrightarrow>
      (\<exists>s'. anchor (processor_cache p) ''watcher'' (block_hash (last (B h # bs))) = Some (Inl s') \<and>
        (\<forall>a\<in>A. \<exists>st st'. item s a = Some st \<and> item s' a = Some st' \<and> reduce_chain (?base a) st bs = Some (Inr st')))"
    using side_follows_chain [where base = ?base, OF follow(1) ok assms(3)] by auto
  obtain t where t: "anchor (processor_cache p) ''responder'' h = Some (Inr t)" "blockNumber (rest t) = number (B h)"
    "\<forall>bs. announced_chain (processor_cache p) (B h) bs \<longrightarrow>
      (\<exists>t'. anchor (processor_cache p) ''responder'' (block_hash (last (B h # bs))) = Some (Inr t') \<and>
        (\<forall>r\<in>R. \<exists>st st'. map_of (state_items t) (r_appointmentId r) = Some st \<and>
          map_of (state_items t') (r_appointmentId r) = Some st' \<and> reduce_chain (response_reducer r c) st bs = Some (Inr st')))"
    using side_follows_chain [where base = "\<lambda>r. response_reducer r c", OF follow(2) ok assms(3)] by (auto simp: response_reducer_def)
  show ?thesis
    by (rule exI [of _ s], rule exI [of _ t], intro conjI s t(1,2) allI impI)
      (use s(3) t(3) in \<open>metis EventFilterStateReducer_eq\<close>)
qed

section \<open>A block that is attached before its parent\<close>

text \<open>Before the parent is known: only \<open>b\<close> and the detached blocks are attached.\<close>

definition orphan :: "string \<Rightarrow> string \<Rightarrow> ('s \<Rightarrow> bool) \<Rightarrow> string \<Rightarrow> ('b, 's) BlockCache \<Rightarrow> bool" where
  "orphan hx px P n c \<longleftrightarrow> att c px = None \<and> (att c hx = Some True \<longrightarrow> (\<exists>s. anchor c n hx = Some s \<and> P s))"

text \<open>Later: the block is not attached again, so its state stays.\<close>

definition settled :: "'b naming \<Rightarrow> string \<Rightarrow> ('s \<Rightarrow> bool) \<Rightarrow> string \<Rightarrow> ('b IBlockStub_scheme, 's) BlockCache \<Rightarrow> bool" where
  "settled B hx P n c \<longleftrightarrow> distinct (emitted c) \<longrightarrow>
     B hx \<in> set (emitted c) \<and> (att c hx = Some True \<longrightarrow> (\<exists>s. anchor c n hx = Some s \<and> P s))"

lemma orphan_step:
  assumes fit: "components_fit comps B m valid follow" and comp: "component \<in> set comps" and n: "n = component_name component"
    and hx: "real B hx" "px = parentHash (B hx)"
    and alone: "\<And>c1 s. rep_ok B c1 \<Longrightarrow> att c1 hx = Some True \<Longrightarrow> att c1 px = None \<Longrightarrow>
      getInitialState (reducer component c1) (B hx) = Some (Inr s) \<Longrightarrow> P s"
    and new: "\<And>b. b \<in> new \<Longrightarrow> block_hash b \<noteq> px \<and> block_hash b \<noteq> hx"
    and step: "cache_step comps B new c c'" and inv: "orphan hx px P n c"
  shows "orphan hx px P n c'"
  using step
proof cases
  case keep
  with inv hx(1) show ?thesis by (simp add: orphan_def emits_states_def real_def)
next
  case (wait b)
  with inv hx(1) new [of b] show ?thesis by (auto simp: orphan_def same_states_def real_def)
next
  case (drop m)
  with inv hx(1) show ?thesis by (auto simp: orphan_def real_def)
next
  case (attach b c1)
  from fit have comps: "components_return comps B" "\<forall>component\<in>set comps. reads_blocks B component"
    "distinct (map component_name comps)" by (auto simp: components_fit_def)
  have att1: "att c1 (block_hash b) = Some True" using attach by simp
  note A = attach_states [OF comps(1-3) attach(2,4) att1 attach(8)]
  have px: "block_hash b \<noteq> px" using attach(1) new [of b] inv by (auto simp: orphan_def)
  show ?thesis
  proof (cases "block_hash b = hx")
    case False
    with inv px attach(5,6) A(2) A(4) [of hx n] hx(1) show ?thesis by (auto simp: orphan_def same_states_def real_def)
  next
    case True
    then have b: "b = B hx" using attach(2) by (auto simp: names_def)
    have none: "att c1 px = None" using attach(5) px inv by (auto simp: orphan_def)
    obtain s p where s: "state_for component b c1 = Some (Inr (s, p))" "anchor c' n (block_hash b) = Some s"
      using A(5) [OF comp] n by blast
    from state_for_cases [OF attach(4) s(1)] none b hx(2) have "getInitialState (reducer component c1) (B hx) = Some (Inr s)" by simp
    from alone [OF attach(4) _ none this] att1 True have "P s" by simp
    with s(2) True A(2) none show ?thesis by (simp add: orphan_def)
  qed
qed

lemma settled_step:
  assumes fit: "components_fit comps B m valid follow" and hx: "real B hx"
    and step: "cache_step comps B new c c'" and inv: "settled B hx P n c"
  shows "settled B hx P n c'"
  using step
proof cases
  case keep
  with inv hx show ?thesis by (simp add: settled_def emits_states_def real_def)
next
  case (wait b)
  with inv hx show ?thesis by (auto simp: settled_def same_states_def real_def)
next
  case (drop m)
  with inv hx show ?thesis by (auto simp: settled_def real_def)
next
  case (attach b c1)
  from fit have comps: "components_return comps B" "\<forall>component\<in>set comps. reads_blocks B component"
    "distinct (map component_name comps)" by (auto simp: components_fit_def)
  have "att c1 (block_hash b) = Some True" using attach by simp
  note A = attach_states [OF comps attach(2,4) this attach(8)]
  show ?thesis
    unfolding settled_def
  proof (intro impI)
    assume "distinct (emitted c')"
    then have d: "distinct (emitted c)" "b \<notin> set (emitted c)" using A(3) attach(7) by auto
    with inv have in_c: "B hx \<in> set (emitted c)" by (simp add: settled_def)
    then have "block_hash b \<noteq> hx" using d(2) attach(2) by (auto simp: names_def)
    with inv d(1) in_c A(2,3) A(4) [of hx n] attach(5-7) hx show "B hx \<in> set (emitted c') \<and> (att c' hx = Some True \<longrightarrow> (\<exists>s. anchor c' n hx = Some s \<and> P s))"
      by (auto simp: settled_def same_states_def real_def)
  qed
qed

text \<open>What the watcher makes of a block whose parent is not there.\<close>

lemma watcher_initial_item:
  assumes "getInitialState (watcher_reducer w c) b = Some (Inr s)" "distinct (map appointment_id (watched w))" "a \<in> set (watched w)"
  shows "\<exists>st. event_getInitialState c (eventFilter a) (a_startBlock a) b = Some (Inr st) \<and> item s a = Some st"
proof -
  from assms(1) have "mapped_items appointment_id
      (\<lambda>a. event_getInitialState c (eventFilter a) (a_startBlock a) b) (watched w) [] = Some (Inr (state_items s))"
    by (auto simp: watcher_reducer_def mapped_reducer_def mapped_getInitialState_def result_simps)
  from mapped_items_get [OF this assms(2,3)] show ?thesis .
qed

lemma watcher_alone:
  fixes B :: "'b Block_ext Logs_ext TransactionHashes_ext naming"
  assumes "watches B w" "rep_ok B c" "att c h = Some True" "att c (parentHash (B h)) = None"
    "a \<in> set (watched w)" "\<not> event_in a (B h)" "getInitialState (watcher_reducer w c) (B h) = Some (Inr s)"
  shows "item s a = Some Watching"
proof -
  have path: "ancestry_path B c [h]" using assms(3,4) by simp
  note ev = watched_events [OF watchesD(3) [OF assms(1)] assms(2) path assms(5)]
  from watcher_initial_item [OF assms(7) watchesD(2) [OF assms(1)] assms(5)] show ?thesis
    using event_getInitialState_path [OF assms(2) path ev] assms(6) by simp
qed

text \<open>What it would make of it once the parent is there.\<close>

lemma watcher_with_parent:
  fixes B :: "'b Block_ext Logs_ext TransactionHashes_ext naming"
  assumes "watches B w" "rep_ok B c" "att c h = Some True" "att c (parentHash (B h)) = Some True"
    "a \<in> set (watched w)" "\<not> event_in a (B h)" "event_in a (B (parentHash (B h)))" "a_startBlock a \<le> number (B (parentHash (B h)))"
  shows "\<exists>s. getInitialState (watcher_reducer w c) (B h) = Some (Inr s) \<and> item s a = Some (Observed (number (B (parentHash (B h)))))"
proof -
  let ?p = "parentHash (B h)"
  obtain hs where "ancestry_path B c (?p # hs)" using ancestry_path_exists [OF assms(2) watchesD(1) [OF assms(1)], of ?p] assms(4) by auto
  then have path: "ancestry_path B c (h # ?p # hs)" using assms(3,4) by simp
  have "number (B ?p) + 1 = number (B h)"
    using watchesD(1) [OF assms(1)] rep_okD(3) [OF assms(2), of h] rep_okD(3) [OF assms(2), of ?p] assms(3,4) by (simp add: links_def)
  moreover note ev = watched_events [OF watchesD(3) [OF assms(1)] assms(2) path assms(5)]
  ultimately have "event_getInitialState c (eventFilter a) (a_startBlock a) (B h) = Some (Inr (Observed (number (B ?p))))"
    using event_getInitialState_path [OF assms(2) path ev] assms(6-8) by simp
  moreover obtain s where "getInitialState (watcher_reducer w c) (B h) = Some (Inr s)"
    using watcher_reducer_returns(1) [OF watchesD(1,3) [OF assms(1)] assms(2,3)] by auto
  ultimately show ?thesis using watcher_initial_item [OF _ watchesD(2) [OF assms(1)] assms(5)] by fastforce
qed

text \<open>Without the event the appointment is watched on.\<close>

lemma reduce_still_watching:
  assumes "reduce (watcher_reducer w c) s b = Some (Inr s')" "distinct (map appointment_id (watched w))" "a \<in> set (watched w)"
    "item s a = Some Watching" "hasLogMatchingEventFilter b (eventFilter a) = Inr False"
  shows "item s' a = Some Watching"
proof -
  let ?f = "\<lambda>obj. bind_run (Some (EventFilterStateReducer c (eventFilter obj) (a_startBlock obj))) (\<lambda>base.
      case map_of (state_items s) (appointment_id obj) of
        Some prev \<Rightarrow> reduce base prev b | None \<Rightarrow> getInitialState base b)"
  have "mapped_items appointment_id ?f (watched w) [] = Some (Inr (state_items s'))"
    using assms(1) by (auto simp: watcher_reducer_def mapped_reducer_def mapped_reduce_def result_simps)
  from mapped_items_get [OF this assms(2,3)] assms(4,5) show ?thesis by (auto simp: event_reduce_def)
qed

lemma chain_still_watching:
  assumes "reduce_chain (reducer (hd (service_components w rc)) c) (Inl s) bs = Some (Inr s')" "distinct (map appointment_id (watched w))"
    "a \<in> set (watched w)" "item s a = Some Watching" "\<And>b. b \<in> set bs \<Longrightarrow> hasLogMatchingEventFilter b (eventFilter a) = Inr False"
  shows "\<exists>m. s' = Inl m \<and> item m a = Some Watching"
  using assms(1,4,5)
proof (induction bs arbitrary: s)
  case (Cons b bs)
  then obtain s1 where s1: "reduce (watcher_reducer w c) s b = Some (Inr s1)"
    "reduce_chain (reducer (hd (service_components w rc)) c) (Inl s1) bs = Some (Inr s')"
    by (auto simp: result_simps service_components_def side_component_def)
  have "item s1 a = Some Watching"
    by (rule reduce_still_watching [OF s1(1) assms(2,3) Cons.prems(2)]) (use Cons.prems(3) in simp)
  from Cons.IH [OF s1(2) this] Cons.prems(3) show ?case by simp
qed auto

text \<open>C19: The ancestors of a block may come too late.  When a block waits for its unknown parent and another block at the
  height below is added, the block is attached without its parent.  If the parent has the event of an
  appointment, it is overlooked: whatever happens later, the watcher's state of the block, and of every block
  announced on top of it until the event is emitted again, is that it is still watching, although the chain
  in the cache has the event and a state computed from it says so.\<close>

theorem event_in_late_parent_overlooked:
  fixes B :: "'b Block_ext Logs_ext TransactionHashes_ext naming"
  assumes "watches B w" "distinct (response_ids rc)" "0 \<le> depth"
    and "(service_run_step w rc B event_ok)\<^sup>*\<^sup>* (initial_processor depth saved, []) (p0, calls)"
    and "i < length calls" "calls ! i = AddToCache target processing obs b"
      "block_call_step (machine_newBlock (service_components w rc)) (machine_newHead env (service_components w rc)) db_ok answer (calls ! i) p0 =
         Some (call', p1)"
    and "att (processor_cache p0) h = Some False" "att (processor_cache p0) (parentHash (B h)) = None"
      "block_hash b \<notin> {h, parentHash (B h)}" "att (processor_cache p1) h = Some True"
    and "(service_run_step w rc B event_ok)\<^sup>*\<^sup>* (p1, calls[i := call']) (p, calls')" "att (processor_cache p) h = Some True"
    and "a \<in> set (watched w)" "event_in a (B (parentHash (B h)))" "\<not> event_in a (B h)"
  shows "(\<forall>bs. announced_chain (processor_cache p) (B h) bs \<and> (\<forall>b\<in>set bs. \<not> event_in a b) \<longrightarrow>
      (\<exists>s. anchor (processor_cache p) ''watcher'' (block_hash (last (B h # bs))) = Some (Inl s) \<and> item s a = Some Watching)) \<and>
    (att (processor_cache p) (parentHash (B h)) = Some True \<and> a_startBlock a \<le> number (B (parentHash (B h))) \<longrightarrow>
      (\<exists>s. getInitialState (watcher_reducer w (opened (processor_cache p))) (B h) = Some (Inr s) \<and>
         item s a = Some (Observed (number (B (parentHash (B h)))))))"
proof -
  let ?comps = "service_components w rc"
  let ?watcher = "hd ?comps"
  let ?P = "\<lambda>s. \<exists>m. s = Inl m \<and> item m a = Some Watching"
  have comp: "?watcher \<in> set ?comps" "component_name ?watcher = ''watcher''"
    by (simp_all add: service_components_def side_component_def)
  note fit = service_fit [OF assms(1,2) comp(1)]
  note ret = service_components_return [OF assms(1)]
  note inv0 = service_run_inv(1) [OF assms(1,3,4)]
  from inv0 obtain bs0 where ok0: "cache_ok B bs0 (processor_cache p0)" by (auto simp: processor_inv_def)
  have call: "call_ok B (processor_cache p0) (calls ! i)" using inv0 assms(5) by (simp add: processor_inv_def)
  have h: "real B h" using cache_okD(7) [OF ok0, of h] assms(8) by simp
  have steps0: "(cache_step ?comps B {b})\<^sup>*\<^sup>* (processor_cache p0) (processor_cache p1)"
    using call_cache_steps [OF ret ok0 call assms(7)] by (simp add: assms(6))
  have alone: "?P s" if "rep_ok B c" "att c h = Some True" "att c (parentHash (B h)) = None"
      "getInitialState (reducer ?watcher c) (B h) = Some (Inr s)" for c s
    using that watcher_alone [OF assms(1) that(1-3) assms(14,16)] by (auto simp: service_components_def side_component_def)
  have "orphan h (parentHash (B h)) ?P ''watcher'' (processor_cache p1)"
    using steps0
  proof (induction rule: rtranclp_induct)
    case base
    show ?case using assms(8,9) by (simp add: orphan_def)
  next
    case (step c c')
    show ?case
      by (rule orphan_step [OF fit comp(1) comp(2) [symmetric] h refl alone _ step.hyps(2) step.IH]) (use assms(10) in auto)
  qed
  then have state1: "\<exists>s. anchor (processor_cache p1) ''watcher'' h = Some s \<and> ?P s" using assms(11) by (simp add: orphan_def)
  have "service_run_step w rc B event_ok (p0, calls) (p1, calls[i := call'])"
    by (rule processor_step.advance [OF assms(5) _ assms(7)]) (simp add: assms(6))
  with assms(4) have run1: "(service_run_step w rc B event_ok)\<^sup>*\<^sup>* (initial_processor depth saved, []) (p1, calls[i := call'])" by simp
  then have run: "(service_run_step w rc B event_ok)\<^sup>*\<^sup>* (initial_processor depth saved, []) (p, calls')" using assms(12) by simp
  note inv1 = service_run_inv(1) [OF assms(1,3) run1] and inv = service_run_inv(1) [OF assms(1,3) run]
  from inv1 obtain bs1 where ok1: "cache_ok B bs1 (processor_cache p1)" by (auto simp: processor_inv_def)
  from inv obtain bs2 where ok: "cache_ok B bs2 (processor_cache p)" by (auto simp: processor_inv_def)
  have "(cache_step ?comps B UNIV)\<^sup>*\<^sup>* (processor_cache p1) (processor_cache p)"
    using processor_run_cache [OF ret inv1 assms(12)] by simp
  then have "settled B h ?P ''watcher'' (processor_cache p)"
  proof (induction rule: rtranclp_induct)
    case base
    show ?case using state1 cache_ok_emitted(1) [OF ok1, of h] assms(11) by (simp add: settled_def)
  qed (rule settled_step [OF fit h])
  then obtain m where m: "anchor (processor_cache p) ''watcher'' h = Some (Inl m)" "item m a = Some Watching"
    using assms(13) cache_ok_emitted(2) [OF ok] by (auto simp: settled_def)
  have "\<exists>s. anchor (processor_cache p) ''watcher'' (block_hash (last (B h # bs))) = Some (Inl s) \<and> item s a = Some Watching"
    if bs: "announced_chain (processor_cache p) (B h) bs" "\<forall>b\<in>set bs. \<not> event_in a b" for bs
  proof -
    from service_states_follow [OF assms(1,2) comp(1) assms(3) run assms(13), unfolded comp(2)] m(1) bs(1) obtain s' where
      s': "anchor (processor_cache p) ''watcher'' (block_hash (last (B h # bs))) = Some s'"
        "reduce_chain (reducer ?watcher (processor_cache p)) (Inl m) bs = Some (Inr s')" by fastforce
    have "hasLogMatchingEventFilter y (eventFilter a) = Inr False" if "y \<in> set bs" for y
    proof -
      have "names B y" using cache_ok_emitted(3) [OF ok] announced_chain_in [OF bs(1) that] by blast
      then have "\<exists>h. real B h \<and> y = B h" by (auto simp: names_def real_def intro: exI [of _ "block_hash y"])
      with hasLog_event [OF watchesD(3) [OF assms(1,14)]] bs(2) that show ?thesis by simp
    qed
    from chain_still_watching [OF s'(2) watchesD(2) [OF assms(1)] assms(14) m(2) this] s'(1) show ?thesis by auto
  qed
  moreover have "\<exists>s. getInitialState (watcher_reducer w (opened (processor_cache p))) (B h) = Some (Inr s) \<and>
      item s a = Some (Observed (number (B (parentHash (B h)))))"
    if "att (processor_cache p) (parentHash (B h)) = Some True" "a_startBlock a \<le> number (B (parentHash (B h)))"
    using watcher_with_parent [OF assms(1) run_inv_rep [OF cache_okD(2) [OF ok]] _ _ assms(14,16,15) that(2)] assms(13) that(1) by simp
  ultimately show ?thesis by blast
qed

section \<open>A run\<close>

text \<open>Steps of interleaved calls, by the index of the call and the answer of the provider; \<open>None\<close> when an answer is
  not one the provider may give, or when an action was stored before.\<close>

fun run_calls where
  "run_calls comps env B [] s = Some s"
| "run_calls comps env B ((i, answer) # script) (p, calls) =
     (if i < length calls \<and> answer_ok B (calls ! i) answer \<and> stored (chain_machine p) = [] then
        Option.bind (block_call_step (machine_newBlock comps) (machine_newHead env comps) True answer (calls ! i) p)
          (\<lambda>(call', p'). run_calls comps env B script (p', calls[i := call']))
      else None)"

lemma run_calls_reach:
  assumes step: "\<And>i answer call' p calls p'. i < length calls \<Longrightarrow> answer_ok B (calls ! i) answer \<Longrightarrow> stored (chain_machine p) = [] \<Longrightarrow>
      block_call_step (machine_newBlock comps) (machine_newHead env comps) True answer (calls ! i) p = Some (call', p') \<Longrightarrow>
      R (p, calls) (p', calls[i := call'])"
  shows "run_calls comps env B script s = Some s' \<Longrightarrow> R\<^sup>*\<^sup>* s s'"
proof (induction script arbitrary: s)
  case (Cons x script)
  obtain i answer p calls where eq: "x = (i, answer)" "s = (p, calls)" by (metis surj_pair)
  with Cons.prems obtain call' p' where st: "i < length calls" "answer_ok B (calls ! i) answer" "stored (chain_machine p) = []"
    "block_call_step (machine_newBlock comps) (machine_newHead env comps) True answer (calls ! i) p = Some (call', p')"
    "run_calls comps env B script (p', calls[i := call']) = Some s'" by (auto split: if_splits bind_splits)
  from step [OF st(1-4)] Cons.IH [OF st(5)] show ?case unfolding eq by (rule converse_rtranclp_into_rtranclp)
qed simp

lemma run_calls_steps:
  "run_calls comps env B script s = Some s' \<Longrightarrow> (processor_step comps (\<lambda>call env db_ok answer. answer_ok B call answer) event_ok)\<^sup>*\<^sup>* s s'"
  by (rule run_calls_reach) (auto intro: processor_step.advance)

text \<open>Block \<open>q\<close> is announced and waits for its parent \<open>p\<close>, which has the event; then the answer for an earlier
  announcement comes, the block \<open>b\<close> of another fork.\<close>

definition ex_late :: "string \<Rightarrow> Block" where
  "ex_late h =
     (if h = ''p'' then ex_full_block ''p'' 6 ''g'' [\<lparr>log_address = ''0xe'', log_topics = [ex_topic]\<rparr>] []
      else if h = ''q'' then ex_full_block ''q'' 7 ''p'' [] []
      else if h = ''b'' then ex_full_block ''b'' 6 ''g'' [] []
      else if h = ''r'' then ex_full_block ''r'' 8 ''q'' [] []
      else if h = ''s'' then ex_full_block ''s'' 9 ''r'' [] []
      else ex_full_block ''g'' 5 ''x'' [] [])"

abbreviation ex_service_components :: "(Block, service_state, service_action) Component list" where
  "ex_service_components \<equiv> service_components ex_run_watcher ex_component_responder"

definition ex_none :: "Block result" where
  "ex_none = Inl (JsError ''not asked'')"

definition ex_until_late :: "(nat \<times> Block result) list" where
  "ex_until_late = [(0, ex_none), (0, Inr (ex_late ''g'')), (0, ex_none), (0, ex_none),
     (1, ex_none), (1, Inr (ex_late ''q'')), (1, ex_none), (2, ex_none), (2, Inr (ex_late ''b''))]"

definition ex_calls :: "Block block_call list" where
  "ex_calls = [NextBatch 5, NextBatch 7, NextBatch 6]"

definition ex_run_to :: "(nat \<times> Block result) list \<Rightarrow>
  ((Block, service_state, service_action) BlockProcessor \<times> Block block_call list) option" where
  "ex_run_to script = run_calls ex_service_components MachineRuns.ex_env ex_late script (initial_processor 10 None, ex_calls)"

lemma ex_until_late_eval:
  "map_option (\<lambda>(p, calls). (att (processor_cache p) ''q'', att (processor_cache p) ''p'', calls)) (ex_run_to ex_until_late) =
     Some (Some False, None, [Ended, AwaitParent 7 7 (ex_late ''q'') ''p'', AddToCache 6 6 (ex_late ''b'') (ex_late ''b'')])"
  by code_simp

lemma ex_late_eval:
  "map_option (\<lambda>(p, calls). att (processor_cache p) ''q'') (ex_run_to (ex_until_late @ [(2, ex_none)])) = Some (Some True)"
  "map_option (\<lambda>(p, calls). (att (processor_cache p) ''q'', att (processor_cache p) ''p''))
     (ex_run_to ((ex_until_late @ [(2, ex_none)]) @ [(2, ex_none), (1, Inr (ex_late ''p'')), (1, ex_none)])) = Some (Some True, Some True)"
  by code_simp+

lemma run_calls_append: "run_calls comps env B (xs @ ys) s = Option.bind (run_calls comps env B xs s) (run_calls comps env B ys)"
  by (induction comps env B xs s rule: run_calls.induct) (auto split: bind_split)

lemma ex_watches: "watches ex_late ex_run_watcher"
proof -
  have "links ex_late" by (auto simp: links_def real_def ex_late_def ex_full_block_def split: if_splits)
  moreover have "watched ex_run_watcher = [ex_watched]"
    by (simp add: ex_run_watcher_def getAll_appointments_def getExpiredSince_def index_appointment_def new_AppointmentStore_def)
      (simp add: ex_watched_def ex_wildcard_def max_safe_integer_def)
  moreover have "watchable (\<lambda>b. \<exists>h. real ex_late h \<and> b = ex_late h) ex_watched"
    by (auto simp: watchable_def ex_watched_def ex_wildcard_def logs_fit_def ex_late_def ex_full_block_def)
  ultimately show ?thesis using ex_run_watcher_store(1) by (simp add: watches_def)
qed

text \<open>Adding the blocks of this chain in another order.\<close>

theorem add_blocks_terminates_witness:
  "\<exists>c. add_blocks (processNewBlock ex_service_components) (map ex_late [''g'', ''q'', ''p'', ''s'', ''b'', ''r'']) (empty_cache 10) =
     Some (Inr (), c)"
  by (rule add_blocks_terminates [OF service_components_return [OF ex_watches]])
    (auto simp: ex_late_def ex_full_block_def names_def colon_free_def)

lemma ex_calls_reached:
  "(processor_step comps inputs_ok (\<lambda>n. True))\<^sup>*\<^sup>* (p, []) (p, ex_calls)"
proof -
  have new: "processor_step comps inputs_ok (\<lambda>n. True) (p, calls) (p, calls @ [NextBatch n])" for n calls
    by (rule processor_step.new_call) simp
  show ?thesis using new [of "[]" 5] new [of "[NextBatch 5]" 7] new [of "[NextBatch 5, NextBatch 7]" 6]
    unfolding ex_calls_def by (simp add: converse_rtranclp_into_rtranclp)
qed

lemma ex_responses: "distinct (response_ids ex_component_responder)"
  by (simp add: response_ids_def ex_component_responder_def ex_responder_def new_ResponderStore_def)

theorem event_in_late_parent_overlooked_witness:
  "\<exists>p calls s s'. ex_run_to ((ex_until_late @ [(2, ex_none)]) @ [(2, ex_none), (1, Inr (ex_late ''p'')), (1, ex_none)]) = Some (p, calls) \<and>
     event_in ex_watched (ex_late ''p'') \<and>
     anchor (processor_cache p) ''watcher'' ''q'' = Some (Inl s) \<and> item s ex_watched = Some Watching \<and>
     getInitialState (watcher_reducer ex_run_watcher (opened (processor_cache p))) (ex_late ''q'') = Some (Inr s') \<and>
     item s' ex_watched = Some (Observed 6)"
proof -
  let ?rest = "[(2, ex_none), (1, Inr (ex_late ''p'')), (1, ex_none)]"
  let ?run = "run_calls ex_service_components MachineRuns.ex_env ex_late"
  obtain p0 where p0: "ex_run_to ex_until_late = Some (p0, [Ended, AwaitParent 7 7 (ex_late ''q'') ''p'', AddToCache 6 6 (ex_late ''b'') (ex_late ''b'')])"
    "att (processor_cache p0) ''q'' = Some False" "att (processor_cache p0) ''p'' = None"
    using ex_until_late_eval by auto
  let ?calls = "[Ended, AwaitParent 7 7 (ex_late ''q'') ''p'', AddToCache 6 6 (ex_late ''b'') (ex_late ''b'')]"
  obtain p1 calls1 where p1: "ex_run_to (ex_until_late @ [(2, ex_none)]) = Some (p1, calls1)" "att (processor_cache p1) ''q'' = Some True"
    using ex_late_eval(1) by auto
  obtain p calls' where p: "ex_run_to ((ex_until_late @ [(2, ex_none)]) @ ?rest) = Some (p, calls')"
    "att (processor_cache p) ''q'' = Some True" "att (processor_cache p) ''p'' = Some True"
    using ex_late_eval(2) by auto
  have st1: "?run [(2, ex_none)] (p0, ?calls) = Some (p1, calls1)"
    using p1(1) p0(1) by (simp only: ex_run_to_def run_calls_append bind.bind_lunit)
  have st2: "?run ?rest (p1, calls1) = Some (p, calls')"
    using p(1) p1(1) unfolding ex_run_to_def run_calls_append [of _ _ _ "ex_until_late @ [(2, ex_none)]" ?rest] by simp
  from st1 obtain call' where call': "calls1 = ?calls[2 := call']"
    "block_call_step (machine_newBlock ex_service_components) (machine_newHead MachineRuns.ex_env ex_service_components) True ex_none (?calls ! 2) p0 = Some (call', p1)"
    by (auto split: bind_splits if_splits)
  have run0: "(service_run_step ex_run_watcher ex_component_responder ex_late (\<lambda>n. True))\<^sup>*\<^sup>* (initial_processor 10 None, []) (p0, ?calls)"
    using ex_calls_reached run_calls_steps [OF p0(1) [unfolded ex_run_to_def]] by (rule rtranclp_trans)
  have late: "parentHash (ex_late ''q'') = ''p''" "block_hash (ex_late ''q'') = ''q''" "block_hash (ex_late ''b'') = ''b''" "number (ex_late ''p'') = 6"
    "event_in ex_watched (ex_late ''p'')" "\<not> event_in ex_watched (ex_late ''q'')" "a_startBlock ex_watched = 5"
    by (simp_all add: ex_late_def ex_full_block_def event_in_def is_event_def ex_watched_def ex_wildcard_def topic_eq_def)
  have "?calls ! 2 = AddToCache 6 6 (ex_late ''b'') (ex_late ''b'')" by simp
  note W = event_in_late_parent_overlooked [OF ex_watches ex_responses _ run0 _ this call'(2) p0(2) _ _ p1(2)
      run_calls_steps [OF st2, unfolded call'(1)] p(2) ex_run_watcher_store(2)]
  have "\<exists>s. anchor (processor_cache p) ''watcher'' (block_hash (last (ex_late ''q'' # []))) = Some (Inl s) \<and> item s ex_watched = Some Watching"
    by (rule W [THEN conjunct1, THEN spec, THEN mp]) (simp_all add: p0(3) late)
  moreover have "\<exists>s. getInitialState (watcher_reducer ex_run_watcher (opened (processor_cache p))) (ex_late ''q'') = Some (Inr s) \<and>
      item s ex_watched = Some (Observed (number (ex_late (parentHash (ex_late ''q'')))))"
    by (rule W [THEN conjunct2, THEN mp]) (simp_all add: p0(3) p(3) late)
  ultimately show ?thesis using p(1) late by auto
qed

text \<open>On the same run block \<open>p\<close> was announced after \<open>g\<close>.\<close>

lemma ex_late_emitted:
  "map_option (\<lambda>(p, calls). (att (processor_cache p) ''g'', emitted (processor_cache p)))
     (ex_run_to ((ex_until_late @ [(2, ex_none)]) @ [(2, ex_none), (1, Inr (ex_late ''p'')), (1, ex_none)])) =
   Some (Some True, map ex_late [''g'', ''b'', ''q'', ''p''])"
  by code_simp

lemma ex_env_fresh: "stored (chain_machine p) = [] \<Longrightarrow> fresh_ids MachineRuns.ex_env (chain_machine p)"
  by (auto simp: fresh_ids_def MachineRuns.ex_env_def inj_def)

lemma run_calls_process:
  assumes "watches B w" "distinct (response_ids rc)" "ok w rc"
  shows "run_calls (service_components w rc) MachineRuns.ex_env B script s = Some s' \<Longrightarrow> (service_process ok B event_ok)\<^sup>*\<^sup>* s s'"
  by (rule run_calls_reach) (auto intro!: service_process.blocks [where ok = ok, OF assms] intro: processor_step.advance ex_env_fresh)

lemma ex_calls_process:
  assumes "watches B w" "distinct (response_ids rc)" "ok w rc"
  shows "(service_process ok B (\<lambda>n. True))\<^sup>*\<^sup>* (p, []) (p, ex_calls)"
proof -
  have new: "service_process ok B (\<lambda>n. True) (p, calls) (p, calls @ [NextBatch n])" for n calls
    by (rule service_process.blocks [where ok = ok, OF assms], rule processor_step.new_call) simp
  show ?thesis using new [of "[]" 5] new [of "[NextBatch 5]" 7] new [of "[NextBatch 5, NextBatch 7]" 6]
    unfolding ex_calls_def by (simp add: converse_rtranclp_into_rtranclp)
qed

theorem anchor_states_follow_chain_witness:
  "\<exists>p calls s s' st st'. ex_run_to ((ex_until_late @ [(2, ex_none)]) @ [(2, ex_none), (1, Inr (ex_late ''p'')), (1, ex_none)]) = Some (p, calls) \<and>
     anchor (processor_cache p) ''watcher'' ''g'' = Some (Inl s) \<and> anchor (processor_cache p) ''watcher'' ''p'' = Some (Inl s') \<and>
     item s ex_watched = Some st \<and> item s' ex_watched = Some st' \<and>
     event_reduce (eventFilter ex_watched) st (ex_late ''p'') = Some (Inr st')"
proof -
  obtain p calls where p: "ex_run_to ((ex_until_late @ [(2, ex_none)]) @ [(2, ex_none), (1, Inr (ex_late ''p'')), (1, ex_none)]) = Some (p, calls)"
    "att (processor_cache p) ''g'' = Some True" "emitted (processor_cache p) = map ex_late [''g'', ''b'', ''q'', ''p'']"
    using ex_late_emitted by auto
  have att: "att (processor_cache p) ''p'' = Some True" using ex_late_eval(2) p(1) by simp
  let ?here = "\<lambda>w rc. {ex_watched} \<subseteq> set (watched w) \<and> {} \<subseteq> on_record rc \<and> True"
  have here: "?here ex_run_watcher ex_component_responder" using ex_run_watcher_store by (simp add: watched_store)
  have run: "(service_process ?here ex_late (\<lambda>n. True))\<^sup>*\<^sup>* (initial_processor 10 None, []) (p, calls)"
    using ex_calls_process [where ok = ?here, OF ex_watches ex_responses here]
      run_calls_process [where ok = ?here, OF ex_watches ex_responses here p(1) [unfolded ex_run_to_def]] by (rule rtranclp_trans)
  have late: "parentHash (ex_late ''p'') = ''g''" "block_hash (ex_late ''p'') = ''p''" "block_hash (ex_late ''g'') = ''g''"
    by (simp_all add: ex_late_def ex_full_block_def)
  have "announced_before (processor_cache p) (ex_late ''g'') (ex_late ''p'')"
    unfolding announced_before_def p(3) by (rule exI [of _ "[]"], rule exI [of _ "map ex_late [''b'', ''q'']"], rule exI [of _ "[]"]) simp
  then have chain: "announced_chain (processor_cache p) (ex_late ''g'') [ex_late ''p'']" by (simp add: att late)
  from anchor_states_follow_chain [OF _ run p(2), of "processor_cache p"] chain p(1) late show ?thesis
    by (fastforce simp: result_simps)
qed

end
