(* ===== verification/ServiceResponses.thy ===== *)
theory ServiceResponses
  imports ServiceRuns
begin

text \<open>
  From the event to the transaction in a run of the service: calls of the block processor interleave,
  heads store the actions of the watcher and the responder, and stored actions are applied and removed.
\<close>

section \<open>What a call does to the machine\<close>

text \<open>A head is handled in an open batch, every other call changes the cache only.\<close>

lemma with_batch_head:
  assumes "with_batch db_ok (lift_eff (processNewHead env comps b)) m = Some (r, m')" "mBatch (blockStore (cache m)) = None"
  obtains r1 m1 c where "processNewHead env comps b (m\<lparr>cache := opened (cache m)\<rparr>) = (r1, m1)" "m' = m1\<lparr>cache := c\<rparr>"
proof -
  have eq: "on_batch_store (\<lambda>s. s\<lparr>mBatch := Some []\<rparr>) m = m\<lparr>cache := opened (cache m)\<rparr>"
    by (simp add: on_batch_store_def opened_def)
  obtain r1 m1 where run: "processNewHead env comps b (m\<lparr>cache := opened (cache m)\<rparr>) = (r1, m1)" by fastforce
  have "\<exists>f. m' = on_batch_store f m1"
    using assms run by (cases r1; cases db_ok) (auto simp: with_batch_def eq lift_eff_def)
  then show thesis using that [OF run] by (auto simp: on_batch_store_def)
qed

text \<open>\<open>m'\<close> is \<open>m\<close> with another cache.\<close>

definition cache_only :: "('b, 's, 'a) machine_state \<Rightarrow> ('b, 's, 'a) machine_state \<Rightarrow> bool" where
  "cache_only m m' \<longleftrightarrow> (\<exists>c. m' = m\<lparr>cache := c\<rparr>)"

lemma cache_only_intros [simp]:
  "cache_only m m" "cache_only m (m'\<lparr>cache := c\<rparr>) \<longleftrightarrow> cache_only m m'" "cache_only m (on_batch_store f m') \<longleftrightarrow> cache_only m m'"
  "cache_only (m\<lparr>cache := c\<rparr>) m' \<longleftrightarrow> cache_only m m'"
  by (cases m; cases m'; auto simp: cache_only_def on_batch_store_def)+

lemma cache_only_trans: "cache_only m m' \<Longrightarrow> cache_only m' m'' \<Longrightarrow> cache_only m m''"
  by (auto simp: cache_only_def)

lemma with_batch_cache:
  assumes "with_batch db_ok (on_cache_prog f) m = Some (r, m')"
  shows "cache_only m m'"
proof (cases "mBatch (blockStore (cache m)) = None")
  case False
  with assms show ?thesis by (simp add: with_batch_def)
next
  case True
  let ?m0 = "on_batch_store (\<lambda>s. s\<lparr>mBatch := Some []\<rparr>) m"
  from assms True obtain r1 c1 where f: "f (cache ?m0) = Some (r1, c1)"
    by (auto simp: with_batch_def on_cache_prog_def)
  let ?m1 = "?m0\<lparr>cache := c1\<rparr>"
  from assms True f have "\<exists>g. m' = on_batch_store g ?m1"
    by (cases r1; cases db_ok) (auto simp: with_batch_def on_cache_prog_def)
  then show ?thesis by auto
qed

lemma batch_done_machine:
  "batch_done target processing obs p = (call', p') \<Longrightarrow> cache_only (chain_machine p) (chain_machine p')"
  by (auto simp: batch_done_def split: if_splits prod.splits sum.splits)

lemma call_machine_step:
  assumes step: "block_call_step (machine_newBlock comps) (machine_newHead env comps) db_ok answer call p = Some (call', p')"
    and ok: "cache_ok B bs (processor_cache p)" and fresh: "fresh_ids env (chain_machine p)"
  shows "(machine_step id comps)\<^sup>*\<^sup>* (chain_machine p) (chain_machine p')"
proof (cases "\<exists>b. call = EmitHead b")
  case True
  then obtain b r where "with_batch db_ok (lift_eff (processNewHead env comps b)) (chain_machine p) = Some (r, chain_machine p')"
    using step by auto
  from with_batch_head [OF this cache_okD(1) [OF ok]] obtain r1 m1 c where
    run: "processNewHead env comps b ((chain_machine p)\<lparr>cache := opened (processor_cache p)\<rparr>) = (r1, m1)"
      "chain_machine p' = m1\<lparr>cache := c\<rparr>" by blast
  let ?m0 = "(chain_machine p)\<lparr>cache := opened (processor_cache p)\<rparr>"
  have "machine_step id comps (chain_machine p) ?m0" "machine_step id comps ?m0 m1" "machine_step id comps m1 (chain_machine p')"
    unfolding run(2) using fresh by (auto intro: machine_step.intros run(1) simp: fresh_ids_def)
  then show ?thesis by auto
next
  case False
  have "cache_only (chain_machine p) (chain_machine p')"
  proof (cases call)
    case (AddToCache target processing obs cur)
    with step obtain r m' where m': "with_batch db_ok (on_cache_prog (addBlock (processNewBlock comps) cur)) (chain_machine p) = Some (r, m')"
      "(case r of Inl e \<Rightarrow> (Ended, p\<lparr>chain_machine := m'\<rparr>)
        | Inr addResult \<Rightarrow>
            if addResult \<noteq> AddedDetached \<and> addResult \<noteq> NotAddedAlreadyExistedDetached
            then batch_done target processing obs (p\<lparr>chain_machine := m'\<rparr>)
            else (next_parent target processing obs cur (p\<lparr>chain_machine := m'\<rparr>), p\<lparr>chain_machine := m'\<rparr>)) = (call', p')"
      by (auto simp: Let_def)
    from m'(2) have "cache_only m' (chain_machine p')"
      by (auto split: sum.splits if_splits dest: batch_done_machine)
    with with_batch_cache [OF m'(1)] show ?thesis by (rule cache_only_trans)
  qed (use step False in \<open>auto simp: setLatestHeadNumber_def split: sum.splits if_splits\<close>)
  then show ?thesis by (metis cache_only_def machine_step.blocks r_into_rtranclp)
qed

section \<open>The invariant of a run\<close>

definition service_inv ::
  "'b Block_ext Logs_ext TransactionHashes_ext naming \<Rightarrow> int option \<Rightarrow>
   ('b Block_scheme, service_state, service_action) BlockProcessor \<times> 'b Block_scheme block_call list \<Rightarrow> bool" where
  "service_inv B saved s \<longleftrightarrow> chain_inv {} {} B saved s \<and> actions_inv id (chain_machine (fst s))"

interpretation service_process: step_invariant "service_process ok B event_ok" "service_inv B saved"
  for ok B event_ok saved
proof
  fix s t assume inv: "service_inv B saved s" and step: "service_process ok B event_ok s t"
  from inv have I: "chain_inv {} {} B saved s" "processor_inv B saved s" "actions_inv id (chain_machine (fst s))"
    by (auto simp: service_inv_def chain_inv_def)
  have "chain_inv {} {} B saved t" by (rule chain_inv_step [OF step I(1)]) simp_all
  moreover from step have "actions_inv id (chain_machine (fst t))"
  proof cases
    case (action_end name a p calls apply_ok db_ok)
    with I(3) show ?thesis by (simp add: finish_action_inv)
  next
    case (blocks w rc p calls)
    from blocks(5) show ?thesis
    proof cases
      case (advance i env db_ok answer call' p')
      from I(2) blocks(1) obtain bs where ok: "cache_ok B bs (processor_cache p)" by (auto simp: processor_inv_def)
      have "(machine_step id (service_components w rc))\<^sup>*\<^sup>* (chain_machine p) (chain_machine p')"
        by (rule call_machine_step [OF advance(4) ok]) (use advance(3) in simp)
      from machine_run.reach_inv [OF this] I(3) blocks(1) advance(1) service_names show ?thesis by (auto simp: machine_inv_def)
    qed (use I(3) blocks(1) in auto)
  qed
  ultimately show "service_inv B saved t" by (simp add: service_inv_def)
qed

lemma initial_service_inv: "0 \<le> depth \<Longrightarrow> service_inv B saved (initial_processor depth saved, [])"
  unfolding service_inv_def
  by (intro conjI initial_chain_inv, assumption) (use actions_inv_initial [of id] in \<open>simp add: initial_processor_def initial_machine_def\<close>)

section \<open>From the event to the transaction\<close>

text \<open>C1: An event is answered.  Take any run of the service from an empty database, in which calls of the block
  processor interleave, provider and writes may fail, actions end, and the appointments and the responses may
  be others at every step; and a step of it that handles an emitted head \<open>b\<close>.  Let the watcher's state of
  \<open>b\<close> have the event of an appointment deep enough for the appointments of the moment, and let the state
  of the last emitted head below it not have had that.  Then the machine stores the action of the watcher in the
  database and runs it; and applying it, to whatever responder there is when its turn comes, puts the transaction
  of the appointment into the queue, on record under the id of the appointment and among those handed to the
  node if the node takes it.
  What is asked: no log makes a filter throw at any step (C30), ids of actions are new, the database takes the
  action, every appointment in the state of \<open>b\<close> is still in the store, and no restart; for the
  response, that its data is encoded, the price is estimated, the batch is written, the queue has room and holds no
  transaction with the same identifier, and that the caller keeps the contract of \<open>responder_call_ok\<close>.  Where one
  of these fails the response is not in the queue after that attempt.\<close>

theorem event_gets_response:
  fixes B :: "'b Block_ext Logs_ext TransactionHashes_ext naming"
  assumes "0 \<le> depth" "(service_process ok B event_ok)\<^sup>*\<^sup>* (initial_processor depth saved, []) (p, calls)"
    and "watches B w" "distinct (response_ids rc)"
      "i < length calls" "calls ! i = EmitHead b" "fresh_ids env (chain_machine p)" "snd (env ''watcher'')"
      "block_call_step (machine_newBlock (service_components w rc)) (machine_newHead env (service_components w rc)) db_ok answer
         (calls ! i) p = Some (call', p')"
    and "a \<in> set (watched w)" "anchor (processor_cache p) ''watcher'' (block_hash b) = Some (Inl s')"
      "emitted_anchor (processor_cache p) ''watcher'' (block_hash b) = Some (Inl s)"
      "fst ` set (state_items s') \<subseteq> appointment_id ` set (watched w)"
      "item s' a = Some (Observed n)" "\<not> shouldHaveStartedResponder w s (item s a)" "shouldHaveStartedResponder w s' (Some (Observed n))"
    and "responder_ok bn seed F r" "encodeForResponse eth a = Inr d" "estimate renv (n + a_challengePeriod a) = Inr price"
    and "responder_call_ok F r (responder_call.StartResponse renv pisa d
      (a_gasLimit a + PisaGasAllowance) (appointment_id a) n (n + a_challengePeriod a))"
    and "write_ok renv" "\<not> depthReached (queue r)"
    and "rq = response_request (chainId r) pisa d (a_gasLimit a + PisaGasAllowance) (appointment_id a) n price"
    and "\<not> contains (queue r) (req_identifier rq)"
  shows "\<exists>act r' it. (''watcher'', act) \<in> set (running (chain_machine p')) \<and>
    map_of (actionDb (action_store (chain_machine p'))) (action_key ''watcher'' (action_id act)) = Some (action act) \<and>
    service_applyAction bn eth renv wdb_ok pisa (action act) (r, st) = (Inr (), r', st) \<and>
    it \<in> set (queueItems (queue r')) \<and> request it = rq \<and> transactions r' (appointment_id a) = Some it \<and>
    (accepts renv (toTransactionRequest it) \<longrightarrow> toTransactionRequest it \<in> set (sent r'))"
proof -
  let ?comps = "service_components w rc"
  let ?m = "(chain_machine p)\<lparr>cache := opened (processor_cache p)\<rparr>"
  have inv: "service_inv B saved (p, calls)"
    by (rule service_process.reach_inv [OF assms(2) initial_service_inv [OF assms(1)]])
  then obtain bs where ok: "cache_ok B bs (processor_cache p)" "call_ok B (processor_cache p) (calls ! i)"
    using assms(5) by (auto simp: service_inv_def chain_inv_def processor_inv_def)
  then have b: "real B (block_hash b)" "B (block_hash b) = b"
    using cache_ok_emitted(3) [OF ok(1)] assms(6) by (auto simp: names_def real_def)
  have "anchors_valid B ''watcher'' (items_valid Inl {}) (processor_cache p)"
    using inv by (simp add: service_inv_def chain_inv_def follows_inv_def)
  then have dist: "distinct (map fst (state_items s'))"
    using assms(11) b unfolding anchors_valid_def items_valid_def by blast
  obtain res where "with_batch db_ok (lift_eff (processNewHead env ?comps b)) (chain_machine p) = Some (res, chain_machine p')"
    using assms(6,9) by auto
  from with_batch_head [OF this cache_okD(1) [OF ok(1)]] obtain r1 m1 c where
    head: "processNewHead env ?comps b ?m = (r1, m1)" "chain_machine p' = m1\<lparr>cache := c\<rparr>" by blast
  have m: "actions_inv id ?m" "fresh_ids env ?m" "anchor (cache ?m) ''watcher'' (block_hash b) = Some (Inl s')"
    "emitted_anchor (cache ?m) ''watcher'' (block_hash b) = Some (Inl s)" "indexes_ok (watcher_store w)"
    "a \<in> set (getAll_appointments (watcher_store w))"
    using inv assms(3,7,10-12) watched_store
    by (auto simp: service_inv_def actions_inv_def fresh_ids_def opened_def anchor_items watches_def)
  from head_gets_response [OF m(1,2) assms(8) m(5,6,3,4) dist assms(13-16) head(1) assms(17-24)] show ?thesis
    unfolding head(2) by simp
qed

text \<open>The event is in block \<open>p\<close> at height 6; the first head is \<open>g\<close> at height 5, the next \<open>s\<close> at height 9.\<close>

definition ex_deep_script :: "(nat \<times> Block result) list" where
  "ex_deep_script = [(0, ex_none), (0, Inr (ex_late ''g'')), (0, ex_none), (0, ex_none), (0, ex_none),
     (1, ex_none), (1, Inr (ex_late ''s'')), (1, ex_none), (1, Inr (ex_late ''r'')), (1, ex_none), (1, Inr (ex_late ''q'')),
     (1, ex_none), (1, Inr (ex_late ''p'')), (1, ex_none)]"

definition ex_deep_run :: "((Block, service_state, service_action) BlockProcessor \<times> Block block_call list) option" where
  "ex_deep_run = run_calls ex_service_components MachineRuns.ex_env ex_late ex_deep_script
     ((initial_processor 10 None)\<lparr>processor_started := True\<rparr>, [NextBatch 5, NextBatch 9])"

lemma ex_deep_eval:
  "map_option (\<lambda>(p, calls). (anchor (processor_cache p) ''watcher'' ''s'', emitted_anchor (processor_cache p) ''watcher'' ''s'',
       stored (chain_machine p), mBatch (blockStore (processor_cache p)), calls)) ex_deep_run =
   Some (Some (Inl (ex_state 9 (Observed 6))), Some (Inl (ex_state 5 Watching)), [], None, [Ended, EmitHead (ex_late ''s'')])"
  by code_simp

lemma ex_deep_head:
  "map_option snd (Option.bind ex_deep_run (run_calls ex_service_components MachineRuns.ex_env ex_late [(1, ex_none)])) =
     Some [Ended, SaveHead (ex_late ''s'')]"
  by code_simp

lemma ex_started:
  assumes "watches B w" "distinct (response_ids rc)" "ok w rc"
  shows "(service_process ok B (\<lambda>n. True))\<^sup>*\<^sup>* (p, []) (p\<lparr>processor_started := True\<rparr>, [NextBatch 5, NextBatch 9])"
proof -
  note blocks = service_process.blocks [where ok = ok, OF assms]
  have new: "service_process ok B (\<lambda>n. True) (p, calls) (p, calls @ [NextBatch n])" for n p calls
    by (rule blocks, rule processor_step.new_call) simp
  let ?p = "p\<lparr>processor_started := True\<rparr>"
  have s: "service_process ok B (\<lambda>n. True) (p, []) (?p, [])"
    by (rule blocks, rule processor_step.start_or_stop)
  have n: "service_process ok B (\<lambda>n. True) (?p, []) (?p, [NextBatch 5])"
    "service_process ok B (\<lambda>n. True) (?p, [NextBatch 5]) (?p, [NextBatch 5, NextBatch 9])"
    using new [of ?p "[]" 5] new [of ?p "[NextBatch 5]" 9] by simp_all
  show ?thesis
    by (rule converse_rtranclp_into_rtranclp, rule s, rule converse_rtranclp_into_rtranclp, rule n, rule r_into_rtranclp, rule n)
qed

theorem event_gets_response_witness:
  "\<exists>p calls p' act r' it. ex_deep_run = Some (p, calls) \<and> (''watcher'', act) \<in> set (running (chain_machine p')) \<and>
     block_call_step (machine_newBlock ex_service_components) (machine_newHead MachineRuns.ex_env ex_service_components) True ex_none
       (calls ! 1) p = Some (SaveHead (ex_late ''s''), p') \<and>
     service_applyAction unary_codec ex_ethers (ResponderProps.ex_env 40) True ''0x'' (action act) (ex_responder, new_AppointmentStore []) =
       (Inr (), r', new_AppointmentStore []) \<and>
     it \<in> set (queueItems (queue r')) \<and> req_idealGasPrice (request it) = 40 \<and> toTransactionRequest it \<in> set (sent r')"
proof -
  let ?F = "\<lambda>k. (1, ''0x'', ''0x'', 0, 2100000) :: int \<times> string \<times> string \<times> int \<times> int"
  let ?env = "ResponderProps.ex_env 40"
  let ?rq = "response_request 1 ''0x'' ''0x'' 2100000 (appointment_id ex_watched) 6 40"
  let ?calls = "[Ended, EmitHead (ex_late ''s'')]"
  obtain p where p: "ex_deep_run = Some (p, ?calls)"
    "anchor (processor_cache p) ''watcher'' (block_hash (ex_late ''s'')) = Some (Inl (ex_state 9 (Observed 6)))"
    "emitted_anchor (processor_cache p) ''watcher'' (block_hash (ex_late ''s'')) = Some (Inl (ex_state 5 Watching))"
    "stored (chain_machine p) = []" "mBatch (blockStore (processor_cache p)) = None"
    using ex_deep_eval by (auto simp: ex_late_def ex_full_block_def)
  have run: "(service_process (\<lambda>w rc. True) ex_late (\<lambda>n. True))\<^sup>*\<^sup>* (initial_processor 10 None, []) (p, ?calls)"
    using ex_started [OF ex_watches ex_responses] run_calls_process [OF ex_watches ex_responses _ p(1) [unfolded ex_deep_run_def]]
    by (rule rtranclp_trans) simp_all
  obtain p' where step: "block_call_step (machine_newBlock ex_service_components) (machine_newHead MachineRuns.ex_env ex_service_components)
      True ex_none (?calls ! 1) p = Some (SaveHead (ex_late ''s''), p')"
  proof -
    from ex_deep_head obtain p' where "run_calls ex_service_components MachineRuns.ex_env ex_late [(1, ex_none)] (p, ?calls) =
        Some (p', [Ended, SaveHead (ex_late ''s'')])" unfolding p(1) bind.bind_lunit by auto
    then show thesis by (intro that [of p']) (auto split: if_splits bind_splits)
  qed
  have a: "encodeForResponse ex_ethers ex_watched = Inr ''0x''" "appointment_id ex_watched \<noteq> ''0x1:queue''"
    "a_gasLimit ex_watched + PisaGasAllowance = 2100000" "toLowerCase ''0x'' = ''0x''" by code_simp+
  have r: "\<not> depthReached (queue ex_responder)" "\<not> contains (queue ex_responder) j" for j
    by (simp_all add: depthReached_def contains_def ex_seed_def)
  have deep: "fst ` set (state_items (ex_state 9 (Observed 6))) \<subseteq> appointment_id ` set (watched ex_run_watcher)"
    "item (ex_state 9 (Observed 6)) ex_watched = Some (Observed 6)"
    "\<not> shouldHaveStartedResponder ex_run_watcher (ex_state 5 Watching) (item (ex_state 5 Watching) ex_watched)"
    "shouldHaveStartedResponder ex_run_watcher (ex_state 9 (Observed 6)) (Some (Observed 6))"
    using imageI [OF ex_run_watcher_store(2), of appointment_id]
    by (simp_all add: shouldHaveStartedResponder_def ex_state_def ex_run_watcher_def ex_watcher_def)
  have call: "responder_call_ok ?F ex_responder (responder_call.StartResponse ?env ''0x'' ''0x''
      (a_gasLimit ex_watched + PisaGasAllowance) (appointment_id ex_watched) 6 (6 + a_challengePeriod ex_watched))"
    using a by (simp add: estimate_ok_def ResponderProps.ex_env_def)
  note W = event_gets_response [where bn = unary_codec and seed = ex_seed and F = ?F and r = ex_responder and eth = ex_ethers
      and d = "''0x''" and renv = ?env and price = 40 and pisa = "''0x''" and wdb_ok = True and st = "new_AppointmentStore []" and rq = ?rq,
      OF _ run ex_watches ex_responses _ _ ex_env_fresh [OF p(4)] _ step ex_run_watcher_store(2) p(2,3) deep ex_responder_ok' a(1) _ call _ r(1) _ r(2)]
  obtain act r' it where "(''watcher'', act) \<in> set (running (chain_machine p'))"
    "service_applyAction unary_codec ex_ethers ?env True ''0x'' (action act) (ex_responder, new_AppointmentStore []) =
      (Inr (), r', new_AppointmentStore [])"
    "it \<in> set (queueItems (queue r'))" "request it = ?rq"
    "accepts ?env (toTransactionRequest it) \<longrightarrow> toTransactionRequest it \<in> set (sent r')"
    using W by (auto simp: a(3) ResponderProps.ex_env_def MachineRuns.ex_env_def)
  moreover from this(4) have "req_idealGasPrice (request it) = 40" by simp
  moreover have "accepts ?env tx" for tx by (simp add: ResponderProps.ex_env_def)
  ultimately show ?thesis using p(1) step by fastforce
qed

end
