(* ===== verification/Restarts.thy ===== *)
theory Restarts
  imports EndToEnd
begin

text \<open>
  What becomes of the stored actions when the service restarts.  The action store writes JSON
  (src/src/blockMonitor/actionStore.ts): an action that is read back holds plain objects, an appointment
  without \<open>encodeForResponse\<close> and a transaction identifier whose numbers have no \<open>eq\<close>.  The watcher's
  \<open>applyAction\<close> then throws at every try, and \<open>txMined\<close> throws inside, where the error is caught.
\<close>

section \<open>Actions that were read back\<close>

text \<open>An action as its component made it, or the data of one that was read back from the database.\<close>

datatype 'a StoredAction = Live 'a | Parsed 'a

fun parsed :: "'a StoredAction \<Rightarrow> 'a StoredAction" where
  "parsed (Live a) = Parsed a"
| "parsed (Parsed a) = Parsed a"

text \<open>\<open>txMined\<close> returns without an effect: for an empty queue and for a transaction that is not in it, and for
  one that is, \<open>equals\<close> calls \<open>eq\<close> of its value.\<close>

definition stored_applyAction ::
  "BigNumberCodec \<Rightarrow> Ethers \<Rightarrow> Env \<Rightarrow> bool \<Rightarrow> string \<Rightarrow> service_action StoredAction \<Rightarrow>
   MultiResponder \<times> AppointmentStore \<Rightarrow> unit result \<times> MultiResponder \<times> AppointmentStore" where
  "stored_applyAction bn eth env db_ok pisaAddress act = (\<lambda>(responder, store).
     case act of
       Live a \<Rightarrow> service_applyAction bn eth env db_ok pisaAddress a (responder, store)
     | Parsed (Inl (WatcherAction.StartResponse appointment blockObserved)) \<Rightarrow>
         (Inl (JsTypeError ''action.appointment.encodeForResponse is not a function''), responder, store)
     | Parsed (Inr (ResponderAction.TxMined identifier minedNonce)) \<Rightarrow> (Inr (), responder, store)
     | Parsed a \<Rightarrow> service_applyAction bn eth env db_ok pisaAddress a (responder, store))"

text \<open>The components of the service, whose actions are live.\<close>

definition live_component :: "('b, 's, 'a) Component \<Rightarrow> ('b, 's, 'a StoredAction) Component" where
  "live_component component =
     \<lparr>component_name = component_name component, reducer = reducer component,
      detectChanges = (\<lambda>p s. bind_result (detectChanges component p s) (\<lambda>as. Inr (map Live as)))\<rparr>"

abbreviation live_components ::
  "Watcher \<Rightarrow> MultiResponderComponent \<Rightarrow> ('a Block_scheme, service_state, service_action StoredAction) Component list" where
  "live_components w rc \<equiv> map live_component (service_components w rc)"

lemma live_names: "map component_name (live_components w rc) = [''watcher'', ''responder'']"
  by (simp add: live_component_def service_components_def side_component_def)

lemma live_names_ok: "names_ok (live_components w rc)"
  using live_names [of w rc] by (auto simp: names_ok_def live_component_def service_components_def side_component_def colon_free_def)

section \<open>Steps\<close>

text \<open>Heads and blocks, with the appointments and the responses there are, actions that end with what applying
  them gives, crashes after which the responder and the store are loaded again, and whatever else changes
  these two.\<close>

inductive crash_step for bn eth pisa where
  head: "fresh_ids env m \<Longrightarrow> processNewHead env (live_components w rc) h m = (res, m') \<Longrightarrow>
    crash_step bn eth pisa (m, r, st) (m', r, st)"
| blocks: "crash_step bn eth pisa (m, r, st) (m\<lparr>cache := c\<rparr>, r, st)"
| action_end: "(name, act) \<in> set (running m) \<Longrightarrow>
    stored_applyAction bn eth env wdb_ok pisa (action act) (r, st) = (res, r', st') \<Longrightarrow>
    crash_step bn eth pisa (m, r, st) (finish_action (\<not> isl res) db_ok name act m, r', st')"
| restart: "js_wf stream \<Longrightarrow> map_of stream = map_of (actionDb (action_store m)) \<Longrightarrow>
    crash_step bn eth pisa (m, r, st) (restart_machine parsed (live_components w rc) c stream m, r', st')"
| others: "crash_step bn eth pisa (m, r, st) (m, r', st')"

text \<open>The action \<open>x\<close> under the id \<open>i\<close>: live in the database, read back in memory.\<close>

definition read_back :: "string \<Rightarrow> service_action \<Rightarrow> ('b, 's, service_action StoredAction) machine_state \<Rightarrow> bool" where
  "read_back i x m \<longleftrightarrow> db_holds m ''watcher'' \<lparr>action_id = i, action = Live x\<rparr> \<and>
     (\<forall>b\<in>set (getActions (action_store m) ''watcher''). action_id b = i \<longrightarrow> action b = Parsed x)"

lemma read_back_cache: "read_back i x m \<Longrightarrow> read_back i x (m\<lparr>cache := c\<rparr>)"
  by (simp add: read_back_def)

lemma read_back_restart:
  assumes inv: "actions_inv parsed m" and db: "db_holds m ''watcher'' \<lparr>action_id = i, action = Live x\<rparr>"
    and stream: "js_wf stream" "map_of stream = map_of (actionDb (action_store m))"
  shows "read_back i x (restart_machine parsed (live_components w rc) c stream m)"
    "(''watcher'', \<lparr>action_id = i, action = Parsed x\<rparr>) \<in> set (running (restart_machine parsed (live_components w rc) c stream m))"
proof -
  note R = restart_machine_inv [OF inv live_names_ok [of w rc] stream, of c]
  let ?m' = "restart_machine parsed (live_components w rc) c stream m"
  have "action_store ?m' = startInternal_actions parsed stream (new_ActionStore (actionDb (action_store m)))"
    by (simp add: restart_machine_def startInternal_machine_eq)
  then have "action b = Parsed x" if "b \<in> set (getActions (action_store ?m') ''watcher'')" "action_id b = i" for b
    using that db load_ok(3) [OF actions_invD(1) [OF inv] stream] by auto
  then show "read_back i x ?m'" using db by (simp add: read_back_def R(5))
  have "''watcher'' \<in> set (map component_name (live_components w rc))" unfolding live_names by simp
  then have "''watcher'' \<in> component_name ` set (live_components w rc)" by (simp only: set_map)
  with db show "(''watcher'', \<lparr>action_id = i, action = Parsed x\<rparr>) \<in> set (running ?m')"
    unfolding R(2) by (force intro: exI [of _ "\<lparr>action_id = i, action = Live x\<rparr>"])
qed

lemma read_back_store_and_run:
  assumes inv: "actions_inv parsed m" and rb: "read_back i x m" and name: "colon_free name" and fresh: "fresh_for env name m"
    and run: "store_and_run env name newActions m = (r, m')"
  shows "read_back i x m'"
proof (cases "newActions = [] \<or> \<not> snd (env name)")
  case True
  then have "m' = m" using run by (auto simp: store_and_run_def action_failures split: if_splits)
  with rb show ?thesis by simp
next
  case False
  let ?ids = "map (fst (env name)) [0..<length newActions]"
  note call = fresh_call_ok [OF inv name fresh, of newActions]
  obtain as s' where
    s': "storeActions ?ids True name newActions (action_store m) = (Inr as, s')" "map action_id as = ?ids"
      "\<And>n. getActions s' n = (if n = name then getActions (action_store m) name @ as else getActions (action_store m) n)"
      "\<And>k v. map_of (actionDb s') k = Some v \<longleftrightarrow>
         (\<exists>a\<in>set as. k = action_key name (action_id a) \<and> v = action a) \<or> map_of (actionDb (action_store m)) k = Some v"
    by (rule storeActions_ok [OF actions_invD(1) [OF inv] call]) (rule that)
  have m': "action_store m' = s'" using run False s'(1) by (auto simp: store_and_run_def runActionsForComponent_def)
  have "colon_free ''watcher''" by (simp add: colon_free_def)
  with rb have "i \<in> action_ids (action_store m) ''watcher''"
    using in_memory_iff [OF actions_invD(1) [OF inv], of "''watcher''" i] by (simp add: read_back_def)
  moreover have "set ?ids \<inter> action_ids (action_store m) name = {}" using call by simp
  moreover have "action_id b \<in> set ?ids" if "b \<in> set as" for b
    using that unfolding s'(2) [symmetric] by simp
  ultimately have "action_id b \<noteq> i" if "b \<in> set as" "name = ''watcher''" for b
    using that by blast
  with rb show ?thesis by (auto simp: read_back_def m' s'(3,4))
qed

lemma read_back_finish:
  assumes inv: "actions_inv parsed m" and rb: "read_back i x m" and a: "(name, a) \<in> set (running m)"
    and fails: "name = ''watcher'' \<Longrightarrow> action_id a = i \<Longrightarrow> action a = Parsed x \<Longrightarrow> \<not> apply_ok"
  shows "read_back i x (finish_action apply_ok db_ok name a m)"
proof (cases "apply_ok \<and> db_ok")
  case False
  then have "action_store (finish_action apply_ok db_ok name a m) = action_store m"
    by (auto simp: finish_action_def Let_def action_failures)
  with rb show ?thesis by (simp add: read_back_def)
next
  case True
  note st = actions_invD(3) [OF inv a]
  from removeAction_ok [OF actions_invD(1) [OF inv] st] obtain s' where
    s': "removeAction True name a (action_store m) = (Inr (), s')"
      "\<And>n. getActions s' n = (if n = name then removeAll a (getActions (action_store m) name) else getActions (action_store m) n)"
      "map_of (actionDb s') = (map_of (actionDb (action_store m)))(action_key name (action_id a) := None)" by blast
  have "name \<noteq> ''watcher'' \<or> action_id a \<noteq> i" using rb st fails True by (auto simp: read_back_def)
  moreover have "colon_free ''watcher''" by (simp add: colon_free_def)
  ultimately have "action_key ''watcher'' i \<noteq> action_key name (action_id a)"
    using in_memory_colon_free [OF actions_invD(1) [OF inv] st] by auto
  with rb True show ?thesis by (simp add: read_back_def finish_action_def s')
qed

text \<open>Runs keep the bookkeeping of the actions, and the action that was read back.\<close>

lemma crash_step_machine:
  assumes "crash_step bn eth pisa (m, r, st) (m', r', st')" and inv: "actions_inv parsed m"
  shows "actions_inv parsed m'"
proof -
  from assms(1) show ?thesis
  proof cases
    case (head env w rc h res)
    from machine_step.head [OF head(3,4)] machine_run.inv_step [of parsed "live_components w rc" m m'] inv live_names_ok show ?thesis
      by (auto simp: machine_inv_def)
  qed (use inv finish_action_inv restart_machine_inv(1) [OF inv live_names_ok] in auto)
qed

interpretation crash_run: step_invariant "crash_step bn eth pisa"
  "\<lambda>(m, r, st). actions_inv parsed m \<and> (stuck \<longrightarrow> read_back i (Inl (WatcherAction.StartResponse a n)) m)"
  for bn eth pisa stuck i a n
proof
  let ?x = "Inl (WatcherAction.StartResponse a n) :: service_action"
  fix s t
  assume inv: "case s of (m, r, st) \<Rightarrow> actions_inv parsed m \<and> (stuck \<longrightarrow> read_back i ?x m)" and step: "crash_step bn eth pisa s t"
  obtain m r st m' r' st' where eq: "s = (m, r, st)" "t = (m', r', st')" by (metis prod_cases3)
  have I: "actions_inv parsed m" "stuck \<Longrightarrow> read_back i ?x m" using inv by (auto simp: eq)
  have "read_back i ?x m'" if "read_back i ?x m"
    using step unfolding eq
  proof cases
    case (head env w rc h res)
    then have run: "head_loop env (live_components w rc) h m = (res, m')" by (simp add: processNewHead_def)
    have "fresh_for env (component_name component) m" for component :: "('d Block_scheme, service_state, service_action StoredAction) Component"
      using head(3) by (simp add: fresh_ids_def fresh_for_def)
    then have "actions_inv parsed m' \<and> read_back i ?x m'"
      by (intro head_loop_preserves [where P = "read_back i ?x", OF _ _ I(1) that live_names_ok _ run])
        (auto intro: read_back_store_and_run read_back_cache)
    then show ?thesis ..
  next
    case (action_end name act env wdb_ok res db_ok)
    show ?thesis
      unfolding action_end(1)
      by (rule read_back_finish [OF I(1) that action_end(2)]) (use action_end(3) in \<open>auto simp: stored_applyAction_def\<close>)
  next
    case (restart stream w rc c)
    from that have "db_holds m ''watcher'' \<lparr>action_id = i, action = Live ?x\<rparr>" by (simp add: read_back_def)
    from read_back_restart(1) [OF I(1) this restart(2,3)] show ?thesis unfolding restart(1) .
  qed (use that read_back_cache in auto)
  with I crash_step_machine [OF step [unfolded eq] I(1)] show "case t of (m, r, st) \<Rightarrow> actions_inv parsed m \<and> (stuck \<longrightarrow> read_back i ?x m)"
    by (auto simp: eq)
qed

section \<open>Actions that are lost\<close>

text \<open>C40: A response that was not started before a restart is never started by its action: the action that is in the
  database when the service stops runs again after the restart, but its appointment was read back from
  JSON, applying it throws at every try and changes neither the responder nor the store, and it stays in
  the database whatever follows, further restarts included.\<close>

theorem restored_response_never_starts:
  assumes "(crash_step bn eth pisa)\<^sup>*\<^sup>* (initial_machine c0, r00, st00) (m0, r0, st0)"
    and "map_of (actionDb (action_store m0)) (action_key ''watcher'' i) = Some (Live (Inl (WatcherAction.StartResponse a n)))"
    and "js_wf stream" "map_of stream = map_of (actionDb (action_store m0))"
    and "m1 = restart_machine parsed (live_components w rc) c stream m0"
    and "(crash_step bn eth pisa)\<^sup>*\<^sup>* (m1, r1, st1) (m, r, st)"
  shows "(\<exists>act. (''watcher'', act) \<in> set (running m1) \<and> action_id act = i) \<and>
    map_of (actionDb (action_store m)) (action_key ''watcher'' i) = Some (Live (Inl (WatcherAction.StartResponse a n))) \<and>
    (\<forall>act. (''watcher'', act) \<in> set (running m) \<and> action_id act = i \<longrightarrow>
       (\<forall>env db_ok r st. stored_applyAction bn eth env db_ok pisa (action act) (r, st) =
          (Inl (JsTypeError ''action.appointment.encodeForResponse is not a function''), r, st)))"
proof -
  let ?x = "Inl (WatcherAction.StartResponse a n) :: service_action"
  have inv0: "actions_inv parsed m0"
    using crash_run.reach_inv [OF assms(1), of False i a n] actions_inv_initial by auto
  have db0: "db_holds m0 ''watcher'' \<lparr>action_id = i, action = Live ?x\<rparr>" using assms(2) by simp
  note R = read_back_restart [OF inv0 db0 assms(3,4), of w rc c, folded assms(5)]
  have "actions_inv parsed m1"
    unfolding assms(5) by (rule restart_machine_inv(1) [OF inv0 live_names_ok assms(3,4)])
  with crash_run.reach_inv [OF assms(6), of True i a n] R(1) have inv: "actions_inv parsed m" "read_back i ?x m" by auto
  have "action act = Parsed ?x" if "(''watcher'', act) \<in> set (running m)" "action_id act = i" for act
    using inv(2) actions_invD(3) [OF inv(1) that(1)] that(2) by (simp add: read_back_def)
  with R(2) inv(2) show ?thesis by (auto simp: read_back_def stored_applyAction_def intro: exI [of _ "\<lparr>action_id = i, action = Parsed ?x\<rparr>"])
qed

text \<open>The report of a mined transaction that was read back is dropped: it changes nothing and the machine removes it.\<close>

lemma restored_report_dropped:
  assumes inv: "actions_inv parsed m" and a: "(name, act) \<in> set (running m)" "action act = Parsed (Inr (ResponderAction.TxMined idn k))"
  shows "stored_applyAction bn eth env db_ok pisa (action act) (r, st) = (Inr (), r, st)"
    "(name, act) \<notin> set (running (finish_action True True name act m))"
    "map_of (actionDb (action_store (finish_action True True name act m))) (action_key name (action_id act)) = None"
proof -
  note D = actions_invD [OF inv]
  show "stored_applyAction bn eth env db_ok pisa (action act) (r, st) = (Inr (), r, st)" by (simp add: stored_applyAction_def a(2))
  from removeAction_ok [OF D(1) D(3) [OF a(1)]] obtain s' where
    s': "removeAction True name act (action_store m) = (Inr (), s')"
      "map_of (actionDb s') = (map_of (actionDb (action_store m)))(action_key name (action_id act) := None)" by blast
  then show "(name, act) \<notin> set (running (finish_action True True name act m))"
    "map_of (actionDb (action_store (finish_action True True name act m))) (action_key name (action_id act)) = None"
    using D(2) by (simp_all add: finish_action_def)
qed

text \<open>A cache with a head whose state has the event of an appointment deep enough.\<close>

definition ex_anchored :: "(Block, service_state) BlockCache" where
  "ex_anchored = (new_BlockCache 10 (new_BlockItemStore [])) \<lparr>blockStore :=
     \<lparr>itemsByHeight = [(Some 9, [memKey ''s'' (''watcher:'' @ KEY_STATE), memKey ''s'' (''watcher:'' @ KEY_PREV_EMITTED_STATE)])],
      items = [(memKey ''s'' (''watcher:'' @ KEY_STATE), StateItem (Inl (ex_state 9 (Observed 6)))),
        (memKey ''s'' (''watcher:'' @ KEY_PREV_EMITTED_STATE), StateItem (Inl (ex_state 5 Watching)))],
      mBatch = Some [], blockDb = []\<rparr>\<rparr>"

definition ex_uuid :: head_env where
  "ex_uuid name = (\<lambda>i. replicate i CHR ''x'', True)"

definition ex_before :: "(Block, service_state, service_action StoredAction) machine_state" where
  "ex_before = snd (processNewHead ex_uuid (live_components ex_run_watcher ex_component_responder) (ex_full_block ''s'' 9 ''r'' [] [])
     (initial_machine ex_anchored))"

definition ex_after :: "(Block, service_state, service_action StoredAction) machine_state" where
  "ex_after = restart_machine parsed (live_components ex_run_watcher ex_component_responder) (new_BlockCache 10 (new_BlockItemStore []))
     (actionDb (action_store ex_before)) ex_before"

lemma ex_before_eval:
  "actionDb (action_store ex_before) = [(''watcher:'', Live (Inl (WatcherAction.StartResponse ex_watched 6)))]"
  by code_simp

theorem restored_response_never_starts_witness:
  "\<exists>act. (''watcher'', act) \<in> set (running ex_after) \<and>
     map_of (actionDb (action_store ex_after)) ''watcher:'' = Some (Live (Inl (WatcherAction.StartResponse ex_watched 6))) \<and>
     (\<forall>env r st. stored_applyAction unary_codec ex_ethers env True ''0x'' (action act) (r, st) =
        (Inl (JsTypeError ''action.appointment.encodeForResponse is not a function''), r, st))"
proof -
  obtain res where run: "processNewHead ex_uuid (live_components ex_run_watcher ex_component_responder)
      (ex_full_block ''s'' 9 ''r'' [] []) (initial_machine ex_anchored) = (res, ex_before)"
    unfolding ex_before_def by (metis prod.collapse)
  have "fresh_ids ex_uuid (initial_machine ex_anchored :: (Block, service_state, service_action StoredAction) machine_state)"
    by (auto simp: fresh_ids_def ex_uuid_def initial_machine_def inj_def)
  from crash_step.head [OF this run] have "crash_step unary_codec ex_ethers ''0x'' (initial_machine ex_anchored, ex_responder, new_AppointmentStore [])
      (ex_before, ex_responder, new_AppointmentStore [])" .
  then have reach: "(crash_step unary_codec ex_ethers ''0x'')\<^sup>*\<^sup>* (initial_machine ex_anchored, ex_responder, new_AppointmentStore [])
      (ex_before, ex_responder, new_AppointmentStore [])" ..
  have db: "map_of (actionDb (action_store ex_before)) (action_key ''watcher'' []) = Some (Live (Inl (WatcherAction.StartResponse ex_watched 6)))"
    "js_wf (actionDb (action_store ex_before))"
    by (simp_all add: ex_before_eval action_key_def js_wf_def)
  from restored_response_never_starts [OF reach db refl ex_after_def rtranclp.rtrancl_refl] show ?thesis
    by (fastforce simp: action_key_def)
qed

end
