(* ===== verification/StartStop.thy ===== *)
theory StartStop
  imports Prelude
begin

text \<open>
  Services that are started and stopped (src/src/dataEntities/startStop.ts).  \<open>start\<close> and \<open>stop\<close> each have
  one \<open>await\<close>, of what the subclass does: a call is a step up to it and a step after it, and the calls
  interleave.
\<close>

section \<open>The service\<close>

datatype service_event = STARTED_EVENT | STOPPED_EVENT

record StartStopService =
  mStarted :: bool
  mStarting :: bool

text \<open>The name of a service has lowercase letters, numbers and hyphens only, and at least one of them.\<close>

definition name_char :: "char \<Rightarrow> bool" where
  "name_char c \<longleftrightarrow> (let n = of_char c :: nat in 97 \<le> n \<and> n \<le> 122 \<or> 48 \<le> n \<and> n \<le> 57 \<or> n = 45)"

definition new_StartStopService :: "string \<Rightarrow> StartStopService result" where
  "new_StartStopService name =
     (if name = [] \<or> \<not> list_all name_char name
      then Inl (ConfigurationError (name @ '' is not a valid service name''))
      else Inr \<lparr>mStarted = False, mStarting = False\<rparr>)"

text \<open>\<open>start\<close> up to \<open>startInternal\<close>, and after it.\<close>

definition start_begin :: "StartStopService \<Rightarrow> StartStopService result" where
  "start_begin this =
     (if mStarted this then Inl (ConfigurationError ''Already started.'')
      else if mStarting this then Inl (ConfigurationError ''Currently starting.'')
      else Inr (this\<lparr>mStarting := True\<rparr>))"

definition start_end :: "unit result \<Rightarrow> StartStopService \<Rightarrow> StartStopService \<times> service_event list" where
  "start_end outcome this =
     (case outcome of
        Inl e \<Rightarrow> (this, [])
      | Inr u \<Rightarrow> (this\<lparr>mStarted := True, mStarting := False\<rparr>, [STARTED_EVENT]))"

text \<open>\<open>stop\<close> up to \<open>stopInternal\<close>, which is called only when the service was started, and after it.\<close>

definition stop_begin :: "StartStopService \<Rightarrow> StartStopService \<times> bool" where
  "stop_begin this = (if mStarted this then (this\<lparr>mStarted := False\<rparr>, True) else (this, False))"

definition stop_end :: "unit result \<Rightarrow> service_event list" where
  "stop_end outcome = (case outcome of Inl e \<Rightarrow> [] | Inr u \<Rightarrow> [STOPPED_EVENT])"

section \<open>Calls that interleave\<close>

text \<open>How many calls are inside \<open>startInternal\<close> and \<open>stopInternal\<close>, whether a start has thrown, and what was
  emitted.\<close>

record lifecycle =
  service :: StartStopService
  in_start :: nat
  in_stop :: nat
  start_threw :: bool
  emitted_events :: "service_event list"

definition new_lifecycle :: "StartStopService \<Rightarrow> lifecycle" where
  "new_lifecycle s = \<lparr>service = s, in_start = 0, in_stop = 0, start_threw = False, emitted_events = []\<rparr>"

inductive lifecycle_step :: "lifecycle \<Rightarrow> lifecycle \<Rightarrow> bool" where
  start_call: "start_begin (service l) = Inr s \<Longrightarrow> lifecycle_step l (l\<lparr>service := s, in_start := Suc (in_start l)\<rparr>)"
| start_refused: "start_begin (service l) = Inl e \<Longrightarrow> lifecycle_step l l"
| start_return: "in_start l = Suc n \<Longrightarrow> start_end outcome (service l) = (s, evs) \<Longrightarrow>
    lifecycle_step l (l\<lparr>service := s, in_start := n, start_threw := start_threw l \<or> isl outcome,
                        emitted_events := emitted_events l @ evs\<rparr>)"
| stop_call: "stop_begin (service l) = (s, b) \<Longrightarrow>
    lifecycle_step l (l\<lparr>service := s, in_stop := in_stop l + (if b then 1 else 0)\<rparr>)"
| stop_return: "in_stop l = Suc n \<Longrightarrow> lifecycle_step l (l\<lparr>in_stop := n, emitted_events := emitted_events l @ stop_end outcome\<rparr>)"

section \<open>The invariant\<close>

definition lifecycle_ok :: "lifecycle \<Rightarrow> bool" where
  "lifecycle_ok l \<longleftrightarrow>
     in_start l \<le> 1 \<and> \<not> (mStarted (service l) \<and> mStarting (service l)) \<and>
     (mStarting (service l) \<longleftrightarrow> in_start l = 1 \<or> start_threw l) \<and> \<not> (in_start l = 1 \<and> start_threw l)"

interpretation service_life: step_invariant lifecycle_step lifecycle_ok
proof
  fix l l'
  assume "lifecycle_ok l" "lifecycle_step l l'"
  from this(2,1) show "lifecycle_ok l'"
    by cases (auto simp: lifecycle_ok_def start_begin_def start_end_def stop_begin_def split: if_splits sum.splits)
qed

lemma new_lifecycle_ok: "new_StartStopService name = Inr s \<Longrightarrow> lifecycle_ok (new_lifecycle s)"
  by (auto simp: new_StartStopService_def lifecycle_ok_def new_lifecycle_def split: if_splits)

text \<open>Once a start has thrown the service stays in the middle of starting.\<close>

definition stuck :: "lifecycle \<Rightarrow> bool" where
  "stuck l \<longleftrightarrow> lifecycle_ok l \<and> start_threw l"

interpretation stuck_service: step_invariant lifecycle_step stuck
proof
  fix l l'
  assume l: "stuck l" "lifecycle_step l l'"
  then have "start_threw l'" unfolding stuck_def by (auto elim: lifecycle_step.cases)
  with l service_life.inv_step show "stuck l'" by (auto simp: stuck_def)
qed

lemma stuck_refuses:
  "stuck l \<Longrightarrow> \<not> mStarted (service l) \<and> start_begin (service l) = Inl (ConfigurationError ''Currently starting.'')"
  by (auto simp: stuck_def lifecycle_ok_def start_begin_def)

end
