(* ===== verification/Config.thy ===== *)
theory Config
  imports BlockItemStore
begin

text \<open>
  The configuration (src/src/dataEntities/config.ts, and the checks of src/src/startUp.ts): its properties,
  printing a configuration as command line arguments and reading one from them.

  \<open>yargs\<close>, the parser of the command line, is an argument: a function from the options and the arguments
  to the values of the options.  A property that is missing is \<open>undefined\<close>, whatever its type says.
\<close>

section \<open>Configurations\<close>

record IArgConfig =
  jsonRpcUrl :: "string option"
  hostName :: "string option"
  hostPort :: "int option"
  responderKey :: "string option"
  receiptKey :: "string option"
  loglevel :: "string option"
  dbDir :: "string option"
  watcherResponseConfirmations :: "int option"
  maximumReorgLimit :: "int option"
  config_pisaContractAddress :: "string option"
  rateLimitUserWindowMs :: "int option"
  rateLimitUserMax :: "int option"
  rateLimitUserMessage :: "string option"
  rateLimitGlobalWindowMs :: "int option"
  rateLimitGlobalMax :: "int option"
  rateLimitGlobalMessage :: "string option"

text \<open>What a getter returns, and whether the language counts it as true.\<close>

datatype config_value = Text string | Num int

fun truthy :: "config_value option \<Rightarrow> bool" where
  "truthy None \<longleftrightarrow> False"
| "truthy (Some (Text s)) \<longleftrightarrow> s \<noteq> []"
| "truthy (Some (Num n)) \<longleftrightarrow> n \<noteq> 0"

fun print_value :: "config_value \<Rightarrow> string" where
  "print_value (Text s) = s"
| "print_value (Num n) = number_string n"

text \<open>Of the settings for \<open>yargs\<close> the type of the option is kept: whether it is a number.\<close>

record ConfigProperty =
  commandLineName :: string
  valueGetter :: "IArgConfig \<Rightarrow> config_value option"
  yarg_number :: bool

definition text_property :: "string \<Rightarrow> (IArgConfig \<Rightarrow> string option) \<Rightarrow> ConfigProperty" where
  "text_property name getter =
     \<lparr>commandLineName = name, valueGetter = (\<lambda>config. map_option Text (getter config)), yarg_number = False\<rparr>"

definition number_property :: "string \<Rightarrow> (IArgConfig \<Rightarrow> int option) \<Rightarrow> ConfigProperty" where
  "number_property name getter =
     \<lparr>commandLineName = name, valueGetter = (\<lambda>config. map_option Num (getter config)), yarg_number = True\<rparr>"

definition PisaConfigProperties :: "ConfigProperty list" where
  "PisaConfigProperties =
     [text_property ''json-rpc-url'' jsonRpcUrl,
      text_property ''host-name'' hostName,
      number_property ''host-port'' hostPort,
      text_property ''responder-key'' responderKey,
      text_property ''receipt-key'' receiptKey,
      text_property ''db-dir'' dbDir,
      text_property ''loglevel'' loglevel,
      number_property ''maximum-reorg-limit'' maximumReorgLimit,
      number_property ''watcher-response-confirmations'' watcherResponseConfirmations,
      text_property ''pisa-contract-address'' config_pisaContractAddress,
      number_property ''rate-limit-user-window-ms'' rateLimitUserWindowMs,
      number_property ''rate-limit-user-max'' rateLimitUserMax,
      text_property ''rate-limit-user-message'' rateLimitUserMessage,
      number_property ''rate-limit-global-window-ms'' rateLimitGlobalWindowMs,
      number_property ''rate-limit-global-max'' rateLimitGlobalMax,
      text_property ''rate-limit-global-message'' rateLimitGlobalMessage]"

section \<open>Command lines\<close>

text \<open>\<open>reduce\<close> without an initial value throws on an empty array.\<close>

fun reduce_concat :: "string list list \<Rightarrow> string list result" where
  "reduce_concat [] = Inl (JsTypeError ''Reduce of empty array with no initial value'')"
| "reduce_concat (x # xs) = Inr (foldl (@) x xs)"

definition property_args :: "IArgConfig \<Rightarrow> ConfigProperty \<Rightarrow> string list option" where
  "property_args config p =
     (let v = valueGetter p config in
      if truthy v then Some [''--'' @ commandLineName p, print_value (the v)] else None)"

definition toCommandLineArgs :: "ConfigProperty list \<Rightarrow> IArgConfig \<Rightarrow> string list result" where
  "toCommandLineArgs properties config =
     reduce_concat (map the (filter (\<lambda>a. a \<noteq> None) (map (property_args config) properties)))"

text \<open>The object \<open>yargs\<close> returns has every option under its name in camel case as well.\<close>

type_synonym options = "(string \<times> bool) list"

definition text_value :: "config_value option \<Rightarrow> string option" where
  "text_value v = (case v of Some (Text s) \<Rightarrow> Some s | _ \<Rightarrow> None)"

definition number_value :: "config_value option \<Rightarrow> int option" where
  "number_value v = (case v of Some (Num n) \<Rightarrow> Some n | _ \<Rightarrow> None)"

definition fromCommandLineArgs ::
  "(options \<Rightarrow> string list \<Rightarrow> string \<Rightarrow> config_value option) \<Rightarrow> ConfigProperty list \<Rightarrow> string list \<Rightarrow> IArgConfig" where
  "fromCommandLineArgs yargs properties argv =
     (let parsed = yargs (map (\<lambda>p. (commandLineName p, yarg_number p)) properties) argv in
     \<lparr>jsonRpcUrl = text_value (parsed ''json-rpc-url''),
      hostName = text_value (parsed ''host-name''),
      hostPort = number_value (parsed ''host-port''),
      responderKey = text_value (parsed ''responder-key''),
      receiptKey = text_value (parsed ''receipt-key''),
      loglevel = text_value (parsed ''loglevel''),
      dbDir = text_value (parsed ''db-dir''),
      watcherResponseConfirmations = number_value (parsed ''watcher-response-confirmations''),
      maximumReorgLimit = number_value (parsed ''maximum-reorg-limit''),
      config_pisaContractAddress = text_value (parsed ''pisa-contract-address''),
      rateLimitUserWindowMs = number_value (parsed ''rate-limit-user-window-ms''),
      rateLimitUserMax = number_value (parsed ''rate-limit-user-max''),
      rateLimitUserMessage = text_value (parsed ''rate-limit-user-message''),
      rateLimitGlobalWindowMs = number_value (parsed ''rate-limit-global-window-ms''),
      rateLimitGlobalMax = number_value (parsed ''rate-limit-global-max''),
      rateLimitGlobalMessage = text_value (parsed ''rate-limit-global-message'')\<rparr>)"

section \<open>The checks of a start\<close>

text \<open>The message the process prints before it exits; both pairs of a rate limit are given or neither.\<close>

definition given :: "int option \<Rightarrow> bool" where
  "given n \<longleftrightarrow> truthy (map_option Num n)"

definition checkArgs :: "IArgConfig \<Rightarrow> string option" where
  "checkArgs args =
     (if given (rateLimitUserWindowMs args) \<noteq> given (rateLimitUserMax args)
      then Some ''Options rate-limit-user-windowms and rate-limit-user-max must be provided together.''
      else if given (rateLimitGlobalWindowMs args) \<noteq> given (rateLimitGlobalMax args)
      then Some ''Options rate-limit-global-windowms and rate-limit-global-max must be provided together.''
      else if maximumReorgLimit args = Some 0
      then Some ''Option maximum-reorg-limit cannot be 0.''
      else None)"


section \<open>Printing and reading\<close>

text \<open>What is documented of \<open>yargs\<close>: arguments that are names of options, each followed by a text of its type,
  are read back.  A text must not look like another option, and quotes around it would be stripped.\<close>

fun is_Num :: "config_value \<Rightarrow> bool" where
  "is_Num (Num n) \<longleftrightarrow> True"
| "is_Num (Text s) \<longleftrightarrow> False"

fun plain :: "config_value \<Rightarrow> bool" where
  "plain (Num n) \<longleftrightarrow> True"
| "plain (Text s) \<longleftrightarrow> s \<noteq> [] \<and> list_all (\<lambda>c. c \<notin> {CHR ''-'', CHR 39, CHR 34}) (take 1 s)"

definition print_args :: "(string \<times> config_value) list \<Rightarrow> string list" where
  "print_args pairs = concat (map (\<lambda>(name, v). [''--'' @ name, print_value v]) pairs)"

definition yargs_ok :: "(options \<Rightarrow> string list \<Rightarrow> string \<Rightarrow> config_value option) \<Rightarrow> bool" where
  "yargs_ok yargs \<longleftrightarrow>
     (\<forall>opts pairs name. distinct (map fst opts) \<and> distinct (map fst pairs) \<and>
        (\<forall>(n, v)\<in>set pairs. map_of opts n = Some (is_Num v) \<and> plain v) \<and> name \<in> fst ` set opts \<longrightarrow>
        yargs opts (print_args pairs) name = map_of pairs name)"

text \<open>The values that are printed, and the configuration they make.\<close>

definition truthy_values :: "IArgConfig \<Rightarrow> ConfigProperty list \<Rightarrow> (string \<times> config_value) list" where
  "truthy_values config properties =
     map (\<lambda>p. (commandLineName p, the (valueGetter p config))) (filter (\<lambda>p. truthy (valueGetter p config)) properties)"

definition keep_number :: "int option \<Rightarrow> int option" where
  "keep_number n = (if n = Some 0 then None else n)"

definition keep_text :: "string option \<Rightarrow> string option" where
  "keep_text s = (if s = Some [] then None else s)"

definition drop_falsy :: "IArgConfig \<Rightarrow> IArgConfig" where
  "drop_falsy config =
     \<lparr>jsonRpcUrl = keep_text (jsonRpcUrl config),
      hostName = keep_text (hostName config),
      hostPort = keep_number (hostPort config),
      responderKey = keep_text (responderKey config),
      receiptKey = keep_text (receiptKey config),
      loglevel = keep_text (loglevel config),
      dbDir = keep_text (dbDir config),
      watcherResponseConfirmations = keep_number (watcherResponseConfirmations config),
      maximumReorgLimit = keep_number (maximumReorgLimit config),
      config_pisaContractAddress = keep_text (config_pisaContractAddress config),
      rateLimitUserWindowMs = keep_number (rateLimitUserWindowMs config),
      rateLimitUserMax = keep_number (rateLimitUserMax config),
      rateLimitUserMessage = keep_text (rateLimitUserMessage config),
      rateLimitGlobalWindowMs = keep_number (rateLimitGlobalWindowMs config),
      rateLimitGlobalMax = keep_number (rateLimitGlobalMax config),
      rateLimitGlobalMessage = keep_text (rateLimitGlobalMessage config)\<rparr>"

lemma foldl_append: "foldl (@) a xs = a @ concat xs"
  by (induction xs arbitrary: a) auto

lemma toCommandLineArgs_eq:
  "toCommandLineArgs properties config =
     (if truthy_values config properties = [] then Inl (JsTypeError ''Reduce of empty array with no initial value'')
      else Inr (print_args (truthy_values config properties)))"
proof -
  have "map the (filter (\<lambda>a. a \<noteq> None) (map (property_args config) properties)) =
    map (\<lambda>(name, v). [''--'' @ name, print_value v]) (truthy_values config properties)"
    by (induction properties) (auto simp: property_args_def truthy_values_def Let_def)
  then show ?thesis
    by (cases "truthy_values config properties")
      (auto simp: toCommandLineArgs_def print_args_def foldl_append)
qed

definition present :: "config_value option \<Rightarrow> config_value option" where
  "present v = (if truthy v then v else None)"

lemma map_of_truthy_values:
  assumes "distinct (map commandLineName properties)" "p \<in> set properties"
  shows "map_of (truthy_values config properties) (commandLineName p) =
    present (valueGetter p config)"
proof -
  have absent: "map_of (truthy_values config ps) n = None" if "n \<notin> commandLineName ` set ps" for ps n
    using that by (auto simp: truthy_values_def map_of_eq_None_iff)
  have present: "truthy v \<Longrightarrow> Some (the v) = v" for v by (cases v) auto
  show ?thesis
    using assms
  proof (induction properties)
    case (Cons q qs)
    show ?case
    proof (cases "p = q")
      case True
      with Cons.prems(1) show ?thesis
        using absent [of "commandLineName q" qs] present by (auto simp: truthy_values_def present_def)
    next
      case False
      with Cons.prems have "p \<in> set qs" "commandLineName p \<noteq> commandLineName q" by (auto simp: image_iff)
      with Cons show ?thesis by (simp add: truthy_values_def)
    qed
  qed simp
qed

definition empty_config :: IArgConfig where
  "empty_config = fromCommandLineArgs (\<lambda>opts argv name. None) [] []"

lemma truthy_keep:
  "truthy (map_option Text s) \<longleftrightarrow> keep_text s \<noteq> None" "truthy (map_option Num n) \<longleftrightarrow> keep_number n \<noteq> None"
  by (cases s; simp add: keep_text_def) (cases n; simp add: keep_number_def)

lemma nothing_truthy: "truthy_values config PisaConfigProperties = [] \<longleftrightarrow> drop_falsy config = empty_config"
proof -
  have "truthy_values config PisaConfigProperties = [] \<longleftrightarrow> (\<forall>p\<in>set PisaConfigProperties. \<not> truthy (valueGetter p config))"
    by (simp add: truthy_values_def filter_empty_conv)
  then show ?thesis
    by (simp add: PisaConfigProperties_def text_property_def number_property_def truthy_keep drop_falsy_def
        empty_config_def fromCommandLineArgs_def Let_def text_value_def number_value_def)
      blast
qed

lemma property_typed:
  assumes "p \<in> set PisaConfigProperties" "valueGetter p config = Some v"
  shows "is_Num v = yarg_number p"
proof -
  have "\<forall>p\<in>set PisaConfigProperties. \<forall>v. valueGetter p config = Some v \<longrightarrow> is_Num v = yarg_number p"
    by (auto simp: PisaConfigProperties_def text_property_def number_property_def)
  with assms show ?thesis by blast
qed

lemma truthy_Some: "truthy v \<Longrightarrow> \<exists>x. v = Some x"
  by (cases v) auto

lemma keep_truthy:
  "text_value (present (map_option Text s)) = keep_text s"
  "number_value (present (map_option Num n)) = keep_number n"
  by (cases s; simp add: text_value_def keep_text_def present_def)
    (cases n; simp add: number_value_def keep_number_def present_def)

definition option_names :: "string list" where
  "option_names = map commandLineName PisaConfigProperties"

lemma option_names_distinct: "distinct option_names"
  by code_simp

lemma truthy_values_ok:
  assumes "distinct (map commandLineName properties)"
    "\<And>p. p \<in> set properties \<Longrightarrow> truthy (valueGetter p config) \<Longrightarrow>
       plain (the (valueGetter p config)) \<and> is_Num (the (valueGetter p config)) = yarg_number p"
  shows "distinct (map fst (truthy_values config properties))"
    "\<forall>(n, v)\<in>set (truthy_values config properties).
       map_of (map (\<lambda>p. (commandLineName p, yarg_number p)) properties) n = Some (is_Num v) \<and> plain v"
proof -
  have "map fst (truthy_values config properties) =
    map commandLineName (filter (\<lambda>p. truthy (valueGetter p config)) properties)" by (simp add: truthy_values_def)
  then show "distinct (map fst (truthy_values config properties))" using assms(1) by (simp add: distinct_map_filter)
  have "map_of (map (\<lambda>p. (commandLineName p, yarg_number p)) properties) (commandLineName p) = Some (yarg_number p)"
    if "p \<in> set properties" for p
    using assms(1) that by (intro map_of_is_SomeI) (auto simp: comp_def)
  then show "\<forall>(n, v)\<in>set (truthy_values config properties).
       map_of (map (\<lambda>p. (commandLineName p, yarg_number p)) properties) n = Some (is_Num v) \<and> plain v"
    using assms(2) by (auto simp: truthy_values_def)
qed

lemma read_back:
  assumes "\<And>p. p \<in> set PisaConfigProperties \<Longrightarrow> parsed (commandLineName p) = present (valueGetter p config)"
    "yargs (map (\<lambda>p. (commandLineName p, yarg_number p)) properties) args = parsed"
  shows "fromCommandLineArgs yargs properties args = drop_falsy config"
proof -
  have "map (parsed \<circ> commandLineName) PisaConfigProperties = map (\<lambda>p. present (valueGetter p config)) PisaConfigProperties"
    using assms(1) by simp
  then show ?thesis
    unfolding fromCommandLineArgs_def Let_def drop_falsy_def assms(2)
    by (simp add: PisaConfigProperties_def text_property_def number_property_def keep_truthy)
qed

text \<open>A configuration that is printed as command line arguments and read back keeps exactly its truthy
  properties: every text that is not empty and every number but 0.  A number that is 0, a limit or a
  number of confirmations for instance, is dropped and comes back undefined.  When there is nothing to
  print, printing throws.\<close>

lemma config_roundtrip:
  assumes "yargs_ok yargs"
    "\<And>p s. p \<in> set PisaConfigProperties \<Longrightarrow> valueGetter p config = Some (Text s) \<Longrightarrow> s \<noteq> [] \<Longrightarrow> plain (Text s)"
  shows "if drop_falsy config = empty_config
    then toCommandLineArgs PisaConfigProperties config = Inl (JsTypeError ''Reduce of empty array with no initial value'')
    else \<exists>args. toCommandLineArgs PisaConfigProperties config = Inr args \<and>
           fromCommandLineArgs yargs PisaConfigProperties args = drop_falsy config"
proof -
  let ?vals = "truthy_values config PisaConfigProperties"
  let ?opts = "map (\<lambda>p. (commandLineName p, yarg_number p)) PisaConfigProperties"
  have names: "distinct (map commandLineName PisaConfigProperties)"
    using option_names_distinct by (simp add: option_names_def)
  have val: "plain (the (valueGetter p config)) \<and> is_Num (the (valueGetter p config)) = yarg_number p"
    if p: "p \<in> set PisaConfigProperties" "truthy (valueGetter p config)" for p
  proof -
    from truthy_Some [OF p(2)] obtain v where v: "valueGetter p config = Some v" ..
    with p(2) assms(2) [OF p(1)] property_typed [OF p(1) v] show ?thesis by (cases v) auto
  qed
  have "yargs ?opts (print_args ?vals) (commandLineName p) = present (valueGetter p config)" if "p \<in> set PisaConfigProperties" for p
  proof -
    have "distinct (map fst ?opts)" using names by (simp add: comp_def)
    moreover have "commandLineName p \<in> fst ` set ?opts" using that by force
    ultimately have "yargs ?opts (print_args ?vals) (commandLineName p) = map_of ?vals (commandLineName p)"
      using assms(1) [unfolded yargs_ok_def, rule_format, OF conjI, OF _ conjI, OF _ _ conjI]
        truthy_values_ok [OF names val] by blast
    then show ?thesis by (simp only: map_of_truthy_values [OF names that])
  qed
  then have "fromCommandLineArgs yargs PisaConfigProperties (print_args ?vals) = drop_falsy config"
    by (rule read_back [OF _ refl])
  then show ?thesis by (simp add: toCommandLineArgs_eq nothing_truthy)
qed

text \<open>A parser of such arguments.\<close>

fun ex_yargs :: "options \<Rightarrow> string list \<Rightarrow> string \<Rightarrow> config_value option" where
  "ex_yargs opts (k # v # argv) name =
     (if k = ''--'' @ name
      then (case map_of opts name of Some True \<Rightarrow> map_option Num (parseInt v) | _ \<Rightarrow> Some (Text v))
      else ex_yargs opts argv name)"
| "ex_yargs opts _ name = None"

lemma ex_yargs_ok: "yargs_ok ex_yargs"
proof -
  have "ex_yargs opts (print_args pairs) name = map_of pairs name"
    if "\<forall>(n, v)\<in>set pairs. map_of opts n = Some (is_Num v) \<and> plain v" for opts pairs name
    using that
  proof (induction pairs)
    case (Cons nv pairs)
    obtain n v where "nv = (n, v)" by (cases nv)
    with Cons show ?case by (cases v) (auto simp: print_args_def parseInt_number_string)
  qed (simp add: print_args_def)
  then show ?thesis unfolding yargs_ok_def by blast
qed

end
