(* ===== verification/Service.thy ===== *)
theory Service
  imports Tower Watcher ResponderComponent StartStop Config
begin

text \<open>
  The service (src/src/service.ts): how the components are built from a configuration, the order their
  stores start in, and the requests: what each handler answers and which status an error becomes.

  The text of a response stands for the value it was printed from.  Express, which routes the requests and
  applies the rate limits, is not modelled; its options and the handlers it is given are.
\<close>

section \<open>Building the service\<close>

record Databases =
  appointments_db :: "IAppointment js_map"
  responder_db :: "responder_record js_map"

record PisaService =
  lifetime :: StartStopService
  pisaTower :: PisaTower
  cacheLimit :: int
  watcherBeforeResponse :: int
  watcherBeforeRemoval :: int
  responderConfirmations :: int

definition or_default :: "int option \<Rightarrow> int \<Rightarrow> int" where
  "or_default v d = (case v of None \<Rightarrow> d | Some n \<Rightarrow> n)"

definition new_PisaService ::
  "IArgConfig \<Rightarrow> string \<Rightarrow> int \<Rightarrow> int \<Rightarrow> Databases \<Rightarrow> PisaService result" where
  "new_PisaService config responderAddress walletNonce chain db =
     bind_result (new_StartStopService ''pisa'') (\<lambda>life.
     let limit = or_default (maximumReorgLimit config) 200;
         appointmentStore = new_AppointmentStore (appointments_db db) in
     bind_result (new_GasQueue [] walletNonce 12 13) (\<lambda>seedQueue.
     let responderStore = new_ResponderStore (responder_db db) responderAddress seedQueue;
         responder = \<lparr>chainId = chain, zStore = responderStore, sent = []\<rparr> in
     bind_result (new_Watcher appointmentStore (or_default (watcherResponseConfirmations config) 5)
                    (or_default (maximumReorgLimit config) 100)) (\<lambda>watcher.
     let component = \<lparr>component_responder = responder, responder_address = responderAddress,
                      confirmationsRequired = or_default (maximumReorgLimit config) 100\<rparr> in
     Inr \<lparr>lifetime = life,
          pisaTower = \<lparr>tower_store = appointmentStore, multiResponder = responder\<rparr>,
          cacheLimit = limit,
          watcherBeforeResponse = confirmationsBeforeResponse watcher,
          watcherBeforeRemoval = confirmationsBeforeRemoval watcher,
          responderConfirmations = confirmationsRequired component\<rparr>)))"

text \<open>The order of the start: the stores of blocks and actions, the machine and the processor, whose outcome
  is an argument, then the appointments and the responder.\<close>

definition start_appointments :: "BigNumberCodec \<Rightarrow> IAppointment js_map \<Rightarrow> (PisaService, unit) eff" where
  "start_appointments bn stream s =
     (case startInternal_appointments bn stream (tower_store (pisaTower s)) of
        (r, store) \<Rightarrow> (r, s\<lparr>pisaTower := (pisaTower s)\<lparr>tower_store := store\<rparr>\<rparr>))"

definition start_responder :: "BigNumberCodec \<Rightarrow> responder_record js_map \<Rightarrow> (PisaService, unit) eff" where
  "start_responder bn stream s =
     (let responder = multiResponder (pisaTower s) in
      case startInternal bn stream (zStore responder) of
        Inl e \<Rightarrow> (Inl e, s)
      | Inr store \<Rightarrow> (Inr (), s\<lparr>pisaTower := (pisaTower s)\<lparr>multiResponder := responder\<lparr>zStore := store\<rparr>\<rparr>\<rparr>))"

definition startInternal_service ::
  "BigNumberCodec \<Rightarrow> unit result \<Rightarrow> IAppointment js_map \<Rightarrow> responder_record js_map \<Rightarrow> (PisaService, unit) eff" where
  "startInternal_service bn chain appointments responses =
     then_eff (lift_result chain)
       (then_eff (start_appointments bn appointments) (start_responder bn responses))"

section \<open>Responses\<close>

text \<open>A body is an object with a message, an empty object, or the text of a value.\<close>

datatype 'r HttpBody = MessageBody string | EmptyBody | TextBody 'r

record 'r HttpResponse =
  status :: int
  body :: "'r HttpBody"

definition message_response :: "int \<Rightarrow> string \<Rightarrow> 'r HttpResponse" where
  "message_response code message = \<lparr>status = code, body = MessageBody message\<rparr>"

text \<open>What the handlers answer when they throw.\<close>

fun error_response :: "app_error \<Rightarrow> 'r HttpResponse" where
  "error_response (PublicInspectionError m) = message_response 400 m"
| "error_response (PublicDataValidationError m) = message_response 400 m"
| "error_response (JsTypeError m) = message_response 500 ''Internal server error.''"
| "error_response (JsError m) = message_response 500 ''Internal server error.''"
| "error_response _ = message_response 500 ''Internal server error''"

definition handlerWrapper :: "(PisaService, 'r) eff \<Rightarrow> PisaService \<Rightarrow> 'r HttpResponse \<times> PisaService" where
  "handlerWrapper handlerFunction s =
     (if \<not> mStarted (lifetime s)
      then (message_response 503 ''Service initialising, please try again later.'', s)
      else case handlerFunction s of
        (Inr result, s') \<Rightarrow> (\<lparr>status = 200, body = TextBody result\<rparr>, s')
      | (Inl doh, s') \<Rightarrow> (error_response doh, s'))"

text \<open>The errors of the middleware before the handlers, by the status code they carry.\<close>

definition base_error_response :: "int option \<Rightarrow> 'r HttpResponse" where
  "base_error_response statusCode =
     (if statusCode = Some 400 then message_response 400 ''Bad request''
      else case statusCode of
        Some n \<Rightarrow> if n \<noteq> 0 then \<lparr>status = n, body = EmptyBody\<rparr> else message_response 500 ''Internal server error''
      | None \<Rightarrow> message_response 500 ''Internal server error'')"

definition not_found :: "string \<Rightarrow> 'r HttpResponse" where
  "not_found url = message_response 404
     (''Route '' @ url @ '' not found, only availale routes are POST at /appointment and GET at /docs.html'')"

section \<open>The log of the requests\<close>

definition JSON_SCHEMA_ROUTE :: string where
  "JSON_SCHEMA_ROUTE = ''/schemas/appointmentRequest.json''"

definition API_DOCS_JSON_ROUTE :: string where
  "API_DOCS_JSON_ROUTE = ''/api-docs.json''"

definition API_DOCS_HTML_ROUTE :: string where
  "API_DOCS_HTML_ROUTE = ''/docs.html''"

datatype LogEntry = InfoEntry string | ErrorEntry string

text \<open>The entry that is written when a response is finished.\<close>

definition request_log :: "string \<Rightarrow> int \<Rightarrow> LogEntry" where
  "request_log url statusCode =
     (if toLowerCase url \<in> set (map toLowerCase [JSON_SCHEMA_ROUTE, API_DOCS_JSON_ROUTE, API_DOCS_HTML_ROUTE]) \<and> statusCode < 400
      then InfoEntry ''Docs request.''
      else if statusCode = 200 then InfoEntry ''Success response.''
      else if statusCode \<ge> 400 then ErrorEntry ''Error response.''
      else ErrorEntry ''Other response.'')"

section \<open>Rate limits\<close>

datatype rate_key = GlobalKey | IpKey

record RateLimit =
  keyGenerator :: rate_key
  limit_statusCode :: int
  limit_message :: string
  windowMs :: int
  limit_max :: int

definition text_or :: "string option \<Rightarrow> string \<Rightarrow> string" where
  "text_or v d = (case v of None \<Rightarrow> d | Some s \<Rightarrow> if s = [] then d else s)"

definition rate_limits :: "IArgConfig \<Rightarrow> RateLimit list" where
  "rate_limits config =
     (if given (rateLimitGlobalMax config) \<and> given (rateLimitGlobalWindowMs config)
      then [\<lparr>keyGenerator = GlobalKey, limit_statusCode = 503,
             limit_message = text_or (rateLimitGlobalMessage config) ''Server request limit reached. Please try again later.'',
             windowMs = the (rateLimitGlobalWindowMs config), limit_max = the (rateLimitGlobalMax config)\<rparr>] else []) @
     (if given (rateLimitUserMax config) \<and> given (rateLimitUserWindowMs config)
      then [\<lparr>keyGenerator = IpKey, limit_statusCode = 429,
             limit_message = text_or (rateLimitUserMessage config) ''Too many requests. Please try again later.'',
             windowMs = the (rateLimitUserWindowMs config), limit_max = the (rateLimitUserMax config)\<rparr>] else [])"

section \<open>The handlers\<close>

definition on_tower :: "(PisaTower, 'a) eff \<Rightarrow> (PisaService, 'a) eff" where
  "on_tower f s = (case f (pisaTower s) of (r, t) \<Rightarrow> (r, s\<lparr>pisaTower := t\<rparr>))"

definition appointment ::
  "TowerConfig \<Rightarrow> ('b IBlockStub_scheme, 's) BlockCache \<Rightarrow> Env \<Rightarrow> bool \<Rightarrow> json \<Rightarrow> PisaService \<Rightarrow>
   SignedAppointmentSerialisation HttpResponse \<times> PisaService" where
  "appointment cfg blockCache env db_ok req_body =
     handlerWrapper (bind_eff (on_tower (addAppointment cfg blockCache env db_ok req_body)) (\<lambda>signedAppointment.
       return_eff (serialise (bignumber cfg) signedAppointment)))"

definition getAppointmentsByCustomer ::
  "BigNumberCodec \<Rightarrow> string \<Rightarrow> PisaService \<Rightarrow> IAppointmentRequest list HttpResponse \<times> PisaService" where
  "getAppointmentsByCustomer bn customer =
     handlerWrapper (\<lambda>s.
       if customer = [] then (Inl (PublicDataValidationError ''Missing customerAddress parameter in url.''), s)
       else
         let appointments = (case map_of (mAppointmentsByCustomerAddress (tower_store (pisaTower s))) customer of
                               None \<Rightarrow> [] | Some as \<Rightarrow> as)
         in (Inr (map (toIAppointmentRequest bn) appointments), s))"

section \<open>A service that starts\<close>

lemma on_tower_iff:
  "on_tower f s = (r, s') \<longleftrightarrow> (\<exists>t. f (pisaTower s) = (r, t) \<and> s' = s\<lparr>pisaTower := t\<rparr>)"
  by (auto simp: on_tower_def split: prod.splits)

text \<open>With a nonce of the wallet, the constructor throws exactly when the watcher would respond later than it
  forgets.\<close>

lemma seed_queue:
  "0 \<le> n \<Longrightarrow> new_GasQueue [] n 12 13 = Inr \<lparr>queueItems = [], emptyNonce = n, replacementRate = 12, maxQueueDepth = 13\<rparr>"
  by (simp add: new_GasQueue_def)

lemma new_PisaService_eq:
  assumes "0 \<le> walletNonce"
  shows "new_PisaService config addr walletNonce chain db =
    (if or_default (watcherResponseConfirmations config) 5 > or_default (maximumReorgLimit config) 100
     then Inl (ArgumentError ''confirmationsBeforeResponse must be less than or equal to confirmationsBeforeRemoval.'')
     else Inr \<lparr>lifetime = \<lparr>mStarted = False, mStarting = False\<rparr>,
       pisaTower = \<lparr>tower_store = new_AppointmentStore (appointments_db db),
         multiResponder = \<lparr>chainId = chain, zStore = new_ResponderStore (responder_db db) addr
           \<lparr>queueItems = [], emptyNonce = walletNonce, replacementRate = 12, maxQueueDepth = 13\<rparr>, sent = []\<rparr>\<rparr>,
       cacheLimit = or_default (maximumReorgLimit config) 200,
       watcherBeforeResponse = or_default (watcherResponseConfirmations config) 5,
       watcherBeforeRemoval = or_default (maximumReorgLimit config) 100,
       responderConfirmations = or_default (maximumReorgLimit config) 100\<rparr>)"
proof -
  have "new_StartStopService ''pisa'' = Inr \<lparr>mStarted = False, mStarting = False\<rparr>" by code_simp
  then show ?thesis by (simp add: new_PisaService_def seed_queue [OF assms] new_Watcher_def)
qed


section \<open>Properties\<close>

text \<open>What a handler throws, and what it refuses before the service has started, is logged as an error.\<close>

lemma error_response_status [simp]: "status (error_response e) \<noteq> 200" "400 \<le> status (error_response e)"
  by (cases e rule: error_response.cases; simp add: message_response_def)+

lemma handler_logged:
  "request_log ''/appointment'' (status (fst (handlerWrapper f s))) =
     (if mStarted (lifetime s) \<and> (\<exists>x. fst (f s) = Inr x) then InfoEntry ''Success response.'' else ErrorEntry ''Error response.'')"
proof -
  have url: "toLowerCase ''/appointment'' \<notin> set (map toLowerCase [JSON_SCHEMA_ROUTE, API_DOCS_JSON_ROUTE, API_DOCS_HTML_ROUTE])"
    by code_simp
  have "request_log ''/appointment'' n = (if n = 200 then InfoEntry ''Success response.''
      else if n \<ge> 400 then ErrorEntry ''Error response.'' else ErrorEntry ''Other response.'')" for n
    using url unfolding request_log_def by presburger
  then show ?thesis
    by (auto simp: handlerWrapper_def message_response_def split: prod.split sum.split)
qed

lemma toIAppointmentRequest_inj: "codec_ok bn \<Longrightarrow> inj (toIAppointmentRequest bn)"
  by (rule inj_on_inverseI [where g = "\<lambda>r. projr (fromIAppointmentRequest bn r)"]) (simp add: appointment_roundtrips)

text \<open>A started service returns to a customer exactly the appointments the store has for the address, each
  once, in a form that parses to the appointment; the address is compared letter by letter.\<close>

lemma customer_gets_appointments:
  assumes "mStarted (lifetime s)" "appointments_ok bn (tower_store (pisaTower s))" "customer \<noteq> []"
  shows "\<exists>as. getAppointmentsByCustomer bn customer s =
      (\<lparr>status = 200, body = TextBody (map (toIAppointmentRequest bn) as)\<rparr>, s) \<and>
    distinct (map (toIAppointmentRequest bn) as) \<and>
    set as = {a. abs_store (tower_store (pisaTower s)) (locator a) = Some a \<and> a_customerAddress a = customer} \<and>
    map_result (fromIAppointmentRequest bn) (map (toIAppointmentRequest bn) as) = Inr as"
proof -
  let ?store = "tower_store (pisaTower s)"
  note ok = appointments_okD [OF assms(2)]
  note D = indexes_okD [OF ok(2)]
  define as where "as = (case map_of (mAppointmentsByCustomerAddress ?store) customer of None \<Rightarrow> [] | Some as \<Rightarrow> as)"
  have "set as = set_of (mAppointmentsByCustomerAddress ?store) customer" "distinct as"
    using D(7) by (auto simp: as_def set_of_def sets_ok_def split: option.split)
  moreover have "set_of (mAppointmentsByCustomerAddress ?store) customer =
      {a. abs_store ?store (locator a) = Some a \<and> a_customerAddress a = customer}"
    by (simp add: D(8) byId_abs [OF ok(2)])
  moreover have "distinct (map (toIAppointmentRequest bn) as)"
    using \<open>distinct as\<close> toIAppointmentRequest_inj [OF ok(1)] by (simp add: distinct_map inj_on_subset [OF _ subset_UNIV])
  moreover have "map_result (fromIAppointmentRequest bn) (map (toIAppointmentRequest bn) as) = Inr as"
    by (rule map_result_Inr) (simp add: appointment_roundtrips [OF ok(1)])
  moreover have "getAppointmentsByCustomer bn customer s =
      (\<lparr>status = 200, body = TextBody (map (toIAppointmentRequest bn) as)\<rparr>, s)"
    using assms(1,3) by (simp add: getAppointmentsByCustomer_def handlerWrapper_def as_def)
  ultimately show ?thesis by auto
qed

definition ex_service :: "int \<Rightarrow> PisaService" where
  "ex_service depth =
     \<lparr>lifetime = \<lparr>mStarted = True, mStarting = False\<rparr>, pisaTower = ex_tower depth, cacheLimit = 200,
      watcherBeforeResponse = 5, watcherBeforeRemoval = 100, responderConfirmations = 100\<rparr>"

text \<open>C36: When a store or the machine throws while the service starts, the service is lost: from then on it is
  never started, every further start throws, and every request is answered with the status 503 and
  changes nothing, whatever is called.\<close>

theorem failed_start_unavailable:
  assumes "new_StartStopService ''pisa'' = Inr life" "lifecycle_step\<^sup>*\<^sup>* (new_lifecycle life) l" "start_threw l"
    "lifecycle_step\<^sup>*\<^sup>* l l'" "lifetime s = service l'"
  shows "start_begin (service l') = Inl (ConfigurationError ''Currently starting.'') \<and>
    appointment cfg c env db_ok req s = (message_response 503 ''Service initialising, please try again later.'', s) \<and>
    getAppointmentsByCustomer bn customer s = (message_response 503 ''Service initialising, please try again later.'', s)"
proof -
  have "lifecycle_ok l" by (rule service_life.reach_inv [OF assms(2) new_lifecycle_ok [OF assms(1)]])
  then have "stuck l" using assms(3) by (simp add: stuck_def)
  from stuck_refuses [OF stuck_service.reach_inv [OF assms(4) this]] assms(5) show ?thesis
    by (simp add: appointment_def getAppointmentsByCustomer_def handlerWrapper_def)
qed

definition ex_life :: StartStopService where
  "ex_life = \<lparr>mStarted = False, mStarting = True\<rparr>"

theorem failed_start_unavailable_witness:
  "appointment ex_config ex_head ex_empty_env True (ex_request 1 ''0xe'' []) ((ex_service 13)\<lparr>lifetime := ex_life\<rparr>) =
     (message_response 503 ''Service initialising, please try again later.'', (ex_service 13)\<lparr>lifetime := ex_life\<rparr>) \<and>
   start_begin ex_life = Inl (ConfigurationError ''Currently starting.'')"
proof -
  let ?l0 = "new_lifecycle \<lparr>mStarted = False, mStarting = False\<rparr>"
  let ?l1 = "?l0\<lparr>service := ex_life, in_start := 1\<rparr>"
  let ?l2 = "?l1\<lparr>in_start := 0, start_threw := True\<rparr>"
  have new: "new_StartStopService ''pisa'' = Inr \<lparr>mStarted = False, mStarting = False\<rparr>" by code_simp
  have "lifecycle_step ?l0 ?l1"
    using lifecycle_step.start_call [of ?l0 ex_life] by (simp add: new_lifecycle_def start_begin_def ex_life_def)
  moreover have "lifecycle_step ?l1 ?l2"
    using lifecycle_step.start_return [of ?l1 0 "Inl (JsError ''db'')" ex_life "[]"]
    by (simp add: new_lifecycle_def start_end_def)
  ultimately have "lifecycle_step\<^sup>*\<^sup>* ?l0 ?l2" by (meson converse_rtranclp_into_rtranclp r_into_rtranclp)
  from failed_start_unavailable [OF new this _ rtranclp.rtrancl_refl, where s = "(ex_service 13)\<lparr>lifetime := ex_life\<rparr>"
      and cfg = ex_config and c = ex_head and env = ex_empty_env and db_ok = True and req = "ex_request 1 ''0xe'' []"]
  show ?thesis by simp
qed

end
