(* ===== verification/StartUp.thy ===== *)
theory StartUp
  imports Service
begin

text \<open>
  The start of the process (src/src/startUp.ts) and the levels of its loggers (src/src/logger.ts): the
  arguments are checked, the configuration file and the command line are merged, the level of the log is
  set, the provider is asked, and the service is made and started.

  What is outside is an argument: the file, the command line as \<open>fromCommandLineArgs\<close> read it, the answers of
  the provider, the address of the wallet and the databases.
\<close>

section \<open>Log levels\<close>

datatype LogLevel = ErrorLevel | InfoLevel | DebugLevel

fun level_name :: "LogLevel \<Rightarrow> string" where
  "level_name ErrorLevel = ''error''"
| "level_name InfoLevel = ''info''"
| "level_name DebugLevel = ''debug''"

definition LogLevel_values :: "LogLevel list" where
  "LogLevel_values = [ErrorLevel, InfoLevel, DebugLevel]"

record LogLevelInfo =
  logLevel :: LogLevel
  level_order :: int

definition level_info :: "LogLevel \<Rightarrow> LogLevelInfo" where
  "level_info l = \<lparr>logLevel = l, level_order = (case l of ErrorLevel \<Rightarrow> 0 | InfoLevel \<Rightarrow> 2 | DebugLevel \<Rightarrow> 4)\<rparr>"

definition tryParse :: "string \<Rightarrow> LogLevelInfo option" where
  "tryParse s =
     (if s = ''error'' then Some (level_info ErrorLevel)
      else if s = ''info'' then Some (level_info InfoLevel)
      else if s = ''debug'' then Some (level_info DebugLevel)
      else None)"

definition getLevelsBelow :: "LogLevelInfo \<Rightarrow> LogLevelInfo list" where
  "getLevelsBelow this =
     filter (\<lambda>levelInfo. level_order levelInfo \<le> level_order this)
       (map (\<lambda>level. the (tryParse (level_name level))) LogLevel_values)"

text \<open>A stream of a logger: a file for a level, or the console; outside production and tests there is one.\<close>

datatype log_stream = LogFile string LogLevel | Console LogLevel

definition createNamedLogger :: "string option \<Rightarrow> LogLevelInfo \<Rightarrow> string option \<Rightarrow> string \<times> log_stream list" where
  "createNamedLogger NODE_ENV currentLogLevelInfo name =
     (let name' = (case name of None \<Rightarrow> ''app'' | Some n \<Rightarrow> if n = [] then ''app'' else n);
          prefix = name' @ ''-'';
          streams = map (\<lambda>levelInfo. LogFile (''logs/'' @ prefix @ level_name (logLevel levelInfo) @ ''.log'') (logLevel levelInfo))
                      (getLevelsBelow currentLogLevelInfo)
      in (name', if NODE_ENV \<noteq> Some ''production'' \<and> NODE_ENV \<noteq> Some ''test'' then streams @ [Console InfoLevel] else streams))"

lemma tryParse_name [simp]: "tryParse (level_name l) = Some (level_info l)"
  by (cases l) (simp_all add: tryParse_def)

lemma tryParse_Some_iff: "tryParse s = Some i \<longleftrightarrow> (\<exists>l. s = level_name l \<and> i = level_info l)"
proof
  assume "tryParse s = Some i"
  then show "\<exists>l. s = level_name l \<and> i = level_info l"
    unfolding tryParse_def by (metis level_name.simps option.distinct(1) option.inject)
qed auto

text \<open>A level logs to the files of the levels that are as urgent.\<close>

lemma getLevelsBelow_levels:
  "map logLevel (getLevelsBelow (level_info ErrorLevel)) = [ErrorLevel]"
  "map logLevel (getLevelsBelow (level_info InfoLevel)) = [ErrorLevel, InfoLevel]"
  "map logLevel (getLevelsBelow (level_info DebugLevel)) = [ErrorLevel, InfoLevel, DebugLevel]"
  by (simp_all add: getLevelsBelow_def LogLevel_values_def level_info_def del: level_name.simps)

section \<open>The start\<close>

text \<open>\<open>Object.assign\<close>: what the command line gives takes the place of what the file has.\<close>

definition override :: "'a option \<Rightarrow> 'a option \<Rightarrow> 'a option" where
  "override v w = (case w of None \<Rightarrow> v | Some x \<Rightarrow> Some x)"

definition assign_config :: "IArgConfig \<Rightarrow> IArgConfig \<Rightarrow> IArgConfig" where
  "assign_config file cmd =
     \<lparr>jsonRpcUrl = override (jsonRpcUrl file) (jsonRpcUrl cmd),
      hostName = override (hostName file) (hostName cmd),
      hostPort = override (hostPort file) (hostPort cmd),
      responderKey = override (responderKey file) (responderKey cmd),
      receiptKey = override (receiptKey file) (receiptKey cmd),
      loglevel = override (loglevel file) (loglevel cmd),
      dbDir = override (dbDir file) (dbDir cmd),
      watcherResponseConfirmations = override (watcherResponseConfirmations file) (watcherResponseConfirmations cmd),
      maximumReorgLimit = override (maximumReorgLimit file) (maximumReorgLimit cmd),
      config_pisaContractAddress = override (config_pisaContractAddress file) (config_pisaContractAddress cmd),
      rateLimitUserWindowMs = override (rateLimitUserWindowMs file) (rateLimitUserWindowMs cmd),
      rateLimitUserMax = override (rateLimitUserMax file) (rateLimitUserMax cmd),
      rateLimitUserMessage = override (rateLimitUserMessage file) (rateLimitUserMessage cmd),
      rateLimitGlobalWindowMs = override (rateLimitGlobalWindowMs file) (rateLimitGlobalWindowMs cmd),
      rateLimitGlobalMax = override (rateLimitGlobalMax file) (rateLimitGlobalMax cmd),
      rateLimitGlobalMessage = override (rateLimitGlobalMessage file) (rateLimitGlobalMessage cmd)\<rparr>"

text \<open>The process exits with a message, or goes on.  A missing level is no level.\<close>

definition checkLogLevel :: "string option \<Rightarrow> string + LogLevelInfo" where
  "checkLogLevel level =
     (case Option.bind level tryParse of
        None \<Rightarrow> Inl ''Option loglevel can only be one of the following: error, info, debug''
      | Some info \<Rightarrow> Inr info)"

text \<open>What the provider answers to \<open>getTransactionCount\<close>, and the error it is wrapped in.\<close>

definition validateProvider :: "string option \<Rightarrow> int result \<Rightarrow> unit result" where
  "validateProvider url answer =
     (case answer of
        Inr n \<Rightarrow> Inr ()
      | Inl err \<Rightarrow> Inl (JsError (case url of
            None \<Rightarrow> ''Provider failed to connect''
          | Some u \<Rightarrow> if u = [] then ''Provider failed to connect'' else ''Provider failed to connect to '' @ u)))"

text \<open>How the process begins: it exits with a message, logs an error, or runs a service, with the level of its
  new loggers.\<close>

datatype start_up = Exits string | LogsError app_error | Runs PisaService LogLevelInfo

definition startUp ::
  "IArgConfig \<Rightarrow> IArgConfig \<Rightarrow> int result \<Rightarrow> int result \<Rightarrow> int \<Rightarrow> (string option \<Rightarrow> string result) \<Rightarrow> Databases \<Rightarrow> start_up" where
  "startUp jsonConfig commandLineConfig getTransactionCount pendingCount chain wallet db =
     (case checkArgs commandLineConfig of
        Some message \<Rightarrow> Exits message
      | None \<Rightarrow>
          let config = assign_config jsonConfig commandLineConfig in
          case checkLogLevel (loglevel config) of
            Inl message \<Rightarrow> Exits message
          | Inr logLevelInfo \<Rightarrow>
              (case bind_result (validateProvider (jsonRpcUrl config) getTransactionCount) (\<lambda>_.
                    bind_result (wallet (responderKey config)) (\<lambda>watcherWallet.
                    bind_result (wallet (receiptKey config)) (\<lambda>receiptSigner.
                    bind_result pendingCount (\<lambda>walletNonce.
                      new_PisaService config watcherWallet walletNonce chain db)))) of
                 Inl doh \<Rightarrow> LogsError doh
               | Inr pisa \<Rightarrow>
                   (case start_begin (lifetime pisa) of
                      Inl e \<Rightarrow> Runs pisa logLevelInfo
                    | Inr starting \<Rightarrow> Runs (pisa\<lparr>lifetime := starting\<rparr>) logLevelInfo)))"

text \<open>With a provider and wallets that work, the process runs a service exactly when the rate limits of the command
  line come in pairs, its reorganisation limit is not 0, the level is known and the watcher would not respond
  later than it forgets; the service is then starting, with the limits of the merged configuration.  The pairs
  and the limit of the file are not checked.\<close>

lemma startUp_runs_iff:
  assumes "0 \<le> n" "wallet (responderKey config) = Inr a" "wallet (receiptKey config) = Inr b"
    "config = assign_config file cmd"
  shows "(\<exists>s i. startUp file cmd (Inr m) (Inr n) chain wallet db = Runs s i) \<longleftrightarrow>
    given (rateLimitUserWindowMs cmd) = given (rateLimitUserMax cmd) \<and>
    given (rateLimitGlobalWindowMs cmd) = given (rateLimitGlobalMax cmd) \<and> maximumReorgLimit cmd \<noteq> Some 0 \<and>
    (\<exists>l. loglevel config = Some (level_name l)) \<and>
    or_default (watcherResponseConfirmations config) 5 \<le> or_default (maximumReorgLimit config) 100"
proof -
  have level: "(\<exists>i. checkLogLevel (loglevel config) = Inr i) \<longleftrightarrow> (\<exists>l. loglevel config = Some (level_name l))"
  proof (cases "loglevel config")
    case (Some x)
    then show ?thesis
      by (cases "tryParse x") (auto simp: checkLogLevel_def dest: tryParse_Some_iff [THEN iffD1])
  qed (simp add: checkLogLevel_def)
  show ?thesis
  proof -
    have "(\<exists>s i. startUp file cmd (Inr m) (Inr n) chain wallet db = Runs s i) \<longleftrightarrow>
        checkArgs cmd = None \<and> (\<exists>i. checkLogLevel (loglevel config) = Inr i) \<and>
        (\<exists>s. new_PisaService config a n chain db = Inr s)"
      unfolding startUp_def assms(4) [symmetric] Let_def
      by (auto simp: validateProvider_def assms(2,3) split: sum.splits option.splits)
    moreover have "(\<exists>s. new_PisaService config a n chain db = Inr s) \<longleftrightarrow>
        or_default (watcherResponseConfirmations config) 5 \<le> or_default (maximumReorgLimit config) 100"
      unfolding new_PisaService_eq [OF assms(1)] by simp
    ultimately show ?thesis using level by (simp add: checkArgs_def)
  qed
qed

lemma startUp_starting:
  assumes "startUp file cmd (Inr m) (Inr n) chain wallet db = Runs s i" "0 \<le> n"
  shows "lifetime s = \<lparr>mStarted = False, mStarting = True\<rparr> \<and> loglevel (assign_config file cmd) = Some (level_name (logLevel i)) \<and>
    cacheLimit s = or_default (maximumReorgLimit (assign_config file cmd)) 200"
proof -
  let ?config = "assign_config file cmd"
  from assms(1) obtain a pisa where run: "new_PisaService ?config a n chain db = Inr pisa"
    "s = (case start_begin (lifetime pisa) of Inl e \<Rightarrow> pisa | Inr starting \<Rightarrow> pisa\<lparr>lifetime := starting\<rparr>)"
    "checkLogLevel (loglevel ?config) = Inr i"
    by (auto simp: startUp_def Let_def result_simps split: option.splits sum.splits)
  have "lifetime pisa = \<lparr>mStarted = False, mStarting = False\<rparr> \<and> cacheLimit pisa = or_default (maximumReorgLimit ?config) 200"
    using run(1) unfolding new_PisaService_eq [OF assms(2)] by (auto split: if_splits)
  moreover have "loglevel ?config = Some (level_name (logLevel i))"
    using run(3) by (cases "loglevel ?config") (auto simp: checkLogLevel_def tryParse_Some_iff level_info_def split: option.splits)
  ultimately show ?thesis using run(2) by (simp add: start_begin_def)
qed

end
