(* ===== verification/Client.thy ===== *)
theory Client
  imports Service
begin

text \<open>
  The client of the service (client/index.ts): it builds a request, has it signed, sends it and checks the
  receipt.  The library it uses is the one of the tower, in the same record.

  What the client and the service exchange is JSON: a request is the value that is parsed on the other
  side, a receipt the object of \<open>serialise\<close> under the names the client gives its parts.
\<close>

section \<open>Requests and receipts\<close>

record AppointmentRequest =
  c_customerAddress :: string
  c_id :: string
  c_nonce :: int
  c_startBlock :: int
  c_endBlock :: int
  c_paymentHash :: string
  c_eventAddress :: string
  c_topics :: "string option list"
  c_contractAddress :: string
  c_data :: string
  c_gasLimit :: int
  c_challengePeriod :: int
  c_refund :: string
  c_preCondition :: string
  c_postCondition :: string
  c_mode :: int

record SignedAppointmentRequest = AppointmentRequest +
  c_customerSig :: string

record AppointmentReceipt =
  receipt_appointment :: SignedAppointmentRequest
  watcherSignature :: string
  watcherAddress :: string

definition client_encodeTopics :: "Ethers \<Rightarrow> string option list \<Rightarrow> string result" where
  "client_encodeTopics eth topics =
     (if length topics > 4 then Inl (JsError ''There can be at most 4 topics.'')
      else
        let topicsBitmap = map (\<lambda>idx. length topics > idx \<and> topics ! idx \<noteq> None) [0, 1, 2, 3];
            topicsFull = map (\<lambda>idx. if length topics > idx \<and> topics ! idx \<noteq> None
                                    then the (topics ! idx) else ''0x'' @ replicate 64 (CHR ''0'')) [0, 1, 2, 3]
        in abi_encode eth [''bool[4]'', ''bytes32[4]''] [AbiBools topicsBitmap, AbiStrings topicsFull])"

definition encodeAndHash :: "Ethers \<Rightarrow> string \<Rightarrow> 'a AppointmentRequest_scheme \<Rightarrow> string result" where
  "encodeAndHash eth pisaAddress req =
     bind_result (client_encodeTopics eth (c_topics req)) (\<lambda>topics.
     bind_result (abi_encode eth
         [''tuple(address,address,uint,uint,uint,bytes32,uint,bytes,uint,uint,uint,address,bytes,bytes,bytes,bytes32)'', ''address'']
         [AbiTuple
            [AbiString (c_contractAddress req), AbiString (c_customerAddress req),
             AbiNumber (c_startBlock req), AbiNumber (c_endBlock req), AbiNumber (c_challengePeriod req),
             AbiString (c_id req), AbiNumber (c_nonce req), AbiString (c_data req),
             AbiString (c_refund req), AbiNumber (c_gasLimit req), AbiNumber (c_mode req),
             AbiString (c_eventAddress req), AbiString topics,
             AbiString (c_preCondition req), AbiString (c_postCondition req), AbiString (c_paymentHash req)],
          AbiString pisaAddress]) (\<lambda>encoded.
       Inr (keccak256 eth encoded)))"

section \<open>Generating a request\<close>

definition client_free_hash :: string where
  "client_free_hash = ''0xfc1624bdc50da30f2ea37b7debabeac1f6166db013c5880dcf63907b04199138''"

text \<open>Both the address and the topics of the event are given or neither; an empty address counts as not
  given.\<close>

definition event_args :: "string option \<Rightarrow> string option list option \<Rightarrow> (int \<times> string \<times> string option list) result" where
  "event_args event topics =
     (case (if event = Some [] then None else event, topics) of
        (Some addr, Some ts) \<Rightarrow> Inr (1, addr, ts)
      | (None, None) \<Rightarrow> Inr (0, ''0x0000000000000000000000000000000000000000'', [])
      | _ \<Rightarrow> Inl (JsError ''Either both or neither of eventAddress and topics must be populated.''))"

definition generateRequest ::
  "Ethers \<Rightarrow> string \<Rightarrow> (string \<Rightarrow> string result) \<Rightarrow> string \<Rightarrow> string \<Rightarrow> int \<Rightarrow> int \<Rightarrow> int \<Rightarrow> string \<Rightarrow> string \<Rightarrow>
   int \<Rightarrow> int \<Rightarrow> string option \<Rightarrow> string option list option \<Rightarrow> SignedAppointmentRequest result" where
  "generateRequest eth pisaAddress signer customer jobId counter from until dest payload gas period event topics =
     bind_result (event_args event topics) (\<lambda>(md, eventAddr, ts).
     let req =
       \<lparr>c_customerAddress = customer, c_id = jobId, c_nonce = counter, c_startBlock = from, c_endBlock = until,
        c_paymentHash = client_free_hash, c_eventAddress = eventAddr, c_topics = ts, c_contractAddress = dest,
        c_data = payload, c_gasLimit = gas, c_challengePeriod = period, c_refund = ''0'', c_preCondition = ''0x'',
        c_postCondition = ''0x'', c_mode = md\<rparr> in
     bind_result (encodeAndHash eth pisaAddress req) (\<lambda>digest.
     bind_result (signer digest) (\<lambda>sig.
       Inr (AppointmentRequest.extend req (SignedAppointmentRequest.fields sig)))))"

section \<open>Sending it\<close>

text \<open>The text of the request, and the error of a response that is not ok; \<open>text_of\<close> is the text of a body that
  is not JSON.\<close>

definition request_json :: "SignedAppointmentRequest \<Rightarrow> json" where
  "request_json req = JObject
     [(''contractAddress'', JString (c_contractAddress req)),
      (''customerAddress'', JString (c_customerAddress req)),
      (''startBlock'', JNumber (c_startBlock req)),
      (''endBlock'', JNumber (c_endBlock req)),
      (''challengePeriod'', JNumber (c_challengePeriod req)),
      (''id'', JString (c_id req)),
      (''nonce'', JNumber (c_nonce req)),
      (''data'', JString (c_data req)),
      (''refund'', JString (c_refund req)),
      (''gasLimit'', JNumber (c_gasLimit req)),
      (''mode'', JNumber (c_mode req)),
      (''eventAddress'', JString (c_eventAddress req)),
      (''topics'', JArray (map (\<lambda>t. case t of None \<Rightarrow> JNull | Some s \<Rightarrow> JString s) (c_topics req))),
      (''preCondition'', JString (c_preCondition req)),
      (''postCondition'', JString (c_postCondition req)),
      (''paymentHash'', JString (c_paymentHash req)),
      (''customerSig'', JString (c_customerSig req))]"

definition response_ok :: "'r HttpResponse \<Rightarrow> bool" where
  "response_ok response \<longleftrightarrow> 200 \<le> status response \<and> status response \<le> 299"

definition checkResponse :: "('r \<Rightarrow> string) \<Rightarrow> 'r HttpResponse \<Rightarrow> 'r HttpResponse result" where
  "checkResponse text_of response =
     (if \<not> response_ok response then
        Inl (JsError (case body response of MessageBody m \<Rightarrow> m | EmptyBody \<Rightarrow> [] | TextBody r \<Rightarrow> text_of r))
      else Inr response)"

text \<open>An object without the parts of a receipt makes the check of the receipt throw.\<close>

definition validateReceipt :: "Ethers \<Rightarrow> string \<Rightarrow> AppointmentReceipt HttpBody \<Rightarrow> AppointmentReceipt result" where
  "validateReceipt eth pisaAddress receipt_body =
     (case receipt_body of
        TextBody receipt \<Rightarrow>
          bind_result (encodeAndHash eth pisaAddress (receipt_appointment receipt)) (\<lambda>hash.
          bind_result (arrayify eth hash) (\<lambda>h.
          bind_result (verifyMessage eth h (watcherSignature receipt)) (\<lambda>recoveredAddress.
            if toLowerCase recoveredAddress = toLowerCase (watcherAddress receipt) then Inr receipt
            else Inl (JsError ''Invalid receipt. Watcher signature invalid.''))))
      | _ \<Rightarrow> Inl (JsTypeError ''Cannot read property contractAddress of undefined''))"

text \<open>\<open>post\<close> sends a request to the endpoint and returns the response, or throws when the network fails.\<close>

definition executeRequest ::
  "Ethers \<Rightarrow> string \<Rightarrow> (AppointmentReceipt \<Rightarrow> string) \<Rightarrow> (json \<Rightarrow> ('s, AppointmentReceipt HttpResponse) eff) \<Rightarrow>
   SignedAppointmentRequest \<Rightarrow> ('s, AppointmentReceipt) eff" where
  "executeRequest eth pisaAddress text_of post req =
     bind_eff (post (request_json req)) (\<lambda>response.
     bind_eff (lift_result (checkResponse text_of response)) (\<lambda>res.
       lift_result (validateReceipt eth pisaAddress (body res))))"

definition generateAndExecuteRequest ::
  "Ethers \<Rightarrow> string \<Rightarrow> (AppointmentReceipt \<Rightarrow> string) \<Rightarrow> (json \<Rightarrow> ('s, AppointmentReceipt HttpResponse) eff) \<Rightarrow>
   (string \<Rightarrow> string result) \<Rightarrow> string \<Rightarrow> string \<Rightarrow> int \<Rightarrow> int \<Rightarrow> int \<Rightarrow> string \<Rightarrow> string \<Rightarrow>
   int \<Rightarrow> int \<Rightarrow> string option \<Rightarrow> string option list option \<Rightarrow> ('s, AppointmentReceipt) eff" where
  "generateAndExecuteRequest eth pisaAddress text_of post signer customer jobId counter from until dest payload gas
     period event topics =
     bind_eff (lift_result (generateRequest eth pisaAddress signer customer jobId counter from until dest payload gas
         period event topics)) (executeRequest eth pisaAddress text_of post)"

definition client_getAppointmentsByCustomer ::
  "('r \<Rightarrow> string) \<Rightarrow> (string \<Rightarrow> ('s, 'r HttpResponse) eff) \<Rightarrow> string \<Rightarrow> ('s, 'r HttpBody) eff" where
  "client_getAppointmentsByCustomer text_of fetch customer =
     bind_eff (fetch customer) (\<lambda>response.
     bind_eff (lift_result (checkResponse text_of response)) (\<lambda>res. return_eff (body res)))"


section \<open>The client and the service together\<close>

text \<open>What the service prints, read by the client; and the service as the endpoint the client posts to.\<close>

definition client_request_of :: "IAppointmentRequest \<Rightarrow> SignedAppointmentRequest" where
  "client_request_of r =
     \<lparr>c_customerAddress = customerAddress r, c_id = request_id r, c_nonce = app_nonce r,
      c_startBlock = startBlock r, c_endBlock = endBlock r, c_paymentHash = paymentHash r,
      c_eventAddress = eventAddress r, c_topics = app_topics r, c_contractAddress = contractAddress r,
      c_data = app_data r, c_gasLimit = gasLimit r, c_challengePeriod = challengePeriod r,
      c_refund = refund_text r, c_preCondition = preCondition r, c_postCondition = postCondition r,
      c_mode = mode r, c_customerSig = customerSig r\<rparr>"

definition receipt_of :: "SignedAppointmentSerialisation \<Rightarrow> AppointmentReceipt" where
  "receipt_of r =
     \<lparr>receipt_appointment = client_request_of (ser_appointment r), watcherSignature = ser_watcherSignature r,
      watcherAddress = ser_watcherAddress r\<rparr>"

definition endpoint ::
  "TowerConfig \<Rightarrow> ('b IBlockStub_scheme, 's) BlockCache \<Rightarrow> Env \<Rightarrow> bool \<Rightarrow> json \<Rightarrow>
   (PisaService, AppointmentReceipt HttpResponse) eff" where
  "endpoint cfg c env db_ok obj s =
     (case appointment cfg c env db_ok obj s of
        (r, s') \<Rightarrow> (Inr \<lparr>status = status r, body = map_HttpBody receipt_of (body r)\<rparr>, s'))"

subsection \<open>The request passes the schema\<close>

definition request_in_schema :: "SignedAppointmentRequest \<Rightarrow> bool" where
  "request_in_schema r \<longleftrightarrow>
     100 \<le> c_challengePeriod r \<and> c_challengePeriod r \<le> 60000 \<and>
     0 \<le> c_endBlock r \<and> c_endBlock r \<le> max_safe_integer \<and>
     0 \<le> c_gasLimit r \<and> c_gasLimit r \<le> 2000000 \<and>
     0 \<le> c_nonce r \<and> c_nonce r \<le> max_safe_integer \<and>
     0 \<le> c_mode r \<and> c_mode r \<le> 1 \<and>
     0 \<le> c_startBlock r \<and> c_startBlock r \<le> max_safe_integer \<and> length (c_topics r) \<le> 4"

lemma request_json_schema: "appointmentRequestValidation (request_json r) \<longleftrightarrow> request_in_schema r"
proof -
  have topics: "topics_json (JArray (map (\<lambda>t. case t of None \<Rightarrow> JNull | Some s \<Rightarrow> JString s) ts)) \<longleftrightarrow> length ts \<le> 4"
    for ts by (auto split: option.split)
  show ?thesis
    by (simp add: request_json_def schema_properties_def topics request_in_schema_def del: topics_json.simps) blast
qed

definition appointment_of :: "SignedAppointmentRequest \<Rightarrow> Appointment" where
  "appointment_of r =
     \<lparr>a_contractAddress = c_contractAddress r, a_customerAddress = c_customerAddress r, a_startBlock = c_startBlock r,
      a_endBlock = c_endBlock r, a_challengePeriod = c_challengePeriod r, a_customerChosenId = c_id r,
      a_nonce = c_nonce r, a_data = c_data r, a_refund = 0, a_gasLimit = c_gasLimit r, a_mode = c_mode r,
      a_eventAddress = c_eventAddress r, a_topics = c_topics r, a_preCondition = c_preCondition r,
      a_postCondition = c_postCondition r, a_paymentHash = c_paymentHash r, a_customerSig = c_customerSig r\<rparr>"

lemma topics_back:
  "map (\<lambda>x. case x of JString s \<Rightarrow> Some s | _ \<Rightarrow> None) (map (\<lambda>t. case t of None \<Rightarrow> JNull | Some s \<Rightarrow> JString s) ts) = ts"
  by (induction ts) (auto split: option.split)

lemma as_request_json: "client_request_of (as_request (request_json r)) = r"
  using topics_back [of "c_topics r"]
  by (simp add: as_request_def request_json_def Let_def string_prop_def int_prop_def topics_prop_def client_request_of_def
      del: map_map)

lemma parse_request_json:
  assumes "bn_parse bn (c_refund r) = Inr 0" "request_in_schema r"
  shows "parse bn (request_json r) = Inr (appointment_of r)"
proof -
  have view: "client_request_of (as_request (request_json r)) = r" by (rule as_request_json)
  let ?q = "as_request (request_json r)"
  have "refund_text ?q = c_refund r" using arg_cong [OF view, of c_refund] by (simp add: client_request_of_def)
  moreover have "fromIAppointmentRequest bn ?q = Inr (appointment_of (client_request_of ?q))"
    if "bn_parse bn (refund_text ?q) = Inr 0"
    using that by (simp add: fromIAppointmentRequest_def appointment_of_def client_request_of_def)
  ultimately show ?thesis
    using assms by (simp add: parse_def request_json_schema view parseBigNumber_def Let_def)
qed

subsection \<open>Both sides hash the same\<close>

text \<open>The encoder takes a number as a string or as a BigNumber: here the refund, the ninth of the tuple.\<close>

definition abi_numbers :: "Ethers \<Rightarrow> BigNumberCodec \<Rightarrow> bool" where
  "abi_numbers eth bn \<longleftrightarrow>
     (\<forall>xs s n ys z. length xs = 8 \<and> bn_parse bn s = Inr n \<longrightarrow>
        abi_encode eth [EncodingTupleDefinition, ''address''] [AbiTuple (xs @ AbiString s # ys), z] =
        abi_encode eth [EncodingTupleDefinition, ''address''] [AbiTuple (xs @ AbiBigNumber n # ys), z])"

lemma encodeAndHash_eq:
  assumes "abi_numbers eth bn" "bn_parse bn (c_refund r) = Inr 0" "length (c_topics r) \<le> 4"
  shows "encodeAndHash eth pisa r =
    bind_result (encodeForSig eth (appointment_of r) pisa) (\<lambda>encoded. Inr (keccak256 eth encoded))"
proof -
  let ?xs = "[AbiString (c_contractAddress r), AbiString (c_customerAddress r),
             AbiNumber (c_startBlock r), AbiNumber (c_endBlock r), AbiNumber (c_challengePeriod r),
             AbiString (c_id r), AbiNumber (c_nonce r), AbiString (c_data r)]"
  have "abi_encode eth [EncodingTupleDefinition, ''address''] [AbiTuple (?xs @ AbiString (c_refund r) # ys), z] =
      abi_encode eth [EncodingTupleDefinition, ''address''] [AbiTuple (?xs @ AbiBigNumber 0 # ys), z]" for ys z
    using assms(1) [unfolded abi_numbers_def, rule_format, of ?xs "c_refund r" 0 ys z] assms(2) by simp
  moreover have "client_encodeTopics eth (c_topics r) = encodeTopicsForPisa eth (c_topics r)"
    using assms(3) by (simp only: client_encodeTopics_def encodeTopicsForPisa_def zero_topic_def not_less [symmetric] if_False)
  ultimately show ?thesis
    by (simp add: encodeAndHash_def encodeForSig_def orderForEncoding_def appointment_of_def bind_result_assoc
        EncodingTupleDefinition_def [symmetric])
qed


subsection \<open>What a generated request is\<close>

text \<open>A signer whose signatures recover to an address.\<close>

definition signs_as :: "Ethers \<Rightarrow> (string \<Rightarrow> string result) \<Rightarrow> string \<Rightarrow> bool" where
  "signs_as eth signer address \<longleftrightarrow>
     (\<forall>digest sig. signer digest = Inr sig \<longrightarrow>
        (\<exists>h a. arrayify eth digest = Inr h \<and> verifyMessage eth h sig = Inr a \<and> toLowerCase a = toLowerCase address))"

lemma encodeAndHash_extend [simp]:
  "encodeAndHash eth pisa (AppointmentRequest.extend r x) = encodeAndHash eth pisa r"
  by (simp add: encodeAndHash_def AppointmentRequest.defs)

lemma encodeAndHash_topics: "encodeAndHash eth pisa r = Inr d \<Longrightarrow> length (c_topics r) \<le> 4"
  by (auto simp: encodeAndHash_def client_encodeTopics_def result_simps split: if_splits)

lemma generateRequest_InrD:
  assumes "generateRequest eth pisa signer customer jobId counter from until dest payload gas period event topics = Inr req"
  obtains md addr ts digest where "event_args event topics = Inr (md, addr, ts)"
    "encodeAndHash eth pisa req = Inr digest" "signer digest = Inr (c_customerSig req)"
    "AppointmentRequest.truncate req =
       \<lparr>c_customerAddress = customer, c_id = jobId, c_nonce = counter, c_startBlock = from, c_endBlock = until,
        c_paymentHash = client_free_hash, c_eventAddress = addr, c_topics = ts, c_contractAddress = dest,
        c_data = payload, c_gasLimit = gas, c_challengePeriod = period, c_refund = ''0'', c_preCondition = ''0x'',
        c_postCondition = ''0x'', c_mode = md\<rparr>"
proof -
  from assms obtain md addr ts where ev: "event_args event topics = Inr (md, addr, ts)"
    by (auto simp: generateRequest_def result_simps)
  let ?r = "\<lparr>c_customerAddress = customer, c_id = jobId, c_nonce = counter, c_startBlock = from, c_endBlock = until,
        c_paymentHash = client_free_hash, c_eventAddress = addr, c_topics = ts, c_contractAddress = dest,
        c_data = payload, c_gasLimit = gas, c_challengePeriod = period, c_refund = ''0'', c_preCondition = ''0x'',
        c_postCondition = ''0x'', c_mode = md\<rparr>"
  from assms obtain digest sig where d: "encodeAndHash eth pisa ?r = Inr digest" "signer digest = Inr sig"
    "req = AppointmentRequest.extend ?r (SignedAppointmentRequest.fields sig)"
    by (auto simp: generateRequest_def ev result_simps Let_def)
  have "c_customerSig req = sig" "AppointmentRequest.truncate req = ?r"
    by (simp_all add: d(3) AppointmentRequest.defs SignedAppointmentRequest.defs)
  moreover have "encodeAndHash eth pisa req = Inr digest" by (simp only: d(3) encodeAndHash_extend d(1))
  ultimately show thesis using that ev d(2) by simp
qed

lemma event_argsD:
  assumes "event_args event topics = Inr (md, addr, ts)"
  shows "md = 1 \<and> event = Some addr \<and> topics = Some ts \<or>
    md = 0 \<and> addr = zero_address \<and> ts = [] \<and> topics = None"
proof -
  have zero: "''0x0000000000000000000000000000000000000000'' = zero_address" by code_simp
  show ?thesis using assms unfolding event_args_def zero by (auto split: option.splits if_splits)
qed

text \<open>C9: The client and the tower agree: a request the client generates, signed by its customer and within the
  bounds of the schema, is parsed by the tower, and its payment hash, conditions, refund, encoding and
  signature are all accepted.  It is valid exactly when it starts near the head of the chain, lasts between 100
  and 60000 blocks, and, if it waits for an event, the address and the topics of the event are well
  formed.\<close>

theorem client_request_accepted:
  assumes "bn_parse bn ''0'' = Inr 0" "abi_numbers eth bn" "signs_as eth signer customer" "FreeHash eth = client_free_hash"
    and "generateRequest eth pisa signer customer jobId counter from until dest payload gas period event topics = Inr req"
    and "100 \<le> period" "period \<le> 60000" "0 \<le> gas" "gas \<le> 2000000" "0 \<le> counter" "counter \<le> max_safe_integer"
    and "0 \<le> from" "from \<le> max_safe_integer" "0 \<le> until" "until \<le> max_safe_integer"
  shows "\<exists>a. parse bn (request_json req) = Inr a \<and>
    (validate eth c pisa a = Inr () \<longleftrightarrow>
       (\<exists>h. head c = Inr h \<and> number h - 23 \<le> from \<and> from \<le> number h + 3) \<and>
       from + 100 \<le> until \<and> until \<le> from + 60000 \<and>
       (case (event, topics) of
          (Some addr, Some ts) \<Rightarrow> \<not> isl (getAddress eth addr) \<and> (\<forall>t\<in>set ts. topic_ok eth t)
        | _ \<Rightarrow> True))"
proof -
  obtain md addr ts digest where ev: "event_args event topics = Inr (md, addr, ts)"
    and d: "encodeAndHash eth pisa req = Inr digest" "signer digest = Inr (c_customerSig req)"
    and r: "AppointmentRequest.truncate req =
       \<lparr>c_customerAddress = customer, c_id = jobId, c_nonce = counter, c_startBlock = from, c_endBlock = until,
        c_paymentHash = client_free_hash, c_eventAddress = addr, c_topics = ts, c_contractAddress = dest,
        c_data = payload, c_gasLimit = gas, c_challengePeriod = period, c_refund = ''0'', c_preCondition = ''0x'',
        c_postCondition = ''0x'', c_mode = md\<rparr>"
    by (rule generateRequest_InrD [OF assms(5)])
  note E = event_argsD [OF ev]
  note len' = encodeAndHash_topics [OF d(1)]
  then have len: "length ts \<le> 4" using r by (simp add: AppointmentRequest.defs)
  have schema: "request_in_schema req" and refund: "bn_parse bn (c_refund req) = Inr 0"
    using r len assms(1,6-) E by (auto simp: request_in_schema_def AppointmentRequest.defs)
  let ?a = "appointment_of req"
  have a: "a_paymentHash ?a = client_free_hash" "a_startBlock ?a = from" "a_endBlock ?a = until" "a_preCondition ?a = ''0x''"
    "a_postCondition ?a = ''0x''" "a_mode ?a = md" "a_eventAddress ?a = addr" "a_topics ?a = ts" "a_refund ?a = 0"
    "a_customerAddress ?a = customer" "a_customerSig ?a = c_customerSig req"
    using r by (simp_all add: appointment_of_def AppointmentRequest.defs)
  obtain e where e: "encodeForSig eth ?a pisa = Inr e" "digest = keccak256 eth e"
    using d(1) unfolding encodeAndHash_eq [OF assms(2) refund len'] bind_result_Inr_iff by auto
  have sig: "\<exists>h signer. arrayify eth (keccak256 eth e) = Inr h \<and> verifyMessage eth h (c_customerSig req) = Inr signer \<and>
      toLowerCase signer = toLowerCase customer"
    using assms(3) d(2) e(2) unfolding signs_as_def by blast
  have hash: "toLowerCase client_free_hash = FreeHash eth" unfolding assms(4) by code_simp
  have "validate eth c pisa ?a = Inr () \<longleftrightarrow>
       (\<exists>h. head c = Inr h \<and> number h - 23 \<le> from \<and> from \<le> number h + 3) \<and>
       from + 100 \<le> until \<and> until \<le> from + 60000 \<and>
       (md = 1 \<and> \<not> isl (getAddress eth addr) \<and> (\<forall>t\<in>set ts. topic_ok eth t) \<or> md = 0 \<and> addr = zero_address \<and> ts = [])"
    using sig hash len by (simp add: validate_iff a e(1) EventTriggered_def Relay_def)
  moreover have "(md = 1 \<and> \<not> isl (getAddress eth addr) \<and> (\<forall>t\<in>set ts. topic_ok eth t) \<or> md = 0 \<and> addr = zero_address \<and> ts = []) \<longleftrightarrow>
      (case (event, topics) of (Some addr, Some ts) \<Rightarrow> \<not> isl (getAddress eth addr) \<and> (\<forall>t\<in>set ts. topic_ok eth t) | _ \<Rightarrow> True)"
    using E by (auto split: option.splits)
  ultimately show ?thesis using parse_request_json [OF refund schema] by blast
qed


text \<open>The library of the examples with the hash of the client.\<close>

definition ex_client_ethers :: Ethers where
  "ex_client_ethers = ex_ethers\<lparr>keccak256 := (\<lambda>s. if s = ''on-the-house'' then client_free_hash else s)\<rparr>"

definition ex_generated :: "SignedAppointmentRequest result" where
  "ex_generated = generateRequest ex_client_ethers ''0xp'' (\<lambda>digest. Inr ''0xA'') ''0xa'' ''0x1'' 1 5 200 ''0xc'' ''0x''
     100000 100 (Some ''0xe'') (Some [None])"

lemma ex_client_ethers_ok: "abi_numbers ex_client_ethers bn" "FreeHash ex_client_ethers = client_free_hash"
proof -
  show "abi_numbers ex_client_ethers bn" by (simp add: abi_numbers_def ex_client_ethers_def ex_ethers_def)
  show "FreeHash ex_client_ethers = client_free_hash" by code_simp
qed

theorem client_request_accepted_witness:
  "\<exists>req a. ex_generated = Inr req \<and> parse unary_codec (request_json req) = Inr a \<and>
     validate ex_client_ethers ex_head ''0xp'' a = Inr ()"
proof -
  have "case ex_generated of Inr req \<Rightarrow> True | _ \<Rightarrow> False" by code_simp
  then obtain req where req: "ex_generated = Inr req" by (auto split: sum.splits)
  have "signs_as ex_client_ethers (\<lambda>digest. Inr ''0xA'') ''0xa''"
    by (simp add: signs_as_def ex_client_ethers_def ex_ethers_def toLowerCase_def) code_simp
  note W = client_request_accepted [OF _ ex_client_ethers_ok(1) this ex_client_ethers_ok(2) req [unfolded ex_generated_def],
      where bn = unary_codec and c = ex_head]
  have "bn_parse unary_codec ''0'' = Inr 0" by code_simp
  moreover have "head ex_head = Inr \<lparr>block_hash = ''g'', number = 5, parentHash = ''x''\<rparr>" by code_simp
  ultimately show ?thesis
    using W req by (auto simp: max_safe_integer_def ex_client_ethers_def ex_ethers_def topic_ok_def)
qed

subsection \<open>Receipts\<close>

fun public_message :: "app_error \<Rightarrow> string" where
  "public_message (PublicInspectionError m) = m"
| "public_message (PublicDataValidationError m) = m"
| "public_message (JsTypeError m) = ''Internal server error.''"
| "public_message (JsError m) = ''Internal server error.''"
| "public_message _ = ''Internal server error''"

lemma checkResponse_error:
  "checkResponse text_of \<lparr>status = status (error_response e), body = map_HttpBody f (body (error_response e))\<rparr> =
     Inl (JsError (public_message e))"
  by (cases e) (simp_all add: checkResponse_def message_response_def response_ok_def)

lemma parsed_refund:
  assumes "parse bn obj = Inr a"
  shows "a_refund a = 0" "length (a_topics a) \<le> 4"
  using parse_well_typed [OF assms] by (simp_all add: well_typed_def)

lemma appointment_of_printed:
  assumes "a_refund a = 0"
  shows "appointment_of (client_request_of (toIAppointmentRequest bn a)) = a"
  using assms by (cases a) (simp add: appointment_of_def client_request_of_def toIAppointmentRequest_def)

text \<open>A signed appointment the tower returns passes the check of the client.\<close>

lemma signed_receipt_valid:
  assumes "codec_ok bn" "abi_numbers eth bn" "a_refund a = 0" "length (a_topics a) \<le> 4"
    and "encodeForSig eth a pisa = Inr e" "arrayify eth (keccak256 eth e) = Inr h"
    and "verifyMessage eth h sig = Inr x" "toLowerCase x = toLowerCase address"
  shows "validateReceipt eth pisa (TextBody (receipt_of (serialise bn
      \<lparr>signed_appointment = a, signerAddress = address, signature = sig\<rparr>))) =
    Inr (receipt_of (serialise bn \<lparr>signed_appointment = a, signerAddress = address, signature = sig\<rparr>))"
proof -
  let ?r = "client_request_of (toIAppointmentRequest bn a)"
  have "bn_parse bn (c_refund ?r) = Inr 0" "length (c_topics ?r) \<le> 4"
    using assms(1,3,4) by (simp_all add: client_request_of_def toIAppointmentRequest_def codec_okD)
  from encodeAndHash_eq [OF assms(2) this] have "encodeAndHash eth pisa ?r = Inr (keccak256 eth e)"
    by (simp add: appointment_of_printed [OF assms(3)] assms(5))
  then show ?thesis using assms(6-8) by (simp add: validateReceipt_def receipt_of_def serialise_def)
qed

text \<open>What the endpoint of a started service answers.\<close>

lemma endpoint_throws:
  assumes "mStarted (lifetime s)" "addAppointment cfg c env db_ok obj (pisaTower s) = (Inl e, t)"
  shows "endpoint cfg c env db_ok obj s =
    (Inr \<lparr>status = status (error_response e :: SignedAppointmentSerialisation HttpResponse),
          body = map_HttpBody receipt_of (body (error_response e))\<rparr>, s\<lparr>pisaTower := t\<rparr>)"
  using assms by (simp add: endpoint_def appointment_def handlerWrapper_def bind_eff_def on_tower_def)

lemma endpoint_returns:
  assumes "mStarted (lifetime s)" "addAppointment cfg c env db_ok obj (pisaTower s) = (Inr signed, t)"
  shows "endpoint cfg c env db_ok obj s =
    (Inr \<lparr>status = 200, body = TextBody (receipt_of (serialise (bignumber cfg) signed))\<rparr>, s\<lparr>pisaTower := t\<rparr>)"
  using assms by (simp add: endpoint_def appointment_def handlerWrapper_def bind_eff_def on_tower_def)

text \<open>C8: A request to a started service: when the tower accepts it the client returns the receipt, which is for the
  appointment the client asked for and names the address of the tower; when the tower throws, the client
  throws an error with the message of the tower if that is a public one, and of an internal error
  otherwise.  The state of the tower changes as \<open>addAppointment\<close> says.\<close>

theorem request_yields_receipt:
  assumes "mStarted (lifetime s)" "codec_ok (bignumber cfg)" "bn_parse (bignumber cfg) ''0'' = Inr 0"
    "abi_numbers (ethers cfg) (bignumber cfg)" "c_refund req = ''0''"
    and "\<And>h sig. signMessage cfg h = Inr sig \<Longrightarrow>
      \<exists>x. verifyMessage (ethers cfg) h sig = Inr x \<and> toLowerCase x = toLowerCase (wallet_address cfg)"
  shows "case addAppointment cfg c env db_ok (request_json req) (pisaTower s) of
      (Inr signed, t) \<Rightarrow> \<exists>receipt.
        executeRequest (ethers cfg) (pisaContractAddress cfg) text_of (endpoint cfg c env db_ok) req s =
          (Inr receipt, s\<lparr>pisaTower := t\<rparr>) \<and>
        receipt_appointment receipt = req\<lparr>c_refund := bn_toHexString (bignumber cfg) 0\<rparr> \<and>
        watcherAddress receipt = wallet_address cfg
    | (Inl e, t) \<Rightarrow>
        executeRequest (ethers cfg) (pisaContractAddress cfg) text_of (endpoint cfg c env db_ok) req s =
          (Inl (JsError (public_message e)), s\<lparr>pisaTower := t\<rparr>)"
proof -
  let ?add = "addAppointment cfg c env db_ok (request_json req) (pisaTower s)"
  obtain r t where add: "?add = (r, t)" by (cases ?add)
  show ?thesis
  proof (cases r)
    case (Inl e)
    then show ?thesis
      using add endpoint_throws [OF assms(1) add [unfolded Inl]]
      by (simp add: executeRequest_def bind_eff_def lift_result_def checkResponse_error)
  next
    case (Inr signed)
    from add [unfolded Inr] obtain a sig e h where run: "parse (bignumber cfg) (request_json req) = Inr a"
      "signed = \<lparr>signed_appointment = a, signerAddress = wallet_address cfg, signature = sig\<rparr>"
      "encodeForSig (ethers cfg) a (pisaContractAddress cfg) = Inr e"
      "arrayify (ethers cfg) (keccak256 (ethers cfg) e) = Inr h" "signMessage cfg h = Inr sig"
      by (auto simp: addAppointment_def bind_eff_InrD result_simps split: if_splits)
    from assms(6) [OF run(5)] obtain x where x: "verifyMessage (ethers cfg) h sig = Inr x"
      "toLowerCase x = toLowerCase (wallet_address cfg)" by blast
    note valid = signed_receipt_valid [OF assms(2,4) parsed_refund [OF run(1)] run(3,4) x]
    let ?receipt = "receipt_of (serialise (bignumber cfg) signed)"
    have "request_in_schema req" using parse_InrD(1) [OF run(1)] by (simp add: request_json_schema)
    with parse_request_json [of "bignumber cfg" req] run(1) assms(3,5) have a: "a = appointment_of req" by simp
    have "executeRequest (ethers cfg) (pisaContractAddress cfg) text_of (endpoint cfg c env db_ok) req s =
          (Inr ?receipt, s\<lparr>pisaTower := t\<rparr>)"
      using valid endpoint_returns [OF assms(1) add [unfolded Inr]]
      by (simp add: executeRequest_def bind_eff_def lift_result_def checkResponse_def response_ok_def run(2))
    moreover have "receipt_appointment ?receipt = req\<lparr>c_refund := bn_toHexString (bignumber cfg) 0\<rparr>"
      by (simp add: receipt_of_def serialise_def run(2) a client_request_of_def toIAppointmentRequest_def appointment_of_def)
    moreover have "watcherAddress ?receipt = wallet_address cfg" by (simp add: receipt_of_def serialise_def run(2))
    ultimately show ?thesis using add Inr by auto
  qed
qed

definition ex_client_config :: TowerConfig where
  "ex_client_config = ex_config\<lparr>ethers := ex_client_ethers, signMessage := (\<lambda>h. Inr ''0xw'')\<rparr>"

theorem request_yields_receipt_witness:
  "\<exists>req receipt s. ex_generated = Inr req \<and>
     executeRequest ex_client_ethers ''0xp'' (\<lambda>r. []) (endpoint ex_client_config ex_head ex_empty_env True) req (ex_service 13) =
       (Inr receipt, s) \<and>
     c_id (receipt_appointment receipt) = c_id req \<and> watcherAddress receipt = ''0xw''"
proof -
  have "case ex_generated of Inr req \<Rightarrow> c_refund req = ''0'' \<and>
      (case addAppointment ex_client_config ex_head ex_empty_env True (request_json req) (ex_tower 13) of
         (Inr signed, t) \<Rightarrow> True | _ \<Rightarrow> False) | _ \<Rightarrow> False" by code_simp
  then obtain req signed t where run: "ex_generated = Inr req" "c_refund req = ''0''"
    "addAppointment ex_client_config ex_head ex_empty_env True (request_json req) (ex_tower 13) = (Inr signed, t)"
    by (auto split: sum.splits prod.splits)
  have cfg: "ethers ex_client_config = ex_client_ethers" "bignumber ex_client_config = unary_codec"
    "pisaContractAddress ex_client_config = ''0xp''" "wallet_address ex_client_config = ''0xw''"
    "signMessage ex_client_config h = Inr ''0xw''" "mStarted (lifetime (ex_service 13))"
    "pisaTower (ex_service 13) = ex_tower 13" for h
    by (simp_all add: ex_client_config_def ex_config_def ex_service_def)
  have "bn_parse unary_codec ''0'' = Inr 0" by code_simp
  moreover have "verifyMessage ex_client_ethers h ''0xw'' = Inr ''0xw''" for h
    by (simp add: ex_client_ethers_def ex_ethers_def)
  ultimately show ?thesis
    using request_yields_receipt [where s = "ex_service 13" and cfg = ex_client_config and req = req and c = ex_head
        and env = ex_empty_env and db_ok = True and text_of = "\<lambda>r. []"]
      run unary_codec_ok ex_client_ethers_ok(1) by (auto simp: cfg)
qed

text \<open>What the client accepts: exactly the receipts whose appointment is signed by the address the receipt
  itself names.  Neither the appointment nor the address is compared with the request or with the tower it
  was sent to.\<close>

lemma accepted_receipts:
  "executeRequest eth pisa text_of post req s = (Inr receipt, s') \<longleftrightarrow>
     (\<exists>response hash h signer. post (request_json req) s = (Inr response, s') \<and> response_ok response \<and>
        body response = TextBody receipt \<and> encodeAndHash eth pisa (receipt_appointment receipt) = Inr hash \<and>
        arrayify eth hash = Inr h \<and> verifyMessage eth h (watcherSignature receipt) = Inr signer \<and>
        toLowerCase signer = toLowerCase (watcherAddress receipt))"
proof -
  have "validateReceipt eth pisa b = Inr receipt \<longleftrightarrow>
      (\<exists>hash h signer. b = TextBody receipt \<and> encodeAndHash eth pisa (receipt_appointment receipt) = Inr hash \<and>
        arrayify eth hash = Inr h \<and> verifyMessage eth h (watcherSignature receipt) = Inr signer \<and>
        toLowerCase signer = toLowerCase (watcherAddress receipt))" for b
    by (cases b) (auto simp: validateReceipt_def result_simps split: if_splits)
  then show ?thesis
    by (auto simp: executeRequest_def bind_eff_InrD checkResponse_def split: if_splits)
qed

end
