(* ===== verification/RaidenListener.thy ===== *)
theory RaidenListener
  imports BlockItemStore
begin

text \<open>
  The listener of the Raiden daemon (raiden_demo/raiden-pisa-daemon/src/sqlite-listener.ts and
  balanceProof.ts): it polls a copy of the database of a Raiden node for balance proofs and hands them to
  a callback, row by row.  A timer starts a tick whether or not the ticks before have ended, so the ticks
  interleave at their awaits; all of them use one copy and one \<open>lastRowId\<close>.

  The callback is a relation between the state of its peer before and after, and its outcome.
\<close>

section \<open>Balance proofs\<close>

text \<open>A balance proof has its numbers as text in the database and as numbers afterwards.\<close>

record 'n IRawBalanceProof =
  proof_nonce :: 'n
  transferred_amount :: string
  locked_amount :: string
  locksroot :: string
  token_network_identifier :: string
  channel_identifier :: 'n
  message_hash :: string
  proof_signature :: string
  sender :: string
  chain_id :: 'n
  balance_hash :: string
  proof_type :: string
  proof_version :: int

record IBalanceProofRecord =
  record_identifier :: int
  balance_proof :: "int option IRawBalanceProof"

text \<open>\<open>Number.parseInt\<close> skips white space in front; without digits it is NaN, here \<open>None\<close>.\<close>

definition js_space :: "char \<Rightarrow> bool" where
  "js_space c \<longleftrightarrow> (of_char c :: nat) \<in> set [9, 10, 11, 12, 13, 32, 160]"

definition parseInt_trimmed :: "string \<Rightarrow> int option" where
  "parseInt_trimmed s = parseInt (dropWhile js_space s)"

lemma parseInt_trimmed_number [simp]: "parseInt_trimmed (number_string x) = Some x"
proof -
  have "\<not> js_space c" if "is_digit c \<or> c = CHR ''-''" for c
    using that by (auto simp: js_space_def is_digit_def Let_def)
  then have "dropWhile js_space (number_string x) = number_string x"
    using nat_string_digits [of "nat x"] by (cases "nat_string (nat x)") (auto simp: number_string_def)
  then show ?thesis by (simp add: parseInt_trimmed_def parseInt_number_string)
qed

section \<open>Reading the database\<close>

text \<open>A row of \<open>state_changes\<close>: its type, and its balance proof unless it has none.\<close>

record StateChange =
  row_id :: int
  data_type :: string
  data_proof :: "string IRawBalanceProof option"

definition is_unlock :: "StateChange \<Rightarrow> bool" where
  "is_unlock row \<longleftrightarrow> data_type row = ''raiden.transfer.state_change.ReceiveUnlock''"

definition read_proof :: "StateChange \<Rightarrow> IBalanceProofRecord result" where
  "read_proof row =
     (case data_proof row of
        None \<Rightarrow> Inl (JsTypeError ''Cannot read property channel_identifier of null'')
      | Some p \<Rightarrow> Inr
          \<lparr>record_identifier = row_id row,
           balance_proof =
             \<lparr>proof_nonce = parseInt_trimmed (proof_nonce p), transferred_amount = transferred_amount p,
              locked_amount = locked_amount p, locksroot = locksroot p,
              token_network_identifier = token_network_identifier p,
              channel_identifier = parseInt_trimmed (channel_identifier p), message_hash = message_hash p,
              proof_signature = proof_signature p, sender = sender p, chain_id = parseInt_trimmed (chain_id p),
              balance_hash = balance_hash p, proof_type = proof_type p, proof_version = proof_version p\<rparr>\<rparr>)"

text \<open>A comparison with null holds for no row.\<close>

definition getBalanceProofsSince :: "int option \<Rightarrow> StateChange list \<Rightarrow> IBalanceProofRecord list result" where
  "getBalanceProofsSince lastId rows =
     map_result read_proof (sort_key row_id (filter (\<lambda>row.
       (case lastId of None \<Rightarrow> False | Some n \<Rightarrow> row_id row > n) \<and> is_unlock row) rows))"

definition max_row :: "StateChange list \<Rightarrow> int option" where
  "max_row rows = (if rows = [] then None else Some (Max (set (map row_id rows))))"

section \<open>Ticks\<close>

text \<open>A tick has copied the database, or awaits the callback of the first of the records left.\<close>

datatype tick = Copied | Sending "IBalanceProofRecord list"

text \<open>The listener with the database it polls, its copy, and the peer of the callback; the history has the
  records whose callback returned, and the row the polling began after.\<close>

record 's SqliteListener =
  lastRowId :: "int option"
  polling :: bool
  state_changes :: "StateChange list"
  dbcopy :: "StateChange list"
  ticks :: "tick list"
  peer :: 's
  delivered :: "IBalanceProofRecord list"
  first_row :: "int option"

definition new_SqliteListener :: "int option \<Rightarrow> StateChange list \<Rightarrow> 's \<Rightarrow> 's SqliteListener" where
  "new_SqliteListener startingRowId rows s =
     \<lparr>lastRowId = startingRowId, polling = False, state_changes = rows, dbcopy = [], ticks = [], peer = s,
      delivered = [], first_row = None\<rparr>"

definition start_listener :: "'s SqliteListener \<Rightarrow> 's SqliteListener" where
  "start_listener this =
     (let this' = (case lastRowId this of
          None \<Rightarrow> this\<lparr>dbcopy := state_changes this, lastRowId := max_row (state_changes this)\<rparr>
        | Some n \<Rightarrow> this)
      in this'\<lparr>polling := True, first_row := lastRowId this'\<rparr>)"

definition end_tick :: "nat \<Rightarrow> 's SqliteListener \<Rightarrow> 's SqliteListener" where
  "end_tick i this = this\<lparr>ticks := take i (ticks this) @ drop (Suc i) (ticks this)\<rparr>"

text \<open>The query of a tick that has its copy; an error is logged and ends it.\<close>

definition query_tick :: "nat \<Rightarrow> 's SqliteListener \<Rightarrow> 's SqliteListener" where
  "query_tick i this =
     (case getBalanceProofsSince (lastRowId this) (dbcopy this) of
        Inl err \<Rightarrow> end_tick i this
      | Inr results \<Rightarrow> this\<lparr>ticks := (ticks this)[i := Sending results]\<rparr>)"

text \<open>The callback of a record returns or throws.\<close>

definition callback_done ::
  "nat \<Rightarrow> IBalanceProofRecord \<Rightarrow> IBalanceProofRecord list \<Rightarrow> unit result \<Rightarrow> 's \<Rightarrow> 's SqliteListener \<Rightarrow> 's SqliteListener" where
  "callback_done i result results outcome s this =
     (case outcome of
        Inl err \<Rightarrow> end_tick i (this\<lparr>peer := s\<rparr>)
      | Inr _ \<Rightarrow> this\<lparr>peer := s, lastRowId := Some (record_identifier result),
                    ticks := (ticks this)[i := Sending results], delivered := delivered this @ [result]\<rparr>)"

text \<open>The node adds rows with larger identifiers, the timer starts ticks, the ticks go on in any order, and
  the peer changes on its own.\<close>

inductive listener_step ::
  "(int option IRawBalanceProof \<Rightarrow> 's \<Rightarrow> unit result \<Rightarrow> 's \<Rightarrow> bool) \<Rightarrow> ('s \<Rightarrow> 's \<Rightarrow> bool) \<Rightarrow>
   's SqliteListener \<Rightarrow> 's SqliteListener \<Rightarrow> bool"
  for callback others where
  insert: "\<forall>r\<in>set (state_changes l). row_id r < row_id row \<Longrightarrow>
    listener_step callback others l (l\<lparr>state_changes := state_changes l @ [row]\<rparr>)"
| start: "\<not> polling l \<Longrightarrow> listener_step callback others l (start_listener l)"
| copy: "polling l \<Longrightarrow>
    listener_step callback others l (l\<lparr>dbcopy := state_changes l, ticks := ticks l @ [Copied]\<rparr>)"
| query: "i < length (ticks l) \<Longrightarrow> ticks l ! i = Copied \<Longrightarrow> listener_step callback others l (query_tick i l)"
| query_fails: "i < length (ticks l) \<Longrightarrow> ticks l ! i = Copied \<Longrightarrow> listener_step callback others l (end_tick i l)"
| callback: "i < length (ticks l) \<Longrightarrow> ticks l ! i = Sending (result # results) \<Longrightarrow>
    callback (balance_proof result) (peer l) outcome s \<Longrightarrow>
    listener_step callback others l (callback_done i result results outcome s l)"
| end_loop: "i < length (ticks l) \<Longrightarrow> ticks l ! i = Sending [] \<Longrightarrow> listener_step callback others l (end_tick i l)"
| other: "others (peer l) s \<Longrightarrow> listener_step callback others l (l\<lparr>peer := s\<rparr>)"

section \<open>No proof is skipped\<close>

definition proof_sent :: "'s SqliteListener \<Rightarrow> StateChange \<Rightarrow> bool" where
  "proof_sent l row \<longleftrightarrow> (\<exists>x\<in>set (delivered l). read_proof row = Inr x)"

text \<open>What the records left to a tick leave out has been sent.\<close>

definition tick_ok :: "'s SqliteListener \<Rightarrow> int \<Rightarrow> IBalanceProofRecord list \<Rightarrow> bool" where
  "tick_ok l f rs \<longleftrightarrow>
     sorted_wrt (<) (map record_identifier rs) \<and>
     (\<forall>x\<in>set rs. (\<exists>row\<in>set (state_changes l). read_proof row = Inr x) \<and>
        (\<forall>row\<in>set (state_changes l). is_unlock row \<and> f < row_id row \<and> row_id row \<le> record_identifier x \<longrightarrow>
           proof_sent l row \<or> (\<exists>y\<in>set rs. read_proof row = Inr y)))"

definition sent_up_to :: "'s SqliteListener \<Rightarrow> int \<Rightarrow> bool" where
  "sent_up_to l f \<longleftrightarrow> (\<forall>n. lastRowId l = Some n \<longrightarrow>
     (n = f \<or> n \<in> row_id ` set (state_changes l)) \<and>
     (\<forall>row\<in>set (state_changes l). is_unlock row \<and> f < row_id row \<and> row_id row \<le> n \<longrightarrow> proof_sent l row))"

definition listener_ok :: "'s SqliteListener \<Rightarrow> bool" where
  "listener_ok l \<longleftrightarrow>
     sorted_wrt (<) (map row_id (state_changes l)) \<and>
     (\<exists>newer. state_changes l = dbcopy l @ newer) \<and>
     (\<not> polling l \<longrightarrow> ticks l = [] \<and> first_row l = None) \<and>
     (\<forall>f. first_row l = Some f \<longrightarrow> sent_up_to l f \<and> (\<forall>rs. Sending rs \<in> set (ticks l) \<longrightarrow> tick_ok l f rs))"

lemma read_proof_identifier: "read_proof row = Inr x \<Longrightarrow> record_identifier x = row_id row"
  by (auto simp: read_proof_def split: option.splits)

lemma map_result_sets:
  "map_result f xs = Inr ys \<Longrightarrow> (\<forall>x\<in>set xs. \<exists>y\<in>set ys. f x = Inr y) \<and> (\<forall>y\<in>set ys. \<exists>x\<in>set xs. f x = Inr y)"
  by (induction xs arbitrary: ys) (fastforce simp: result_simps)+

lemma map_result_ids: "map_result read_proof rows = Inr rs \<Longrightarrow> map record_identifier rs = map row_id rows"
  by (induction rows arbitrary: rs) (auto simp: result_simps read_proof_identifier)

lemma read_rows:
  assumes "sorted_wrt (<) (map row_id rows)" "getBalanceProofsSince lastId rows = Inr rs"
  shows "sorted_wrt (<) (map record_identifier rs)"
    and "x \<in> set rs \<Longrightarrow> \<exists>row\<in>set rows. read_proof row = Inr x"
    and "lastId = Some n \<Longrightarrow> row \<in> set rows \<Longrightarrow> is_unlock row \<Longrightarrow> n < row_id row \<Longrightarrow>
      \<exists>y\<in>set rs. read_proof row = Inr y"
proof -
  let ?sel = "filter (\<lambda>row. (case lastId of None \<Rightarrow> False | Some n \<Rightarrow> row_id row > n) \<and> is_unlock row) rows"
  have s: "sorted_wrt (<) (map row_id ?sel)"
    using assms(1) by (simp add: sorted_wrt_map sorted_wrt_filter)
  then have "sorted (map row_id ?sel)" by (rule strict_sorted_imp_sorted)
  then have "sort_key row_id ?sel = ?sel" by (rule sort_key_id_if_sorted)
  then have run: "map_result read_proof ?sel = Inr rs" using assms(2) by (simp add: getBalanceProofsSince_def)
  then show "sorted_wrt (<) (map record_identifier rs)" using s by (simp add: map_result_ids)
  note all = map_result_sets [OF run]
  show "\<exists>row\<in>set rows. read_proof row = Inr x" if "x \<in> set rs"
    using that all by auto
  show "\<exists>y\<in>set rs. read_proof row = Inr y" if "lastId = Some n" "row \<in> set rows" "is_unlock row" "n < row_id row"
    using that all by auto
qed

lemma tick_ok_Nil [simp]: "tick_ok l f []"
  by (simp add: tick_ok_def)

lemma listener_ok_new: "sorted_wrt (<) (map row_id rows) \<Longrightarrow> listener_ok (new_SqliteListener n rows s)"
  by (simp add: listener_ok_def new_SqliteListener_def)

lemma listener_ok_start: "listener_ok l \<Longrightarrow> \<not> polling l \<Longrightarrow> listener_ok (start_listener l)"
  by (auto simp: listener_ok_def start_listener_def sent_up_to_def Let_def split: option.splits)

lemma listener_ok_insert:
  assumes "listener_ok l" "\<forall>r\<in>set (state_changes l). row_id r < row_id row"
  shows "listener_ok (l\<lparr>state_changes := state_changes l @ [row]\<rparr>)"
proof -
  let ?l = "l\<lparr>state_changes := state_changes l @ [row]\<rparr>"
  have sent: "proof_sent ?l r = proof_sent l r" for r by (simp add: proof_sent_def)
  have "tick_ok ?l f rs" if "tick_ok l f rs" for f rs
    using that assms(2) by (fastforce simp: tick_ok_def sent dest: read_proof_identifier)
  moreover have "sent_up_to ?l f" if "sent_up_to l f" for f
    using that assms(2) by (fastforce simp: sent_up_to_def sent)
  ultimately show ?thesis using assms by (auto simp: listener_ok_def sorted_wrt_append)
qed

text \<open>Ticks that start or end, the copy and the peer change nothing of it.\<close>

lemma listener_ok_less:
  assumes "listener_ok l" "state_changes l' = state_changes l" "delivered l' = delivered l" "lastRowId l' = lastRowId l"
    "first_row l' = first_row l" "polling l' = polling l" "dbcopy l' = dbcopy l \<or> dbcopy l' = state_changes l"
    "set (ticks l') \<subseteq> set (ticks l) \<union> {Copied}" "\<not> polling l \<Longrightarrow> ticks l' = []"
  shows "listener_ok l'"
proof -
  have "proof_sent l' = proof_sent l" using assms(3) by (simp add: proof_sent_def fun_eq_iff)
  then have "tick_ok l' = tick_ok l" "sent_up_to l' = sent_up_to l"
    using assms(2,4) by (simp_all add: tick_ok_def sent_up_to_def fun_eq_iff)
  then show ?thesis using assms unfolding listener_ok_def by auto
qed

lemma listener_ok_copy:
  "listener_ok l \<Longrightarrow> polling l \<Longrightarrow> listener_ok (l\<lparr>dbcopy := state_changes l, ticks := ticks l @ [Copied]\<rparr>)"
  by (rule listener_ok_less) auto

lemma listener_ok_end: "listener_ok l \<Longrightarrow> listener_ok (end_tick i l)"
  by (rule listener_ok_less) (auto simp: end_tick_def listener_ok_def dest: in_set_takeD in_set_dropD)

lemma listener_ok_peer: "listener_ok l \<Longrightarrow> listener_ok (l\<lparr>peer := s\<rparr>)"
  by (rule listener_ok_less) (auto simp: listener_ok_def)

lemma proof_sent_mono: "set (delivered l) \<subseteq> set (delivered l') \<Longrightarrow> proof_sent l row \<Longrightarrow> proof_sent l' row"
  by (auto simp: proof_sent_def)

lemma tick_ok_more:
  "tick_ok l f rs \<Longrightarrow> state_changes l' = state_changes l \<Longrightarrow> set (delivered l) \<subseteq> set (delivered l') \<Longrightarrow> tick_ok l' f rs"
  using proof_sent_mono [of l l'] unfolding tick_ok_def by metis

text \<open>A tick that goes on with other records.\<close>

lemma listener_ok_send:
  assumes ok: "listener_ok l" and i: "i < length (ticks l)"
    and l': "state_changes l' = state_changes l" "dbcopy l' = dbcopy l" "polling l' = polling l" "first_row l' = first_row l"
      "ticks l' = (ticks l)[i := Sending rs]" "set (delivered l) \<subseteq> set (delivered l')"
    and sent: "\<And>f. first_row l = Some f \<Longrightarrow> sent_up_to l' f \<and> tick_ok l' f rs"
  shows "listener_ok l'"
proof -
  have "tick_ok l' f rs'" if "first_row l = Some f" "Sending rs' \<in> set (ticks l')" for f rs'
  proof (cases "rs' = rs")
    case True
    with sent that show ?thesis by blast
  next
    case False
    then have "Sending rs' \<in> set (ticks l)" using that(2) l'(5) set_update_subset_insert [of "ticks l" i] by auto
    then have "tick_ok l f rs'" using ok that(1) by (simp add: listener_ok_def)
    then show ?thesis by (rule tick_ok_more [OF _ l'(1,6)])
  qed
  with ok i sent show ?thesis by (auto simp: listener_ok_def l'(1-4))
qed

lemma listener_ok_query:
  assumes ok: "listener_ok l" and i: "i < length (ticks l)" "ticks l ! i = Copied"
  shows "listener_ok (query_tick i l)"
proof (cases "getBalanceProofsSince (lastRowId l) (dbcopy l)")
  case (Inl e)
  then show ?thesis using listener_ok_end [OF ok] by (simp add: query_tick_def)
next
  case (Inr rs)
  from ok obtain newer where tab: "state_changes l = dbcopy l @ newer" "sorted_wrt (<) (map row_id (state_changes l))"
    by (auto simp: listener_ok_def)
  then have "sorted_wrt (<) (map row_id (dbcopy l))" by (simp add: sorted_wrt_append)
  note R = read_rows [OF this Inr]
  have "tick_ok l f rs" if f: "first_row l = Some f" for f
  proof -
    have "proof_sent l row \<or> (\<exists>y\<in>set rs. read_proof row = Inr y)"
      if x: "x \<in> set rs" and row: "row \<in> set (state_changes l)" "is_unlock row" "f < row_id row"
        "row_id row \<le> record_identifier x" for x row
    proof -
      from R(2) [OF x] obtain r where r: "r \<in> set (dbcopy l)" "read_proof r = Inr x" by blast
      then have "row \<in> set (dbcopy l)" using row(1,4) tab by (fastforce simp: sorted_wrt_append read_proof_identifier)
      moreover obtain n where n: "lastRowId l = Some n"
        using x Inr by (cases "lastRowId l") (auto simp: getBalanceProofsSince_def)
      ultimately show ?thesis
        using R(3) [OF n] row ok f n by (cases "n < row_id row") (auto simp: listener_ok_def sent_up_to_def)
    qed
    moreover have "\<exists>row\<in>set (state_changes l). read_proof row = Inr x" if "x \<in> set rs" for x
      using R(2) [OF that] tab(1) by auto
    ultimately show ?thesis using R(1) by (simp add: tick_ok_def)
  qed
  moreover let ?l = "l\<lparr>ticks := (ticks l)[i := Sending rs]\<rparr>"
  have "sent_up_to ?l f = sent_up_to l f" "tick_ok ?l f rs = tick_ok l f rs" for f
    by (simp_all add: sent_up_to_def tick_ok_def proof_sent_def)
  moreover have "sent_up_to l f" if "first_row l = Some f" for f using ok that by (simp add: listener_ok_def)
  ultimately have "listener_ok ?l"
    by (intro listener_ok_send [where l = l and i = i and rs = rs, OF ok i(1)]) simp_all
  then show ?thesis by (simp add: query_tick_def Inr)
qed

lemma tick_ok_next:
  assumes "tick_ok l f (x # rs)"
    and l': "state_changes l' = state_changes l" "delivered l' = delivered l @ [x]"
  shows "tick_ok l' f rs"
    and "row \<in> set (state_changes l) \<Longrightarrow> is_unlock row \<Longrightarrow> f < row_id row \<Longrightarrow> row_id row \<le> record_identifier x \<Longrightarrow>
      proof_sent l' row"
proof -
  have sent: "proof_sent l' row" if "proof_sent l row \<or> read_proof row = Inr x" for row
    using that by (auto simp: proof_sent_def l')
  have t: "sorted_wrt (<) (map record_identifier (x # rs))"
    "\<And>y. y \<in> set (x # rs) \<Longrightarrow> \<exists>row\<in>set (state_changes l). read_proof row = Inr y"
    "\<And>y row. y \<in> set (x # rs) \<Longrightarrow> row \<in> set (state_changes l) \<Longrightarrow> is_unlock row \<Longrightarrow> f < row_id row \<Longrightarrow>
       row_id row \<le> record_identifier y \<Longrightarrow> proof_sent l row \<or> (\<exists>z\<in>set (x # rs). read_proof row = Inr z)"
    using assms(1) unfolding tick_ok_def by blast+
  have "proof_sent l' row \<or> (\<exists>z\<in>set rs. read_proof row = Inr z)"
    if "y \<in> set rs" "row \<in> set (state_changes l)" "is_unlock row" "f < row_id row" "row_id row \<le> record_identifier y" for y row
    using t(3) [of y row] that sent [of row] by auto
  then show "tick_ok l' f rs" unfolding tick_ok_def l' using t(1,2) by auto
  show "proof_sent l' row"
    if "row \<in> set (state_changes l)" "is_unlock row" "f < row_id row" "row_id row \<le> record_identifier x"
  proof -
    from t(3) [OF _ that(1-4)] have "proof_sent l row \<or> (\<exists>z\<in>set (x # rs). read_proof row = Inr z)" by simp
    moreover have "z = x" if z: "z \<in> set (x # rs)" "read_proof row = Inr z" for z
      using t(1) z(1) read_proof_identifier [OF z(2)] \<open>row_id row \<le> record_identifier x\<close> by auto
    ultimately show ?thesis using sent by blast
  qed
qed

lemma listener_ok_callback:
  assumes ok: "listener_ok l" and i: "i < length (ticks l)" "ticks l ! i = Sending (x # rs)"
  shows "listener_ok (callback_done i x rs outcome s l)"
proof (cases outcome)
  case (Inl e)
  then show ?thesis using listener_ok_end [OF listener_ok_peer [OF ok]] by (simp add: callback_done_def)
next
  case (Inr u)
  let ?l = "l\<lparr>peer := s, lastRowId := Some (record_identifier x), ticks := (ticks l)[i := Sending rs], delivered := delivered l @ [x]\<rparr>"
  have "sent_up_to ?l f \<and> tick_ok ?l f rs" if f: "first_row l = Some f" for f
  proof -
    have "Sending (x # rs) \<in> set (ticks l)" using i by (metis nth_mem)
    then have t: "tick_ok l f (x # rs)" using ok f by (simp add: listener_ok_def)
    then have "record_identifier x \<in> row_id ` set (state_changes l)"
      by (force simp: tick_ok_def dest: read_proof_identifier)
    then show ?thesis using tick_ok_next [OF t, of ?l] by (simp add: sent_up_to_def)
  qed
  then have "listener_ok ?l"
    by (intro listener_ok_send [where l = l and i = i and rs = rs, OF ok i(1)]) (simp_all add: subset_insertI)
  then show ?thesis by (simp add: callback_done_def Inr)
qed

interpretation listener: step_invariant "listener_step callback others" listener_ok for callback others
proof
  fix l l' :: "'a SqliteListener"
  assume "listener_ok l" "listener_step callback others l l'"
  from this(2,1) show "listener_ok l'"
    by cases (simp_all add: listener_ok_insert listener_ok_start listener_ok_copy listener_ok_query listener_ok_end
        listener_ok_callback listener_ok_peer)
qed

section \<open>An empty database\<close>

text \<open>A listener that is started without a row on an empty database never sends anything: its \<open>lastRowId\<close> is
  the null of \<open>MAX\<close>, and no row is larger than null.\<close>

definition deaf :: "'s SqliteListener \<Rightarrow> bool" where
  "deaf l \<longleftrightarrow> polling l \<and> lastRowId l = None \<and> delivered l = [] \<and> set (ticks l) \<subseteq> {Copied, Sending []}"

lemma deaf_step: "deaf l \<Longrightarrow> listener_step callback others l l' \<Longrightarrow> deaf l'"
proof (erule listener_step.cases, goal_cases)
  case (4 i k)
  then show ?case using set_update_subset_insert [of "ticks l" i "Sending []"]
    by (auto simp: deaf_def query_tick_def getBalanceProofsSince_def)
next
  case (6 i k x xs outcome s)
  then have "Sending (x # xs) \<in> set (ticks l)" by (metis nth_mem)
  with 6 show ?case by (auto simp: deaf_def)
qed (auto simp: deaf_def end_tick_def dest: in_set_takeD in_set_dropD)

interpretation deaf_listener: step_invariant "listener_step callback others" deaf for callback others
  by unfold_locales (rule deaf_step)

lemma empty_database_is_never_read:
  assumes "(listener_step callback others)\<^sup>*\<^sup>* (start_listener (new_SqliteListener None [] s)) l"
  shows "delivered l = [] \<and> lastRowId l = None"
  using deaf_listener.reach_inv [OF assms]
  by (simp add: deaf_def start_listener_def new_SqliteListener_def max_row_def)

section \<open>Properties\<close>

text \<open>C38: However the ticks of the listener overlap, whatever is added to the database meanwhile and whichever
  callbacks throw: every balance proof between the row the polling began after and \<open>lastRowId\<close> has been
  sent, and the callback of it returned.  A proof whose callback throws is not passed over.\<close>

theorem no_proof_skipped:
  assumes "sorted_wrt (<) (map row_id rows)"
    and "(listener_step callback others)\<^sup>*\<^sup>* (new_SqliteListener startingRowId rows s) l"
    and "first_row l = Some f" "lastRowId l = Some n"
    and "row \<in> set (state_changes l)" "is_unlock row" "f < row_id row" "row_id row \<le> n"
  shows "\<exists>x\<in>set (delivered l). read_proof row = Inr x"
  using listener.reach_inv [OF assms(2) listener_ok_new [OF assms(1)]] assms(3-)
  by (auto simp: listener_ok_def sent_up_to_def proof_sent_def)

text \<open>Two ticks read the same row before the first of them has sent it.\<close>

definition ex_proof :: "string IRawBalanceProof" where
  "ex_proof = \<lparr>proof_nonce = ''1'', transferred_amount = ''10'', locked_amount = ''0'', locksroot = ''0x'',
     token_network_identifier = ''0xn'', channel_identifier = ''7'', message_hash = ''0xh'', proof_signature = ''0xs'',
     sender = ''0xb'', chain_id = ''3'', balance_hash = ''0xc'', proof_type = ''BalanceProof'', proof_version = 1\<rparr>"

definition ex_row :: "int \<Rightarrow> StateChange" where
  "ex_row n = \<lparr>row_id = n, data_type = ''raiden.transfer.state_change.ReceiveUnlock'', data_proof = Some ex_proof\<rparr>"

definition ex_record :: IBalanceProofRecord where
  "ex_record = projr (read_proof (ex_row 4))"

definition ex_listening :: "'s \<Rightarrow> 's SqliteListener" where
  "ex_listening s = (start_listener (new_SqliteListener (Some 0) [ex_row 4] s))
     \<lparr>dbcopy := [ex_row 4], ticks := [Sending [ex_record], Sending [ex_record]]\<rparr>"

lemma ex_record_read: "read_proof (ex_row 4) = Inr ex_record" "record_identifier ex_record = 4"
  by (simp_all add: ex_record_def read_proof_def ex_row_def ex_proof_def)

lemma ex_listening_reached:
  "(listener_step callback others)\<^sup>*\<^sup>* (new_SqliteListener (Some 0) [ex_row 4] s) (ex_listening s)"
proof -
  let ?step = "listener_step callback others"
  let ?l = "\<lambda>ts. (start_listener (new_SqliteListener (Some 0) [ex_row 4] s))\<lparr>dbcopy := [ex_row 4], ticks := ts\<rparr>"
  let ?new = "new_SqliteListener (Some 0) [ex_row 4] s"
  have l: "polling (?l ts)" "state_changes (?l ts) = [ex_row 4]" "dbcopy (?l ts) = [ex_row 4]" "lastRowId (?l ts) = Some 0" for ts
    by (simp_all add: start_listener_def new_SqliteListener_def)
  have "getBalanceProofsSince (Some 0) [ex_row 4] = Inr [ex_record]"
    using ex_record_read(1) by (simp add: getBalanceProofsSince_def is_unlock_def ex_row_def)
  then have q: "query_tick i (?l ts) = ?l (ts[i := Sending [ex_record]])" for i ts by (simp add: query_tick_def l(3,4))
  have "?step ?new (start_listener ?new)" by (rule listener_step.start) (simp add: new_SqliteListener_def)
  moreover have "?step (start_listener ?new) (?l [Copied])"
    using listener_step.copy [of "start_listener ?new"] by (simp add: start_listener_def new_SqliteListener_def)
  moreover have "?step (?l [Copied]) (?l [Copied, Copied])" using listener_step.copy [OF l(1) [of "[Copied]"]] by (simp add: l(2))
  moreover have "?step (?l [Copied, Copied]) (?l [Sending [ex_record], Copied])"
    using listener_step.query [of 0 "?l [Copied, Copied]"] q [of 0 "[Copied, Copied]"] by simp
  moreover have "?step (?l [Sending [ex_record], Copied]) (?l [Sending [ex_record], Sending [ex_record]])"
    using listener_step.query [of 1 "?l [Sending [ex_record], Copied]"] q [of 1 "[Sending [ex_record], Copied]"] by simp
  ultimately show ?thesis
    unfolding ex_listening_def by (meson converse_rtranclp_into_rtranclp rtranclp.rtrancl_refl)
qed

theorem no_proof_skipped_witness:
  "\<exists>l. (listener_step (\<lambda>bp s r s'. True) (\<lambda>s s'. True))\<^sup>*\<^sup>* (new_SqliteListener (Some 0) [ex_row 4] ()) l \<and>
     lastRowId l = Some 4 \<and> (\<exists>x\<in>set (delivered l). read_proof (ex_row 4) = Inr x)"
proof -
  let ?l = "callback_done 0 ex_record [] (Inr ()) () (ex_listening ())"
  have "listener_step (\<lambda>bp s r s'. True) (\<lambda>s s'. True) (ex_listening ()) ?l"
    by (rule listener_step.callback) (simp_all add: ex_listening_def)
  with ex_listening_reached have run:
    "(listener_step (\<lambda>bp s r s'. True) (\<lambda>s s'. True))\<^sup>*\<^sup>* (new_SqliteListener (Some 0) [ex_row 4] ()) ?l"
    by (rule rtranclp.rtrancl_into_rtrancl)
  have l: "first_row ?l = Some 0" "lastRowId ?l = Some 4" "state_changes ?l = [ex_row 4]"
    by (simp_all add: callback_done_def ex_record_read(2) ex_listening_def start_listener_def new_SqliteListener_def)
  have "\<exists>x\<in>set (delivered ?l). read_proof (ex_row 4) = Inr x"
    by (rule no_proof_skipped [OF _ run l(1,2)]) (simp_all add: l(3), simp_all add: ex_row_def is_unlock_def)
  with run l(2) show ?thesis by blast
qed

end
