(* ===== verification/RaidenDaemon.thy ===== *)
theory RaidenDaemon
  imports Client RaidenListener
begin

text \<open>
  The Raiden daemon (raiden_demo/raiden-pisa-daemon/src/index.ts, balanceProof.ts, tools.ts): for every
  balance proof the listener finds it signs the update of the channel and asks the tower, through the
  client, to send it when the channel is closed.

  The packing of the ethers library, the interface of the token network contract and the wallet are
  arguments.
\<close>

section \<open>Signing a balance proof\<close>

record BalanceProofSigGroup =
  group_token_network_identifier :: string
  group_chain_id :: "int option"
  group_channel_identifier :: "int option"
  group_balance_hash :: string
  group_nonce :: "int option"
  additional_hash :: string
  closing_signature :: string

definition fromBalanceProof :: "int option IRawBalanceProof \<Rightarrow> BalanceProofSigGroup" where
  "fromBalanceProof bp =
     \<lparr>group_token_network_identifier = token_network_identifier bp, group_chain_id = chain_id bp,
      group_channel_identifier = channel_identifier bp, group_balance_hash = balance_hash bp,
      group_nonce = proof_nonce bp, additional_hash = message_hash bp, closing_signature = proof_signature bp\<rparr>"

text \<open>The arguments of the library: texts, and numbers that may be NaN.\<close>

datatype raiden_arg = TextArg string | NumberArg "int option"

record Daemon =
  daemon_ethers :: Ethers
  solidityPack :: "string list \<Rightarrow> raiden_arg list \<Rightarrow> string result"
  encodeTopics_ChannelClosed :: "raiden_arg list \<Rightarrow> string list result"
  encode_updateNonClosingBalanceProof :: "raiden_arg list \<Rightarrow> string result"
  daemon_signMessage :: "string \<Rightarrow> string result"
  daemon_address :: string
  daemon_pisaContract :: string

definition packForCloser :: "Daemon \<Rightarrow> BalanceProofSigGroup \<Rightarrow> string result" where
  "packForCloser d this =
     solidityPack d [''address'', ''uint256'', ''uint256'', ''uint256'', ''bytes32'', ''uint256'', ''bytes32'']
       [TextArg (group_token_network_identifier this), NumberArg (group_chain_id this), NumberArg (Some 1),
        NumberArg (group_channel_identifier this), TextArg (group_balance_hash this), NumberArg (group_nonce this),
        TextArg (additional_hash this)]"

definition packForNonCloser :: "Daemon \<Rightarrow> BalanceProofSigGroup \<Rightarrow> string result" where
  "packForNonCloser d this =
     solidityPack d [''address'', ''uint256'', ''uint256'', ''uint256'', ''bytes32'', ''uint256'', ''bytes32'', ''bytes'']
       [TextArg (group_token_network_identifier this), NumberArg (group_chain_id this), NumberArg (Some 2),
        NumberArg (group_channel_identifier this), TextArg (group_balance_hash this), NumberArg (group_nonce this),
        TextArg (additional_hash this), TextArg (closing_signature this)]"

definition sign :: "Daemon \<Rightarrow> string \<Rightarrow> string result" where
  "sign d hash = bind_result (arrayify (daemon_ethers d) hash) (daemon_signMessage d)"

definition raiden_topics :: "Daemon \<Rightarrow> int option \<Rightarrow> string \<Rightarrow> string list result" where
  "raiden_topics d channelIdentifier closingParticipant =
     encodeTopics_ChannelClosed d [NumberArg channelIdentifier, TextArg closingParticipant]"

definition encodeForUpdate ::
  "Daemon \<Rightarrow> int option \<Rightarrow> string \<Rightarrow> string \<Rightarrow> string \<Rightarrow> int option \<Rightarrow> string \<Rightarrow> string \<Rightarrow> string \<Rightarrow> string result" where
  "encodeForUpdate d channelIdentifier closingParticipant nonClosingParticipant balanceHash counter additionalHash
     closingSignature nonClosingSignature =
     encode_updateNonClosingBalanceProof d
       [NumberArg channelIdentifier, TextArg closingParticipant, TextArg nonClosingParticipant, TextArg balanceHash,
        NumberArg counter, TextArg additionalHash, TextArg closingSignature, TextArg nonClosingSignature]"

section \<open>The callback\<close>

definition daemon_job :: string where
  "daemon_job = ''0x0000000000000000000000000000000000000000000000000000000000000001''"

definition daemon_request ::
  "Daemon \<Rightarrow> int result \<Rightarrow> int option IRawBalanceProof \<Rightarrow> SignedAppointmentRequest result" where
  "daemon_request d getBlockNumber bp =
     (let sigGroup = fromBalanceProof bp in
      bind_result (packForNonCloser d sigGroup) (\<lambda>nonClosingHash.
      bind_result (sign d nonClosingHash) (\<lambda>nonClosingSig.
      bind_result (encodeForUpdate d (group_channel_identifier sigGroup) (sender bp) (daemon_address d)
          (group_balance_hash sigGroup) (group_nonce sigGroup) (additional_hash sigGroup) (closing_signature sigGroup)
          nonClosingSig) (\<lambda>encodedForUpdate.
      bind_result getBlockNumber (\<lambda>blockNumber.
      bind_result (raiden_topics d (group_channel_identifier sigGroup) (sender bp)) (\<lambda>topics.
        generateRequest (daemon_ethers d) (daemon_pisaContract d) (sign d) (daemon_address d) daemon_job 0 blockNumber 10000
          (group_token_network_identifier sigGroup) encodedForUpdate 200000 200
          (Some (group_token_network_identifier sigGroup)) (Some (map Some topics))))))))"

definition daemon_callback ::
  "Daemon \<Rightarrow> (AppointmentReceipt \<Rightarrow> string) \<Rightarrow> (json \<Rightarrow> ('s, AppointmentReceipt HttpResponse) eff) \<Rightarrow> int result \<Rightarrow>
   int option IRawBalanceProof \<Rightarrow> ('s, unit) eff" where
  "daemon_callback d text_of post getBlockNumber bp =
     bind_eff (lift_result (daemon_request d getBlockNumber bp)) (\<lambda>req.
     bind_eff (executeRequest (daemon_ethers d) (daemon_pisaContract d) text_of post req) (\<lambda>receipt. return_eff ()))"

text \<open>The callback against a service, whatever the head of the chain, the databases and the node are at the
  time.\<close>

inductive daemon_calls ::
  "TowerConfig \<Rightarrow> Daemon \<Rightarrow> int option IRawBalanceProof \<Rightarrow> PisaService \<Rightarrow> unit result \<Rightarrow> PisaService \<Rightarrow> bool"
  for cfg d where
  call: "daemon_callback d text_of (endpoint cfg (c :: (unit IBlockStub_ext, unit) BlockCache) env db_ok) getBlockNumber bp s = (r, s') \<Longrightarrow>
    daemon_calls cfg d bp s r s'"

section \<open>One job for all proofs\<close>

text \<open>The tower has an appointment for the job of the daemon.\<close>

definition job_taken :: "Daemon \<Rightarrow> PisaService \<Rightarrow> bool" where
  "job_taken d s \<longleftrightarrow>
     (\<exists>a. map_of (mAppointmentsByLocator (tower_store (pisaTower s))) (daemon_address d @ ''|'' @ daemon_job) = Some a \<and>
        0 \<le> a_nonce a)"

text \<open>What else happens to the tower does not remove it.\<close>

definition keeps_job :: "Daemon \<Rightarrow> PisaService \<Rightarrow> PisaService \<Rightarrow> bool" where
  "keeps_job d s s' \<longleftrightarrow> (job_taken d s \<longrightarrow> job_taken d s')"

lemma daemon_request_InrD:
  assumes "daemon_request d n bp = Inr req"
  shows "c_customerAddress req = daemon_address d" "c_id req = daemon_job" "c_nonce req = 0" "c_mode req = 1"
proof -
  from assms obtain blockNumber data topics where gen:
    "generateRequest (daemon_ethers d) (daemon_pisaContract d) (sign d) (daemon_address d) daemon_job 0 blockNumber 10000
       (token_network_identifier bp) data 200000 200 (Some (token_network_identifier bp)) (Some (map Some topics)) = Inr req"
    by (auto simp: daemon_request_def Let_def result_simps fromBalanceProof_def)
  obtain md addr ts where ev: "event_args (Some (token_network_identifier bp)) (Some (map Some topics)) = Inr (md, addr, ts)"
    and r: "AppointmentRequest.truncate req =
       \<lparr>c_customerAddress = daemon_address d, c_id = daemon_job, c_nonce = 0, c_startBlock = blockNumber, c_endBlock = 10000,
        c_paymentHash = client_free_hash, c_eventAddress = addr, c_topics = ts, c_contractAddress = token_network_identifier bp,
        c_data = data, c_gasLimit = 200000, c_challengePeriod = 200, c_refund = ''0'', c_preCondition = ''0x'',
        c_postCondition = ''0x'', c_mode = md\<rparr>"
    by (rule generateRequest_InrD [OF gen])
  have "md = 1" using event_argsD [OF ev] by auto
  then show "c_customerAddress req = daemon_address d" "c_id req = daemon_job" "c_nonce req = 0" "c_mode req = 1"
    using r by (simp_all add: AppointmentRequest.defs)
qed

lemma parsed_request:
  assumes "parse bn (request_json r) = Inr a"
  shows "locator a = c_customerAddress r @ ''|'' @ c_id r" "a_nonce a = c_nonce r" "a_mode a = c_mode r"
proof -
  have view: "client_request_of (as_request (request_json r)) = r" by (rule as_request_json)
  have "customerAddress (as_request (request_json r)) = c_customerAddress r" "request_id (as_request (request_json r)) = c_id r"
    "app_nonce (as_request (request_json r)) = c_nonce r" "mode (as_request (request_json r)) = c_mode r"
    using arg_cong [OF view, of c_customerAddress] arg_cong [OF view, of c_id] arg_cong [OF view, of c_nonce]
      arg_cong [OF view, of c_mode] by (simp_all add: client_request_of_def)
  then show "locator a = c_customerAddress r @ ''|'' @ c_id r" "a_nonce a = c_nonce r" "a_mode a = c_mode r"
    using parse_InrD(3) [OF assms] by (auto simp: fromIAppointmentRequest_def result_simps locator_def)
qed

lemma executeRequest_endpoint:
  assumes "executeRequest eth pisa text_of (endpoint cfg c env db_ok) req s = (r, s')"
  obtains "s' = s" "isl r"
  | t where "addAppointment cfg c env db_ok (request_json req) (pisaTower s) = t" "s' = s\<lparr>pisaTower := snd t\<rparr>"
    "isl (fst t) \<Longrightarrow> isl r"
proof (cases "mStarted (lifetime s)")
  case False
  with assms have "s' = s" "isl r"
    by (auto simp: executeRequest_def bind_eff_def endpoint_def appointment_def handlerWrapper_def message_response_def
        checkResponse_def response_ok_def lift_result_def)
  then show thesis by (rule that(1))
next
  case True
  obtain q t where add: "addAppointment cfg c env db_ok (request_json req) (pisaTower s) = (q, t)" by fastforce
  show thesis
  proof (cases q)
    case (Inl e)
    from endpoint_throws [OF True add [unfolded Inl]] assms add that(2) show thesis
      by (auto simp: executeRequest_def bind_eff_def lift_result_def checkResponse_error)
  next
    case (Inr signed)
    from endpoint_returns [OF True add [unfolded Inr]] assms add that(2) Inr show thesis
      by (auto simp: executeRequest_def bind_eff_def lift_result_def split: sum.splits)
  qed
qed

text \<open>An event appointment that comes back signed is the one of its locator; one whose locator has a nonce as
  large is refused.\<close>

lemma addAppointment_stored:
  assumes "addAppointment cfg c env db_ok obj t = (Inr signed, t')" "parse (bignumber cfg) obj = Inr a" "a_mode a = EventTriggered"
  shows "map_of (mAppointmentsByLocator (tower_store t')) (locator a) = Some a"
proof -
  from assms have "add_to_store cfg db_ok a t = (Inr (), t')"
    by (auto simp: addAppointment_def bind_eff_InrD Relay_def EventTriggered_def split: if_splits)
  then obtain s' where "addOrUpdateByLocator (bignumber cfg) db_ok a (tower_store t) = (Inr (), s')" "t' = t\<lparr>tower_store := s'\<rparr>"
    by (auto simp: add_to_store_def split: if_splits prod.splits)
  then show ?thesis
    by (auto simp: addOrUpdateByLocator_def then_eff_def bind_eff_InrD index_appointment_def Let_def split: if_splits)
qed

lemma addAppointment_refused:
  assumes "parse (bignumber cfg) obj = Inr a" "a_mode a = EventTriggered"
    "map_of (mAppointmentsByLocator (tower_store t)) (locator a) = Some b" "a_nonce a \<le> a_nonce b"
  shows "snd (addAppointment cfg c env db_ok obj t) = t \<and> isl (fst (addAppointment cfg c env db_ok obj t))"
  using assms
  by (auto simp: addAppointment_def add_to_store_def bind_eff_def lift_result_def throw_eff_def Relay_def EventTriggered_def
      split: sum.splits)

lemma addAppointment_unparsed:
  "parse (bignumber cfg) obj = Inl e \<Longrightarrow>
     snd (addAppointment cfg c env db_ok obj t) = t \<and> isl (fst (addAppointment cfg c env db_ok obj t))"
  by (simp add: addAppointment_def bind_eff_def lift_result_def throw_eff_def)

text \<open>A callback on a taken job throws and changes nothing; one that returns has taken the job.\<close>

lemma daemon_calls_taken:
  assumes "daemon_calls cfg d bp s r s'"
  shows "job_taken d s \<Longrightarrow> isl r \<and> s' = s" and "r = Inr () \<Longrightarrow> job_taken d s'"
proof -
  from assms obtain text_of and c :: "(unit IBlockStub_ext, unit) BlockCache" and env db_ok n
    where run: "daemon_callback d text_of (endpoint cfg c env db_ok) n bp s = (r, s')" by cases
  show "isl r \<and> s' = s" if taken: "job_taken d s"
  proof (cases "daemon_request d n bp")
    case (Inl e)
    with run show ?thesis by (auto simp: daemon_callback_def bind_eff_def lift_result_def)
  next
    case (Inr req)
    let ?add = "addAppointment cfg c env db_ok (request_json req) (pisaTower s)"
    from taken obtain b where b: "map_of (mAppointmentsByLocator (tower_store (pisaTower s))) (daemon_address d @ ''|'' @ daemon_job) = Some b"
      "0 \<le> a_nonce b" by (auto simp: job_taken_def)
    note R = daemon_request_InrD [OF Inr]
    have add: "snd ?add = pisaTower s \<and> isl (fst ?add)"
    proof (cases "parse (bignumber cfg) (request_json req)")
      case (Inl e)
      then show ?thesis by (rule addAppointment_unparsed)
    next
      case (Inr a)
      note P = parsed_request [OF Inr]
      show ?thesis by (rule addAppointment_refused [OF Inr]) (use P R b in \<open>simp_all add: EventTriggered_def\<close>)
    qed
    obtain r1 s1 where ex: "executeRequest (daemon_ethers d) (daemon_pisaContract d) text_of (endpoint cfg c env db_ok) req s = (r1, s1)"
      by fastforce
    then have "s1 = s \<and> isl r1" by (rule executeRequest_endpoint) (use add in auto)
    with run Inr ex show ?thesis by (auto simp: daemon_callback_def bind_eff_def lift_result_def split: sum.splits)
  qed
  show "job_taken d s'" if "r = Inr ()"
  proof -
    from run that obtain req receipt where req: "daemon_request d n bp = Inr req"
      and ex: "executeRequest (daemon_ethers d) (daemon_pisaContract d) text_of (endpoint cfg c env db_ok) req s = (Inr receipt, s')"
      by (auto simp: daemon_callback_def bind_eff_InrD return_eff_def)
    note R = daemon_request_InrD [OF req]
    obtain t where add: "addAppointment cfg c env db_ok (request_json req) (pisaTower s) = t" "s' = s\<lparr>pisaTower := snd t\<rparr>"
      "\<not> isl (fst t)" using ex by (rule executeRequest_endpoint) auto
    then obtain signed t' where t: "t = (Inr signed, t')" by (cases t; cases "fst t") auto
    with add(1,3) addAppointment_unparsed [where cfg = cfg and obj = "request_json req"]
    obtain a where a: "parse (bignumber cfg) (request_json req) = Inr a" by (metis sum.exhaust)
    note P = parsed_request [OF a]
    from addAppointment_stored [OF add(1) [unfolded t] a] P R add(2) t show ?thesis
      by (simp add: job_taken_def EventTriggered_def)
  qed
qed

section \<open>Properties\<close>

text \<open>At most one proof is accepted, and if one is, the job is taken.\<close>

definition one_proof :: "Daemon \<Rightarrow> PisaService SqliteListener \<Rightarrow> bool" where
  "one_proof d l \<longleftrightarrow> delivered l = [] \<or> length (delivered l) = 1 \<and> job_taken d (peer l)"

lemma one_proof_step:
  assumes "one_proof d l" "listener_step (daemon_calls cfg d) (keeps_job d) l l'"
  shows "one_proof d l'"
  using assms(2,1)
proof cases
  case (callback i x xs outcome s)
  note T = daemon_calls_taken [OF callback(4)]
  show ?thesis
  proof (cases outcome)
    case (Inl e)
    then show ?thesis using T(1) assms(1) callback(1)
      by (auto simp: one_proof_def callback_done_def end_tick_def)
  next
    case (Inr u)
    then have "\<not> job_taken d (peer l)" "job_taken d s" using T by auto
    then show ?thesis using assms(1) callback(1) Inr by (auto simp: one_proof_def callback_done_def)
  qed
qed (auto simp: one_proof_def keeps_job_def start_listener_def query_tick_def end_tick_def Let_def split: option.splits sum.splits)

interpretation daemon_run: step_invariant "listener_step (daemon_calls cfg d) (keeps_job d)" "one_proof d"
  for cfg d by unfold_locales (rule one_proof_step)

text \<open>C37: The daemon gets one balance proof accepted: it asks for every proof under one job with the nonce 0, so
  as long as the appointment of the first accepted proof stays with the tower, every later callback throws,
  whatever else happens to the tower, and \<open>lastRowId\<close> never passes the next proof.  The appointment the tower
  keeps is the one of the oldest proof.\<close>

theorem one_proof_accepted:
  assumes "(listener_step (daemon_calls cfg d) (keeps_job d))\<^sup>*\<^sup>*
      (new_SqliteListener startingRowId rows s) l"
  shows "length (delivered l) \<le> 1 \<and>
    (delivered l \<noteq> [] \<longrightarrow> daemon_calls cfg d bp (peer l) r s' \<longrightarrow> isl r \<and> s' = peer l)"
proof -
  have "one_proof d (new_SqliteListener startingRowId rows s)" by (simp add: one_proof_def new_SqliteListener_def)
  from daemon_run.reach_inv [OF assms this] show ?thesis
    using daemon_calls_taken(1) [of cfg d bp "peer l" r s'] by (auto simp: one_proof_def)
qed

text \<open>A daemon that has a proof accepted.\<close>

definition ex_daemon :: Daemon where
  "ex_daemon = \<lparr>daemon_ethers = ex_client_ethers, solidityPack = (\<lambda>ts as. Inr ''0x''),
     encodeTopics_ChannelClosed = (\<lambda>as. Inr [zero_topic]), encode_updateNonClosingBalanceProof = (\<lambda>as. Inr ''0x''),
     daemon_signMessage = (\<lambda>h. Inr ''0xa''), daemon_address = ''0xa'', daemon_pisaContract = ''0xp''\<rparr>"

definition ex_accepting :: "PisaService" where
  "ex_accepting = snd (daemon_callback ex_daemon (\<lambda>r. []) (endpoint ex_client_config ex_head ex_empty_env True) (Inr 5)
     (balance_proof ex_record) (ex_service 13))"

lemma ex_first_accepted:
  "daemon_callback ex_daemon (\<lambda>r. []) (endpoint ex_client_config ex_head ex_empty_env True) (Inr 5)
     (balance_proof ex_record) (ex_service 13) = (Inr (), ex_accepting)"
proof -
  have "fst (daemon_callback ex_daemon (\<lambda>r. []) (endpoint ex_client_config ex_head ex_empty_env True) (Inr 5)
     (balance_proof ex_record) (ex_service 13)) = Inr ()" by code_simp
  then show ?thesis by (simp add: ex_accepting_def prod_eq_iff)
qed

text \<open>The same proof, read by a second tick, is refused.\<close>

theorem one_proof_accepted_witness:
  "\<exists>l. (listener_step (daemon_calls ex_client_config ex_daemon) (keeps_job ex_daemon))\<^sup>*\<^sup>*
       (new_SqliteListener (Some 0) [ex_row 4] (ex_service 13)) l \<and>
     length (delivered l) = 1 \<and>
     isl (fst (daemon_callback ex_daemon (\<lambda>r. []) (endpoint ex_client_config ex_head ex_empty_env True) (Inr 5)
       (balance_proof ex_record) (peer l)))"
proof -
  let ?step = "listener_step (daemon_calls ex_client_config ex_daemon) (keeps_job ex_daemon)"
  let ?l = "callback_done 0 ex_record [] (Inr ()) ex_accepting (ex_listening (ex_service 13))"
  let ?again = "daemon_callback ex_daemon (\<lambda>r. []) (endpoint ex_client_config ex_head ex_empty_env True) (Inr 5)
       (balance_proof ex_record) ex_accepting"
  have p: "peer (ex_listening (ex_service 13)) = ex_service 13" "delivered (ex_listening (ex_service 13)) = []"
    by (simp_all add: ex_listening_def start_listener_def new_SqliteListener_def)
  have "daemon_calls ex_client_config ex_daemon (balance_proof ex_record) (ex_service 13) (Inr ()) ex_accepting"
    by (rule daemon_calls.call [OF ex_first_accepted])
  then have "?step (ex_listening (ex_service 13)) ?l"
    by (intro listener_step.callback) (simp_all add: p(1), simp_all add: ex_listening_def)
  with ex_listening_reached have run: "?step\<^sup>*\<^sup>* (new_SqliteListener (Some 0) [ex_row 4] (ex_service 13)) ?l"
    by (rule rtranclp.rtrancl_into_rtrancl)
  have l: "delivered ?l = [ex_record]" "peer ?l = ex_accepting" by (simp_all add: callback_done_def p(2))
  have "daemon_calls ex_client_config ex_daemon (balance_proof ex_record) ex_accepting (fst ?again) (snd ?again)"
    by (rule daemon_calls.call [OF prod.collapse [symmetric]])
  with one_proof_accepted [OF run, of "balance_proof ex_record" "fst ?again" "snd ?again"] l have "isl (fst ?again)" by simp
  with run l show ?thesis by (intro exI [of _ ?l]) simp
qed

end
