(* ===== verification/Spec2Isabelle.thy ===== *)
theory Spec2Isabelle
  imports ResponderChain Locks Tower GasPriceEstimator ServiceResponses Restarts StartUp RaidenDaemon
begin

text \<open>
  A model of PISA, an accountability service that watches the Ethereum chain on behalf of its customers
  and sends a transaction for them when an event is, or is not, seen; of its client, and of the Raiden
  daemon that hires it.

  \<^bold>\<open>How the program works, and which theory models which part.\<close>

  \<^item> A customer makes a request with the client (client/index.ts: \<open>Client\<close>).  The service (src/src/service.ts:
    \<open>Service\<close>; src/src/startUp.ts and logger.ts: \<open>StartUp\<close>; dataEntities/config.ts: \<open>Config\<close>;
    dataEntities/startStop.ts: \<open>StartStop\<close>) hands its body to the tower (src/src/tower.ts: \<open>Tower\<close>), which parses
    and validates it (dataEntities/appointment.ts and the schema: \<open>Appointment\<close>), puts it into the store of
    appointments (watcher/store.ts and utils/mapSet.ts: \<open>AppointmentStore\<close>, \<open>MapOfSets\<close>) or, for a relay, calls
    the responder at once, and returns it signed.
  \<^item> The block processor (blockMonitor/blockProcessor.ts and utils/event.ts: \<open>BlockProcessor\<close>,
    \<open>BlockProcessorRuns\<close>, \<open>BlockProcessorProps\<close>) fetches the blocks the provider announces and adds them to the
    block cache (blockMonitor/blockCache.ts: \<open>BlockCache\<close>, \<open>BlockCacheInv\<close>, \<open>BlockCacheQueries\<close>, \<open>BlockCacheRuns\<close>,
    \<open>BlockCacheProps\<close>), which keeps them in a store of items per block (dataEntities/block.ts: \<open>BlockItemStore\<close>,
    \<open>EventLogs\<close>) and tells the blockchain machine of every attached block.
  \<^item> The machine (blockMonitor/blockchainMachine.ts: \<open>BlockchainMachine\<close>, \<open>MachineRuns\<close>, \<open>MachineProps\<close>) reduces the
    anchor states of its components (blockMonitor/component.ts: \<open>Components\<close>) block by block and, at a new head,
    stores the actions they want (blockMonitor/actionStore.ts: \<open>ActionStore\<close>) and runs them.  \<open>CacheSteps\<close> takes the
    operations of processor, cache and machine apart into small steps, and \<open>ChainStates\<close> shows what these keep of
    the anchor states.
  \<^item> The components are the watcher (watcher/watcher.ts: \<open>Watcher\<close>, \<open>WatcherProps\<close>, \<open>WatcherRuns\<close>), which looks for the
    events of the appointments, and the responder component (responder/component.ts: \<open>ResponderComponent\<close>,
    \<open>ResponderComponentProps\<close>), which looks for the transactions that were sent; \<open>ResponderChain\<close> has it with the
    responder it calls, \<open>EndToEnd\<close> has the two on one machine, \<open>ServiceRuns\<close> and \<open>ServiceResponses\<close> have that
    machine in a run of the block processor, with appointments and responses that change from step to step, and
    \<open>Restarts\<close> has it through crashes, with the actions that are read back from the database.
  \<^item> Their actions call the responder (responder/multiResponder.ts: \<open>MultiResponder\<close>, \<open>ResponderRuns\<close>,
    \<open>ResponderProps\<close>), which asks the estimator for a price (responder/gasPriceEstimator.ts:
    \<open>GasPriceEstimator\<close>), keeps its transactions in a queue by nonce and price (responder/gasQueue.ts: \<open>GasQueue\<close>,
    \<open>GasQueueRuns\<close>, \<open>GasQueueJson\<close>) and in the database (responder/store.ts: \<open>ResponderStore\<close>), and hands what changed
    to the node.
  \<^item> utils/lock.ts is \<open>Locks\<close>; dataEntities/errors.ts and what the components use of the language are in \<open>Prelude\<close>.
  \<^item> The Raiden daemon (raiden_demo/raiden-pisa-daemon/src: \<open>RaidenListener\<close>, \<open>RaidenDaemon\<close>) polls the database of
    a Raiden node and asks the tower, through the client, to answer for every balance proof.

  \<^bold>\<open>How the code is modelled.\<close>  A class is a record of its fields, a method a function of the same name (with a
  suffix where names clash) from the object and the arguments to the object and the result.  A thrown error is
  the left side of a sum (\<open>'a result\<close>), or comes with the state it left behind (\<open>('s, 'a) eff\<close>); a run that may not end is an
  \<open>option\<close> (\<open>run\<close>), where \<open>None\<close> is a loop that does not return.  A \<open>Map\<close> is an association list in the order of
  insertion.  A database is an association list too, and whether a write succeeds is an argument.  Calls that
  interleave at their \<open>await\<close>s are step relations (\<open>lock_step\<close>, \<open>lifecycle_step\<close>, \<open>machine_step\<close>, \<open>block_call_step\<close>,
  \<open>processor_step\<close>, \<open>service_process\<close>, \<open>crash_step\<close>, \<open>chain_step\<close>, \<open>listener_step\<close>); a handler that runs under a lock is one step of them.  Node, provider, wallets, hashing, the ABI
  and BigNumber codecs, \<open>yargs\<close>, \<open>uuid\<close> and \<open>fetch\<close> are arguments; what is assumed of them is a named predicate
  (\<open>codec_ok\<close>, \<open>abi_numbers\<close>, \<open>signs_as\<close>, \<open>signers_clean\<close>, \<open>yargs_ok\<close>, \<open>estimate_ok\<close>) with an instance in the witness of every
  property that uses it.

  \<^bold>\<open>The contracts between the components\<close> are locales: \<open>object_contract\<close> (an object whose methods keep an invariant, for
  the queue, the stores and the responder), \<open>monotone_object\<close> (with a relation that grows, for the reuse of
  nonces), \<open>step_invariant\<close> (for the step relations), \<open>refined_object\<close> (an object that answers like an abstract one, for
  the map of sets and the store of appointments), and \<open>new_block_listener\<close> (what the cache relies on when it calls the
  machine).  Each is interpreted on the definitions of the model in the theory of its provider.

  \<^bold>\<open>What is shown.\<close>

  \<^item> Queue and responder: the invariant of the queue and the outcome of every operation on every branch, that a
    nonce is reused only for a higher price, that memory and database agree through all handlers and a
    restart, and that a reorganisation is undone, except for a transaction mined out of order.  When the callers keep
    the contract \<open>responder_call_ok\<close> every queued transaction is on record; \<open>same_id_off_record\<close> shows what two relay
    requests with one id do to it.  On chains of heads that report mined transactions in the order of their nonces
    and do not return to an abandoned fork, the queue has exactly what is not mined on them (\<open>action_in_order\<close> says
    what is asked of an action).  Each of the two conditions is needed: a transaction mined out of the order of
    the records, and a head that returns to an abandoned fork, leave a mined transaction at the front, where it
    blocks the queue until a later reorganisation drops the transactions mined last (\<open>later_call\<close>).
  \<^item> Blocks: no added block is lost, the cache stays in its window, adding blocks ends and attaches what can be
    attached, as long as the reducers return; a batch is a checkpoint; a block is announced before it is a head; a gap of at most \<open>maxDepth\<close> heights
    is closed within two steps per height and five more, a larger one never.
  \<^item> Machine and components: states are reduced from parent to child, actions are applied at least once or still
    in the database, the watcher starts a response once, the state of a response is the one of the chain, one
    appointment can stop the chain.
  \<^item> Runs of the service.  A step of \<open>service_process\<close> is a step of the block processor with the appointments and the
    responses of that moment, or the end of an action; between two steps they may change in any way.  What is asked of
    every step is \<open>watches\<close> (the blocks are linked, the indexes of the store agree, and no log makes a filter
    throw), that the ids of responses are distinct and that those of actions are new; restarts are no steps of it.  In such a run
    every attached block has states of watcher and responder, which follow the chain for what is there throughout when
    parents are announced first; and an event that becomes deep enough becomes a transaction in the queue, if
    every appointment in the state is still in the store, the database takes the action and the response can be
    enqueued.  But a block that is attached before its parent keeps a state without it, and an event in the parent
    is overlooked.  Through crashes (\<open>crash_step\<close>) an action to start a response that is read back never does.
  \<^item> Appointments and requests: the store refines a map from locators, an accepted appointment is well typed,
    valid and signed, client and tower agree on a request, and a request yields a receipt or an error with the
    public message; what is not answered with success is logged as an error.
  \<^item> Around them: locks exclude each other and are fair, a failed start is final, a configuration survives its
    command line but for what is falsy, the estimator on every branch, and the two sides of the daemon: its
    listener skips no proof, and for that very reason it gets no further than the first.

  \<^bold>\<open>Bounds.\<close>  Block numbers, nonces, prices and counters are unbounded integers: the code keeps prices as BigNumber and
  the others as numbers that the schema bounds by \<open>max_safe_integer\<close> (2 to the 53, minus 1).  The curve of the
  estimator is one of reals, with the rounding and the functions of \<open>Math\<close> as arguments.  No fuel is used: the loops over
  the cache are partial functions, and that they return is proved in every state that is reached.

  \<^bold>\<open>Not modelled.\<close>

  \<^item> The text of JSON.  What the stores of blocks and of actions give back of a stored value is a parameter, \<open>reread\<close>: JSON loses
    the \<open>Map\<close> of an anchor state and the methods of an appointment.  What is claimed after a restart holds for every
    \<open>reread\<close>, and \<open>Restarts\<close> has it for the actions of the service.  A restart of the cache on a filled store is not
    claimed to work.  The stores of appointments and of the responder have their JSON forms modelled
    (\<open>IAppointment\<close>, \<open>GasQueueJson\<close>).  Requests and answers are the values themselves.
  \<^item> Interleavings inside a handler that holds a lock, and the write of a batch while another is made.  \<open>removeById\<close>
    is modelled in the three parts between which it can be interrupted; the store runs them one after the other.
  \<^item> Express, its routing and middleware, the pages of the documentation, bunyan, the polling of the provider, the
    handlers of signals, and the stop of the stores and the server.
  \<^item> utils/index.ts (promises with a timer or a canceller, which only the tests use), the scripts of the demo that
    mine and mint, the browser extension, and the contracts and their migrations, which are Solidity and
    JavaScript for another machine.
\<close>

end
